(* ===== verification/Prelude.thy ===== *)
theory Prelude
  imports Main "HOL-Library.Word" "HOL-Library.Multiset"
begin

text \<open>
  Shared vocabulary of the development: machine integer types, the outcomes a C++ call can have
  (a value, a thrown exception, or a step the language leaves undefined), the state-passing
  combinators the components are written with, and generic lemmas on lists and words that the
  component theories use through the collections declared here.
\<close>

unbundle bit_operations_syntax

section \<open>Machine integers\<close>

type_synonym u8 = "8 word"
type_synonym u16 = "16 word"
type_synonym u32 = "32 word"
type_synonym u64 = "64 word"
type_synonym byte = "8 word"
type_synonym bytes = "8 word list"

section \<open>Outcomes\<close>

text \<open>
  \<open>OutOfRange\<close>, \<open>LogicError\<close>, \<open>InvalidArgument\<close> and \<open>BadAlloc\<close> are the C++ exceptions
  \<^verbatim>\<open>std::out_of_range\<close>, \<^verbatim>\<open>std::logic_error\<close>, \<^verbatim>\<open>std::invalid_argument\<close> and \<^verbatim>\<open>std::bad_alloc\<close>; they
  leave the object in the state it had when they were thrown. \<open>NullDeref\<close>, \<open>BadIndex\<close>,
  \<open>DivByZero\<close> and \<open>Undefined\<close> mark a step with undefined behaviour (a null pointer followed, an access outside an
  allocation, a division by zero, other undefined behaviour), and \<open>AssertFail\<close> a failed
  \<^verbatim>\<open>SYLAR_ASSERT\<close>, which aborts.
\<close>

datatype failure = OutOfRange | LogicError | InvalidArgument
  | NullDeref | BadIndex | DivByZero | AssertFail | Undefined | BadAlloc

type_synonym ('s, 'a) action = "'s \<Rightarrow> (failure + 'a) \<times> 's"

definition returnE :: "'a \<Rightarrow> ('s, 'a) action" where
  "returnE a s = (Inr a, s)"

definition throwE :: "failure \<Rightarrow> ('s, 'a) action" where
  "throwE e s = (Inl e, s)"

definition bindE :: "('s, 'a) action \<Rightarrow> ('a \<Rightarrow> ('s, 'b) action) \<Rightarrow> ('s, 'b) action" where
  "bindE m f s = (case m s of (Inl e, s') \<Rightarrow> (Inl e, s') | (Inr a, s') \<Rightarrow> f a s')"

named_theorems action_simps "unfolding of the state-passing combinators"

lemma returnE_app [action_simps]: "returnE a s = (Inr a, s)"
  by (simp add: returnE_def)

lemma throwE_app [action_simps]: "throwE e s = (Inl e, s)"
  by (simp add: throwE_def)

lemma bindE_Inr [action_simps]: "m s = (Inr a, s') \<Longrightarrow> bindE m f s = f a s'"
  by (simp add: bindE_def)

lemma bindE_Inl [action_simps]: "m s = (Inl e, s') \<Longrightarrow> bindE m f s = (Inl e, s')"
  by (simp add: bindE_def)

section \<open>Overwriting a segment of a list\<close>

text \<open>\<open>store p bs xs\<close> is what \<^verbatim>\<open>memcpy(xs + p, bs, size)\<close> makes of the block \<open>xs\<close>.\<close>

definition store :: "nat \<Rightarrow> 'a list \<Rightarrow> 'a list \<Rightarrow> 'a list" where
  "store p bs xs = take p xs @ bs @ drop (p + length bs) xs"

named_theorems list_chunks "lemmas on segments and on lists of equally long blocks"

lemma length_store [simp]: "p + length bs \<le> length xs \<Longrightarrow> length (store p bs xs) = length xs"
  by (simp add: store_def)

lemma store_Nil [simp]: "store p [] xs = xs"
  by (simp add: store_def)

lemma store_append:
  assumes "p + length as + length bs \<le> length xs"
  shows "store (p + length as) bs (store p as xs) = store p (as @ bs) xs"
  using assms by (simp add: store_def algebra_simps)

lemma take_drop_store [simp]:
  "p + length bs \<le> length xs \<Longrightarrow> take (length bs) (drop p (store p bs xs)) = bs"
  by (simp add: store_def)

lemma take_store: "p \<le> length xs \<Longrightarrow> k \<le> p \<Longrightarrow> take k (store p bs xs) = take k xs"
  by (simp add: store_def min_def)

lemma drop_store:
  "p + length bs \<le> length xs \<Longrightarrow> p + length bs \<le> k \<Longrightarrow> drop k (store p bs xs) = drop k xs"
  by (simp add: store_def)

text \<open>A cut-off list behaves like a file: writing past its end extends it.\<close>

lemma take_store_extend:
  assumes "p \<le> s" "s \<le> length xs" "p + length bs \<le> length xs"
  shows "take (if s < p + length bs then p + length bs else s) (store p bs xs) =
         store p bs (take s xs)"
  using assms by (auto simp: store_def min_def drop_take not_less)

section \<open>Lists of equally long blocks\<close>

definition uniform :: "nat \<Rightarrow> 'a list list \<Rightarrow> bool" where
  "uniform b ns = list_all (\<lambda>n. length n = b) ns"

lemma uniform_Nil [simp]: "uniform b []"
  by (simp add: uniform_def)

lemma uniform_Cons [simp]: "uniform b (n # ns) = (length n = b \<and> uniform b ns)"
  by (simp add: uniform_def)

lemma uniform_append [simp]: "uniform b (ms @ ns) = (uniform b ms \<and> uniform b ns)"
  by (simp add: uniform_def)

lemma uniform_replicate [simp]: "length n = b \<Longrightarrow> uniform b (replicate k n)"
  by (simp add: uniform_def list_all_iff)

lemma uniform_nth [list_chunks]: "uniform b ns \<Longrightarrow> i < length ns \<Longrightarrow> length (ns ! i) = b"
  by (simp add: uniform_def list_all_length)

lemma uniform_update [list_chunks]: "uniform b ns \<Longrightarrow> length x = b \<Longrightarrow> uniform b (ns[i := x])"
  by (auto simp: uniform_def list_all_iff dest!: set_update_subset_insert [THEN subsetD])

lemma uniform_take [list_chunks]: "uniform b ns \<Longrightarrow> uniform b (take i ns)"
  by (auto simp: uniform_def list_all_iff dest: in_set_takeD)

lemma length_concat_uniform [list_chunks]: "uniform b ns \<Longrightarrow> length (concat ns) = b * length ns"
  by (induction ns) auto

lemma concat_split_at:
  "i < length ns \<Longrightarrow> concat ns = concat (take i ns) @ ns ! i @ concat (drop (Suc i) ns)"
  by (metis append.assoc concat.simps(2) concat_append id_take_nth_drop)

lemma concat_update_at:
  "i < length ns \<Longrightarrow> concat (ns[i := x]) = concat (take i ns) @ x @ concat (drop (Suc i) ns)"
  by (simp add: upd_conv_take_nth_drop)

text \<open>Overwriting inside one block overwrites the concatenation at the block's offset.\<close>

lemma concat_store_block:
  assumes u: "uniform b ns" and i: "i < length ns" and fits: "o' + length bs \<le> b"
  shows "concat (ns[i := store o' bs (ns ! i)]) = store (b * i + o') bs (concat ns)"
proof -
  have len: "length (concat (take i ns)) = b * i"
    using length_concat_uniform [OF uniform_take [OF u, of i]] i by simp
  have blk: "length (ns ! i) = b" using u i by (rule uniform_nth)
  show ?thesis
    using fits blk
    by (simp add: concat_update_at [OF i] concat_split_at [OF i] store_def len)
qed

lemma concat_read_block:
  assumes u: "uniform b ns" and i: "i < length ns" and fits: "o' + k \<le> b"
  shows "take k (drop o' (ns ! i)) = take k (drop (b * i + o') (concat ns))"
proof -
  have len: "length (concat (take i ns)) = b * i"
    using length_concat_uniform [OF uniform_take [OF u, of i]] i by simp
  have blk: "length (ns ! i) = b" using u i by (rule uniform_nth)
  show ?thesis
    using fits blk by (simp add: concat_split_at [OF i] len)
qed

end
