(* ===== verification/Endian.thy ===== *)
theory Endian
  imports Prelude
begin

text \<open>
  \<^verbatim>\<open>sylar/endian.h\<close>: byte order conversion. The layout of an integer in memory is made explicit:
  \<open>mem host n w\<close> is the list of the \<open>n\<close> bytes that \<^verbatim>\<open>memcpy\<close> reads from an object holding
  \<open>w\<close> on a machine of byte order \<open>host\<close> (the macro \<^verbatim>\<open>SYLAR_BYTE_ORDER\<close>), and
  \<open>of_mem\<close> is the value of an object whose bytes were written by \<^verbatim>\<open>memcpy\<close>.
\<close>

section \<open>Integers in memory\<close>

datatype byte_order = SYLAR_LITTLE_ENDIAN | SYLAR_BIG_ENDIAN

definition le_bytes :: "nat \<Rightarrow> 'a::len word \<Rightarrow> bytes" where
  "le_bytes n w = map (\<lambda>i. ucast (drop_bit (8 * i) w)) [0..<n]"

primrec of_le_bytes :: "bytes \<Rightarrow> 'a::len word" where
  "of_le_bytes [] = 0"
| "of_le_bytes (b # bs) = ucast b OR push_bit 8 (of_le_bytes bs)"

definition mem :: "byte_order \<Rightarrow> nat \<Rightarrow> 'a::len word \<Rightarrow> bytes" where
  "mem host n w = (case host of SYLAR_LITTLE_ENDIAN \<Rightarrow> le_bytes n w
                              | SYLAR_BIG_ENDIAN \<Rightarrow> rev (le_bytes n w))"

definition of_mem :: "byte_order \<Rightarrow> bytes \<Rightarrow> 'a::len word" where
  "of_mem host bs = (case host of SYLAR_LITTLE_ENDIAN \<Rightarrow> of_le_bytes bs
                                | SYLAR_BIG_ENDIAN \<Rightarrow> of_le_bytes (rev bs))"

section \<open>byteswap\<close>

text \<open>
  \<^verbatim>\<open>bswap_16\<close>, \<^verbatim>\<open>bswap_32\<close> and \<^verbatim>\<open>bswap_64\<close> of \<^verbatim>\<open><byteswap.h>\<close> reverse the bytes of
  their argument; the three \<^verbatim>\<open>byteswap\<close> templates select one of them by \<^verbatim>\<open>sizeof(T)\<close>. Signed
  and unsigned values of one width share their representation, so one definition serves both.
\<close>

definition bswap :: "nat \<Rightarrow> 'a::len word \<Rightarrow> 'a word" where
  "bswap n w = of_le_bytes (rev (le_bytes n w))"

definition byteswap64 :: "u64 \<Rightarrow> u64" where
  "byteswap64 value = bswap 8 value"

definition byteswap32 :: "u32 \<Rightarrow> u32" where
  "byteswap32 value = bswap 4 value"

definition byteswap16 :: "u16 \<Rightarrow> u16" where
  "byteswap16 value = bswap 2 value"

definition byteswapOnLittleEndian :: "byte_order \<Rightarrow> ('a \<Rightarrow> 'a) \<Rightarrow> 'a \<Rightarrow> 'a" where
  "byteswapOnLittleEndian host byteswap t =
     (case host of SYLAR_BIG_ENDIAN \<Rightarrow> t | SYLAR_LITTLE_ENDIAN \<Rightarrow> byteswap t)"

definition byteswapOnBigEndian :: "byte_order \<Rightarrow> ('a \<Rightarrow> 'a) \<Rightarrow> 'a \<Rightarrow> 'a" where
  "byteswapOnBigEndian host byteswap t =
     (case host of SYLAR_BIG_ENDIAN \<Rightarrow> byteswap t | SYLAR_LITTLE_ENDIAN \<Rightarrow> t)"

section \<open>Lemmas\<close>

lemma length_le_bytes [simp]: "length (le_bytes n w) = n"
  by (simp add: le_bytes_def)

lemma length_mem [simp]: "length (mem host n w) = n"
  by (simp add: mem_def split: byte_order.split)

lemma bit_of_le_bytes:
  "bit (of_le_bytes bs :: 'a::len word) k \<longleftrightarrow>
     k < LENGTH('a) \<and> k div 8 < length bs \<and> bit (bs ! (k div 8)) (k mod 8)"
proof (induction bs arbitrary: k)
  case Nil
  then show ?case by simp
next
  case (Cons b bs)
  show ?case
  proof (cases "k < 8")
    case True
    then show ?thesis by (auto simp: bit_simps dest: bit_imp_le_length)
  next
    case False
    then obtain j where k: "k = j + 8" by (metis add.commute le_Suc_ex not_less)
    have "\<not> bit b (j + 8)" by (auto dest: bit_imp_le_length)
    moreover have "(j + 8) div 8 = Suc (j div 8)" by simp
    ultimately show ?thesis using Cons [of j] by (auto simp: bit_simps k)
  qed
qed

lemma nth_le_bytes: "i < n \<Longrightarrow> le_bytes n w ! i = ucast (drop_bit (8 * i) w)"
  by (simp add: le_bytes_def)

lemma bit_nth_le_bytes:
  "i < n \<Longrightarrow> bit (le_bytes n w ! i) j \<longleftrightarrow> j < 8 \<and> bit w (8 * i + j)"
  by (auto simp: nth_le_bytes bit_simps ac_simps dest: bit_imp_le_length)

lemma of_le_bytes_le_bytes [simp]:
  assumes "LENGTH('a::len) = 8 * n"
  shows "of_le_bytes (le_bytes n (w :: 'a word)) = w"
proof (rule bit_word_eqI)
  fix k assume k: "k < LENGTH('a)"
  then have "k div 8 < n" using assms by simp
  then show "bit (of_le_bytes (le_bytes n w) :: 'a word) k \<longleftrightarrow> bit w k"
    using k by (simp add: bit_of_le_bytes bit_nth_le_bytes)
qed

lemma le_bytes_of_le_bytes [simp]:
  assumes "LENGTH('a::len) = 8 * n" and "length bs = n"
  shows "le_bytes n (of_le_bytes bs :: 'a word) = bs"
proof (rule nth_equalityI)
  show "length (le_bytes n (of_le_bytes bs :: 'a word)) = length bs" using assms by simp
next
  fix i assume "i < length (le_bytes n (of_le_bytes bs :: 'a word))"
  then have i: "i < n" by simp
  show "le_bytes n (of_le_bytes bs :: 'a word) ! i = bs ! i"
  proof (rule bit_word_eqI)
    fix j assume j: "j < LENGTH(8)"
    then have "8 * i + j < LENGTH('a)" using i assms by simp
    then show "bit (le_bytes n (of_le_bytes bs :: 'a word) ! i) j \<longleftrightarrow> bit (bs ! i) j"
      using i j assms by (simp add: bit_nth_le_bytes bit_of_le_bytes)
  qed
qed

lemma bswap_bswap:
  "LENGTH('a::len) = 8 * n \<Longrightarrow> bswap n (bswap n (w :: 'a word)) = w"
  by (simp add: bswap_def)

lemma le_bytes_bswap:
  "LENGTH('a::len) = 8 * n \<Longrightarrow> le_bytes n (bswap n (w :: 'a word)) = rev (le_bytes n w)"
  by (simp add: bswap_def)

lemma of_mem_mem [simp]:
  "LENGTH('a::len) = 8 * n \<Longrightarrow> of_mem host (mem host n (w :: 'a word)) = w"
  by (simp add: of_mem_def mem_def split: byte_order.split)

lemmas byteswap_defs = byteswap64_def byteswap32_def byteswap16_def

text \<open>The byte that carries the low eight bits moves to the other end of the memory image.\<close>

lemma mem_bswap:
  "LENGTH('a::len) = 8 * n \<Longrightarrow> mem host n (bswap n (w :: 'a word)) = rev (mem host n w)"
  by (simp add: mem_def le_bytes_bswap split: byte_order.split)

end
