(* ===== verification/ByteStream.thy ===== *)
theory ByteStream
  imports Prelude
begin

text \<open>
  The interface the serialisers rely on: a seekable stream of bytes. \<open>put\<close> overwrites at the
  cursor and extends the content, \<open>get n\<close> reads \<open>n\<close> bytes, \<open>seek\<close> moves the cursor inside the
  content. \<open>mode\<close> is a setting no transfer changes (the byte order of \<^verbatim>\<open>ByteArray\<close>), and
  \<open>room\<close> the allocated size: reading zero bytes is only promised while the cursor is inside the
  allocation.
\<close>

text \<open>
  Sequences of stream operations. \<open>stream_exec\<close> runs one on an implementation, \<open>flat_exec\<close> on
  the specification: a byte sequence and a cursor into it. Getting more bytes than there are is an
  error that changes nothing; the sequence goes on after it.
\<close>

datatype stream_op = Put bytes | Get nat | Seek nat

type_synonym 's executor = "stream_op \<Rightarrow> 's \<Rightarrow> (failure + bytes) \<times> 's"

fun stream_exec :: "(bytes \<Rightarrow> ('s, unit) action) \<Rightarrow> (nat \<Rightarrow> ('s, bytes) action) \<Rightarrow>
    (nat \<Rightarrow> ('s, unit) action) \<Rightarrow> 's executor" where
  "stream_exec put get seek (Put bs) s = bindE (put bs) (\<lambda>_. returnE []) s"
| "stream_exec put get seek (Get n) s = get n s"
| "stream_exec put get seek (Seek v) s = bindE (seek v) (\<lambda>_. returnE []) s"

fun flat_exec :: "(bytes \<times> nat) executor" where
  "flat_exec (Put bs) (xs, p) = (Inr [], store p bs xs, p + length bs)"
| "flat_exec (Get n) (xs, p) =
     (if length xs < p + n then (Inl OutOfRange, xs, p) else (Inr (take n (drop p xs)), xs, p + n))"
| "flat_exec (Seek v) (xs, p) = (Inr [], xs, v)"

primrec run_ops :: "'s executor \<Rightarrow> stream_op list \<Rightarrow> 's \<Rightarrow> (failure + bytes) list \<times> 's" where
  "run_ops f [] s = ([], s)"
| "run_ops f (a # as) s =
     (let (r, s') = f a s; (rs, s'') = run_ops f as s' in (r # rs, s''))"

text \<open>The sequences the contract covers: reads of at least one byte, seeks inside the content.\<close>

fun op_ok :: "stream_op \<Rightarrow> bytes \<times> nat \<Rightarrow> bool" where
  "op_ok (Put bs) _ = True"
| "op_ok (Get n) _ = (0 < n)"
| "op_ok (Seek v) (xs, p) = (v \<le> length xs)"

primrec ops_ok :: "stream_op list \<Rightarrow> bytes \<times> nat \<Rightarrow> bool" where
  "ops_ok [] _ = True"
| "ops_ok (a # as) xp = (op_ok a xp \<and> ops_ok as (snd (flat_exec a xp)))"

locale byte_stream =
  fixes put :: "bytes \<Rightarrow> ('s, unit) action"
    and get :: "nat \<Rightarrow> ('s, bytes) action"
    and seek :: "nat \<Rightarrow> ('s, unit) action"
    and inv :: "'s \<Rightarrow> bool"
    and content :: "'s \<Rightarrow> bytes"
    and pos :: "'s \<Rightarrow> nat"
    and room :: "'s \<Rightarrow> nat"
    and mode :: "'s \<Rightarrow> 'm"
  assumes pos_le: "inv s \<Longrightarrow> pos s \<le> length (content s)"
    and content_le: "inv s \<Longrightarrow> length (content s) \<le> room s"
    and put_law: "inv s \<Longrightarrow>
      \<exists>s'. put bs s = (Inr (), s') \<and> inv s' \<and> content s' = store (pos s) bs (content s) \<and>
           pos s' = pos s + length bs \<and> room s \<le> room s' \<and> mode s' = mode s"
    and get_law: "inv s \<Longrightarrow> pos s + n \<le> length (content s) \<Longrightarrow> 0 < n \<or> pos s < room s \<Longrightarrow>
      \<exists>s'. get n s = (Inr (take n (drop (pos s) (content s))), s') \<and> inv s' \<and>
           content s' = content s \<and> pos s' = pos s + n \<and> room s' = room s \<and> mode s' = mode s"
    and get_short: "inv s \<Longrightarrow> length (content s) < pos s + n \<Longrightarrow> get n s = (Inl OutOfRange, s)"
    and seek_law: "inv s \<Longrightarrow> v \<le> length (content s) \<Longrightarrow>
      \<exists>s'. seek v s = (Inr (), s') \<and> inv s' \<and> content s' = content s \<and> pos s' = v \<and>
           room s' = room s \<and> mode s' = mode s"
begin

text \<open>
  \<open>writes w bs m\<close>: in mode \<open>m\<close> the action \<open>w\<close> has the effect of putting \<open>bs\<close>.
  \<open>reads z m g bs a\<close>: in mode \<open>m\<close> and in front of the bytes \<open>bs\<close>, the action \<open>g\<close> consumes
  exactly \<open>bs\<close> and returns \<open>a\<close>; with the flag \<open>z\<close> only if \<open>bs\<close> does not end at the end of
  the allocation.
\<close>

definition writes :: "'m \<Rightarrow> ('s, unit) action \<Rightarrow> bytes \<Rightarrow> bool" where
  "writes m w bs \<longleftrightarrow> (\<forall>s. inv s \<and> mode s = m \<longrightarrow>
     (\<exists>s'. w s = (Inr (), s') \<and> inv s' \<and> content s' = store (pos s) bs (content s) \<and>
           pos s' = pos s + length bs \<and> room s \<le> room s' \<and> mode s' = m))"

definition reads :: "bool \<Rightarrow> 'm \<Rightarrow> ('s, 'a) action \<Rightarrow> bytes \<Rightarrow> 'a \<Rightarrow> bool" where
  "reads z m g bs a \<longleftrightarrow> (\<forall>s. inv s \<and> mode s = m \<and>
       pos s + length bs \<le> length (content s) \<and>
       take (length bs) (drop (pos s) (content s)) = bs \<and>
       (z \<longrightarrow> pos s + length bs < room s) \<longrightarrow>
     (\<exists>s'. g s = (Inr a, s') \<and> inv s' \<and> content s' = content s \<and>
           pos s' = pos s + length bs \<and> room s' = room s \<and> mode s' = m))"

lemma writesD:
  assumes "writes m w bs" "inv s" "mode s = m"
  obtains s' where "w s = (Inr (), s')" "inv s'" "content s' = store (pos s) bs (content s)"
    "pos s' = pos s + length bs" "room s \<le> room s'" "mode s' = m"
  using assms unfolding writes_def by blast

lemma readsD:
  assumes "reads z m g bs a" "inv s" "mode s = m" "pos s + length bs \<le> length (content s)"
    "take (length bs) (drop (pos s) (content s)) = bs" "z \<Longrightarrow> pos s + length bs < room s"
  obtains s' where "g s = (Inr a, s')" "inv s'" "content s' = content s"
    "pos s' = pos s + length bs" "room s' = room s" "mode s' = m"
  using assms unfolding reads_def by blast

lemma writes_put: "writes m (put bs) bs"
  using put_law by (fastforce simp: writes_def)

lemma store_store_append:
  assumes "p \<le> length xs"
  shows "store (p + length as) bs (store p as xs) = store p (as @ bs) xs"
  using assms by (simp add: store_def ac_simps)

lemma writes_bind:
  assumes w: "writes m w bs" and w': "writes m w' cs"
  shows "writes m (bindE w (\<lambda>_. w')) (bs @ cs)"
  unfolding writes_def
proof (intro allI impI, elim conjE)
  fix s assume s: "inv s" "mode s = m"
  obtain s1 where 1: "w s = (Inr (), s1)" "inv s1" "content s1 = store (pos s) bs (content s)"
      "pos s1 = pos s + length bs" "room s \<le> room s1" "mode s1 = m"
    using w s by (rule writesD)
  obtain s2 where 2: "w' s1 = (Inr (), s2)" "inv s2" "content s2 = store (pos s1) cs (content s1)"
      "pos s2 = pos s1 + length cs" "room s1 \<le> room s2" "mode s2 = m"
    using w' 1(2,6) by (rule writesD)
  have "content s2 = store (pos s) (bs @ cs) (content s)"
    using 1 2 pos_le [OF s(1)] by (simp add: store_store_append)
  then show "\<exists>s'. bindE w (\<lambda>_. w') s = (Inr (), s') \<and> inv s' \<and>
      content s' = store (pos s) (bs @ cs) (content s) \<and> pos s' = pos s + length (bs @ cs) \<and>
      room s \<le> room s' \<and> mode s' = m"
    using 1 2 by (intro exI [of _ s2]) (simp add: action_simps)
qed

lemma reads_return: "reads z m (returnE a) [] a"
  by (auto simp: reads_def action_simps)

lemma reads_get: "reads (bs = []) m (get (length bs)) bs bs"
  unfolding reads_def
proof (intro allI impI, elim conjE)
  fix s assume "inv s" "mode s = m" "pos s + length bs \<le> length (content s)"
    "take (length bs) (drop (pos s) (content s)) = bs" "bs = [] \<longrightarrow> pos s + length bs < room s"
  then show "\<exists>s'. get (length bs) s = (Inr bs, s') \<and> inv s' \<and> content s' = content s \<and>
      pos s' = pos s + length bs \<and> room s' = room s \<and> mode s' = m"
    using get_law [of s "length bs"] by fastforce
qed

lemma reads_weaken: "reads z m g bs a \<Longrightarrow> (z \<Longrightarrow> z') \<Longrightarrow> reads z' m g bs a"
  by (auto simp: reads_def)

text \<open>If something follows, what comes first may end at the end of the allocation.\<close>

lemma reads_bind_room:
  assumes g: "reads z m g bs a" and f: "reads z' m (f a) cs b"
  shows "reads (z \<and> cs = [] \<or> z') m (bindE g f) (bs @ cs) b"
  unfolding reads_def
proof (intro allI impI, elim conjE)
  fix s assume s: "inv s" "mode s = m" "pos s + length (bs @ cs) \<le> length (content s)"
    "take (length (bs @ cs)) (drop (pos s) (content s)) = bs @ cs"
    and z: "z \<and> cs = [] \<or> z' \<longrightarrow> pos s + length (bs @ cs) < room s"
  have split: "take (length bs) (drop (pos s) (content s)) = bs"
      "take (length cs) (drop (pos s + length bs) (content s)) = cs"
    using s(3,4) by (auto simp: take_add add.commute append_eq_append_conv)
  have room: "pos s + length bs < room s" if "cs \<noteq> []"
  proof -
    have "0 < length cs" using that by simp
    then show ?thesis using s(3) content_le [OF s(1)] by (simp only: length_append)
  qed
  obtain s1 where 1: "g s = (Inr a, s1)" "inv s1" "content s1 = content s"
      "pos s1 = pos s + length bs" "room s1 = room s" "mode s1 = m"
    by (rule readsD [OF g s(1,2) _ split(1)]) (use s(3) z room in auto)
  obtain s2 where 2: "f a s1 = (Inr b, s2)" "inv s2" "content s2 = content s1"
      "pos s2 = pos s1 + length cs" "room s2 = room s1" "mode s2 = m"
    by (rule readsD [OF f 1(2,6)]) (use s(3) z split(2) 1 in auto)
  show "\<exists>s'. bindE g f s = (Inr b, s') \<and> inv s' \<and> content s' = content s \<and>
      pos s' = pos s + length (bs @ cs) \<and> room s' = room s \<and> mode s' = m"
    using 1 2 by (intro exI [of _ s2]) (simp add: action_simps)
qed

lemma reads_bind:
  assumes g: "reads z m g bs a" and f: "reads z' m (f a) cs b"
  shows "reads (z \<or> z') m (bindE g f) (bs @ cs) b"
  using reads_bind_room [OF g, of z' f, OF f] by (rule reads_weaken) blast

lemma reads_bind_strict:
  assumes g: "reads z m g bs a" and f: "reads z' m (f a) cs b" and "cs \<noteq> []"
  shows "reads z' m (bindE g f) (bs @ cs) b"
  using reads_bind_room [OF g, of z' f, OF f] assms(3) by simp

lemma reads_map: "reads z m g bs a \<Longrightarrow> reads z m (bindE g (\<lambda>x. returnE (h x))) bs (h a)"
  using reads_bind [of z m g bs a False "\<lambda>x. returnE (h x)" "[]" "h a"]
  by (simp add: reads_return)

text \<open>An action that agrees with \<open>g\<close> wherever \<open>g\<close> succeeds, such as one that catches \<open>g\<close>'s errors.\<close>

lemma reads_refine:
  assumes "reads z m g bs a" "\<And>s x s'. g s = (Inr x, s') \<Longrightarrow> g' s = (Inr x, s')"
  shows "reads z m g' bs a"
  unfolding reads_def
proof (intro allI impI, elim conjE)
  fix s assume s: "inv s" "mode s = m" "pos s + length bs \<le> length (content s)"
    "take (length bs) (drop (pos s) (content s)) = bs" "z \<longrightarrow> pos s + length bs < room s"
  obtain s' where s': "g s = (Inr a, s')" "inv s'" "content s' = content s" "pos s' = pos s + length bs" "room s' = room s" "mode s' = m"
    by (rule readsD [OF assms(1) s(1-4)]) (use s(5) in blast)+
  then show "\<exists>s'. g' s = (Inr a, s') \<and> inv s' \<and> content s' = content s \<and> pos s' = pos s + length bs \<and> room s' = room s \<and> mode s' = m"
    using assms(2) by blast
qed

text \<open>What was written at the cursor is read back after seeking to where the write began.\<close>

lemma write_seek_read:
  assumes w: "writes m w bs" and g: "reads z m g bs a" and s: "inv s" "mode s = m"
    and z: "\<And>s'. w s = (Inr (), s') \<Longrightarrow> z \<Longrightarrow> pos s + length bs < room s'"
  shows "\<exists>s1 s2 s3. w s = (Inr (), s1) \<and> seek (pos s) s1 = (Inr (), s2) \<and> g s2 = (Inr a, s3) \<and>
           inv s3 \<and> content s3 = store (pos s) bs (content s) \<and> pos s3 = pos s + length bs"
proof -
  obtain s1 where 1: "w s = (Inr (), s1)" "inv s1" "content s1 = store (pos s) bs (content s)"
      "pos s1 = pos s + length bs" "room s \<le> room s1" "mode s1 = m"
    using w s by (rule writesD)
  have len: "pos s + length bs \<le> length (content s1)"
    using 1(3) pos_le [OF s(1)] by (simp add: store_def)
  obtain s2 where 2: "seek (pos s) s1 = (Inr (), s2)" "inv s2" "content s2 = content s1"
      "pos s2 = pos s" "room s2 = room s1" "mode s2 = m"
    using seek_law [OF 1(2), of "pos s"] len 1(6) by auto
  have again: "take (length bs) (drop (pos s) (content s1)) = bs"
    using 1(3) pos_le [OF s(1)] by (simp add: store_def)
  obtain s3 where "g s2 = (Inr a, s3)" "inv s3" "content s3 = content s2"
      "pos s3 = pos s2 + length bs" "room s3 = room s2" "mode s3 = m"
    by (rule readsD [OF g 2(2,6)]) (use 2 len again z [OF 1(1)] in auto)
  then show ?thesis using 1 2 by simp
qed

text \<open>Any run of operations is simulated by the flat sequence.\<close>

lemma exec_simulates:
  assumes "inv s" "op_ok a (content s, pos s)"
  shows "\<exists>s'. stream_exec put get seek a s = (fst (flat_exec a (content s, pos s)), s') \<and> inv s' \<and>
           (content s', pos s') = snd (flat_exec a (content s, pos s)) \<and> mode s' = mode s"
proof (cases a)
  case (Put bs)
  then show ?thesis using put_law [OF assms(1), of bs] by (auto simp: action_simps)
next
  case (Get n)
  show ?thesis
  proof (cases "length (content s) < pos s + n")
    case True
    then show ?thesis using Get get_short [OF assms(1)] assms(1) by simp
  next
    case False
    then show ?thesis using Get get_law [OF assms(1), of n] assms(2) by auto
  qed
next
  case (Seek v)
  then show ?thesis using seek_law [OF assms(1), of v] assms(2) by (auto simp: action_simps)
qed

lemma run_simulates:
  assumes "inv s" "ops_ok as (content s, pos s)"
  shows "\<exists>s'. run_ops (stream_exec put get seek) as s =
                (fst (run_ops flat_exec as (content s, pos s)), s') \<and> inv s' \<and>
           (content s', pos s') = snd (run_ops flat_exec as (content s, pos s)) \<and> mode s' = mode s"
  using assms
proof (induction as arbitrary: s)
  case Nil
  then show ?case by simp
next
  case (Cons a as)
  obtain s1 where 1: "stream_exec put get seek a s = (fst (flat_exec a (content s, pos s)), s1)" "inv s1"
      "snd (flat_exec a (content s, pos s)) = (content s1, pos s1)" "mode s1 = mode s"
    using exec_simulates [of s a] Cons.prems by auto
  then have "ops_ok as (content s1, pos s1)" using Cons.prems(2) by simp
  then show ?case using Cons.IH [OF 1(2)] 1 by (auto simp: Let_def split: prod.splits)
qed

end

end
