(* ===== verification/ByteArray.thy ===== *)
theory ByteArray
  imports Endian ByteStream
begin

text \<open>
  \<^verbatim>\<open>sylar/bytearray.h\<close> and \<^verbatim>\<open>sylar/bytearray.cc\<close>: the storage of \<^verbatim>\<open>ByteArray\<close>, a chain of
  memory blocks of \<^verbatim>\<open>m_baseSize\<close> bytes with a read/write position. The chain from
  \<^verbatim>\<open>m_root\<close> is the list of the blocks' contents; a \<^verbatim>\<open>Node*\<close> into the chain is an index, and
  the index one past the last block is the null pointer. The theory holds the operations that move
  bytes (write, read, seek, grow, file transfer, \<^verbatim>\<open>iovec\<close> views), the invariant they keep, and
  the refinement to a flat byte sequence with a cursor.
\<close>

section \<open>State\<close>

record bytearray =
  m_baseSize :: nat
  m_position :: nat
  m_capacity :: nat
  m_size :: nat
  m_endian :: byte_order
  m_nodes :: "bytes list"
  m_cur :: nat

text \<open>\<^verbatim>\<open>Node(s)\<close>: \<^verbatim>\<open>new char[s]\<close> leaves the bytes indeterminate; the model fixes them to 0, and
  every property below is about bytes that were written.\<close>

definition new_Node :: "nat \<Rightarrow> bytes" where
  "new_Node s = replicate s 0"

definition new_ByteArray :: "nat \<Rightarrow> bytearray" where
  "new_ByteArray base_size =
     \<lparr>m_baseSize = base_size, m_position = 0, m_capacity = base_size, m_size = 0,
      m_endian = SYLAR_BIG_ENDIAN, m_nodes = [new_Node base_size], m_cur = 0\<rparr>"

definition isLittleEndian :: "bytearray \<Rightarrow> bool" where
  "isLittleEndian ba = (m_endian ba = SYLAR_LITTLE_ENDIAN)"

definition setIsLittleEndian :: "bool \<Rightarrow> bytearray \<Rightarrow> bytearray" where
  "setIsLittleEndian val ba =
     (if val then ba\<lparr>m_endian := SYLAR_LITTLE_ENDIAN\<rparr> else ba\<lparr>m_endian := SYLAR_BIG_ENDIAN\<rparr>)"

definition getPosition :: "bytearray \<Rightarrow> nat" where
  "getPosition ba = m_position ba"

definition getBaseSize :: "bytearray \<Rightarrow> nat" where
  "getBaseSize ba = m_baseSize ba"

definition getReadSize :: "bytearray \<Rightarrow> nat" where
  "getReadSize ba = m_size ba - m_position ba"

definition getSize :: "bytearray \<Rightarrow> nat" where
  "getSize ba = m_size ba"

definition getCapacity :: "bytearray \<Rightarrow> nat" where
  "getCapacity ba = m_capacity ba - m_position ba"

section \<open>Operations\<close>

text \<open>\<^verbatim>\<open>clear\<close> frees every block but the root.\<close>

definition clear :: "bytearray \<Rightarrow> bytearray" where
  "clear ba = ba\<lparr>m_position := 0, m_size := 0, m_capacity := m_baseSize ba,
                 m_nodes := take 1 (m_nodes ba), m_cur := 0\<rparr>"

text \<open>
  \<^verbatim>\<open>addCapacity\<close> appends the missing blocks. The block count
  \<^verbatim>\<open>ceil(1.0 * size / m_baseSize)\<close> is computed in \<^verbatim>\<open>double\<close>; for sizes below \<open>2 ^ 53\<close> it
  is the exact rounded-up quotient, which is how it is written here.
\<close>

definition addCapacity :: "nat \<Rightarrow> bytearray \<Rightarrow> bytearray" where
  "addCapacity sz ba =
     (if sz = 0 then ba
      else let old_cap = getCapacity ba in
        if sz \<le> old_cap then ba
        else let need = sz - old_cap;
                 count = (need + m_baseSize ba - 1) div m_baseSize ba;
                 first = length (m_nodes ba);
                 ba' = ba\<lparr>m_nodes := m_nodes ba @ replicate count (new_Node (m_baseSize ba)),
                          m_capacity := m_capacity ba + count * m_baseSize ba\<rparr>
             in if old_cap = 0 then ba'\<lparr>m_cur := first\<rparr> else ba')"

text \<open>
  The copy loop of \<^verbatim>\<open>write\<close>: \<open>npos\<close> is the offset in the current block and \<open>buf\<close> what is
  left to copy. \<open>None\<close> is a null \<^verbatim>\<open>m_cur\<close> being followed.
\<close>

function write_loop :: "bytes list \<Rightarrow> nat \<Rightarrow> nat \<Rightarrow> bytes \<Rightarrow> (bytes list \<times> nat) option" where
  "write_loop ns cur npos buf =
     (if buf = [] then Some (ns, cur)
      else if length ns \<le> cur then None
      else let node = ns ! cur; ncap = length node - npos in
        if length buf \<le> ncap
        then Some (ns[cur := store npos buf node],
                   if length node = npos + length buf then Suc cur else cur)
        else write_loop (ns[cur := store npos (take ncap buf) node]) (Suc cur) 0 (drop ncap buf))"
  by pat_completeness auto
termination
  by (relation "measure (\<lambda>(ns, cur, npos, buf). length ns - cur)") auto

declare write_loop.simps [simp del]

definition write_bytes :: "bytes \<Rightarrow> (bytearray, unit) action" where
  "write_bytes buf ba =
     (if buf = [] then (Inr (), ba)
      else let ba = addCapacity (length buf) ba;
               npos = m_position ba mod m_baseSize ba in
        case write_loop (m_nodes ba) (m_cur ba) npos buf of
          None \<Rightarrow> (Inl NullDeref, ba)
        | Some (ns, cur) \<Rightarrow>
            let pos = m_position ba + length buf in
            (Inr (), ba\<lparr>m_nodes := ns, m_cur := cur, m_position := pos,
                        m_size := if m_size ba < pos then pos else m_size ba\<rparr>))"

text \<open>
  The copy loop of the two \<^verbatim>\<open>read\<close> overloads: the bytes read so far are accumulated in
  \<open>out\<close>; the result also carries the block the loop stops in.
\<close>

function read_loop :: "bytes list \<Rightarrow> nat \<Rightarrow> nat \<Rightarrow> nat \<Rightarrow> bytes \<Rightarrow> (bytes \<times> nat) option" where
  "read_loop ns cur npos sz out =
     (if sz = 0 then Some (out, cur)
      else if length ns \<le> cur then None
      else let node = ns ! cur; ncap = length node - npos in
        if sz \<le> ncap
        then Some (out @ take sz (drop npos node),
                   if length node = npos + sz then Suc cur else cur)
        else read_loop ns (Suc cur) 0 (sz - ncap) (out @ take ncap (drop npos node)))"
  by pat_completeness auto
termination
  by (relation "measure (\<lambda>(ns, cur, npos, sz, out). length ns - cur)") auto

declare read_loop.simps [simp del]

text \<open>Both overloads evaluate \<^verbatim>\<open>m_cur->size\<close> before the loop, whatever \<open>sz\<close> is.\<close>

definition read_bytes :: "nat \<Rightarrow> (bytearray, bytes) action" where
  "read_bytes sz ba =
     (if getReadSize ba < sz then (Inl OutOfRange, ba)
      else if length (m_nodes ba) \<le> m_cur ba then (Inl NullDeref, ba)
      else case read_loop (m_nodes ba) (m_cur ba) (m_position ba mod m_baseSize ba) sz [] of
             None \<Rightarrow> (Inl NullDeref, ba)
           | Some (out, cur) \<Rightarrow>
               (Inr out, ba\<lparr>m_cur := cur, m_position := m_position ba + sz\<rparr>))"

text \<open>
  \<^verbatim>\<open>read(buf, size, position) const\<close>: the subtraction \<^verbatim>\<open>m_size - position\<close> is on
  \<^verbatim>\<open>size_t\<close> and wraps, and the loop starts in the block of \<^verbatim>\<open>m_cur\<close>.
\<close>

definition read_at :: "nat \<Rightarrow> nat \<Rightarrow> bytearray \<Rightarrow> failure + bytes" where
  "read_at sz position ba =
     (if (m_size ba + 2 ^ 64 - position) mod 2 ^ 64 < sz then Inl OutOfRange
      else if length (m_nodes ba) \<le> m_cur ba then Inl NullDeref
      else case read_loop (m_nodes ba) (m_cur ba) (position mod m_baseSize ba) sz [] of
             None \<Rightarrow> Inl NullDeref
           | Some (out, _) \<Rightarrow> Inr out)"

text \<open>The seek loop of \<^verbatim>\<open>setPosition\<close>: from the root, skip the blocks before \<open>v\<close>.\<close>

function seek_loop :: "bytes list \<Rightarrow> nat \<Rightarrow> nat \<Rightarrow> nat option" where
  "seek_loop ns cur v =
     (if length ns \<le> cur then None
      else if length (ns ! cur) < v then seek_loop ns (Suc cur) (v - length (ns ! cur))
      else Some (if v = length (ns ! cur) then Suc cur else cur))"
  by pat_completeness auto
termination
  by (relation "measure (\<lambda>(ns, cur, v). length ns - cur)") auto

declare seek_loop.simps [simp del]

definition setPosition :: "nat \<Rightarrow> (bytearray, unit) action" where
  "setPosition v ba =
     (if m_capacity ba < v then (Inl OutOfRange, ba)
      else let ba = ba\<lparr>m_position := v, m_size := if m_size ba < v then v else m_size ba\<rparr> in
        case seek_loop (m_nodes ba) 0 v of
          None \<Rightarrow> (Inl NullDeref, ba)
        | Some cur \<Rightarrow> (Inr (), ba\<lparr>m_cur := cur\<rparr>))"

text \<open>
  \<^verbatim>\<open>writeToFile\<close>: the bytes handed to \<^verbatim>\<open>ofs.write\<close>, given that the file was opened. The
  length of each piece is computed on \<^verbatim>\<open>int64_t\<close> and may be negative, which \<^verbatim>\<open>ofs.write\<close>
  does not allow (\<open>BadIndex\<close>).
\<close>

function file_loop :: "nat \<Rightarrow> bytes list \<Rightarrow> nat \<Rightarrow> nat \<Rightarrow> int \<Rightarrow> bytes \<Rightarrow> failure + bytes" where
  "file_loop base ns cur pos read_size out =
     (if read_size \<le> 0 then Inr out
      else if length ns \<le> cur then Inl NullDeref
      else let diff = pos mod base;
               len = (if read_size > int base then int base else read_size) - int diff in
        if len < 0 then Inl BadIndex
        else file_loop base ns (Suc cur) (pos + nat len) (read_size - len)
               (out @ take (nat len) (drop diff (ns ! cur))))"
  by pat_completeness auto
termination
  by (relation "measure (\<lambda>(base, ns, cur, pos, read_size, out). length ns - cur)") auto

declare file_loop.simps [simp del]

definition writeToFile :: "bool \<Rightarrow> bytearray \<Rightarrow> failure + (bool \<times> bytes)" where
  "writeToFile opened ba =
     (if \<not> opened then Inr (False, [])
      else case file_loop (m_baseSize ba) (m_nodes ba) (m_cur ba) (m_position ba)
                  (int (getReadSize ba)) [] of
             Inl e \<Rightarrow> Inl e
           | Inr out \<Rightarrow> Inr (True, out))"

text \<open>
  \<^verbatim>\<open>readFromFile\<close>: blocks of \<^verbatim>\<open>m_baseSize\<close> bytes are read until one comes up short, which sets
  \<^verbatim>\<open>eof\<close>. A base size of 0 never sets it; objects with that base size are outside
  \<open>wf_ba\<close> below.
\<close>

function readFromFile_loop :: "nat \<Rightarrow> bytes \<Rightarrow> (bytearray, bool) action" where
  "readFromFile_loop base content =
     (if length content < base \<or> base = 0
      then bindE (write_bytes content) (\<lambda>_. returnE True)
      else bindE (write_bytes (take base content))
                 (\<lambda>_. readFromFile_loop base (drop base content)))"
  by pat_completeness auto
termination
  by (relation "measure (\<lambda>(base, content). length content)") auto

declare readFromFile_loop.simps [simp del]

definition readFromFile :: "bytes option \<Rightarrow> (bytearray, bool) action" where
  "readFromFile file ba =
     (case file of None \<Rightarrow> (Inr False, ba)
                 | Some content \<Rightarrow> readFromFile_loop (m_baseSize ba) content ba)"

definition toString :: "bytearray \<Rightarrow> failure + bytes" where
  "toString ba = (if getReadSize ba = 0 then Inr []
                  else read_at (getReadSize ba) (m_position ba) ba)"

definition hexdigit :: "nat \<Rightarrow> char" where
  "hexdigit n = ''0123456789abcdef'' ! n"

definition hex_byte :: "byte \<Rightarrow> string" where
  "hex_byte b = [hexdigit (unat b div 16), hexdigit (unat b mod 16)]"

primrec hex_lines :: "nat \<Rightarrow> bytes \<Rightarrow> string" where
  "hex_lines i [] = []"
| "hex_lines i (b # bs) =
     (if 0 < i \<and> i mod 32 = 0 then [CHR 0x0A] else []) @ hex_byte b @ '' '' @ hex_lines (Suc i) bs"

definition toHexString :: "bytearray \<Rightarrow> failure + string" where
  "toHexString ba = (case toString ba of Inl e \<Rightarrow> Inl e | Inr str \<Rightarrow> Inr (hex_lines 0 str))"

text \<open>\<^verbatim>\<open>iovec\<close> views: a segment of one block (block index, offset, length).\<close>

record iovec =
  iov_node :: nat
  iov_base :: nat
  iov_len :: nat

function iov_loop :: "bytes list \<Rightarrow> nat \<Rightarrow> nat \<Rightarrow> nat \<Rightarrow> iovec list \<Rightarrow> iovec list option" where
  "iov_loop ns cur npos len buffers =
     (if len = 0 then Some buffers
      else if length ns \<le> cur then None
      else let ncap = length (ns ! cur) - npos in
        if len \<le> ncap
        then Some (buffers @ [\<lparr>iov_node = cur, iov_base = npos, iov_len = len\<rparr>])
        else iov_loop ns (Suc cur) 0 (len - ncap)
               (buffers @ [\<lparr>iov_node = cur, iov_base = npos, iov_len = ncap\<rparr>]))"
  by pat_completeness auto
termination
  by (relation "measure (\<lambda>(ns, cur, npos, len, buffers). length ns - cur)") auto

declare iov_loop.simps [simp del]

definition getReadBuffers :: "iovec list \<Rightarrow> nat \<Rightarrow> bytearray \<Rightarrow> failure + (iovec list \<times> nat)" where
  "getReadBuffers buffers len ba =
     (let len = (if getReadSize ba < len then getReadSize ba else len) in
      if len = 0 then Inr (buffers, 0)
      else if length (m_nodes ba) \<le> m_cur ba then Inl NullDeref
      else case iov_loop (m_nodes ba) (m_cur ba) (m_position ba mod m_baseSize ba) len buffers of
             None \<Rightarrow> Inl NullDeref
           | Some bufs \<Rightarrow> Inr (bufs, len))"

definition getReadBuffers_at ::
  "iovec list \<Rightarrow> nat \<Rightarrow> nat \<Rightarrow> bytearray \<Rightarrow> failure + (iovec list \<times> nat)" where
  "getReadBuffers_at buffers len position ba =
     (let len = (if getReadSize ba < len then getReadSize ba else len) in
      if len = 0 then Inr (buffers, 0)
      else let npos = position mod m_baseSize ba; count = position div m_baseSize ba in
        if length (m_nodes ba) \<le> count then Inl NullDeref
        else case iov_loop (m_nodes ba) count npos len buffers of
               None \<Rightarrow> Inl NullDeref
             | Some bufs \<Rightarrow> Inr (bufs, len))"

definition getWriteBuffers :: "iovec list \<Rightarrow> nat \<Rightarrow> (bytearray, iovec list \<times> nat) action" where
  "getWriteBuffers buffers len ba =
     (if len = 0 then (Inr (buffers, 0), ba)
      else let ba = addCapacity len ba in
        if length (m_nodes ba) \<le> m_cur ba then (Inl NullDeref, ba)
        else case iov_loop (m_nodes ba) (m_cur ba) (m_position ba mod m_baseSize ba) len buffers of
               None \<Rightarrow> (Inl NullDeref, ba)
             | Some bufs \<Rightarrow> (Inr (bufs, len), ba))"

section \<open>Invariant and abstraction\<close>

definition wf_ba :: "bytearray \<Rightarrow> bool" where
  "wf_ba ba \<longleftrightarrow>
     0 < m_baseSize ba \<and> uniform (m_baseSize ba) (m_nodes ba) \<and> m_nodes ba \<noteq> [] \<and>
     m_capacity ba = m_baseSize ba * length (m_nodes ba) \<and>
     m_position ba \<le> m_size ba \<and> m_size ba \<le> m_capacity ba \<and>
     m_cur ba = m_position ba div m_baseSize ba"

definition contents :: "bytearray \<Rightarrow> bytes" where
  "contents ba = take (m_size ba) (concat (m_nodes ba))"

lemma wf_baD:
  assumes "wf_ba ba"
  shows "0 < m_baseSize ba" "uniform (m_baseSize ba) (m_nodes ba)" "m_nodes ba \<noteq> []"
    "m_capacity ba = m_baseSize ba * length (m_nodes ba)" "m_position ba \<le> m_size ba"
    "m_size ba \<le> m_capacity ba" "m_cur ba = m_position ba div m_baseSize ba"
    "length (concat (m_nodes ba)) = m_capacity ba"
  using assms length_concat_uniform [of "m_baseSize ba" "m_nodes ba"] by (auto simp: wf_ba_def)

lemma length_contents: "wf_ba ba \<Longrightarrow> length (contents ba) = m_size ba"
  using wf_baD(6,8) [of ba] by (simp add: contents_def del: length_concat)

lemma wf_new_ByteArray: "0 < base \<Longrightarrow> wf_ba (new_ByteArray base)"
  by (simp add: wf_ba_def new_ByteArray_def new_Node_def)

section \<open>The copy loops\<close>

text \<open>A cursor at offset \<open>npos\<close> of block \<open>cur\<close>, and where it is after \<open>k\<close> more bytes.\<close>

lemma cursor_within:
  fixes b :: nat
  assumes "0 < b" "npos < b" "npos + k \<le> b"
  shows "(b * cur + npos + k) div b = (if b = npos + k then Suc cur else cur)"
  using assms by (auto simp: add.assoc)

lemma write_loop_correct:
  assumes "0 < b" "uniform b ns" "npos < b" "b * cur + npos + length buf \<le> b * length ns"
  shows "\<exists>ns'. write_loop ns cur npos buf = Some (ns', (b * cur + npos + length buf) div b) \<and>
           uniform b ns' \<and> length ns' = length ns \<and>
           concat ns' = store (b * cur + npos) buf (concat ns)"
  using assms
proof (induction ns cur npos buf rule: write_loop.induct)
  case (1 ns cur npos buf)
  show ?case
  proof (cases "buf = []")
    case True
    then show ?thesis using "1.prems" by (simp add: write_loop.simps [of ns cur npos "[]"])
  next
    case False
    then have "b * cur + npos < b * length ns" using "1.prems"(4) by (cases buf) auto
    then have cur: "cur < length ns" using "1.prems"(1) by (metis le_less_trans le_add1 nat_mult_less_cancel1)
    then have blk: "length (ns ! cur) = b" using "1.prems"(2) by (rule uniform_nth [rotated])
    let ?ncap = "b - npos"
    show ?thesis
    proof (cases "length buf \<le> ?ncap")
      case True
      then have fits: "npos + length buf \<le> b" using "1.prems"(3) by linarith
      have "uniform b (ns[cur := store npos buf (ns ! cur)])"
        using fits blk "1.prems"(2) by (simp add: uniform_update)
      then show ?thesis
        using True False cur blk fits concat_store_block [OF "1.prems"(2) cur fits]
          cursor_within [OF "1.prems"(1,3) fits, of cur]
        by (simp add: write_loop.simps [of ns cur npos buf])
    next
      case nofit: False
      let ?a = "take ?ncap buf" and ?r = "drop ?ncap buf"
      let ?ns = "ns[cur := store npos ?a (ns ! cur)]"
      have la: "length ?a = ?ncap" using nofit by simp
      then have fits: "npos + length ?a \<le> b" using "1.prems"(3) by linarith
      have u: "uniform b ?ns" using fits blk "1.prems"(2) by (simp add: uniform_update)
      have pos: "b * Suc cur = b * cur + npos + ?ncap" using "1.prems"(3) by simp
      have "\<exists>ns'. write_loop ?ns (Suc cur) 0 ?r =
                Some (ns', (b * Suc cur + 0 + length ?r) div b) \<and>
              uniform b ns' \<and> length ns' = length ?ns \<and>
              concat ns' = store (b * Suc cur + 0) ?r (concat ?ns)"
        by (rule "1.IH" [OF False _ refl refl, unfolded blk])
          (use cur nofit "1.prems" u pos in auto)
      then obtain ns' where ns': "write_loop ?ns (Suc cur) 0 ?r =
            Some (ns', (b * Suc cur + length ?r) div b)"
          "uniform b ns'" "length ns' = length ns" "concat ns' = store (b * Suc cur) ?r (concat ?ns)"
        by auto
      have "concat ns' = store (b * cur + npos + length ?a) ?r (store (b * cur + npos) ?a (concat ns))"
        using ns'(4) concat_store_block [OF "1.prems"(2) cur fits] la
        by (simp only: pos)
      also have "\<dots> = store (b * cur + npos) buf (concat ns)"
        using store_append [of "b * cur + npos" ?a ?r "concat ns"] la
          length_concat_uniform [OF "1.prems"(2)] "1.prems"(4) nofit
        by (simp del: length_concat)
      finally have cc: "concat ns' = store (b * cur + npos) buf (concat ns)" .
      have "b * Suc cur + length ?r = b * cur + npos + length buf" using pos nofit by simp
      then have "write_loop ?ns (Suc cur) 0 ?r = Some (ns', (b * cur + npos + length buf) div b)"
        using ns'(1) by (simp only:)
      then show ?thesis
        using False cur blk nofit ns'(2,3) cc
        by (simp add: write_loop.simps [of ns cur npos buf] Let_def)
    qed
  qed
qed


lemma read_loop_correct:
  assumes "0 < b" "uniform b ns" "npos < b" "b * cur + npos + sz \<le> b * length ns"
  shows "read_loop ns cur npos sz out =
           Some (out @ take sz (drop (b * cur + npos) (concat ns)), (b * cur + npos + sz) div b)"
  using assms
proof (induction ns cur npos sz out rule: read_loop.induct)
  case (1 ns cur npos sz out)
  show ?case
  proof (cases "sz = 0")
    case True
    then show ?thesis using "1.prems" by (simp add: read_loop.simps [of ns cur npos 0])
  next
    case False
    then have "b * cur + npos < b * length ns" using "1.prems"(4) by linarith
    then have cur: "cur < length ns" using "1.prems"(1) by (metis le_less_trans le_add1 nat_mult_less_cancel1)
    then have blk: "length (ns ! cur) = b" using "1.prems"(2) by (rule uniform_nth [rotated])
    let ?ncap = "b - npos"
    show ?thesis
    proof (cases "sz \<le> ?ncap")
      case True
      then have fits: "npos + sz \<le> b" using "1.prems"(3) by linarith
      then show ?thesis
        using True False cur blk concat_read_block [OF "1.prems"(2) cur fits]
          cursor_within [OF "1.prems"(1,3) fits, of cur]
        by (simp add: read_loop.simps [of ns cur npos sz])
    next
      case nofit: False
      have fits: "npos + ?ncap \<le> b" using "1.prems"(3) by simp
      have pos: "b * Suc cur = b * cur + npos + ?ncap" using "1.prems"(3) by simp
      let ?out = "out @ take ?ncap (drop npos (ns ! cur))"
      have IH: "read_loop ns (Suc cur) 0 (sz - ?ncap) ?out =
          Some (?out @ take (sz - ?ncap) (drop (b * Suc cur + 0) (concat ns)),
                (b * Suc cur + 0 + (sz - ?ncap)) div b)"
        by (rule "1.IH" [OF False _ refl refl, unfolded blk]) (use cur nofit "1.prems" pos in auto)
      have "take ?ncap (drop (b * cur + npos) (concat ns)) @
              take (sz - ?ncap) (drop (b * Suc cur) (concat ns)) =
            take sz (drop (b * cur + npos) (concat ns))"
        using nofit take_add [of ?ncap "sz - ?ncap" "drop (b * cur + npos) (concat ns)"] pos
        by (simp add: add.commute)
      moreover have "b * Suc cur + (sz - ?ncap) = b * cur + npos + sz" using pos nofit by simp
      ultimately have "read_loop ns (Suc cur) 0 (sz - ?ncap) ?out =
          Some (out @ take sz (drop (b * cur + npos) (concat ns)), (b * cur + npos + sz) div b)"
        using IH concat_read_block [OF "1.prems"(2) cur fits] by (simp only: append_assoc add_0_right)
      then show ?thesis
        using False cur blk nofit by (simp add: read_loop.simps [of ns cur npos sz] Let_def)
    qed
  qed
qed

lemma seek_loop_correct:
  assumes "0 < b" "uniform b ns" "cur < length ns" "b * cur + v \<le> b * length ns"
  shows "seek_loop ns cur v = Some (cur + v div b)"
  using assms
proof (induction ns cur v rule: seek_loop.induct)
  case (1 ns cur v)
  have blk: "length (ns ! cur) = b" using "1.prems"(2,3) by (rule uniform_nth)
  show ?case
  proof (cases "b < v")
    case True
    then obtain w where v: "v = b + w" "0 < w" by (metis less_imp_add_positive)
    then have "b * Suc cur < b * length ns" using "1.prems"(4) by simp
    then have "Suc cur < length ns" using "1.prems"(1) by (simp only: nat_mult_less_cancel1)
    then have "seek_loop ns (Suc cur) (v - length (ns ! cur)) = Some (Suc cur + w div b)"
      using "1.IH" "1.prems" True blk v by auto
    then show ?thesis
      using True blk "1.prems"(1,3) v by (simp add: seek_loop.simps [of ns cur "b + w"] div_add_self1)
  next
    case False
    then have "v div b = (if v = b then 1 else 0)" using "1.prems"(1) by simp
    then show ?thesis using False blk "1.prems"(3) by (simp add: seek_loop.simps [of ns cur v])
  qed
qed

section \<open>Refinement to a flat byte sequence\<close>

lemma mod_base_less [simp]: "wf_ba ba \<Longrightarrow> m_position ba mod m_baseSize ba < m_baseSize ba"
  by (simp add: wf_ba_def)

lemma position_split: "wf_ba ba \<Longrightarrow> m_baseSize ba * m_cur ba + m_position ba mod m_baseSize ba = m_position ba"
  by (simp add: wf_ba_def)

lemma ceil_div_bound:
  fixes need b :: nat
  assumes "0 < b"
  shows "need \<le> (need + b - 1) div b * b"
proof -
  have "need + b - 1 = (need + b - 1) div b * b + (need + b - 1) mod b" by simp
  moreover have "(need + b - 1) mod b < b" using assms by simp
  ultimately show ?thesis by linarith
qed

lemma addCapacity_correct:
  assumes wf: "wf_ba ba"
  shows "wf_ba (addCapacity sz ba) \<and> m_position (addCapacity sz ba) = m_position ba \<and>
         m_size (addCapacity sz ba) = m_size ba \<and> m_endian (addCapacity sz ba) = m_endian ba \<and>
         m_baseSize (addCapacity sz ba) = m_baseSize ba \<and>
         contents (addCapacity sz ba) = contents ba \<and>
         m_position ba + sz \<le> m_capacity (addCapacity sz ba) \<and>
         m_capacity ba \<le> m_capacity (addCapacity sz ba)"
proof (cases "sz \<le> getCapacity ba")
  case True
  then show ?thesis using wf wf_baD(5,6) [OF wf] by (auto simp: addCapacity_def getCapacity_def)
next
  case False
  note d = wf_baD [OF wf]
  let ?b = "m_baseSize ba"
  define count where "count = (sz - getCapacity ba + ?b - 1) div ?b"
  have enough: "sz - getCapacity ba \<le> count * ?b" unfolding count_def using d(1) by (rule ceil_div_bound)
  have cap: "m_position ba + getCapacity ba = m_capacity ba"
    using d(5,6) by (simp add: getCapacity_def)
  have cur: "getCapacity ba = 0 \<Longrightarrow> length (m_nodes ba) = m_position ba div ?b"
    using cap d(1,4) by simp
  define ba' where "ba' = ba\<lparr>m_nodes := m_nodes ba @ replicate count (new_Node ?b),
                            m_capacity := m_capacity ba + count * ?b,
                            m_cur := if getCapacity ba = 0 then length (m_nodes ba) else m_cur ba\<rparr>"
  have eq: "addCapacity sz ba = ba'"
    using False by (simp add: addCapacity_def Let_def count_def ba'_def)
  have "wf_ba ba'"
    using d cur by (auto simp: ba'_def wf_ba_def new_Node_def algebra_simps)
  moreover have "contents ba' = contents ba"
    using d by (simp add: ba'_def contents_def del: length_concat)
  ultimately show ?thesis
    using enough cap False unfolding eq by (simp add: ba'_def)
qed

lemma write_bytes_refines:
  assumes wf: "wf_ba ba"
  shows "\<exists>ba'. write_bytes buf ba = (Inr (), ba') \<and> wf_ba ba' \<and>
           contents ba' = store (m_position ba) buf (contents ba) \<and>
           m_position ba' = m_position ba + length buf \<and>
           m_endian ba' = m_endian ba \<and> m_baseSize ba' = m_baseSize ba \<and>
           m_size ba' = max (m_size ba) (m_position ba + length buf) \<and>
           m_capacity ba \<le> m_capacity ba'"
proof (cases "buf = []")
  case True
  then show ?thesis using wf wf_baD(5) [OF wf] by (auto simp: write_bytes_def)
next
  case False
  define ba1 where "ba1 = addCapacity (length buf) ba"
  note a = addCapacity_correct [OF wf, of "length buf", folded ba1_def]
  note d = wf_baD [OF conjunct1 [OF a]]
  let ?b = "m_baseSize ba1" and ?np = "m_position ba1 mod m_baseSize ba1"
  have pos: "?b * m_cur ba1 + ?np = m_position ba1" by (rule position_split [OF conjunct1 [OF a]])
  obtain ns' where w: "write_loop (m_nodes ba1) (m_cur ba1) ?np buf =
        Some (ns', (m_position ba1 + length buf) div ?b)"
      "uniform ?b ns'" "length ns' = length (m_nodes ba1)"
      "concat ns' = store (m_position ba1) buf (concat (m_nodes ba1))"
    using write_loop_correct [OF d(1,2), of ?np "m_cur ba1" buf] pos a d by auto
  define ba2 where "ba2 = ba1\<lparr>m_nodes := ns', m_cur := (m_position ba1 + length buf) div ?b,
      m_position := m_position ba1 + length buf,
      m_size := if m_size ba1 < m_position ba1 + length buf
                then m_position ba1 + length buf else m_size ba1\<rparr>"
  have "write_bytes buf ba = (Inr (), ba2)"
    using False w by (simp add: write_bytes_def ba2_def Let_def flip: ba1_def)
  moreover have "wf_ba ba2"
    using w a d by (auto simp: wf_ba_def ba2_def)
  moreover have "contents ba2 = store (m_position ba) buf (contents ba1)"
  proof -
    have room: "m_position ba1 + length buf \<le> length (concat (m_nodes ba1))"
      and sz: "m_size ba1 \<le> length (concat (m_nodes ba1))"
      using a d(6,8) by (simp_all del: length_concat)
    have "contents ba2 = store (m_position ba1) buf (contents ba1)"
      using take_store_extend [OF d(5) sz room] unfolding contents_def ba2_def w(4) [symmetric] by simp
    then show ?thesis using a by simp
  qed
  ultimately show ?thesis
    using a by (intro exI [of _ ba2]) (auto simp: ba2_def max_def)
qed

lemma read_bytes_refines:
  assumes wf: "wf_ba ba" and cur: "m_position ba < m_capacity ba"
    and avail: "sz \<le> getReadSize ba"
  shows "\<exists>ba'. read_bytes sz ba = (Inr (take sz (drop (m_position ba) (contents ba))), ba') \<and>
           wf_ba ba' \<and> contents ba' = contents ba \<and> m_position ba' = m_position ba + sz \<and>
           m_endian ba' = m_endian ba \<and> m_baseSize ba' = m_baseSize ba \<and>
           m_size ba' = m_size ba \<and> m_capacity ba' = m_capacity ba"
proof -
  note d = wf_baD [OF wf]
  let ?b = "m_baseSize ba" and ?np = "m_position ba mod m_baseSize ba"
  have pos: "?b * m_cur ba + ?np = m_position ba" using wf by (rule position_split)
  have fit: "m_position ba + sz \<le> m_size ba" using avail d(5) by (simp add: getReadSize_def)
  have cur': "m_cur ba < length (m_nodes ba)"
    using cur d(1,4,7) by (simp add: less_mult_imp_div_less mult.commute)
  have r: "read_loop (m_nodes ba) (m_cur ba) ?np sz [] =
      Some (take sz (drop (m_position ba) (concat (m_nodes ba))), (m_position ba + sz) div ?b)"
    using read_loop_correct [OF d(1,2), of ?np "m_cur ba" sz "[]"] pos fit d by simp
  have "take sz (drop (m_position ba) (concat (m_nodes ba))) = take sz (drop (m_position ba) (contents ba))"
    using fit by (simp add: contents_def drop_take)
  then show ?thesis
    using r avail cur' wf fit d by (auto simp: read_bytes_def wf_ba_def contents_def)
qed


lemma setPosition_refines:
  assumes wf: "wf_ba ba" and v: "v \<le> m_size ba"
  shows "\<exists>ba'. setPosition v ba = (Inr (), ba') \<and> wf_ba ba' \<and> contents ba' = contents ba \<and>
           m_position ba' = v \<and> m_endian ba' = m_endian ba \<and> m_baseSize ba' = m_baseSize ba \<and>
           m_size ba' = m_size ba \<and> m_capacity ba' = m_capacity ba"
proof -
  note d = wf_baD [OF wf]
  have "seek_loop (m_nodes ba) 0 v = Some (v div m_baseSize ba)"
    using seek_loop_correct [OF d(1,2), of 0 v] d v by simp
  then show ?thesis
    using wf v d by (auto simp: setPosition_def Let_def wf_ba_def contents_def)
qed

lemma setPosition_wf:
  assumes wf: "wf_ba ba" and v: "v \<le> m_capacity ba"
  shows "\<exists>ba'. setPosition v ba = (Inr (), ba') \<and> wf_ba ba' \<and> m_position ba' = v \<and>
           m_size ba' = max (m_size ba) v \<and> m_nodes ba' = m_nodes ba"
proof -
  note d = wf_baD [OF wf]
  have "seek_loop (m_nodes ba) 0 v = Some (v div m_baseSize ba)"
    using seek_loop_correct [OF d(1,2), of 0 v] d v by simp
  then show ?thesis
    using wf v d by (auto simp: setPosition_def Let_def wf_ba_def)
qed

lemma setPosition_out_of_range: "m_capacity ba < v \<Longrightarrow> setPosition v ba = (Inl OutOfRange, ba)"
  by (simp add: setPosition_def)

lemma read_bytes_out_of_range: "getReadSize ba < sz \<Longrightarrow> read_bytes sz ba = (Inl OutOfRange, ba)"
  by (simp add: read_bytes_def)

text \<open>At the very end of a completely filled chain the current block is the null pointer, and
  reading even zero bytes follows it.\<close>

lemma read_bytes_at_capacity:
  assumes "wf_ba ba" "m_position ba = m_capacity ba"
  shows "read_bytes 0 ba = (Inl NullDeref, ba)"
  using assms by (auto simp: read_bytes_def wf_ba_def)

lemma clear_correct:
  assumes "wf_ba ba"
  shows "wf_ba (clear ba)" "contents (clear ba) = []" "m_position (clear ba) = 0"
  using assms by (cases "m_nodes ba"; auto simp: clear_def wf_ba_def contents_def)+

lemma wf_setIsLittleEndian: "wf_ba (setIsLittleEndian v ba) = wf_ba ba"
  by (simp add: setIsLittleEndian_def wf_ba_def)

lemma read_at_current_block:
  assumes wf: "wf_ba ba" and p: "position div m_baseSize ba = m_cur ba" "position < m_capacity ba"
    and sz: "position + sz \<le> m_size ba" "m_size ba < 2 ^ 64"
  shows "read_at sz position ba = Inr (take sz (drop position (contents ba)))"
proof -
  note d = wf_baD [OF wf]
  let ?np = "position mod m_baseSize ba"
  have pos: "m_baseSize ba * m_cur ba + ?np = position" using p(1) by (metis mult_div_mod_eq)
  have wrap: "(m_size ba + 2 ^ 64 - position) mod 2 ^ 64 = m_size ba - position"
  proof -
    have e: "m_size ba + 2 ^ 64 - position = (m_size ba - position) + 2 ^ 64" using sz by simp
    have "m_size ba - position < 2 ^ 64" using sz by simp
    then show ?thesis unfolding e by (simp only: mod_add_self2 mod_less)
  qed
  have "m_cur ba < length (m_nodes ba)"
    using p d(1,4) by (metis less_mult_imp_div_less mult.commute)
  moreover have "read_loop (m_nodes ba) (m_cur ba) ?np sz [] =
      Some (take sz (drop position (concat (m_nodes ba))), (position + sz) div m_baseSize ba)"
    using read_loop_correct [OF d(1,2), of ?np "m_cur ba" sz "[]"] pos sz d by simp
  moreover have "take sz (drop position (concat (m_nodes ba))) = take sz (drop position (contents ba))"
    using sz by (simp add: contents_def drop_take)
  ultimately show ?thesis using wrap sz by (simp add: read_at_def)
qed

lemma toString_correct:
  assumes wf: "wf_ba ba" and sz: "m_size ba < 2 ^ 64"
  shows "toString ba = Inr (drop (m_position ba) (contents ba))"
proof (cases "getReadSize ba = 0")
  case True
  then show ?thesis using length_contents [OF wf] by (simp add: toString_def getReadSize_def)
next
  case False
  note d = wf_baD [OF wf]
  have "read_at (getReadSize ba) (m_position ba) ba =
      Inr (take (getReadSize ba) (drop (m_position ba) (contents ba)))"
    using False d sz by (intro read_at_current_block [OF wf]) (auto simp: getReadSize_def)
  then show ?thesis
    using False length_contents [OF wf] by (simp add: toString_def getReadSize_def)
qed

section \<open>File transfer\<close>

lemma file_loop_aligned:
  assumes "0 < b" "uniform b ns" "b * cur + k \<le> b * length ns"
  shows "file_loop b ns cur (b * cur) (int k) out = Inr (out @ take k (drop (b * cur) (concat ns)))"
  using assms
proof (induction "length ns - cur" arbitrary: cur k out)
  case 0
  then have "b * length ns \<le> b * cur" by simp
  then have "k = 0" using 0 by linarith
  then show ?case by (simp add: file_loop.simps)
next
  case (Suc n)
  show ?case
  proof (cases "k = 0")
    case True
    then show ?thesis by (simp add: file_loop.simps)
  next
    case False
    have cur: "cur < length ns" using Suc.hyps(2) by simp
    then have blk: "length (ns ! cur) = b" using Suc.prems(2) by (rule uniform_nth [rotated])
    let ?m = "min k b"
    have piece: "take ?m (ns ! cur) = take ?m (drop (b * cur) (concat ns))"
      using concat_read_block [OF Suc.prems(2) cur, of 0 ?m] by simp
    show ?thesis
    proof (cases "k \<le> b")
      case True
      then show ?thesis
        using False cur piece by (simp add: file_loop.simps [of b ns cur "b * cur"]
            file_loop.simps [of b ns "Suc cur" _ 0])
    next
      case False
      have eq: "file_loop b ns (Suc cur) (b * Suc cur) (int (k - b)) (out @ ns ! cur) =
          Inr ((out @ ns ! cur) @ take (k - b) (drop (b * Suc cur) (concat ns)))"
        using Suc.hyps(2) Suc.prems False by (intro Suc.hyps(1)) auto
      have "take b (drop (b * cur) (concat ns)) @ take (k - b) (drop (b * Suc cur) (concat ns)) =
          take k (drop (b * cur) (concat ns))"
        using False take_add [of b "k - b" "drop (b * cur) (concat ns)"] by (simp add: add.commute)
      then show ?thesis
        using eq False cur blk piece \<open>k \<noteq> 0\<close> Suc.prems(1)
        by (simp add: file_loop.simps [of b ns cur "b * cur"] of_nat_diff add.commute)
    qed
  qed
qed

lemma readFromFile_loop_correct:
  assumes "wf_ba ba" "m_baseSize ba = base" "m_position ba = m_size ba"
  shows "\<exists>ba'. readFromFile_loop base content ba = (Inr True, ba') \<and> wf_ba ba' \<and>
           contents ba' = contents ba @ content \<and> m_position ba' = m_size ba'"
  using assms
proof (induction base content arbitrary: ba rule: readFromFile_loop.induct)
  case (1 base content)
  have b: "0 < base" using "1.prems" by (auto simp: wf_ba_def)
  define piece where "piece = (if length content < base then content else take base content)"
  obtain ba1 where w: "write_bytes piece ba = (Inr (), ba1)" "wf_ba ba1"
      "contents ba1 = store (m_position ba) piece (contents ba)" "m_baseSize ba1 = base"
      "m_position ba1 = m_size ba1"
    using write_bytes_refines [OF "1.prems"(1), of piece] "1.prems"(2,3) by (auto simp: max_def)
  have c: "contents ba1 = contents ba @ piece"
    using w(3) "1.prems" length_contents [OF "1.prems"(1)] by (simp add: store_def)
  show ?case
  proof (cases "length content < base")
    case True
    then show ?thesis
      using w c by (auto simp: readFromFile_loop.simps [of base content] piece_def action_simps)
  next
    case False
    then obtain ba' where "readFromFile_loop base (drop base content) ba1 = (Inr True, ba')"
        "wf_ba ba'" "contents ba' = contents ba1 @ drop base content" "m_position ba' = m_size ba'"
      using "1.IH" [of ba1] b w by auto
    then show ?thesis
      using False b w(1) c by (simp add: readFromFile_loop.simps [of base content] piece_def action_simps)
  qed
qed

section \<open>Segment views\<close>

definition iov_bytes :: "bytes list \<Rightarrow> iovec \<Rightarrow> bytes" where
  "iov_bytes ns v = take (iov_len v) (drop (iov_base v) (ns ! iov_node v))"

definition iov_ok :: "bytes list \<Rightarrow> iovec \<Rightarrow> bool" where
  "iov_ok ns v \<longleftrightarrow> iov_node v < length ns \<and> iov_base v + iov_len v \<le> length (ns ! iov_node v)"

lemma iov_loop_correct:
  assumes "0 < b" "uniform b ns" "npos < b" "b * cur + npos + len \<le> b * length ns"
  shows "\<exists>vs. iov_loop ns cur npos len buffers = Some (buffers @ vs) \<and> list_all (iov_ok ns) vs \<and>
           concat (map (iov_bytes ns) vs) = take len (drop (b * cur + npos) (concat ns))"
  using assms
proof (induction ns cur npos len buffers rule: iov_loop.induct)
  case (1 ns cur npos len buffers)
  show ?case
  proof (cases "len = 0")
    case True
    then show ?thesis by (simp add: iov_loop.simps [of ns cur npos 0])
  next
    case False
    then have "b * cur + npos < b * length ns" using "1.prems"(4) by linarith
    then have cur: "cur < length ns" using "1.prems"(1) by (metis le_less_trans le_add1 nat_mult_less_cancel1)
    then have blk: "length (ns ! cur) = b" using "1.prems"(2) by (rule uniform_nth [rotated])
    let ?ncap = "b - npos"
    show ?thesis
    proof (cases "len \<le> ?ncap")
      case True
      then have fits: "npos + len \<le> b" using "1.prems"(3) by linarith
      show ?thesis
        using False True cur blk fits concat_read_block [OF "1.prems"(2) cur fits]
        by (simp add: iov_loop.simps [of ns cur npos len] iov_ok_def iov_bytes_def)
    next
      case nofit: False
      have fits: "npos + ?ncap \<le> b" using "1.prems"(3) by simp
      have pos: "b * Suc cur = b * cur + npos + ?ncap" using "1.prems"(3) by simp
      let ?v = "\<lparr>iov_node = cur, iov_base = npos, iov_len = ?ncap\<rparr>"
      have "\<exists>vs. iov_loop ns (Suc cur) 0 (len - ?ncap) (buffers @ [?v]) = Some ((buffers @ [?v]) @ vs) \<and>
          list_all (iov_ok ns) vs \<and>
          concat (map (iov_bytes ns) vs) = take (len - ?ncap) (drop (b * Suc cur + 0) (concat ns))"
        by (rule "1.IH" [OF False _ refl, unfolded blk]) (use cur nofit "1.prems" pos in auto)
      then obtain vs where vs: "iov_loop ns (Suc cur) 0 (len - ?ncap) (buffers @ [?v]) = Some (buffers @ ?v # vs)"
          "list_all (iov_ok ns) vs"
          "concat (map (iov_bytes ns) vs) = take (len - ?ncap) (drop (b * Suc cur) (concat ns))"
        by auto
      have "take ?ncap (drop (b * cur + npos) (concat ns)) @
              take (len - ?ncap) (drop (b * Suc cur) (concat ns)) =
            take len (drop (b * cur + npos) (concat ns))"
        using nofit take_add [of ?ncap "len - ?ncap" "drop (b * cur + npos) (concat ns)"] pos
        by (simp add: add.commute)
      then have "concat (map (iov_bytes ns) (?v # vs)) = take len (drop (b * cur + npos) (concat ns))"
        using vs(3) concat_read_block [OF "1.prems"(2) cur fits] by (simp add: iov_bytes_def)
      moreover have "list_all (iov_ok ns) (?v # vs)"
        using vs(2) cur blk "1.prems"(3) by (simp add: iov_ok_def)
      moreover have "iov_loop ns cur npos len buffers = Some (buffers @ ?v # vs)"
        using False cur blk nofit vs(1) by (simp add: iov_loop.simps [of ns cur npos len] Let_def)
      ultimately show ?thesis by (intro exI [of _ "?v # vs"]) simp
    qed
  qed
qed

section \<open>ByteArray as a byte stream\<close>

interpretation ba: byte_stream write_bytes read_bytes setPosition wf_ba contents
  m_position m_capacity m_endian
proof unfold_locales
  fix s n assume s: "wf_ba s" and n: "m_position s + n \<le> length (contents s)"
    and "0 < n \<or> m_position s < m_capacity s"
  then have "m_position s < m_capacity s"
    using wf_baD(6) [OF s] length_contents [OF s] by auto
  then show "\<exists>s'. read_bytes n s = (Inr (take n (drop (m_position s) (contents s))), s') \<and>
      wf_ba s' \<and> contents s' = contents s \<and> m_position s' = m_position s + n \<and>
      m_capacity s' = m_capacity s \<and> m_endian s' = m_endian s"
    using read_bytes_refines [OF s, of n] n length_contents [OF s]
    by (fastforce simp: getReadSize_def)
next
  fix s n assume "wf_ba s" and "length (contents s) < m_position s + n"
  then show "read_bytes n s = (Inl OutOfRange, s)"
    using wf_baD(5) [of s] by (intro read_bytes_out_of_range) (auto simp: getReadSize_def length_contents)
next
  fix s bs assume s: "wf_ba s"
  show "\<exists>s'. write_bytes bs s = (Inr (), s') \<and> wf_ba s' \<and>
      contents s' = store (m_position s) bs (contents s) \<and>
      m_position s' = m_position s + length bs \<and> m_capacity s \<le> m_capacity s' \<and>
      m_endian s' = m_endian s"
    using write_bytes_refines [OF s, of bs] by fastforce
next
  fix s v assume s: "wf_ba s" and "v \<le> length (contents s)"
  then show "\<exists>s'. setPosition v s = (Inr (), s') \<and> wf_ba s' \<and> contents s' = contents s \<and>
      m_position s' = v \<and> m_capacity s' = m_capacity s \<and> m_endian s' = m_endian s"
    using setPosition_refines [OF s, of v] by (fastforce simp: length_contents)
qed (use wf_baD length_contents in auto)

section \<open>Properties\<close>



text \<open>
  \<^verbatim>\<open>setPosition\<close> on every branch: beyond the capacity it raises and changes nothing; between
  the size and the capacity it moves the end of the data forward; the blocks stay as they are.
\<close>

theorem setPosition_total:
  assumes "wf_ba ba"
  shows "if m_capacity ba < v then setPosition v ba = (Inl OutOfRange, ba)
         else \<exists>ba'. setPosition v ba = (Inr (), ba') \<and> wf_ba ba' \<and> m_position ba' = v \<and>
                m_size ba' = max (m_size ba) v \<and> m_nodes ba' = m_nodes ba"
  using setPosition_out_of_range setPosition_wf [OF assms, of v] by simp

theorem setPosition_total_witness:
  "wf_ba (new_ByteArray 4) \<and> setPosition 5 (new_ByteArray 4) = (Inl OutOfRange, new_ByteArray 4) \<and>
   (\<exists>ba'. setPosition 4 (new_ByteArray 4) = (Inr (), ba') \<and> wf_ba ba' \<and> m_size ba' = 4)"
  using setPosition_total [OF wf_new_ByteArray [of 4], of 5]
    setPosition_total [OF wf_new_ByteArray [of 4], of 4] wf_new_ByteArray [of 4]
  by (auto simp: new_ByteArray_def)

lemma getReadBuffers_lends:
  assumes "wf_ba ba"
  shows "\<exists>vs. getReadBuffers buffers len ba = Inr (buffers @ vs, min len (getReadSize ba)) \<and>
           list_all (iov_ok (m_nodes ba)) vs \<and>
           concat (map (iov_bytes (m_nodes ba)) vs) = take len (drop (m_position ba) (contents ba))"
proof (cases "min len (getReadSize ba) = 0")
  case True
  then show ?thesis using length_contents [OF assms]
    by (auto simp: getReadBuffers_def getReadSize_def min_def split: if_splits)
next
  case False
  note d = wf_baD [OF assms]
  define k where "k = min len (getReadSize ba)"
  have k: "m_position ba + k \<le> m_size ba" "0 < k"
    using False d(5) by (auto simp: k_def getReadSize_def)
  have cur: "m_cur ba < length (m_nodes ba)"
    using k d by (metis add_lessD1 le_less_trans less_add_same_cancel1 less_le_trans
        less_mult_imp_div_less mult.commute)
  obtain vs where vs: "iov_loop (m_nodes ba) (m_cur ba) (m_position ba mod m_baseSize ba) k buffers =
        Some (buffers @ vs)" "list_all (iov_ok (m_nodes ba)) vs"
      "concat (map (iov_bytes (m_nodes ba)) vs) = take k (drop (m_position ba) (concat (m_nodes ba)))"
    using iov_loop_correct [OF d(1,2), of "m_position ba mod m_baseSize ba" "m_cur ba" k buffers]
      d k position_split [OF assms] by auto
  have "take k (drop (m_position ba) (concat (m_nodes ba))) = take len (drop (m_position ba) (contents ba))"
    using d by (auto simp: k_def contents_def getReadSize_def drop_take min_def)
  moreover have "(if getReadSize ba < len then getReadSize ba else len) = k" by (simp add: k_def)
  ultimately show ?thesis
    using vs cur k(2) unfolding getReadBuffers_def Let_def k_def [symmetric] by auto
qed

text \<open>
  \<^verbatim>\<open>getReadBuffers\<close> lends out exactly the next \<open>len\<close> unread bytes (or all of them when
  fewer are left) as segments inside the blocks; it appends to the vector it is given.
\<close>

theorem getReadBuffers_covers:
  assumes "wf_ba ba"
  shows "\<exists>vs. getReadBuffers buffers len ba = Inr (buffers @ vs, min len (getReadSize ba)) \<and>
           list_all (iov_ok (m_nodes ba)) vs \<and>
           concat (map (iov_bytes (m_nodes ba)) vs) = take len (drop (m_position ba) (contents ba))"
  using assms by (rule getReadBuffers_lends)

theorem getReadBuffers_covers_witness:
  "\<exists>vs. getReadBuffers [] 9 \<lparr>m_baseSize = 2, m_position = 1, m_capacity = 4, m_size = 3,
            m_endian = SYLAR_BIG_ENDIAN, m_nodes = [[1, 2], [3, 4]], m_cur = 0\<rparr> = Inr (vs, 2) \<and>
         concat (map (iov_bytes [[1, 2], [3, 4]]) vs) = [2, 3]"
  using getReadBuffers_covers [of "\<lparr>m_baseSize = 2, m_position = 1, m_capacity = 4, m_size = 3,
            m_endian = SYLAR_BIG_ENDIAN, m_nodes = [[1, 2], [3, 4]], m_cur = 0\<rparr>" "[]" 9]
  by (auto simp: wf_ba_def contents_def getReadSize_def)

text \<open>
  \<^verbatim>\<open>getWriteBuffers\<close> makes room for \<open>len\<close> bytes and lends out segments of the blocks that
  are exactly the \<open>len\<close> bytes from the position on, without changing the contents.
\<close>

theorem getWriteBuffers_covers:
  assumes "wf_ba ba"
  shows "\<exists>vs ba'. getWriteBuffers buffers len ba = (Inr (buffers @ vs, len), ba') \<and> wf_ba ba' \<and>
           contents ba' = contents ba \<and> m_position ba' = m_position ba \<and>
           list_all (iov_ok (m_nodes ba')) vs \<and> m_position ba + len \<le> m_capacity ba' \<and>
           concat (map (iov_bytes (m_nodes ba')) vs) =
             take len (drop (m_position ba) (concat (m_nodes ba')))"
proof (cases "len = 0")
  case True
  then show ?thesis using assms wf_baD(5,6) [OF assms] by (simp add: getWriteBuffers_def)
next
  case False
  define ba' where "ba' = addCapacity len ba"
  have ac: "wf_ba ba'" "m_position ba' = m_position ba" "contents ba' = contents ba"
      "m_position ba + len \<le> m_capacity ba'"
    using addCapacity_correct [OF assms, of len] by (auto simp: ba'_def)
  note d = wf_baD [OF ac(1)]
  have cur: "m_cur ba' < length (m_nodes ba')"
    using False ac(2,4) d by (metis add_lessD1 le_less_trans less_add_same_cancel1 less_le_trans
        less_mult_imp_div_less mult.commute not_gr_zero)
  obtain vs where vs: "iov_loop (m_nodes ba') (m_cur ba') (m_position ba' mod m_baseSize ba') len buffers =
        Some (buffers @ vs)" "list_all (iov_ok (m_nodes ba')) vs"
      "concat (map (iov_bytes (m_nodes ba')) vs) = take len (drop (m_position ba') (concat (m_nodes ba')))"
    using iov_loop_correct [OF d(1,2), of "m_position ba' mod m_baseSize ba'" "m_cur ba'" len buffers]
      d ac position_split [OF ac(1)] by auto
  then show ?thesis
    using False ac cur unfolding getWriteBuffers_def Let_def ba'_def [symmetric] by auto
qed

theorem getWriteBuffers_covers_witness:
  "wf_ba (new_ByteArray 2) \<and>
   (\<exists>vs ba'. getWriteBuffers [] 5 (new_ByteArray 2) = (Inr (vs, 5), ba') \<and> wf_ba ba' \<and> 5 \<le> m_capacity ba')"
  using getWriteBuffers_covers [OF wf_new_ByteArray [of 2], of "[]" 5] wf_new_ByteArray [of 2]
  by (auto simp: new_ByteArray_def)

text \<open>
  Files: a fresh object takes in a whole file, of any length, block by block; after
  \<^verbatim>\<open>setPosition(0)\<close>, \<^verbatim>\<open>writeToFile\<close> writes exactly those bytes back and \<^verbatim>\<open>toString\<close>
  returns them.
\<close>

theorem file_roundtrip:
  assumes "0 < base" "length content < 2 ^ 64"
  shows "\<exists>ba1 ba2. readFromFile (Some content) (new_ByteArray base) = (Inr True, ba1) \<and>
           setPosition 0 ba1 = (Inr (), ba2) \<and> wf_ba ba2 \<and>
           writeToFile True ba2 = Inr (True, content) \<and> toString ba2 = Inr content"
proof -
  have "m_baseSize (new_ByteArray base) = base" "m_position (new_ByteArray base) = m_size (new_ByteArray base)"
      "contents (new_ByteArray base) = []" by (simp_all add: new_ByteArray_def contents_def)
  then obtain ba1 where 1: "readFromFile (Some content) (new_ByteArray base) = (Inr True, ba1)"
      "wf_ba ba1" "contents ba1 = content"
    using readFromFile_loop_correct [OF wf_new_ByteArray [OF assms(1)], of base content]
    by (auto simp: readFromFile_def)
  obtain ba2 where 2: "setPosition 0 ba1 = (Inr (), ba2)" "wf_ba ba2" "contents ba2 = content"
      "m_position ba2 = 0"
    using setPosition_refines [OF 1(2), of 0] 1(3) by auto
  note d = wf_baD [OF 2(2)]
  have sz: "m_size ba2 = length content" using length_contents [OF 2(2)] 2(3) by simp
  have "file_loop (m_baseSize ba2) (m_nodes ba2) 0 0 (int (m_size ba2)) [] = Inr content"
    using file_loop_aligned [OF d(1,2), of 0 "m_size ba2" "[]"] d(4,6) 2(3) by (simp add: contents_def)
  then have "writeToFile True ba2 = Inr (True, content)"
    using d(7) 2(4) by (simp add: writeToFile_def getReadSize_def)
  moreover have "toString ba2 = Inr content"
    using toString_correct [OF 2(2)] sz assms(2) 2(3,4) by simp
  ultimately show ?thesis using 1 2 by blast
qed

theorem file_roundtrip_witness:
  "\<exists>ba1 ba2. readFromFile (Some [1, 2, 3]) (new_ByteArray 2) = (Inr True, ba1) \<and>
     setPosition 0 ba1 = (Inr (), ba2) \<and> writeToFile True ba2 = Inr (True, [1, 2, 3])"
  using file_roundtrip [of 2 "[1, 2, 3]"] by auto

text \<open>
  \<^verbatim>\<open>writeToFile\<close> from a position inside the last block: the bound of a piece is taken before
  the offset in the block is subtracted, so the piece comes out short and the walk goes on to a next
  block that does not exist.
\<close>

theorem writeToFile_inside_block:
  "writeToFile True \<lparr>m_baseSize = 4, m_position = 1, m_capacity = 4, m_size = 4,
     m_endian = SYLAR_BIG_ENDIAN, m_nodes = [[1, 2, 3, 4]], m_cur = 0\<rparr> = Inl NullDeref"
  by (simp add: writeToFile_def getReadSize_def file_loop.simps)

text \<open>
  \<^verbatim>\<open>read(buf, size, position)\<close> takes the offset from \<^verbatim>\<open>position\<close> but the block from the
  current position: with blocks of two bytes and the position in the second one, asking for the two
  bytes at 0 returns those at 2.
\<close>

theorem read_at_other_block:
  "read_at 2 0 \<lparr>m_baseSize = 2, m_position = 2, m_capacity = 4, m_size = 4,
     m_endian = SYLAR_BIG_ENDIAN, m_nodes = [[1, 2], [3, 4]], m_cur = 1\<rparr> = Inr [3, 4]"
  by (simp add: read_at_def read_loop.simps)

end
