(* ===== verification/ByteArray_Codec.thy ===== *)
theory ByteArray_Codec
  imports ByteArray
begin

text \<open>
  The typed readers and writers of \<^verbatim>\<open>ByteArray\<close> (\<^verbatim>\<open>sylar/bytearray.cc\<close>): fixed-width
  integers in the object's byte order, variable-length integers with zigzag signs, floating point
  values as their bit patterns, and length-prefixed strings. \<open>host\<close> is the byte order of the machine
  the code is compiled for; writers and readers may run on different machines. A signed integer is
  its two's complement word; the additions of the zigzag code are the wrapping ones.
\<close>

section \<open>Writers\<close>

definition writeFint8 :: "u8 \<Rightarrow> (bytearray, unit) action" where
  "writeFint8 value = write_bytes [value]"

definition writeFuint8 :: "u8 \<Rightarrow> (bytearray, unit) action" where
  "writeFuint8 value = write_bytes [value]"

definition writeFint16 :: "byte_order \<Rightarrow> u16 \<Rightarrow> (bytearray, unit) action" where
  "writeFint16 host value ba =
     (let value = (if m_endian ba \<noteq> host then byteswap16 value else value)
      in write_bytes (mem host 2 value) ba)"

definition writeFuint16 :: "byte_order \<Rightarrow> u16 \<Rightarrow> (bytearray, unit) action" where
  "writeFuint16 host value ba =
     (let value = (if m_endian ba \<noteq> host then byteswap16 value else value)
      in write_bytes (mem host 2 value) ba)"

definition writeFint32 :: "byte_order \<Rightarrow> u32 \<Rightarrow> (bytearray, unit) action" where
  "writeFint32 host value ba =
     (let value = (if m_endian ba \<noteq> host then byteswap32 value else value)
      in write_bytes (mem host 4 value) ba)"

definition writeFuint32 :: "byte_order \<Rightarrow> u32 \<Rightarrow> (bytearray, unit) action" where
  "writeFuint32 host value ba =
     (let value = (if m_endian ba \<noteq> host then byteswap32 value else value)
      in write_bytes (mem host 4 value) ba)"

definition writeFint64 :: "byte_order \<Rightarrow> u64 \<Rightarrow> (bytearray, unit) action" where
  "writeFint64 host value ba =
     (let value = (if m_endian ba \<noteq> host then byteswap64 value else value)
      in write_bytes (mem host 8 value) ba)"

definition writeFuint64 :: "byte_order \<Rightarrow> u64 \<Rightarrow> (bytearray, unit) action" where
  "writeFuint64 host value ba =
     (let value = (if m_endian ba \<noteq> host then byteswap64 value else value)
      in write_bytes (mem host 8 value) ba)"

text \<open>\<^verbatim>\<open>-v\<close> of the least value and \<^verbatim>\<open>v * 2\<close> beyond the greatest value are overflows of a signed type, which are undefined.\<close>

definition EncodeZigzag32 :: "u32 \<Rightarrow> failure + u32" where
  "EncodeZigzag32 v =
     (if sint v < 0 then if sint v = - (2 ^ 31) then Inl Undefined else Inr ((- v) * 2 - 1)
      else if 2 ^ 31 \<le> sint v * 2 then Inl Undefined else Inr (v * 2))"

definition EncodeZigzag64 :: "u64 \<Rightarrow> failure + u64" where
  "EncodeZigzag64 v =
     (if sint v < 0 then if sint v = - (2 ^ 63) then Inl Undefined else Inr ((- v) * 2 - 1)
      else if 2 ^ 63 \<le> sint v * 2 then Inl Undefined else Inr (v * 2))"

definition DecodeZigzag32 :: "u32 \<Rightarrow> u32" where
  "DecodeZigzag32 v = drop_bit 1 v XOR - (v AND 1)"

definition DecodeZigzag64 :: "u64 \<Rightarrow> u64" where
  "DecodeZigzag64 v = drop_bit 1 v XOR - (v AND 1)"

text \<open>
  The loop that fills the local array \<^verbatim>\<open>tmp\<close>; the first argument is the number of slots left in
  it, and \<open>None\<close> is a store past its end.
\<close>

fun varint_loop :: "nat \<Rightarrow> 'a::len word \<Rightarrow> bytes option" where
  "varint_loop 0 value = None"
| "varint_loop (Suc slots) value =
     (if 0x80 \<le> value
      then map_option (\<lambda>tmp. (ucast (value AND 0x7F) OR 0x80) # tmp)
             (varint_loop slots (drop_bit 7 value))
      else Some [ucast value])"

definition writeUint32 :: "u32 \<Rightarrow> (bytearray, unit) action" where
  "writeUint32 value = (case varint_loop 5 value of None \<Rightarrow> throwE BadIndex | Some tmp \<Rightarrow> write_bytes tmp)"

definition writeInt32 :: "u32 \<Rightarrow> (bytearray, unit) action" where
  "writeInt32 value = (case EncodeZigzag32 value of Inl e \<Rightarrow> throwE e | Inr v \<Rightarrow> writeUint32 v)"

definition writeUint64 :: "u64 \<Rightarrow> (bytearray, unit) action" where
  "writeUint64 value = (case varint_loop 10 value of None \<Rightarrow> throwE BadIndex | Some tmp \<Rightarrow> write_bytes tmp)"

definition writeInt64 :: "u64 \<Rightarrow> (bytearray, unit) action" where
  "writeInt64 value = (case EncodeZigzag64 value of Inl e \<Rightarrow> throwE e | Inr v \<Rightarrow> writeUint64 v)"

definition writeFloat :: "byte_order \<Rightarrow> u32 \<Rightarrow> (bytearray, unit) action" where
  "writeFloat host v = writeFuint32 host v"

definition writeDouble :: "byte_order \<Rightarrow> u64 \<Rightarrow> (bytearray, unit) action" where
  "writeDouble host v = writeFuint64 host v"

definition writeStringF16 :: "byte_order \<Rightarrow> bytes \<Rightarrow> (bytearray, unit) action" where
  "writeStringF16 host value =
     bindE (writeFuint16 host (of_nat (length value))) (\<lambda>_. write_bytes value)"

definition writeStringF32 :: "byte_order \<Rightarrow> bytes \<Rightarrow> (bytearray, unit) action" where
  "writeStringF32 host value =
     bindE (writeFuint32 host (of_nat (length value))) (\<lambda>_. write_bytes value)"

definition writeStringF64 :: "byte_order \<Rightarrow> bytes \<Rightarrow> (bytearray, unit) action" where
  "writeStringF64 host value =
     bindE (writeFuint64 host (of_nat (length value))) (\<lambda>_. write_bytes value)"

definition writeStringVint :: "bytes \<Rightarrow> (bytearray, unit) action" where
  "writeStringVint value =
     bindE (writeUint64 (of_nat (length value))) (\<lambda>_. write_bytes value)"

definition writeStringWithoutLength :: "bytes \<Rightarrow> (bytearray, unit) action" where
  "writeStringWithoutLength value = write_bytes value"

section \<open>Readers\<close>

definition readFint8 :: "(bytearray, u8) action" where
  "readFint8 = bindE (read_bytes 1) (\<lambda>bs. returnE (hd bs))"

definition readFuint8 :: "(bytearray, u8) action" where
  "readFuint8 = bindE (read_bytes 1) (\<lambda>bs. returnE (hd bs))"

text \<open>The macro \<^verbatim>\<open>XX(type)\<close> shared by the six wider fixed-width readers.\<close>

definition read_fixed ::
  "byte_order \<Rightarrow> nat \<Rightarrow> ('a::len word \<Rightarrow> 'a word) \<Rightarrow> (bytearray, 'a word) action" where
  "read_fixed host n byteswap =
     bindE (read_bytes n) (\<lambda>bs ba.
       let v = of_mem host bs in (Inr (if m_endian ba = host then v else byteswap v), ba))"

definition readFint16 :: "byte_order \<Rightarrow> (bytearray, u16) action" where
  "readFint16 host = read_fixed host 2 byteswap16"

definition readFuint16 :: "byte_order \<Rightarrow> (bytearray, u16) action" where
  "readFuint16 host = read_fixed host 2 byteswap16"

definition readFint32 :: "byte_order \<Rightarrow> (bytearray, u32) action" where
  "readFint32 host = read_fixed host 4 byteswap32"

definition readFuint32 :: "byte_order \<Rightarrow> (bytearray, u32) action" where
  "readFuint32 host = read_fixed host 4 byteswap32"

definition readFint64 :: "byte_order \<Rightarrow> (bytearray, u64) action" where
  "readFint64 host = read_fixed host 8 byteswap64"

definition readFuint64 :: "byte_order \<Rightarrow> (bytearray, u64) action" where
  "readFuint64 host = read_fixed host 8 byteswap64"

text \<open>The loop \<^verbatim>\<open>for(int i = 0; i < width; i += 7)\<close> of \<^verbatim>\<open>readUint32\<close> and \<^verbatim>\<open>readUint64\<close>.\<close>

function readVar_loop :: "nat \<Rightarrow> nat \<Rightarrow> 'a::len word \<Rightarrow> (bytearray, 'a word) action" where
  "readVar_loop width i result =
     (if i < width
      then bindE readFuint8 (\<lambda>b.
             if b < 0x80 then returnE (result OR push_bit i (ucast b))
             else readVar_loop width (i + 7) (result OR push_bit i (ucast (b AND 0x7F))))
      else returnE result)"
  by pat_completeness auto
termination
  by (relation "measure (\<lambda>(width, i, result). width - i)") auto

declare readVar_loop.simps [simp del]

definition readUint32 :: "(bytearray, u32) action" where
  "readUint32 = readVar_loop 32 0 0"

definition readInt32 :: "(bytearray, u32) action" where
  "readInt32 = bindE readUint32 (\<lambda>v. returnE (DecodeZigzag32 v))"

definition readUint64 :: "(bytearray, u64) action" where
  "readUint64 = readVar_loop 64 0 0"

definition readInt64 :: "(bytearray, u64) action" where
  "readInt64 = bindE readUint64 (\<lambda>v. returnE (DecodeZigzag64 v))"

definition readFloat :: "byte_order \<Rightarrow> (bytearray, u32) action" where
  "readFloat host = readFuint32 host"

definition readDouble :: "byte_order \<Rightarrow> (bytearray, u64) action" where
  "readDouble host = readFuint64 host"

definition readStringF16 :: "byte_order \<Rightarrow> (bytearray, bytes) action" where
  "readStringF16 host = bindE (readFuint16 host) (\<lambda>len. read_bytes (unat len))"

definition readStringF32 :: "byte_order \<Rightarrow> (bytearray, bytes) action" where
  "readStringF32 host = bindE (readFuint32 host) (\<lambda>len. read_bytes (unat len))"

definition readStringF64 :: "byte_order \<Rightarrow> (bytearray, bytes) action" where
  "readStringF64 host = bindE (readFuint64 host) (\<lambda>len. read_bytes (unat len))"

definition readStringVint :: "(bytearray, bytes) action" where
  "readStringVint = bindE readUint64 (\<lambda>len. read_bytes (unat len))"

section \<open>Fixed-width integers\<close>

text \<open>
  On the wire a fixed-width integer is its memory image on a machine of the object's byte order:
  \<open>mem (m_endian ba) n v\<close>, whatever machine writes or reads it.
\<close>

lemma mem_in_order:
  assumes "LENGTH('a::len) = 8 * n"
  shows "mem host n (if m \<noteq> host then bswap n v else v) = mem m n (v :: 'a word)"
  using assms by (cases m; cases host) (simp_all add: mem_def le_bytes_bswap)

lemma of_mem_in_order:
  assumes "LENGTH('a::len) = 8 * n"
  shows "(if m = host then of_mem host (mem m n v) else bswap n (of_mem host (mem m n v))) =
         (v :: 'a word)"
  using assms by (cases m; cases host) (simp_all add: mem_def of_mem_def bswap_def)

lemma writes_fixed:
  assumes "LENGTH('a::len) = 8 * n"
  shows "ba.writes m (\<lambda>ba. write_bytes (mem host n (if m_endian ba \<noteq> host then bswap n v else v)) ba)
           (mem m n (v :: 'a word))"
  unfolding ba.writes_def
proof (intro allI impI, elim conjE)
  fix s assume s: "wf_ba s" "m_endian s = m"
  have eq: "mem host n (if m_endian s \<noteq> host then bswap n v else v) = mem m n v"
    using mem_in_order [OF assms, of host m v] s(2) by simp
  show "\<exists>s'. write_bytes (mem host n (if m_endian s \<noteq> host then bswap n v else v)) s = (Inr (), s') \<and>
      wf_ba s' \<and> contents s' = store (m_position s) (mem m n v) (contents s) \<and>
      m_position s' = m_position s + length (mem m n v) \<and> m_capacity s \<le> m_capacity s' \<and>
      m_endian s' = m"
    unfolding eq by (rule ba.writesD [OF ba.writes_put [of _ "mem m n v"] s]) blast
qed

lemma reads_fixed:
  assumes "LENGTH('a::len) = 8 * n" "0 < n"
  shows "ba.reads False m (read_fixed host n (bswap n)) (mem m n v) (v :: 'a word)"
proof -
  let ?k = "\<lambda>bs ba. let v = of_mem host bs in
      (Inr (if m_endian ba = host then v else bswap n v :: 'a word), ba :: bytearray)"
  have "ba.reads False m (?k (mem m n v)) [] v"
    using of_mem_in_order [OF assms(1), of m host v] by (auto simp: ba.reads_def)
  moreover have "mem m n v \<noteq> []" using assms(2) by (metis length_mem list.size(3) less_irrefl)
  then have "ba.reads False m (read_bytes n) (mem m n v) (mem m n v)"
    using ba.reads_get [of "mem m n v" m] by simp
  ultimately show ?thesis
    using ba.reads_bind [of False m "read_bytes n" "mem m n v" "mem m n v" False ?k "[]" v]
    by (simp add: read_fixed_def)
qed

named_theorems ba_writes "what the writers put on the wire"
named_theorems ba_reads "what the readers make of it"

lemma writes_F8 [ba_writes]:
  "ba.writes m (writeFint8 v) [v]" "ba.writes m (writeFuint8 v) [v]"
  by (simp_all add: writeFint8_def writeFuint8_def ba.writes_put)

lemma writes_F16 [ba_writes]:
  "ba.writes m (writeFint16 host v) (mem m 2 v)" "ba.writes m (writeFuint16 host v) (mem m 2 v)"
  unfolding writeFint16_def [abs_def] writeFuint16_def [abs_def] Let_def byteswap16_def
  by (rule writes_fixed, simp)+

lemma writes_F32 [ba_writes]:
  "ba.writes m (writeFint32 host v) (mem m 4 v)" "ba.writes m (writeFuint32 host v) (mem m 4 v)"
  unfolding writeFint32_def [abs_def] writeFuint32_def [abs_def] Let_def byteswap32_def
  by (rule writes_fixed, simp)+

lemma writes_F64 [ba_writes]:
  "ba.writes m (writeFint64 host v) (mem m 8 v)" "ba.writes m (writeFuint64 host v) (mem m 8 v)"
  unfolding writeFint64_def [abs_def] writeFuint64_def [abs_def] Let_def byteswap64_def
  by (rule writes_fixed, simp)+

lemma reads_F8 [ba_reads]: "ba.reads False m readFint8 [v] v" "ba.reads False m readFuint8 [v] v"
proof -
  have "ba.reads False m (read_bytes 1) [v] [v]" using ba.reads_get [of "[v]" m] by simp
  then have "ba.reads False m (bindE (read_bytes 1) (\<lambda>bs. returnE (hd bs))) [v] (hd [v])"
    by (rule ba.reads_map)
  then show "ba.reads False m readFint8 [v] v" "ba.reads False m readFuint8 [v] v"
    by (simp_all add: readFint8_def readFuint8_def)
qed

lemma reads_F16 [ba_reads]:
  "ba.reads False m (readFint16 host) (mem m 2 v) v" "ba.reads False m (readFuint16 host) (mem m 2 v) v"
  using reads_fixed [of 2 m host v]
  by (simp_all add: readFint16_def readFuint16_def byteswap16_def [abs_def] read_fixed_def)

lemma reads_F32 [ba_reads]:
  "ba.reads False m (readFint32 host) (mem m 4 v) v" "ba.reads False m (readFuint32 host) (mem m 4 v) v"
  using reads_fixed [of 4 m host v]
  by (simp_all add: readFint32_def readFuint32_def byteswap32_def [abs_def] read_fixed_def)

lemma reads_F64 [ba_reads]:
  "ba.reads False m (readFint64 host) (mem m 8 v) v" "ba.reads False m (readFuint64 host) (mem m 8 v) v"
  using reads_fixed [of 8 m host v]
  by (simp_all add: readFint64_def readFuint64_def byteswap64_def [abs_def] read_fixed_def)

section \<open>Zigzag\<close>

lemma bit_times_2:
  "bit (v * 2 :: 'a::len word) n \<longleftrightarrow> n \<noteq> 0 \<and> n < LENGTH('a) \<and> bit v (n - 1)"
  using bit_double_iff [of v n] by (auto simp: mult.commute)

lemma zigzag_nonneg:
  fixes v :: "'a::len word"
  assumes "\<not> bit v (LENGTH('a) - 1)"
  shows "drop_bit 1 (v * 2) XOR - (v * 2 AND 1) = v"
proof -
  have even: "v * 2 AND 1 = 0" by (rule bit_word_eqI) (auto simp: bit_simps bit_times_2)
  have "drop_bit 1 (v * 2) = v"
  proof (rule bit_word_eqI)
    fix k assume k: "k < LENGTH('a)"
    show "bit (drop_bit 1 (v * 2)) k \<longleftrightarrow> bit v k"
      using assms k by (cases "k = LENGTH('a) - 1") (auto simp: bit_simps bit_times_2)
  qed
  then show ?thesis unfolding even by simp
qed

lemma zigzag_neg:
  fixes v :: "'a::len word"
  assumes "bit v (LENGTH('a) - 1)"
  shows "drop_bit 1 ((- v) * 2 - 1) XOR - (((- v) * 2 - 1) AND 1) = v"
proof -
  have e: "(- v) * 2 - 1 = NOT (v * 2)" by (simp add: not_eq_complement)
  have odd: "NOT (v * 2) AND 1 = 1" by (rule bit_word_eqI) (auto simp: bit_simps bit_times_2)
  have "drop_bit 1 (NOT (v * 2)) XOR - 1 = v"
  proof (rule bit_word_eqI)
    fix k assume k: "k < LENGTH('a)"
    show "bit (drop_bit 1 (NOT (v * 2)) XOR - 1) k \<longleftrightarrow> bit v k"
      using assms k by (cases "k = LENGTH('a) - 1") (auto simp: bit_simps bit_times_2)
  qed
  then show ?thesis unfolding e odd .
qed

lemma DecodeZigzag32_Encode: "EncodeZigzag32 v = Inr u \<Longrightarrow> DecodeZigzag32 u = v"
  using zigzag_nonneg [of v] zigzag_neg [of v] bit_last_iff [of v]
  by (auto simp: DecodeZigzag32_def EncodeZigzag32_def split: if_splits)

lemma DecodeZigzag64_Encode: "EncodeZigzag64 v = Inr u \<Longrightarrow> DecodeZigzag64 u = v"
  using zigzag_nonneg [of v] zigzag_neg [of v] bit_last_iff [of v]
  by (auto simp: DecodeZigzag64_def EncodeZigzag64_def split: if_splits)

lemma EncodeZigzag_defined:
  "- (2 ^ 31) < sint a \<Longrightarrow> sint a < 2 ^ 30 \<Longrightarrow> \<exists>u. EncodeZigzag32 a = Inr u"
  "- (2 ^ 63) < sint b \<Longrightarrow> sint b < 2 ^ 62 \<Longrightarrow> \<exists>u. EncodeZigzag64 b = Inr u"
  by (auto simp: EncodeZigzag32_def EncodeZigzag64_def)

section \<open>Variable-length integers\<close>

lemma less_128_iff: "8 \<le> LENGTH('a) \<Longrightarrow> (x :: 'a::len word) < 0x80 \<longleftrightarrow> take_bit 7 x = x"
proof -
  assume l: "8 \<le> LENGTH('a)"
  have "unat (0x80 :: 'a word) = 128"
  proof -
    have "(128::nat) < 2 ^ 8" by simp
    also have "(2::nat) ^ 8 \<le> 2 ^ LENGTH('a)" using l by (intro power_increasing) auto
    finally show ?thesis by (simp add: take_bit_nat_eq_self_iff)
  qed
  then have "x < 0x80 \<longleftrightarrow> unat x < 2 ^ 7" by (simp add: word_less_nat_alt)
  also have "\<dots> \<longleftrightarrow> take_bit 7 (unat x) = unat x" by (simp add: take_bit_nat_eq_self_iff)
  also have "\<dots> \<longleftrightarrow> take_bit 7 x = x" by (metis unsigned_take_bit_eq word_unat_eq_iff)
  finally show ?thesis .
qed

lemma and_7F: "8 \<le> LENGTH('a) \<Longrightarrow> (x :: 'a::len word) AND 0x7F = take_bit 7 x"
  using take_bit_eq_mask [of 7 x] by (simp add: mask_eq_exp_minus_1)

lemma take_bit_7_iff: "take_bit 7 x = x \<longleftrightarrow> (\<forall>k \<ge> 7. \<not> bit (x :: 'a::len word) k)"
  by (metis bit_take_bit_iff bit_word_eqI not_le)

lemma bit_80: "8 \<le> LENGTH('a) \<Longrightarrow> bit (0x80 :: 'a::len word) k \<longleftrightarrow> k = 7"
  using bit_exp_iff [of 7 k, where ?'a = "'a word"] by auto

lemma varint_loop_enough:
  assumes "8 \<le> LENGTH('a::len)" "take_bit (7 * Suc slots) x = (x :: 'a word)"
  shows "\<exists>tmp. varint_loop (Suc slots) x = Some tmp \<and> tmp \<noteq> [] \<and> length tmp \<le> Suc slots"
  using assms(2)
proof (induction slots arbitrary: x)
  case 0
  then have "x < 0x80" using less_128_iff [OF assms(1), of x] by simp
  then show ?case by simp
next
  case (Suc slots)
  have "take_bit (7 * Suc slots) (drop_bit 7 x) = drop_bit 7 x"
    using Suc.prems by (metis add.commute drop_bit_take_bit mult_Suc_right diff_add_inverse)
  then obtain tmp where "varint_loop (Suc slots) (drop_bit 7 x) = Some tmp" "length tmp \<le> Suc slots"
    using Suc.IH by blast
  then show ?case by (simp del: varint_loop.simps(2) add: varint_loop.simps(2) [of "Suc slots" x])
qed

lemma continuation_byte:
  fixes x :: "'a::len word"
  assumes "8 \<le> LENGTH('a)"
  defines "b \<equiv> (ucast (x AND 0x7F) OR 0x80 :: byte)"
  shows "\<not> b < 0x80" "ucast (b AND 0x7F) = take_bit 7 x"
proof -
  have "bit b 7" unfolding b_def by (simp add: bit_or_iff bit_80)
  then show "\<not> b < 0x80" using less_128_iff [of b] take_bit_7_iff [of b] by auto
  show "ucast (b AND 0x7F) = take_bit 7 x"
    unfolding b_def using assms(1)
    by (intro bit_word_eqI) (auto simp: and_7F bit_simps bit_80)
qed

lemma reads_varint_loop:
  fixes v :: "'a::len word"
  assumes "8 \<le> LENGTH('a)" "i < LENGTH('a)" "varint_loop slots (drop_bit i v) = Some tmp"
  shows "ba.reads False m (readVar_loop LENGTH('a) i (take_bit i v)) tmp v"
  using assms(2,3)
proof (induction slots arbitrary: i tmp)
  case 0
  then show ?case by simp
next
  case (Suc slots)
  let ?x = "drop_bit i v"
  show ?case
  proof (cases "0x80 \<le> ?x")
    case True
    let ?b = "ucast (?x AND 0x7F) OR 0x80 :: byte"
    obtain tmp' where tmp: "tmp = ?b # tmp'" "varint_loop slots (drop_bit (i + 7) v) = Some tmp'"
      using Suc.prems(2) True by (auto simp: drop_bit_drop_bit add.commute)
    have "i + 7 < LENGTH('a)"
    proof (rule ccontr)
      assume "\<not> i + 7 < LENGTH('a)"
      then have "take_bit 7 ?x = ?x" by (auto simp: take_bit_7_iff bit_simps dest: bit_imp_le_length)
      then show False using True less_128_iff [OF assms(1), of ?x] by simp
    qed
    then have IH: "ba.reads False m (readVar_loop LENGTH('a) (i + 7) (take_bit (i + 7) v)) tmp' v"
      using tmp(2) by (rule Suc.IH)
    have "take_bit i v OR push_bit i (take_bit 7 ?x) = take_bit (i + 7) v"
      by (rule bit_word_eqI) (auto simp: bit_simps)
    then have "ba.reads False m
        (if ?b < 0x80 then returnE (take_bit i v OR push_bit i (ucast ?b))
         else readVar_loop LENGTH('a) (i + 7) (take_bit i v OR push_bit i (ucast (?b AND 0x7F)))) tmp' v"
      using IH continuation_byte [OF assms(1), of ?x] by simp
    from ba.reads_bind [OF reads_F8(2) [of m ?b], of False "\<lambda>b. if b < 0x80
         then returnE (take_bit i v OR push_bit i (ucast b))
         else readVar_loop LENGTH('a) (i + 7) (take_bit i v OR push_bit i (ucast (b AND 0x7F)))",
        OF this]
    show ?thesis using Suc.prems(1) tmp(1) by (simp add: readVar_loop.simps [of _ i])
  next
    case False
    then have x: "?x < 0x80" by simp
    then have tb: "take_bit 7 ?x = ?x" using less_128_iff [OF assms(1), of ?x] by simp
    have tmp: "tmp = [ucast ?x]" using Suc.prems(2) False by simp
    have "take_bit 7 (ucast ?x :: byte) = ucast ?x"
      using tb by (auto simp: take_bit_7_iff bit_simps)
    then have b: "(ucast ?x :: byte) < 0x80" using less_128_iff [of "ucast ?x :: byte"] by simp
    have "take_bit i v OR push_bit i (ucast (ucast ?x :: byte)) = v"
    proof (rule bit_word_eqI)
      fix k assume k: "k < LENGTH('a)"
      have "\<forall>j \<ge> 7. \<not> bit ?x j" using tb take_bit_7_iff [of ?x] by simp
      then have "j - i < 8" if "i \<le> j" "bit v j" for j
        using that by (force simp: bit_simps dest: spec [of _ "j - i"])
      then show "bit (take_bit i v OR push_bit i (ucast (ucast ?x :: byte))) k \<longleftrightarrow> bit v k"
        using k by (auto simp: bit_simps)
    qed
    then have "ba.reads False m
        (if (ucast ?x :: byte) < 0x80 then returnE (take_bit i v OR push_bit i (ucast (ucast ?x :: byte)))
         else readVar_loop LENGTH('a) (i + 7) (take_bit i v OR push_bit i (ucast ((ucast ?x :: byte) AND 0x7F)))) [] v"
      using b by (simp add: ba.reads_return)
    from ba.reads_bind [OF reads_F8(2) [of m "ucast ?x"], of False "\<lambda>b. if b < 0x80
         then returnE (take_bit i v OR push_bit i (ucast b))
         else readVar_loop LENGTH('a) (i + 7) (take_bit i v OR push_bit i (ucast (b AND 0x7F)))",
        OF this]
    show ?thesis using Suc.prems(1) tmp by (simp add: readVar_loop.simps [of _ i])
  qed
qed

definition varint :: "nat \<Rightarrow> 'a::len word \<Rightarrow> bytes" where
  "varint slots x = the (varint_loop slots x)"

lemma varint32: "varint_loop 5 (x :: u32) = Some (varint 5 x) \<and> varint 5 x \<noteq> [] \<and> length (varint 5 x) \<le> 5"
proof -
  have five: "(5::nat) = Suc 4" by simp
  show ?thesis
    unfolding five varint_def using varint_loop_enough [of 4 x] by (force simp: take_bit_word_eq_self)
qed

lemma varint64: "varint_loop 10 (x :: u64) = Some (varint 10 x) \<and> varint 10 x \<noteq> [] \<and> length (varint 10 x) \<le> 10"
proof -
  have ten: "(10::nat) = Suc 9" by simp
  show ?thesis
    unfolding ten varint_def using varint_loop_enough [of 9 x] by (force simp: take_bit_word_eq_self)
qed

lemma writes_varint [ba_writes]:
  "ba.writes m (writeUint32 v) (varint 5 v)" "ba.writes m (writeUint64 w) (varint 10 w)"
  using varint32 varint64 by (simp_all add: writeUint32_def writeUint64_def ba.writes_put)

lemma writes_Int:
  "EncodeZigzag32 v = Inr u \<Longrightarrow> ba.writes m (writeInt32 v) (varint 5 u)" "EncodeZigzag64 w = Inr x \<Longrightarrow> ba.writes m (writeInt64 w) (varint 10 x)"
  by (simp_all add: writeInt32_def writeInt64_def writes_varint)

lemma reads_Uint [ba_reads]:
  "ba.reads False m readUint32 (varint 5 v) v" "ba.reads False m readUint64 (varint 10 w) w"
  using reads_varint_loop [of 0 5 v "varint 5 v" m] reads_varint_loop [of 0 10 w "varint 10 w" m]
    varint32 varint64
  by (simp_all add: readUint32_def readUint64_def)

lemma reads_Int:
  "EncodeZigzag32 v = Inr u \<Longrightarrow> ba.reads False m readInt32 (varint 5 u) v"
  "EncodeZigzag64 w = Inr x \<Longrightarrow> ba.reads False m readInt64 (varint 10 x) w"
  unfolding readInt32_def readInt64_def
  using ba.reads_map [OF reads_Uint(1) [of m u], of DecodeZigzag32] ba.reads_map [OF reads_Uint(2) [of m x], of DecodeZigzag64]
    DecodeZigzag32_Encode DecodeZigzag64_Encode by simp_all

section \<open>Strings\<close>

text \<open>A length prefix written by \<open>w\<close> and read by \<open>g\<close>, followed by the bytes themselves.\<close>

lemma writes_string:
  assumes "ba.writes m w hd'"
  shows "ba.writes m (bindE w (\<lambda>_. write_bytes str)) (hd' @ str)"
  using assms ba.writes_put by (rule ba.writes_bind)

lemma reads_string:
  assumes "ba.reads False m g hd' len" "unat len = length str"
  shows "ba.reads (str = []) m (bindE g (\<lambda>len. read_bytes (unat len))) (hd' @ str) str"
  using ba.reads_bind [OF assms(1), of "str = []" "\<lambda>len. read_bytes (unat len)" str str]
    ba.reads_get [of str m] assms(2) by simp

lemma writes_strings [ba_writes]:
  "ba.writes m (writeStringF16 host str) (mem m 2 (of_nat (length str) :: u16) @ str)"
  "ba.writes m (writeStringF32 host str) (mem m 4 (of_nat (length str) :: u32) @ str)"
  "ba.writes m (writeStringF64 host str) (mem m 8 (of_nat (length str) :: u64) @ str)"
  "ba.writes m (writeStringVint str) (varint 10 (of_nat (length str) :: u64) @ str)"
  "ba.writes m (writeStringWithoutLength str) str"
  unfolding writeStringF16_def writeStringF32_def writeStringF64_def writeStringVint_def
    writeStringWithoutLength_def
  by (rule writes_string writes_F16 writes_F32 writes_F64 writes_varint ba.writes_put)+

lemma unat_of_nat_length: "length str < 2 ^ LENGTH('a::len) \<Longrightarrow> unat (of_nat (length str) :: 'a word) = length str"
  by (simp add: unat_of_nat)

lemma reads_strings [ba_reads]:
  "length str < 2 ^ 16 \<Longrightarrow>
     ba.reads (str = []) m (readStringF16 host) (mem m 2 (of_nat (length str) :: u16) @ str) str"
  "length str < 2 ^ 32 \<Longrightarrow>
     ba.reads (str = []) m (readStringF32 host) (mem m 4 (of_nat (length str) :: u32) @ str) str"
  "length str < 2 ^ 64 \<Longrightarrow>
     ba.reads (str = []) m (readStringF64 host) (mem m 8 (of_nat (length str) :: u64) @ str) str"
  "length str < 2 ^ 64 \<Longrightarrow>
     ba.reads (str = []) m readStringVint (varint 10 (of_nat (length str) :: u64) @ str) str"
  unfolding readStringF16_def readStringF32_def readStringF64_def readStringVint_def
  by (rule reads_string, rule reads_F16 reads_F32 reads_F64 reads_Uint,
      simp add: unat_of_nat_length)+

section \<open>Round trips\<close>

text \<open>Writing with \<open>w\<close>, seeking back to where the write began and reading with \<open>g\<close> returns
  \<open>a\<close> and leaves the cursor behind what was written, without touching the content.\<close>

definition roundtrips ::
  "(bytearray, unit) action \<Rightarrow> (bytearray, 'a) action \<Rightarrow> 'a \<Rightarrow> bytearray \<Rightarrow> bool" where
  "roundtrips w g a ba \<longleftrightarrow>
     (\<exists>ba1 ba2 ba3. w ba = (Inr (), ba1) \<and> setPosition (m_position ba) ba1 = (Inr (), ba2) \<and>
        g ba2 = (Inr a, ba3) \<and> m_position ba3 = m_position ba1 \<and> contents ba3 = contents ba1 \<and>
        wf_ba ba3)"

lemma roundtripsI:
  assumes w: "ba.writes (m_endian ba) w bs" and g: "ba.reads z (m_endian ba) g bs a" and s: "wf_ba ba"
    and z: "\<And>ba'. w ba = (Inr (), ba') \<Longrightarrow> z \<Longrightarrow> m_position ba + length bs < m_capacity ba'"
  shows "roundtrips w g a ba"
proof -
  obtain s1 where s1: "w ba = (Inr (), s1)" "contents s1 = store (m_position ba) bs (contents ba)"
      "m_position s1 = m_position ba + length bs"
    using ba.writesD [OF w s refl] by metis
  show ?thesis
    using ba.write_seek_read [OF w g s refl z] s1 unfolding roundtrips_def by force
qed

lemma roundtrips_plain:
  "ba.writes (m_endian ba) w bs \<Longrightarrow> ba.reads False (m_endian ba) g bs a \<Longrightarrow> wf_ba ba \<Longrightarrow>
   roundtrips w g a ba"
  by (rule roundtripsI) auto

section \<open>Properties\<close>

text \<open>
  (C16) Fixed-width integers: what one machine writes at the cursor, any machine reads back after
  seeking to where the write began, whatever the byte orders of the two machines and of the object,
  and whatever block size the object has.
\<close>

theorem fixed_width_roundtrip:
  assumes "wf_ba ba"
  shows "roundtrips (writeFint8 a) readFint8 a ba \<and> roundtrips (writeFuint8 a) readFuint8 a ba \<and>
    roundtrips (writeFint16 h b) (readFint16 h') b ba \<and> roundtrips (writeFuint16 h b) (readFuint16 h') b ba \<and>
    roundtrips (writeFint32 h c) (readFint32 h') c ba \<and> roundtrips (writeFuint32 h c) (readFuint32 h') c ba \<and>
    roundtrips (writeFint64 h d) (readFint64 h') d ba \<and> roundtrips (writeFuint64 h d) (readFuint64 h') d ba \<and>
    roundtrips (writeFloat h c) (readFloat h') c ba \<and> roundtrips (writeDouble h d) (readDouble h') d ba"
  unfolding writeFloat_def readFloat_def writeDouble_def readDouble_def
  by (intro conjI) (rule roundtrips_plain [OF _ _ assms], rule ba_writes, rule ba_reads)+

theorem fixed_width_roundtrip_witness:
  "wf_ba (new_ByteArray 3) \<and>
   roundtrips (writeFuint32 SYLAR_LITTLE_ENDIAN 305419896) (readFuint32 SYLAR_BIG_ENDIAN) 305419896
     (new_ByteArray 3)"
  using fixed_width_roundtrip [OF wf_new_ByteArray [of 3]] wf_new_ByteArray [of 3] by simp

lemma zigzag_roundtrips:
  assumes "wf_ba ba"
  shows "- (2 ^ 31) < sint a \<Longrightarrow> sint a < 2 ^ 30 \<Longrightarrow> roundtrips (writeInt32 a) readInt32 a ba"
    "- (2 ^ 63) < sint b \<Longrightarrow> sint b < 2 ^ 62 \<Longrightarrow> roundtrips (writeInt64 b) readInt64 b ba"
  using EncodeZigzag_defined(1) [of a] EncodeZigzag_defined(2) [of b] roundtrips_plain [OF writes_Int(1) reads_Int(1) assms] roundtrips_plain [OF writes_Int(2) reads_Int(2) assms]
  by blast+



text \<open>Outside that range the coding is undefined.\<close>

lemma zigzag_overflow: "writeInt32 0x40000000 ba = (Inl Undefined, ba)" "writeInt32 0x80000000 ba = (Inl Undefined, ba)"
  by (simp_all add: writeInt32_def EncodeZigzag32_def throwE_def)



text \<open>
  The empty string is the exception: when its length prefix fills the last block exactly,
  \<^verbatim>\<open>readStringF16\<close> follows the null \<^verbatim>\<open>m_cur\<close> although the prefix and the zero bytes after it
  were all written.
\<close>

theorem empty_string_at_block_end:
  "\<exists>ba1 ba2 ba3. writeStringF16 h [] (new_ByteArray 2) = (Inr (), ba1) \<and>
     setPosition 0 ba1 = (Inr (), ba2) \<and> readStringF16 h' ba2 = (Inl NullDeref, ba3)"
proof -
  let ?z = "new_ByteArray 2"
  have m: "m_endian ?z = SYLAR_BIG_ENDIAN" "m_position ?z = 0" "m_capacity ?z = 2" "contents ?z = []"
    by (simp_all add: new_ByteArray_def contents_def)
  have wf: "wf_ba ?z" by (simp add: wf_new_ByteArray)
  let ?len = "mem SYLAR_BIG_ENDIAN 2 (0 :: u16)"
  obtain s1 where s1: "writeFuint16 h 0 ?z = (Inr (), s1)" "wf_ba s1" "m_position s1 = 2"
      "contents s1 = ?len" "m_endian s1 = SYLAR_BIG_ENDIAN"
    by (rule ba.writesD [OF writes_F16(2) [of "SYLAR_BIG_ENDIAN" h 0] wf m(1)])
      (use m in \<open>auto simp: store_def\<close>)
  have cap: "m_capacity s1 = 2"
  proof -
    have "m_capacity (addCapacity 2 ?z) = 2"
      by (simp add: addCapacity_def getCapacity_def new_ByteArray_def)
    then show ?thesis using s1(1)
      by (auto simp: writeFuint16_def write_bytes_def Let_def mem_def le_bytes_def
          split: option.splits prod.splits byte_order.splits if_splits)
  qed
  obtain s2 where s2: "setPosition 0 s1 = (Inr (), s2)" "wf_ba s2" "contents s2 = ?len"
      "m_position s2 = 0" "m_endian s2 = SYLAR_BIG_ENDIAN" "m_capacity s2 = 2"
    using ba.seek_law [OF s1(2), of 0] s1 cap by auto
  obtain s3 where "readFuint16 h' s2 = (Inr 0, s3)" "wf_ba s3" "m_position s3 = 2" "m_capacity s3 = 2"
    by (rule ba.readsD [OF reads_F16(2) [of SYLAR_BIG_ENDIAN h' 0] s2(2,5)]) (use s2 in auto)
  then have "readStringF16 h' s2 = (Inl NullDeref, s3)"
    by (simp add: readStringF16_def action_simps read_bytes_at_capacity)
  moreover have "writeStringF16 h [] ?z = (Inr (), s1)"
    using s1(1) by (simp add: writeStringF16_def action_simps write_bytes_def)
  ultimately show ?thesis using s2(1) by blast
qed


end
