(* ===== verification/DsUtil.thy ===== *)
theory DsUtil
  imports Prelude
begin

text \<open>
  \<^verbatim>\<open>sylar/ds/util.h\<close>, \<^verbatim>\<open>sylar/ds/util.cc\<close> and the array helpers of \<^verbatim>\<open>sylar/util.h\<close>: binary
  search (both the iterator and the index variant), the insertion step \<^verbatim>\<open>SortLast\<close>, the bucket
  count \<^verbatim>\<open>basket\<close>, \<^verbatim>\<open>Slice\<close>, \<^verbatim>\<open>Join\<close> and the table of primes. Comparisons are an argument
  \<open>lt\<close>, the \<^verbatim>\<open>operator<\<close> of the element type.
\<close>

section \<open>Searching sorted sequences\<close>

text \<open>
  \<^verbatim>\<open>std::lower_bound\<close> and \<^verbatim>\<open>std::upper_bound\<close> halve the range until the first element that
  fails the predicate is found.
\<close>

function bound_loop :: "('a \<Rightarrow> bool) \<Rightarrow> 'a list \<Rightarrow> nat \<Rightarrow> nat \<Rightarrow> nat" where
  "bound_loop p xs first len =
     (if len = 0 then first
      else let half = len div 2; middle = first + half in
        if p (xs ! middle) then bound_loop p xs (middle + 1) (len - half - 1)
        else bound_loop p xs first half)"
  by pat_completeness auto
termination
  by (relation "measure (\<lambda>(p, xs, first, len). len)") auto

declare bound_loop.simps [simp del]

definition lower_bound :: "('a \<Rightarrow> 'a \<Rightarrow> bool) \<Rightarrow> 'a list \<Rightarrow> 'a \<Rightarrow> nat" where
  "lower_bound lt xs v = bound_loop (\<lambda>x. lt x v) xs 0 (length xs)"

definition upper_bound :: "('a \<Rightarrow> 'a \<Rightarrow> bool) \<Rightarrow> 'a list \<Rightarrow> 'a \<Rightarrow> nat" where
  "upper_bound lt xs v = bound_loop (\<lambda>x. \<not> lt v x) xs 0 (length xs)"

text \<open>\<^verbatim>\<open>ds::BinarySearch\<close>: the index of an element equivalent to \<open>v\<close>, or the end.\<close>

definition BinarySearch :: "('a \<Rightarrow> 'a \<Rightarrow> bool) \<Rightarrow> 'a list \<Rightarrow> 'a \<Rightarrow> nat" where
  "BinarySearch lt xs v =
     (let tmp = lower_bound lt xs v in
      if tmp = length xs then tmp
      else if \<not> lt v (xs ! tmp) then tmp
      else length xs)"

text \<open>\<^verbatim>\<open>sylar::BinarySearch\<close> on an array: a missing element gives \<^verbatim>\<open>-begin - 1\<close>.\<close>

function search_loop :: "('a \<Rightarrow> 'a \<Rightarrow> bool) \<Rightarrow> 'a list \<Rightarrow> 'a \<Rightarrow> int \<Rightarrow> int \<Rightarrow> int" where
  "search_loop lt arr v lo hi =
     (if lo \<le> hi then
        let m = (lo + hi) div 2 in
        if lt v (arr ! nat m) then search_loop lt arr v lo (m - 1)
        else if lt (arr ! nat m) v then search_loop lt arr v (m + 1) hi
        else m
      else - lo - 1)"
  by pat_completeness auto
termination
  by (relation "measure (\<lambda>(lt, arr, v, lo, hi). nat (hi + 1 - lo))") auto

declare search_loop.simps [simp del]

definition BinarySearch_arr :: "('a \<Rightarrow> 'a \<Rightarrow> bool) \<Rightarrow> 'a list \<Rightarrow> 'a \<Rightarrow> int" where
  "BinarySearch_arr lt arr v = search_loop lt arr v 0 (int (length arr) - 1)"

section \<open>Insertion step\<close>

fun sort_last_loop :: "('a \<Rightarrow> 'a \<Rightarrow> bool) \<Rightarrow> 'a list \<Rightarrow> nat \<Rightarrow> 'a list" where
  "sort_last_loop lt xs 0 = xs"
| "sort_last_loop lt xs (Suc i) =
     (if lt (xs ! Suc i) (xs ! i)
      then sort_last_loop lt (xs[Suc i := xs ! i, i := xs ! Suc i]) i
      else xs)"

definition SortLast :: "('a \<Rightarrow> 'a \<Rightarrow> bool) \<Rightarrow> 'a list \<Rightarrow> 'a list" where
  "SortLast lt xs = (if length xs \<le> 1 then xs else sort_last_loop lt xs (length xs - 1))"

section \<open>Bucket count\<close>

text \<open>
  \<^verbatim>\<open>basket\<close>: \<^verbatim>\<open>1 << min((int)(floor(log2(abs(n))) + 1), 30)\<close>. For \<open>n = 0\<close> the
  logarithm is minus infinity, whose conversion to \<^verbatim>\<open>int\<close> is undefined, as is
  \<^verbatim>\<open>abs(INT_MIN)\<close>. A wider argument is first narrowed to \<^verbatim>\<open>int\<close>.
\<close>

fun floor_log2 :: "nat \<Rightarrow> nat" where
  "floor_log2 n = (if n \<le> 1 then 0 else Suc (floor_log2 (n div 2)))"

declare floor_log2.simps [simp del]

definition to_int32 :: "nat \<Rightarrow> int" where
  "to_int32 n = (int n + 2 ^ 31) mod 2 ^ 32 - 2 ^ 31"

definition basket :: "int \<Rightarrow> failure + nat" where
  "basket n = (if n = 0 \<or> n = - (2 ^ 31) then Inl Undefined
               else Inr (2 ^ min (floor_log2 (nat \<bar>n\<bar>) + 1) 30))"

section \<open>Slices and joins\<close>

function slice_loop :: "'a list list \<Rightarrow> 'a list \<Rightarrow> nat \<Rightarrow> 'a list list option" where
  "slice_loop dst src sz =
     (if sz < length src
      then if sz = 0 then None else slice_loop (dst @ [take sz src]) (drop sz src) sz
      else if 0 < length src then Some (dst @ [src]) else Some dst)"
  by pat_completeness auto
termination
  by (relation "measure (\<lambda>(dst, src, sz). length src)") auto

declare slice_loop.simps [simp del]

text \<open>\<^verbatim>\<open>Slice\<close>: \<open>src\<close> is the part from \<^verbatim>\<open>pos\<close> on and its length is \<^verbatim>\<open>left\<close>; with
  \<^verbatim>\<open>size\<close> 0 and a non-empty source the loop never ends (\<open>None\<close>).\<close>

definition Slice :: "'a list list \<Rightarrow> 'a list \<Rightarrow> nat \<Rightarrow> 'a list list option" where
  "Slice dst src sz = slice_loop dst src sz"

primrec join_loop :: "string list \<Rightarrow> string \<Rightarrow> string" where
  "join_loop [] tag = []"
| "join_loop (s # ss) tag = tag @ s @ join_loop ss tag"

definition Join :: "string list \<Rightarrow> string \<Rightarrow> string" where
  "Join ss tag = (case ss of [] \<Rightarrow> [] | s # rest \<Rightarrow> s @ join_loop rest tag)"

section \<open>Lemmas on the searches\<close>

lemma bound_loop_correct:
  assumes "first + len \<le> length xs" "c \<le> length xs" "first \<le> c" "c \<le> first + len"
    and "\<And>i. i < length xs \<Longrightarrow> p (xs ! i) \<longleftrightarrow> i < c"
  shows "bound_loop p xs first len = c"
  using assms
proof (induction p xs first len rule: bound_loop.induct)
  case (1 p xs first len)
  show ?case
  proof (cases "len = 0")
    case True
    then show ?thesis using "1.prems" by (simp add: bound_loop.simps)
  next
    case False
    let ?m = "first + len div 2"
    have m: "?m < length xs" using False "1.prems" by linarith
    show ?thesis
    proof (cases "p (xs ! ?m)")
      case True
      then have "?m < c" using "1.prems"(5) m by blast
      then show ?thesis using False True "1.IH"(1) [OF False refl refl True] "1.prems"
        by (subst bound_loop.simps) (simp add: Let_def)
    next
      case npm: False
      then have "c \<le> ?m" using "1.prems"(5) m by (meson not_le)
      then show ?thesis using False npm "1.IH"(2) [OF False refl refl npm] "1.prems" m
        by (subst bound_loop.simps) (simp add: Let_def)
    qed
  qed
qed

lemma bound_takeWhile:
  assumes "\<And>i j. i < j \<Longrightarrow> j < length xs \<Longrightarrow> p (xs ! j) \<Longrightarrow> p (xs ! i)"
  shows "bound_loop p xs 0 (length xs) = length (takeWhile p xs)"
proof (rule bound_loop_correct)
  fix i assume i: "i < length xs"
  show "p (xs ! i) \<longleftrightarrow> i < length (takeWhile p xs)"
  proof
    assume p: "p (xs ! i)"
    show "i < length (takeWhile p xs)"
    proof (rule ccontr)
      assume "\<not> i < length (takeWhile p xs)"
      then have l: "length (takeWhile p xs) \<le> i" by simp
      then have np: "\<not> p (xs ! length (takeWhile p xs))"
        using i by (intro nth_length_takeWhile) simp
      then have "length (takeWhile p xs) \<noteq> i" using p by auto
      then show False using assms [of "length (takeWhile p xs)" i] l i p np by simp
    qed
  next
    assume "i < length (takeWhile p xs)"
    then show "p (xs ! i)" by (metis nth_mem set_takeWhileD takeWhile_nth)
  qed
qed (auto simp: length_takeWhile_le)

text \<open>The comparison by a key, the way \<^verbatim>\<open>Node::operator<\<close> compares.\<close>

definition key_less :: "('a \<Rightarrow> 'k::linorder) \<Rightarrow> 'a \<Rightarrow> 'a \<Rightarrow> bool" where
  "key_less key x y \<longleftrightarrow> key x < key y"

lemma lower_bound_takeWhile:
  assumes "sorted (map key xs)"
  shows "lower_bound (key_less key) xs v = length (takeWhile (\<lambda>x. key x < key v) xs)"
  unfolding lower_bound_def key_less_def
proof (rule bound_takeWhile)
  fix i j assume "i < j" "j < length xs" "key (xs ! j) < key v"
  then show "key (xs ! i) < key v"
    using assms sorted_nth_mono [of "map key xs" i j] by (auto intro: le_less_trans)
qed

lemma upper_bound_takeWhile:
  assumes "sorted (map key xs)"
  shows "upper_bound (key_less key) xs v = length (takeWhile (\<lambda>x. \<not> key v < key x) xs)"
  unfolding upper_bound_def key_less_def
proof (rule bound_takeWhile)
  fix i j assume "i < j" "j < length xs" "\<not> key v < key (xs ! j)"
  then show "\<not> key v < key (xs ! i)"
    using assms sorted_nth_mono [of "map key xs" i j] by auto
qed

lemma BinarySearch_missing:
  assumes "sorted (map key xs)" "key v \<notin> key ` set xs"
  shows "BinarySearch (key_less key) xs v = length xs"
proof -
  let ?n = "length (takeWhile (\<lambda>x. key x < key v) xs)"
  have "?n = length xs \<or> key v < key (xs ! ?n)"
  proof (cases "?n = length xs")
    case False
    then have n: "?n < length xs" using length_takeWhile_le [of "\<lambda>x. key x < key v" xs] by simp
    then have "\<not> key (xs ! ?n) < key v" using nth_length_takeWhile [OF n] by simp
    moreover have "key (xs ! ?n) \<noteq> key v" using assms(2) n by (metis imageI nth_mem)
    ultimately show ?thesis by (simp add: neq_iff) 
  qed simp
  then show ?thesis
    using lower_bound_takeWhile [OF assms(1), of v] by (auto simp: BinarySearch_def Let_def key_less_def)
qed

lemma BinarySearch_found:
  assumes "sorted (map key xs)" "key v \<in> key ` set xs"
  shows "BinarySearch (key_less key) xs v < length xs"
    "key (xs ! BinarySearch (key_less key) xs v) = key v"
proof -
  let ?n = "length (takeWhile (\<lambda>x. key x < key v) xs)"
  obtain i where i: "i < length xs" "key (xs ! i) = key v" using assms(2) by (auto simp: in_set_conv_nth)
  have ni: "?n \<le> i"
  proof (rule ccontr)
    assume "\<not> ?n \<le> i"
    then have "i < ?n" by simp
    then have "key (xs ! i) < key v" by (metis (mono_tags, lifting) nth_mem set_takeWhileD takeWhile_nth)
    then show False using i by simp
  qed
  then have n: "?n < length xs" using i by simp
  have "\<not> key (xs ! ?n) < key v" using nth_length_takeWhile [OF n] by simp
  moreover have "key (xs ! ?n) \<le> key v"
    using sorted_nth_mono [OF assms(1) ni] i n by simp
  ultimately have eq: "key (xs ! ?n) = key v" by simp
  have "BinarySearch (key_less key) xs v = ?n"
    using lower_bound_takeWhile [OF assms(1), of v] n eq by (simp add: BinarySearch_def key_less_def)
  then show "BinarySearch (key_less key) xs v < length xs"
      "key (xs ! BinarySearch (key_less key) xs v) = key v" using n eq by simp_all
qed

lemma BinarySearch_index:
  assumes "sorted_wrt (<) (map key xs)" "i < length xs" "key (xs ! i) = key v"
  shows "BinarySearch (key_less key) xs v = i"
proof -
  have s: "sorted (map key xs)" "distinct (map key xs)"
    using assms(1) by (auto simp: strict_sorted_iff)
  have "key v \<in> key ` set xs" using assms(2,3) by (metis imageI nth_mem)
  from BinarySearch_found [OF s(1) this] show ?thesis
    using s(2) assms(2,3) by (metis distinct_conv_nth length_map nth_map)
qed

text \<open>What the index variant reports: the place of the value, or where it would have to go.\<close>

definition located :: "('a \<Rightarrow> 'k::linorder) \<Rightarrow> 'a list \<Rightarrow> 'a \<Rightarrow> int \<Rightarrow> bool" where
  "located key xs v r \<longleftrightarrow>
     (if 0 \<le> r then r < int (length xs) \<and> key (xs ! nat r) = key v
      else nat (- r - 1) \<le> length xs \<and> (\<forall>i < nat (- r - 1). key (xs ! i) < key v) \<and>
           (\<forall>i. nat (- r - 1) \<le> i \<longrightarrow> i < length xs \<longrightarrow> key v < key (xs ! i)))"

lemma search_loop_correct:
  assumes "sorted (map key xs)" "0 \<le> lo" "lo \<le> hi + 1" "hi < int (length xs)"
    and "\<And>i. i < nat lo \<Longrightarrow> key (xs ! i) < key v"
    and "\<And>i. nat (hi + 1) \<le> i \<Longrightarrow> i < length xs \<Longrightarrow> key v < key (xs ! i)"
  shows "located key xs v (search_loop (key_less key) xs v lo hi)"
  using assms(2-6)
proof (induction "nat (hi + 1 - lo)" arbitrary: lo hi rule: less_induct)
  case less
  show ?case
  proof (cases "lo \<le> hi")
    case False
    then have "search_loop (key_less key) xs v lo hi = - lo - 1" by (simp add: search_loop.simps)
    moreover have "nat (hi + 1) = nat lo" using False less.prems(2) by simp
    ultimately show ?thesis using less.prems False by (simp add: located_def)
  next
    case True
    define m where "m = (lo + hi) div 2"
    have m: "lo \<le> m" "m \<le> hi" "0 \<le> m" using True less.prems(1) by (auto simp: m_def)
    have step: "search_loop (key_less key) xs v lo hi =
        (if key v < key (xs ! nat m) then search_loop (key_less key) xs v lo (m - 1)
         else if key (xs ! nat m) < key v then search_loop (key_less key) xs v (m + 1) hi else m)"
      using True by (subst search_loop.simps) (simp add: Let_def m_def key_less_def)
    have mono: "i \<le> j \<Longrightarrow> j < length xs \<Longrightarrow> key (xs ! i) \<le> key (xs ! j)" for i j
      using sorted_nth_mono [OF assms(1), of i j] by simp
    consider "key v < key (xs ! nat m)" | "key (xs ! nat m) < key v" | "key (xs ! nat m) = key v"
      using linorder_cases by blast
    then show ?thesis
    proof cases
      case 1
      have "key v < key (xs ! i)" if "nat m \<le> i" "i < length xs" for i
        using mono [OF that] 1 by simp
      then have "located key xs v (search_loop (key_less key) xs v lo (m - 1))"
        using m less.prems by (intro less.hyps) auto
      then show ?thesis using step 1 by simp
    next
      case 2
      have "key (xs ! i) < key v" if "i < nat (m + 1)" for i
      proof -
        have "i \<le> nat m" "nat m < length xs" using that m less.prems(3) by auto
        then show ?thesis using mono 2 by (meson le_less_trans)
      qed
      then have "located key xs v (search_loop (key_less key) xs v (m + 1) hi)"
        using m less.prems by (intro less.hyps) auto
      then show ?thesis using step 2 order_less_not_sym [OF 2] by simp
    next
      case 3
      then show ?thesis using step m less.prems by (simp add: located_def)
    qed
  qed
qed

lemma BinarySearch_arr_located:
  assumes "sorted (map key xs)"
  shows "located key xs v (BinarySearch_arr (key_less key) xs v)"
  unfolding BinarySearch_arr_def by (rule search_loop_correct [OF assms]) auto

section \<open>Lemmas on the insertion step\<close>

lemma sort_last_loop_split:
  "sort_last_loop lt (ys @ x # zs) (length ys) =
     rev (dropWhile (lt x) (rev ys)) @ x # rev (takeWhile (lt x) (rev ys)) @ zs"
proof (induction ys arbitrary: zs rule: rev_induct)
  case Nil
  then show ?case by simp
next
  case (snoc y ys)
  have "(ys @ y # x # zs)[Suc (length ys) := y, length ys := x] = ys @ x # y # zs"
    by (simp add: list_update_append)
  then show ?case using snoc.IH [of "y # zs"] by (simp add: nth_append)
qed

lemma SortLast_snoc:
  "SortLast lt (xs @ [x]) = rev (dropWhile (lt x) (rev xs)) @ x # rev (takeWhile (lt x) (rev xs))"
  using sort_last_loop_split [of lt xs x "[]"] by (cases xs) (auto simp: SortLast_def)

lemma mset_SortLast [simp]: "mset (SortLast lt (xs @ [x])) = add_mset x (mset xs)"
proof -
  have "mset (dropWhile (lt x) (rev xs)) + mset (takeWhile (lt x) (rev xs)) = mset xs"
    by (metis mset_append mset_rev takeWhile_dropWhile_id union_commute)
  then show ?thesis by (simp add: SortLast_snoc)
qed

lemma sorted_SortLast:
  assumes "sorted (map key xs)"
  shows "sorted (map key (SortLast (key_less key) (xs @ [x])))"
proof -
  let ?d = "dropWhile (key_less key x) (rev xs)" and ?t = "takeWhile (key_less key x) (rev xs)"
  have eq: "xs = rev ?d @ rev ?t" by (metis rev_append rev_rev_ident takeWhile_dropWhile_id)
  then have s: "sorted (map key (rev ?d @ rev ?t))" using assms by simp
  have "key x \<le> key y" if "y \<in> set ?t" for y
    using that by (auto dest: set_takeWhileD simp: key_less_def)
  moreover have "key y \<le> key x" if "y \<in> set ?d" for y
  proof -
    have ne: "?d \<noteq> []" using that by force
    then have "\<not> key_less key x (hd ?d)" by (rule hd_dropWhile)
    moreover have "key y \<le> key (hd ?d)"
    proof -
      have "sorted (map key (rev ?d))" using s by (simp add: sorted_append)
      then show ?thesis using that ne by (cases ?d) (auto simp: sorted_append)
    qed
    ultimately show ?thesis by (simp add: key_less_def)
  qed
  ultimately show ?thesis using s by (auto simp: SortLast_snoc sorted_append)
qed

lemma strict_sorted_SortLast:
  assumes "sorted_wrt (<) (map key xs)" "key x \<notin> key ` set xs"
  shows "sorted_wrt (<) (map key (SortLast (key_less key) (xs @ [x])))"
proof -
  have "mset (map key (SortLast (key_less key) (xs @ [x]))) = mset (key x # map key xs)"
    using mset_SortLast [of "key_less key" xs x] by (simp only: mset_map) simp
  then have "distinct (map key (SortLast (key_less key) (xs @ [x])))"
    using assms by (metis distinct.simps(2) mset_eq_imp_distinct_iff set_map strict_sorted_iff)
  then show ?thesis using sorted_SortLast [of key xs x] assms(1) by (simp add: strict_sorted_iff)
qed

section \<open>Lemmas on the bucket count, slices and joins\<close>

lemma floor_log2_bounds:
  assumes "0 < n"
  shows "2 ^ floor_log2 n \<le> n" "n < 2 ^ (floor_log2 n + 1)"
  using assms
proof (induction n rule: floor_log2.induct)
  case (1 n)
  { case 1 then show ?case using "1.IH"(1) by (cases "n \<le> 1") (auto simp: floor_log2.simps [of n]) }
  { case 2 then show ?case using "1.IH"(2) by (cases "n \<le> 1") (auto simp: floor_log2.simps [of n]) }
qed

lemma to_int32_id: "n < 2 ^ 31 \<Longrightarrow> to_int32 n = int n"
  by (simp add: to_int32_def)

lemma basket_pos: "basket n = Inr m \<Longrightarrow> 0 < m"
  by (auto simp: basket_def split: if_splits)

lemma Slice_correct:
  assumes "0 < sz"
  shows "\<exists>parts. Slice dst src sz = Some (dst @ parts) \<and> concat parts = src \<and>
           (\<forall>p \<in> set parts. p \<noteq> [] \<and> length p \<le> sz) \<and> (\<forall>p \<in> set (butlast parts). length p = sz)"
  unfolding Slice_def using assms
proof (induction dst src sz rule: slice_loop.induct)
  case (1 dst src sz)
  show ?case
  proof (cases "sz < length src")
    case True
    then obtain parts where "slice_loop (dst @ [take sz src]) (drop sz src) sz =
          Some ((dst @ [take sz src]) @ parts)" "concat parts = drop sz src"
        "\<forall>p \<in> set parts. p \<noteq> [] \<and> length p \<le> sz" "\<forall>p \<in> set (butlast parts). length p = sz"
      using "1.IH" "1.prems" by auto
    then show ?thesis using True "1.prems"
      by (intro exI [of _ "take sz src # parts"]) (auto simp: slice_loop.simps [of dst src] split: if_splits)
  next
    case False
    then show ?thesis
      by (cases src) (auto simp: slice_loop.simps [of dst] intro: exI [of _ "[]"] exI [of _ "[src]"])
  qed
qed

end
