(* ===== verification/Buckets.thy ===== *)
theory Buckets
  imports DsUtil
begin

text \<open>
  The part \<^verbatim>\<open>HashMap\<close>, \<^verbatim>\<open>HashMultimap\<close> and \<^verbatim>\<open>Dict\<close> have in common: an array of buckets, each a
  vector of nodes sorted by key. A node is a pair of the key and what the class stores with it; its
  \<^verbatim>\<open>operator<\<close> compares keys. The theory holds the steps the three classes share (searching a
  bucket, adding a node, removing one, moving the nodes to a new table) and the lemma that reads a
  table as a map.
\<close>

type_synonym ('k, 'a) bucket = "('k \<times> 'a) list"
type_synonym ('k, 'a) table = "('k, 'a) bucket list"

section \<open>Steps\<close>

text \<open>\<^verbatim>\<open>pos = hashvalue % m_size\<close> and the bucket there.\<close>

definition locate :: "('k \<Rightarrow> u32) \<Rightarrow> nat \<Rightarrow> ('k, 'a) table option \<Rightarrow> 'k \<Rightarrow> failure + (nat \<times> ('k, 'a) bucket)" where
  "locate hash sz datas k =
     (if sz = 0 then Inl DivByZero
      else case datas of None \<Rightarrow> Inl NullDeref
           | Some ds \<Rightarrow> let pos = unat (hash k) mod sz in
               if pos < length ds then Inr (pos, ds ! pos) else Inl BadIndex)"

text \<open>\<^verbatim>\<open>BinarySearch(begin, end, Node(k))\<close> compares the keys of the nodes.\<close>

definition find_node :: "('k::linorder, 'a) bucket \<Rightarrow> 'k \<Rightarrow> nat" where
  "find_node b k = BinarySearch (<) (map fst b) k"

text \<open>\<^verbatim>\<open>push_back\<close> and \<^verbatim>\<open>SortLast\<close>.\<close>

definition push_node :: "('k::linorder, 'a) bucket \<Rightarrow> 'k \<times> 'a \<Rightarrow> ('k, 'a) bucket" where
  "push_node b n = SortLast (key_less fst) (b @ [n])"

text \<open>Swap with the last node, shrink by one, sort.\<close>

definition erase_node :: "('k::linorder, 'a) bucket \<Rightarrow> nat \<Rightarrow> ('k, 'a) bucket" where
  "erase_node b i =
     sort_key fst (butlast (if 1 < length b then b[i := last b, length b - 1 := b ! i] else b))"

text \<open>The loops of \<^verbatim>\<open>rehashUnlock\<close> and \<^verbatim>\<open>readFrom\<close>: append every node to its bucket in a fresh
  table, then sort the buckets.\<close>

definition scatter :: "('k \<Rightarrow> u32) \<Rightarrow> nat \<Rightarrow> ('k, 'a) bucket \<Rightarrow> ('k, 'a) table" where
  "scatter hash sz ns =
     fold (\<lambda>n ds. let p = unat (hash (fst n)) mod sz in ds[p := ds ! p @ [n]]) ns (replicate sz [])"

definition fill_table :: "('k::linorder \<Rightarrow> u32) \<Rightarrow> nat \<Rightarrow> ('k, 'a) bucket \<Rightarrow> ('k, 'a) table" where
  "fill_table hash sz ns = map (sort_key fst) (scatter hash sz ns)"

text \<open>
  \<^verbatim>\<open>needRehash\<close>: the quotient \<^verbatim>\<open>m_total * 1.0 / m_size\<close> is rounded to \<^verbatim>\<open>float\<close> before it is
  compared with 16. The float above 16 is \<open>16 + 2 ^ - 19\<close>, and the halfway point below it rounds to
  16, so the comparison holds for quotients above \<open>16 + 2 ^ - 20\<close>. An empty table of size 0 gives
  not-a-number, which is not above 16.
\<close>

definition needRehash :: "nat \<Rightarrow> nat \<Rightarrow> bool" where
  "needRehash tot sz \<longleftrightarrow> sz * (16 * 2 ^ 20 + 1) < tot * 2 ^ 20"

section \<open>Buckets\<close>

definition bucket_ok :: "('k::linorder, 'a) bucket \<Rightarrow> bool" where
  "bucket_ok b \<longleftrightarrow> sorted_wrt (<) (map fst b)"

lemma bucket_distinct: "bucket_ok b \<Longrightarrow> distinct (map fst b)"
  by (simp add: bucket_ok_def strict_sorted_iff)

lemma key_less_id: "key_less (id :: 'k::linorder \<Rightarrow> 'k) = (<)"
  by (intro ext) (simp add: key_less_def)

lemma find_node_missing:
  assumes "bucket_ok b" "map_of b k = None"
  shows "find_node b k = length b"
  using assms BinarySearch_missing [of id "map fst b" k]
  by (simp add: find_node_def bucket_ok_def strict_sorted_iff map_of_eq_None_iff key_less_id)

lemma find_node_present:
  assumes "bucket_ok b" "map_of b k = Some v"
  shows "find_node b k < length b" "b ! find_node b k = (k, v)"
proof -
  obtain i where i: "i < length b" "b ! i = (k, v)"
    using map_of_SomeD [OF assms(2)] by (auto simp: in_set_conv_nth)
  have "find_node b k = i"
    using assms(1) i BinarySearch_index [of id "map fst b" i k]
    by (simp add: find_node_def bucket_ok_def key_less_id)
  then show "find_node b k < length b" "b ! find_node b k = (k, v)" using i by simp_all
qed

lemma map_of_by_set:
  assumes "distinct (map fst xs)" "distinct (map fst ys)" "set xs = set ys"
  shows "map_of xs = map_of ys"
  using assms map_of_inject_set by blast

lemma push_node_ok:
  assumes "bucket_ok b" "map_of b k = None"
  shows "bucket_ok (push_node b (k, v))" "set (push_node b (k, v)) = insert (k, v) (set b)"
    "length (push_node b (k, v)) = Suc (length b)"
proof -
  have m: "mset (push_node b (k, v)) = add_mset (k, v) (mset b)" by (simp add: push_node_def)
  show "bucket_ok (push_node b (k, v))"
    using assms strict_sorted_SortLast [of fst b "(k, v)"]
    by (simp add: bucket_ok_def push_node_def map_of_eq_None_iff)
  show "set (push_node b (k, v)) = insert (k, v) (set b)"
    using arg_cong [OF m, of set_mset] by simp
  show "length (push_node b (k, v)) = Suc (length b)"
    using arg_cong [OF m, of size] by simp
qed

lemma update_node_ok:
  assumes "bucket_ok b" "map_of b k = Some v"
  shows "bucket_ok (b[find_node b k := (k, w)])"
    "set (b[find_node b k := (k, w)]) = insert (k, w) (set b - {(k, v)})"
proof -
  let ?i = "find_node b k"
  note i = find_node_present [OF assms]
  have keys: "map fst (b[?i := (k, w)]) = map fst b" using i by (simp add: map_update list_update_same_conv)
  then show "bucket_ok (b[?i := (k, w)])" using assms(1) by (simp add: bucket_ok_def)
  have "distinct b" using bucket_distinct [OF assms(1)] by (simp add: distinct_map)
  then show "set (b[?i := (k, w)]) = insert (k, w) (set b - {(k, v)})"
    using i by (simp add: set_update_distinct)
qed

lemma mset_erase_swap:
  assumes "i < length b"
  shows "mset (butlast (if 1 < length b then b[i := last b, length b - 1 := b ! i] else b)) =
           mset b - {#b ! i#}"
proof (cases "1 < length b")
  case False
  then have "length b = 1" using assms by linarith
  then show ?thesis using assms by (cases b) auto
next
  case True
  let ?c = "b[i := last b, length b - 1 := b ! i]"
  have "last b = b ! (length b - 1)" using assms by (intro last_conv_nth) auto
  then have "mset ?c = mset b" using assms mset_swap [of "length b - 1" b i] by simp
  moreover have ne: "?c \<noteq> []" using assms by auto
  moreover have "last ?c = b ! i" unfolding last_conv_nth [OF ne] using assms by simp
  ultimately have "mset (butlast ?c) + {#b ! i#} = mset b"
    by (metis append_butlast_last_id mset_append mset_single_iff_right)
  then show ?thesis using True by (metis add_diff_cancel_right')
qed

lemma erase_node_ok:
  assumes "bucket_ok b" "map_of b k = Some v"
  shows "bucket_ok (erase_node b (find_node b k))"
    "set (erase_node b (find_node b k)) = set b - {(k, v)}"
    "Suc (length (erase_node b (find_node b k))) = length b"
proof -
  let ?i = "find_node b k"
  note i = find_node_present [OF assms]
  have m: "mset (erase_node b ?i) = mset (remove1 (k, v) b)"
    using mset_erase_swap [OF i(1)] i(2) by (simp add: erase_node_def)
  have mem: "(k, v) \<in> set b" using i by (metis nth_mem)
  have db: "distinct b" "inj_on fst (set b)"
    using bucket_distinct [OF assms(1)] by (simp_all add: distinct_map)
  show set_eq: "set (erase_node b ?i) = set b - {(k, v)}"
    using mset_eq_setD [OF m] db by simp
  have "distinct (erase_node b ?i)" using m db(1) by (metis distinct_remove1 mset_eq_imp_distinct_iff)
  then have "distinct (map fst (erase_node b ?i))"
    using set_eq db(2) by (auto simp: distinct_map intro: inj_on_subset)
  then show "bucket_ok (erase_node b ?i)"
    by (simp add: bucket_ok_def strict_sorted_iff erase_node_def)
  show "Suc (length (erase_node b ?i)) = length b"
    using mset_eq_length [OF m] mem length_pos_if_in_set [OF mem] by (simp add: length_remove1)
qed

text \<open>Binding a key in a bucket, and the maps of the changed buckets.\<close>

definition put_bucket :: "('k::linorder, 'a) bucket \<Rightarrow> 'k \<Rightarrow> 'a \<Rightarrow> ('k, 'a) bucket" where
  "put_bucket b k v =
     (if find_node b k = length b then push_node b (k, v) else b[find_node b k := (k, v)])"

lemma map_of_bucketI:
  assumes "bucket_ok b" "\<And>j w. m j = Some w \<longleftrightarrow> (j, w) \<in> set b"
  shows "map_of b = m"
proof
  fix j
  have "map_of b j = Some w \<longleftrightarrow> m j = Some w" for w
    using assms bucket_distinct [OF assms(1)] by simp
  then show "map_of b j = m j" by (metis option.exhaust)
qed

lemma put_bucket_ok:
  assumes "bucket_ok b"
  shows "bucket_ok (put_bucket b k v)" "map_of (put_bucket b k v) = (map_of b)(k \<mapsto> v)"
    "set (put_bucket b k v) \<subseteq> insert (k, v) (set b)"
    "length (put_bucket b k v) = (if map_of b k = None then Suc (length b) else length b)"
proof -
  note d = bucket_distinct [OF assms]
  have *: "bucket_ok (put_bucket b k v) \<and>
      set (put_bucket b k v) = insert (k, v) {n \<in> set b. fst n \<noteq> k} \<and>
      length (put_bucket b k v) = (if map_of b k = None then Suc (length b) else length b)"
  proof (cases "map_of b k")
    case None
    then have "{n \<in> set b. fst n \<noteq> k} = set b"
      by (auto simp: map_of_eq_None_iff intro: rev_image_eqI)
    then show ?thesis
      using push_node_ok [OF assms None, of v] None find_node_missing [OF assms None]
      by (simp add: put_bucket_def)
  next
    case (Some w)
    have "n \<in> set b \<Longrightarrow> fst n = k \<Longrightarrow> n = (k, w)" for n
      using Some map_of_eq_Some_iff [OF d, of k "snd n"] by (cases n) simp
    then have "n \<in> set b \<and> fst n \<noteq> k \<longleftrightarrow> n \<in> set b - {(k, w)}" for n by (metis Diff_iff fst_conv singletonD singletonI)
    then have "{n \<in> set b. fst n \<noteq> k} = set b - {(k, w)}" by blast
    then show ?thesis
      using update_node_ok [OF assms Some, of v] Some find_node_present [OF assms Some]
      by (simp add: put_bucket_def)
  qed
  from * show "bucket_ok (put_bucket b k v)" by blast
  from * show "set (put_bucket b k v) \<subseteq> insert (k, v) (set b)" by blast
  from * show "length (put_bucket b k v) = (if map_of b k = None then Suc (length b) else length b)" by blast
  show "map_of (put_bucket b k v) = (map_of b)(k \<mapsto> v)"
  proof (rule map_of_bucketI)
    fix j w
    have "(j, w) \<in> set (put_bucket b k v) \<longleftrightarrow> (j, w) = (k, v) \<or> (j, w) \<in> set b \<and> j \<noteq> k"
      using * by simp
    then show "((map_of b)(k \<mapsto> v)) j = Some w \<longleftrightarrow> (j, w) \<in> set (put_bucket b k v)"
      using map_of_eq_Some_iff [OF d, of j w] by (cases "j = k") auto
  qed (use * in blast)
qed

lemma erase_node_map:
  assumes "bucket_ok b" "map_of b k = Some v"
  shows "map_of (erase_node b (find_node b k)) = (map_of b)(k := None)"
proof (rule map_of_bucketI)
  note d = bucket_distinct [OF assms(1)]
  fix j w
  have "(j, w) \<in> set (erase_node b (find_node b k)) \<longleftrightarrow> (j, w) \<in> set b \<and> (j, w) \<noteq> (k, v)"
    using erase_node_ok(2) [OF assms] by simp
  then show "((map_of b)(k := None)) j = Some w \<longleftrightarrow> (j, w) \<in> set (erase_node b (find_node b k))"
    using map_of_eq_Some_iff [OF d, of j w] assms(2) by (cases "j = k") auto
qed (rule erase_node_ok(1) [OF assms])

section \<open>Tables\<close>

definition table_ok :: "('k::linorder \<Rightarrow> u32) \<Rightarrow> ('k, 'a) table \<Rightarrow> bool" where
  "table_ok hash ds \<longleftrightarrow>
     (\<forall>i < length ds. bucket_ok (ds ! i) \<and> (\<forall>n \<in> set (ds ! i). unat (hash (fst n)) mod length ds = i))"

definition table_map :: "('k \<Rightarrow> u32) \<Rightarrow> ('k, 'a) table \<Rightarrow> 'k \<rightharpoonup> 'a" where
  "table_map hash ds k = map_of (ds ! (unat (hash k) mod length ds)) k"

definition table_count :: "('k, 'a) table \<Rightarrow> nat" where
  "table_count ds = length (concat ds)"

definition table_nodes :: "('k, 'a) table \<Rightarrow> ('k \<times> 'a) set" where
  "table_nodes ds = set (concat ds)"

lemma in_table_nodes: "x \<in> table_nodes ds \<longleftrightarrow> (\<exists>i < length ds. x \<in> set (ds ! i))"
proof -
  have "x \<in> table_nodes ds \<longleftrightarrow> (\<exists>b \<in> set ds. x \<in> set b)" by (simp add: table_nodes_def)
  then show ?thesis by (metis in_set_conv_nth)
qed

lemma table_nodes_append: "table_nodes (ds @ [b]) = table_nodes ds \<union> set b"
  by (simp add: table_nodes_def)

lemma table_pos: "0 < length ds \<Longrightarrow> unat (hash k) mod length ds < length ds"
  by simp

lemma table_bucket_ok: "table_ok hash ds \<Longrightarrow> i < length ds \<Longrightarrow> bucket_ok (ds ! i)"
  by (simp add: table_ok_def)

lemma table_map_set:
  assumes "table_ok hash ds" "0 < length ds"
  shows "table_map hash ds k = Some v \<longleftrightarrow> (k, v) \<in> table_nodes ds"
proof
  assume "table_map hash ds k = Some v"
  then have "(k, v) \<in> set (ds ! (unat (hash k) mod length ds))"
    unfolding table_map_def by (rule map_of_SomeD)
  then show "(k, v) \<in> table_nodes ds"
    using table_pos [OF assms(2), of hash k] by (auto simp: in_table_nodes simp del: mod_less_divisor)
next
  assume "(k, v) \<in> table_nodes ds"
  then obtain i where i: "i < length ds" "(k, v) \<in> set (ds ! i)" by (auto simp: in_table_nodes)
  then have "bucket_ok (ds ! i)" "unat (hash k) mod length ds = i"
    using assms(1) unfolding table_ok_def by (blast, metis fst_conv)
  then show "table_map hash ds k = Some v"
    using i bucket_distinct [of "ds ! i"] by (simp add: table_map_def)
qed

lemma table_map_eqI:
  assumes "table_ok hash ds" "0 < length ds" "table_ok hash es" "0 < length es"
    and "table_nodes ds = table_nodes es"
  shows "table_map hash ds = table_map hash es"
proof
  fix k
  have "table_map hash ds k = Some v \<longleftrightarrow> table_map hash es k = Some v" for v
    using table_map_set [OF assms(1,2)] table_map_set [OF assms(3,4)] assms(5) by simp
  then show "table_map hash ds k = table_map hash es k" by (metis option.exhaust)
qed

lemma table_distinct_keys:
  assumes "table_ok hash ds"
  shows "distinct (map fst (concat ds))"
proof -
  have "distinct (map fst (concat (take i ds))) \<and>
      (\<forall>n \<in> table_nodes (take i ds). unat (hash (fst n)) mod length ds < i)" if "i \<le> length ds" for i
    using that
  proof (induction i)
    case (Suc i)
    then have i: "i < length ds" by simp
    have b: "distinct (map fst (ds ! i))" "\<forall>n \<in> set (ds ! i). unat (hash (fst n)) mod length ds = i"
      using assms i bucket_distinct by (auto simp: table_ok_def)
    have "fst ` table_nodes (take i ds) \<inter> fst ` set (ds ! i) = {}"
    proof (rule ccontr)
      assume "fst ` table_nodes (take i ds) \<inter> fst ` set (ds ! i) \<noteq> {}"
      then obtain m n where "m \<in> table_nodes (take i ds)" "n \<in> set (ds ! i)" "fst m = fst n" by auto
      then show False using b(2) Suc i by fastforce
    qed
    moreover have "concat (take (Suc i) ds) = concat (take i ds) @ ds ! i"
        "table_nodes (take (Suc i) ds) = table_nodes (take i ds) \<union> set (ds ! i)"
      using i by (simp_all add: take_Suc_conv_app_nth table_nodes_def)
    ultimately show ?case
      using Suc b by (simp add: table_nodes_def [symmetric] ball_Un del: set_concat) (fastforce intro: less_SucI)
  qed (simp add: table_nodes_def)
  from this [of "length ds"] show ?thesis by simp
qed

lemma table_dom:
  assumes "table_ok hash ds" "0 < length ds"
  shows "dom (table_map hash ds) = fst ` table_nodes ds" "finite (dom (table_map hash ds))"
    "card (dom (table_map hash ds)) = table_count ds"
proof -
  show d: "dom (table_map hash ds) = fst ` table_nodes ds"
    using table_map_set [OF assms] by (force simp: dom_def)
  then show "finite (dom (table_map hash ds))" by (simp add: table_nodes_def)
  have "distinct (map fst (concat ds))" using assms(1) by (rule table_distinct_keys)
  then show "card (dom (table_map hash ds)) = table_count ds"
    using d distinct_card [of "map fst (concat ds)"]
    by (simp add: table_count_def table_nodes_def)
qed

text \<open>Replacing one bucket.\<close>

lemma table_update:
  assumes ok: "table_ok hash ds" and p: "unat (hash k) mod length ds < length ds"
    and b: "bucket_ok b" "map_of b = (map_of (ds ! (unat (hash k) mod length ds)))(k := r)"
    and keys: "\<forall>n \<in> set b. unat (hash (fst n)) mod length ds = unat (hash k) mod length ds"
  shows "table_ok hash (ds[unat (hash k) mod length ds := b])"
    "table_map hash (ds[unat (hash k) mod length ds := b]) = (table_map hash ds)(k := r)"
proof -
  let ?p = "unat (hash k) mod length ds"
  show "table_ok hash (ds[?p := b])"
    using ok p b(1) keys by (auto simp: table_ok_def nth_list_update)
  show "table_map hash (ds[?p := b]) = (table_map hash ds)(k := r)"
    using p b(2) by (auto simp: table_map_def nth_list_update)
qed

lemma table_count_update:
  assumes "i < length ds"
  shows "table_count (ds[i := b]) + length (ds ! i) = table_count ds + length b"
proof -
  have "concat (ds[i := b]) = concat (take i ds) @ b @ concat (drop (Suc i) ds)"
    using assms by (simp add: upd_conv_take_nth_drop)
  moreover have "concat ds = concat (take i ds) @ ds ! i @ concat (drop (Suc i) ds)"
    using assms by (metis concat.simps(2) concat_append id_take_nth_drop)
  ultimately show ?thesis by (simp add: table_count_def del: length_concat)
qed

lemma table_put:
  assumes "table_ok hash ds" "p = unat (hash k) mod length ds" "p < length ds"
  shows "table_ok hash (ds[p := put_bucket (ds ! p) k v])"
    "table_map hash (ds[p := put_bucket (ds ! p) k v]) = (table_map hash ds)(k \<mapsto> v)"
    "table_count (ds[p := put_bucket (ds ! p) k v]) =
       (if map_of (ds ! p) k = None then Suc (table_count ds) else table_count ds)"
proof -
  have b: "bucket_ok (ds ! p)" "\<forall>n \<in> set (ds ! p). unat (hash (fst n)) mod length ds = p"
    using assms(1,3) by (auto simp: table_ok_def)
  note b' = put_bucket_ok [OF b(1), of k v]
  have keys: "\<forall>n \<in> set (put_bucket (ds ! p) k v). unat (hash (fst n)) mod length ds = p"
    using b'(3) b(2) assms(2) by auto
  show "table_ok hash (ds[p := put_bucket (ds ! p) k v])"
      "table_map hash (ds[p := put_bucket (ds ! p) k v]) = (table_map hash ds)(k \<mapsto> v)"
    using table_update [of hash ds k _ "Some v"] assms b'(1,2) keys by simp_all
  show "table_count (ds[p := put_bucket (ds ! p) k v]) =
      (if map_of (ds ! p) k = None then Suc (table_count ds) else table_count ds)"
    using table_count_update [OF assms(3), of "put_bucket (ds ! p) k v"] b'(4) by (auto split: if_splits)
qed

lemma table_erase:
  assumes "table_ok hash ds" "p = unat (hash k) mod length ds" "p < length ds" "map_of (ds ! p) k = Some v"
  shows "table_ok hash (ds[p := erase_node (ds ! p) (find_node (ds ! p) k)])"
    "table_map hash (ds[p := erase_node (ds ! p) (find_node (ds ! p) k)]) = (table_map hash ds)(k := None)"
    "Suc (table_count (ds[p := erase_node (ds ! p) (find_node (ds ! p) k)])) = table_count ds"
proof -
  let ?b' = "erase_node (ds ! p) (find_node (ds ! p) k)"
  have b: "bucket_ok (ds ! p)" "\<forall>n \<in> set (ds ! p). unat (hash (fst n)) mod length ds = p"
    using assms(1,3) by (auto simp: table_ok_def)
  note b' = erase_node_ok [OF b(1) assms(4)] erase_node_map [OF b(1) assms(4)]
  have "\<forall>n \<in> set ?b'. unat (hash (fst n)) mod length ds = p" using b'(2) b(2) by simp
  then show "table_ok hash (ds[p := ?b'])" "table_map hash (ds[p := ?b']) = (table_map hash ds)(k := None)"
    using table_update [of hash ds k _ None] assms b'(1,4) by simp_all
  show "Suc (table_count (ds[p := ?b'])) = table_count ds"
    using table_count_update [OF assms(3), of ?b'] b'(3) by simp
qed

section \<open>Filling a table\<close>

lemma scatter_nth:
  assumes "0 < sz" "i < sz"
  shows "scatter hash sz ns ! i = filter (\<lambda>n. unat (hash (fst n)) mod sz = i) ns"
proof -
  let ?f = "\<lambda>n ds. let p = unat (hash (fst n)) mod sz in ds[p := ds ! p @ [n]]"
  have "length (fold ?f ns ds) = length ds \<and> (length ds = sz \<longrightarrow>
      fold ?f ns ds ! i = ds ! i @ filter (\<lambda>n. unat (hash (fst n)) mod sz = i) ns)" for ds
    using assms by (induction ns arbitrary: ds) (auto simp: Let_def nth_list_update)
  from this [of "replicate sz []"] show ?thesis using assms by (simp add: scatter_def)
qed

lemma length_scatter: "length (scatter hash sz ns) = sz"
proof -
  have "length (fold (\<lambda>n ds. let p = unat (hash (fst n)) mod sz in ds[p := ds ! p @ [n]]) ns ds) = length ds" for ds
    by (induction ns arbitrary: ds) (auto simp: Let_def)
  then show ?thesis by (simp add: scatter_def)
qed

lemma fill_table_ok:
  assumes "0 < sz" "distinct (map fst ns)"
  shows "length (fill_table hash sz ns) = sz" "table_ok hash (fill_table hash sz ns)"
    "table_nodes (fill_table hash sz ns) = set ns" "table_count (fill_table hash sz ns) = length ns"
proof -
  let ?ds = "fill_table hash sz ns"
  show len: "length ?ds = sz" by (simp add: fill_table_def length_scatter)
  have nth: "?ds ! i = sort_key fst (filter (\<lambda>n. unat (hash (fst n)) mod sz = i) ns)" if "i < sz" for i
    using that assms(1) by (simp add: fill_table_def length_scatter scatter_nth)
  have dist: "distinct (map fst (filter P ns))" for P
    using assms(2) by (rule distinct_map_filter)
  show ok: "table_ok hash ?ds"
    unfolding table_ok_def len
  proof (intro allI impI conjI)
    fix i assume i: "i < sz"
    have "mset (map fst (?ds ! i)) = mset (map fst (filter (\<lambda>n. unat (hash (fst n)) mod sz = i) ns))"
      using nth [OF i] by (simp add: mset_map)
    then have "distinct (map fst (?ds ! i))" using dist by (metis mset_eq_imp_distinct_iff)
    then show "bucket_ok (?ds ! i)" using nth [OF i] by (simp add: bucket_ok_def strict_sorted_iff)
    show "\<forall>n \<in> set (?ds ! i). unat (hash (fst n)) mod sz = i" using nth [OF i] by simp
  qed
  show set_eq: "table_nodes ?ds = set ns"
  proof (intro set_eqI iffI)
    fix n assume "n \<in> table_nodes ?ds"
    then obtain i where "i < sz" "n \<in> set (?ds ! i)" using len by (auto simp: in_table_nodes)
    then show "n \<in> set ns" using nth by simp
  next
    fix n assume n: "n \<in> set ns"
    let ?i = "unat (hash (fst n)) mod sz"
    have "?i < sz" using assms(1) by simp
    then have "n \<in> set (?ds ! ?i)" using n nth by simp
    then show "n \<in> table_nodes ?ds" using \<open>?i < sz\<close> len in_table_nodes by metis
  qed
  have "distinct (concat ?ds)" "distinct ns"
    using table_distinct_keys [OF ok] assms(2) by (simp_all add: distinct_map)
  then show "table_count ?ds = length ns"
    using set_eq by (metis distinct_card table_count_def table_nodes_def)
qed

lemma fill_table_mset:
  assumes "0 < sz"
  shows "mset (concat (fill_table hash sz ns)) = mset ns"
proof -
  let ?f = "\<lambda>n ds. let p = unat (hash (fst n)) mod sz in ds[p := ds ! p @ [n]]"
  have upd: "mset (concat (ds[p := ds ! p @ [n]])) = add_mset n (mset (concat ds))" if "p < length ds"
    for ds p and n :: "'a \<times> 'b"
  proof -
    have "ds[p := ds ! p @ [n]] = take p ds @ (ds ! p @ [n]) # drop (Suc p) ds"
      using that by (rule upd_conv_take_nth_drop)
    moreover have "mset (concat ds) = mset (concat (take p ds @ ds ! p # drop (Suc p) ds))"
      using id_take_nth_drop [OF that] by simp
    ultimately show ?thesis by simp
  qed
  have "length ds = sz \<Longrightarrow> mset (concat (fold ?f ns ds)) = mset (concat ds) + mset ns" for ds
    using assms by (induction ns arbitrary: ds) (simp_all add: Let_def upd)
  then have "mset (concat (scatter hash sz ns)) = mset ns" by (simp add: scatter_def)
  moreover have "mset (concat (map (sort_key fst) ds)) = mset (concat ds)" for ds :: "('a, 'b) table"
    by (induction ds) simp_all
  ultimately show ?thesis by (simp add: fill_table_def)
qed

lemma rehash_table_ok:
  assumes "table_ok hash ds" "0 < length ds" "0 < sz"
  shows "length (fill_table hash sz (concat ds)) = sz" "table_ok hash (fill_table hash sz (concat ds))"
    "table_map hash (fill_table hash sz (concat ds)) = table_map hash ds"
    "table_count (fill_table hash sz (concat ds)) = table_count ds"
proof -
  note f = fill_table_ok [OF assms(3) table_distinct_keys [OF assms(1)], of hash]
  show "length (fill_table hash sz (concat ds)) = sz" "table_ok hash (fill_table hash sz (concat ds))"
    "table_count (fill_table hash sz (concat ds)) = table_count ds"
    using f by (simp_all add: table_count_def)
  show "table_map hash (fill_table hash sz (concat ds)) = table_map hash ds"
    using f assms by (intro table_map_eqI) (simp_all add: table_nodes_def)
qed

end
