(* ===== verification/MapSpec.thy ===== *)
theory MapSpec
  imports Prelude
begin

text \<open>
  The contract of the hash containers: a finite map with update, lookup and delete. The containers
  differ in what they store for a value (\<open>norm\<close>), in what updating returns given the previous binding
  (\<open>ret\<close>) and in the values they accept (\<open>okv\<close>); \<open>cap\<close> bounds the number of keys up to which
  updating is promised to work.
\<close>

datatype ('k, 'v) map_op = Update 'k 'v | Lookup 'k | Delete 'k

datatype 'v map_result = Flag bool | Val "'v option" | Failed failure

fun spec_exec :: "('v \<Rightarrow> 'v) \<Rightarrow> ('v option \<Rightarrow> bool) \<Rightarrow> ('k, 'v) map_op \<Rightarrow> ('k \<rightharpoonup> 'v) \<Rightarrow>
    'v map_result \<times> ('k \<rightharpoonup> 'v)" where
  "spec_exec norm ret (Update k v) m = (Flag (ret (m k)), m(k \<mapsto> norm v))"
| "spec_exec norm ret (Lookup k) m = (Val (m k), m)"
| "spec_exec norm ret (Delete k) m = (Flag (m k \<noteq> None), m(k := None))"

fun value_ok :: "('v \<Rightarrow> bool) \<Rightarrow> ('k, 'v) map_op \<Rightarrow> bool" where
  "value_ok okv (Update k v) = okv v"
| "value_ok okv _ = True"

lemma value_ok_True [simp]: "value_ok (\<lambda>_. True) a"
  by (cases a) auto

fun impl_exec :: "('k \<Rightarrow> 's \<Rightarrow> failure + 'v option) \<Rightarrow> ('k \<Rightarrow> 'v \<Rightarrow> ('s, bool) action) \<Rightarrow>
    ('k \<Rightarrow> ('s, bool) action) \<Rightarrow> ('k, 'v) map_op \<Rightarrow> 's \<Rightarrow> 'v map_result \<times> 's" where
  "impl_exec getf setf delf (Update k v) s =
     (case setf k v s of (Inl e, s') \<Rightarrow> (Failed e, s') | (Inr b, s') \<Rightarrow> (Flag b, s'))"
| "impl_exec getf setf delf (Lookup k) s =
     (case getf k s of Inl e \<Rightarrow> (Failed e, s) | Inr r \<Rightarrow> (Val r, s))"
| "impl_exec getf setf delf (Delete k) s =
     (case delf k s of (Inl e, s') \<Rightarrow> (Failed e, s') | (Inr b, s') \<Rightarrow> (Flag b, s'))"

primrec run_map :: "('o \<Rightarrow> 's \<Rightarrow> 'r \<times> 's) \<Rightarrow> 'o list \<Rightarrow> 's \<Rightarrow> 'r list \<times> 's" where
  "run_map f [] s = ([], s)"
| "run_map f (a # as) s = (let (r, s') = f a s; (rs, s'') = run_map f as s' in (r # rs, s''))"

locale kv_map =
  fixes getf :: "'k \<Rightarrow> 's \<Rightarrow> failure + 'v option"
    and setf :: "'k \<Rightarrow> 'v \<Rightarrow> ('s, bool) action"
    and delf :: "'k \<Rightarrow> ('s, bool) action"
    and inv :: "'s \<Rightarrow> bool"
    and abs :: "'s \<Rightarrow> 'k \<rightharpoonup> 'v"
    and norm :: "'v \<Rightarrow> 'v"
    and ret :: "'v option \<Rightarrow> bool"
    and okv :: "'v \<Rightarrow> bool"
    and cap :: nat
  assumes finite_abs: "inv s \<Longrightarrow> finite (dom (abs s))"
    and get_law: "inv s \<Longrightarrow> getf k s = Inr (abs s k)"
    and set_law: "inv s \<Longrightarrow> card (dom (abs s)) < cap \<Longrightarrow> okv v \<Longrightarrow>
      \<exists>s'. setf k v s = (Inr (ret (abs s k)), s') \<and> inv s' \<and> abs s' = (abs s)(k \<mapsto> norm v)"
    and del_law: "inv s \<Longrightarrow>
      \<exists>s'. delf k s = (Inr (abs s k \<noteq> None), s') \<and> inv s' \<and> abs s' = (abs s)(k := None)"
begin

lemma get_after_set:
  assumes "inv s" "card (dom (abs s)) < cap" "okv v"
  shows "\<exists>s'. setf k v s = (Inr (ret (abs s k)), s') \<and> inv s' \<and> getf k s' = Inr (Some (norm v)) \<and>
           (\<forall>j. j \<noteq> k \<longrightarrow> getf j s' = getf j s)"
  using set_law [OF assms, of k] get_law assms(1) by fastforce

lemma get_after_del:
  assumes "inv s"
  shows "\<exists>s'. delf k s = (Inr (abs s k \<noteq> None), s') \<and> inv s' \<and> getf k s' = Inr None \<and>
           (\<forall>j. j \<noteq> k \<longrightarrow> getf j s' = getf j s)"
  using del_law [OF assms, of k] get_law assms by fastforce

lemma exec_simulates:
  assumes "inv s" "card (dom (abs s)) < cap" "value_ok okv a"
  shows "\<exists>s'. impl_exec getf setf delf a s = (fst (spec_exec norm ret a (abs s)), s') \<and> inv s' \<and>
           abs s' = snd (spec_exec norm ret a (abs s)) \<and> card (dom (abs s')) \<le> Suc (card (dom (abs s)))"
proof (cases a)
  case (Update k v)
  then show ?thesis using set_law [OF assms(1,2), of v k] assms(3) finite_abs [OF assms(1)]
    by (auto simp: card_insert_if intro: exI)
next
  case (Lookup k)
  then show ?thesis using get_law [OF assms(1), of k] assms(1) by simp
next
  case (Delete k)
  have "card (dom ((abs s)(k := None))) \<le> card (dom (abs s))"
    using finite_abs [OF assms(1)] by (simp add: card_Diff1_le)
  then show ?thesis using Delete del_law [OF assms(1), of k] by fastforce
qed

text \<open>A run of operations gives the results of the abstract map.\<close>

lemma run_simulates:
  assumes "inv s" "card (dom (abs s)) + length as \<le> cap" "list_all (value_ok okv) as"
  shows "\<exists>s'. run_map (impl_exec getf setf delf) as s = (fst (run_map (spec_exec norm ret) as (abs s)), s') \<and>
           inv s' \<and> abs s' = snd (run_map (spec_exec norm ret) as (abs s))"
  using assms
proof (induction as arbitrary: s)
  case Nil
  then show ?case by simp
next
  case (Cons a as)
  then have "card (dom (abs s)) < cap" by simp
  from exec_simulates [OF Cons.prems(1) this, of a] Cons.prems(3)
  obtain s1 where 1: "impl_exec getf setf delf a s = (fst (spec_exec norm ret a (abs s)), s1)" "inv s1"
      "abs s1 = snd (spec_exec norm ret a (abs s))" "card (dom (abs s1)) \<le> Suc (card (dom (abs s)))"
    by auto
  then obtain s2 where "run_map (impl_exec getf setf delf) as s1 = (fst (run_map (spec_exec norm ret) as (abs s1)), s2)"
      "inv s2" "abs s2 = snd (run_map (spec_exec norm ret) as (abs s1))"
    using Cons.IH [OF 1(2)] Cons.prems(2,3) by auto
  then show ?case using 1 by (auto simp: Let_def split: prod.splits)
qed

text \<open>Storing a list of bindings one after the other, as \<^verbatim>\<open>merge\<close> does.\<close>

primrec set_all :: "('k \<times> 'v) list \<Rightarrow> ('s, unit) action" where
  "set_all [] s = (Inr (), s)"
| "set_all (p # ps) s = (case setf (fst p) (snd p) s of (Inl e, s') \<Rightarrow> (Inl e, s') | (Inr _, s') \<Rightarrow> set_all ps s')"

lemma set_all_correct:
  assumes "inv s" "card (dom (abs s)) + length ps \<le> cap" "list_all (\<lambda>p. okv (snd p)) ps"
  shows "\<exists>s'. set_all ps s = (Inr (), s') \<and> inv s' \<and>
           abs s' = abs s ++ map_of (rev (map (\<lambda>p. (fst p, norm (snd p))) ps))"
  using assms
proof (induction ps arbitrary: s)
  case Nil
  then show ?case by simp
next
  case (Cons p ps)
  let ?n = "\<lambda>p. (fst p, norm (snd p))"
  obtain s1 where 1: "setf (fst p) (snd p) s = (Inr (ret (abs s (fst p))), s1)" "inv s1"
      "abs s1 = (abs s)(fst p \<mapsto> norm (snd p))"
    using set_law [OF Cons.prems(1), of "snd p" "fst p"] Cons.prems(2,3) by auto
  have "card (dom (abs s1)) \<le> Suc (card (dom (abs s)))"
    using 1(3) finite_abs [OF Cons.prems(1)] by (simp add: card_insert_if)
  then have "\<exists>s'. set_all ps s1 = (Inr (), s') \<and> inv s' \<and> abs s' = abs s1 ++ map_of (rev (map ?n ps))"
    using Cons.IH [OF 1(2)] Cons.prems(2,3) by simp
  moreover have "abs s1 ++ map_of (rev (map ?n ps)) = abs s ++ map_of (rev (map ?n (p # ps)))"
    using 1(3) by (cases p) (simp add: map_add_assoc map_add_upd)
  ultimately show ?case using 1(1) by auto
qed

end

end
