(* ===== verification/StreamIO.thy ===== *)
theory StreamIO
  imports Endian
begin

text \<open>
  The stream helpers of \<^verbatim>\<open>sylar/util.h\<close> and \<^verbatim>\<open>sylar/util.cc\<close> that the containers use to save and
  load themselves. A \<^verbatim>\<open>std::istream\<close> is the bytes still to come and its state flag, a
  \<^verbatim>\<open>std::ostream\<close> the bytes written, its flag, and how many bytes the device still accepts.
  Throttling (\<^verbatim>\<open>SpeedLimit\<close>) only sleeps and has no effect on the data.
\<close>

record istream =
  is_data :: bytes
  is_good :: bool

record ostream =
  os_data :: bytes
  os_good :: bool
  os_room :: nat

text \<open>\<^verbatim>\<open>is.read(p, n)\<close> on a good stream: fewer than \<open>n\<close> bytes set the end and fail flags; the bytes
  read are those \<^verbatim>\<open>gcount\<close> counts.\<close>

definition is_read :: "nat \<Rightarrow> istream \<Rightarrow> bytes \<times> istream" where
  "is_read n is =
     (take n (is_data is), is\<lparr>is_data := drop n (is_data is), is_good := (n \<le> length (is_data is))\<rparr>)"

definition os_write :: "bytes \<Rightarrow> ostream \<Rightarrow> ostream" where
  "os_write bs os =
     (if os_good os
      then os\<lparr>os_data := os_data os @ take (os_room os) bs, os_room := os_room os - length bs,
              os_good := (length bs \<le> os_room os)\<rparr>
      else os)"

text \<open>The read loop; \<open>per\<close> bounds a single \<^verbatim>\<open>read\<close> and \<open>got\<close> is what was read so far. The
  bound is at least 64 KiB (\<open>per_chunk\<close>), so a piece of length 0 does not occur.\<close>

function read_fix_loop :: "nat option \<Rightarrow> nat \<Rightarrow> bytes \<Rightarrow> istream \<Rightarrow> bytes \<times> istream" where
  "read_fix_loop per sz got is =
     (if is_good is \<and> length got < sz
      then let left = sz - length got;
               s = (case per of None \<Rightarrow> left | Some p \<Rightarrow> if p < left then p else left);
               (chunk, is') = is_read s is
           in if s = 0 then (got, is) else read_fix_loop per sz (got @ chunk) is'
      else (got, is))"
  by pat_completeness auto
termination
  by (relation "measure (\<lambda>(per, sz, got, is). if is_good is then Suc (sz - length got) else 0)")
    (auto simp: is_read_def split: if_splits option.splits)

declare read_fix_loop.simps [simp del]

definition ReadFixFromStream :: "nat \<Rightarrow> istream \<Rightarrow> (bytes \<times> bool) \<times> istream" where
  "ReadFixFromStream sz is =
     (let (got, is') = read_fix_loop None sz [] is in ((got, length got = sz), is'))"

text \<open>\<^verbatim>\<open>std::max((uint64_t)ceil(speed / 100.0), (uint64_t)1024 * 64)\<close>\<close>

definition per_chunk :: "nat \<Rightarrow> nat" where
  "per_chunk speed = max ((speed + 99) div 100) (1024 * 64)"

definition ReadFixFromStreamWithSpeed :: "nat \<Rightarrow> nat \<Rightarrow> istream \<Rightarrow> (bytes \<times> bool) \<times> istream" where
  "ReadFixFromStreamWithSpeed sz speed is =
     (let (got, is') = read_fix_loop (Some (per_chunk speed)) sz [] is in ((got, length got = sz), is'))"

function write_fix_loop :: "nat \<Rightarrow> bytes \<Rightarrow> nat \<Rightarrow> ostream \<Rightarrow> nat \<times> ostream" where
  "write_fix_loop per data offset os =
     (if os_good os \<and> offset < length data
      then let left = length data - offset; s = (if per < left then per else left)
           in if s = 0 then (offset, os)
              else write_fix_loop per data (offset + s) (os_write (take s (drop offset data)) os)
      else (offset, os))"
  by pat_completeness auto
termination
  by (relation "measure (\<lambda>(per, data, offset, os). length data - offset)") auto

declare write_fix_loop.simps [simp del]

definition WriteFixToStreamWithSpeed :: "bytes \<Rightarrow> nat \<Rightarrow> ostream \<Rightarrow> bool \<times> ostream" where
  "WriteFixToStreamWithSpeed data speed os =
     (let (offset, os') = write_fix_loop (per_chunk speed) data 0 os in (offset = length data, os'))"

text \<open>The typed wrappers: an object of type \<^verbatim>\<open>T\<close> is written as its bytes, a vector as the bytes of
  its elements. \<open>dec\<close> reads an object back from \<open>sz\<close> bytes.\<close>

definition WriteToStream :: "('a \<Rightarrow> bytes) \<Rightarrow> 'a \<Rightarrow> ostream \<Rightarrow> bool \<times> ostream" where
  "WriteToStream enc v os =
     (if \<not> os_good os then (False, os)
      else let os' = os_write (enc v) os in (os_good os', os'))"

definition WriteToStream_vector :: "('a \<Rightarrow> bytes) \<Rightarrow> 'a list \<Rightarrow> ostream \<Rightarrow> bool \<times> ostream" where
  "WriteToStream_vector enc v os =
     (if \<not> os_good os then (False, os)
      else let os' = os_write (concat (map enc v)) os in (os_good os', os'))"

definition ReadFromStream :: "nat \<Rightarrow> (bytes \<Rightarrow> 'a) \<Rightarrow> istream \<Rightarrow> 'a option \<times> istream" where
  "ReadFromStream sz dec is =
     (let ((got, ok), is') = ReadFixFromStream sz is in (if ok then Some (dec got) else None, is'))"

fun decode_all :: "nat \<Rightarrow> (bytes \<Rightarrow> 'a) \<Rightarrow> nat \<Rightarrow> bytes \<Rightarrow> 'a list" where
  "decode_all sz dec 0 bs = []"
| "decode_all sz dec (Suc n) bs = dec (take sz bs) # decode_all sz dec n (drop sz bs)"

definition ReadFromStream_vector ::
  "nat \<Rightarrow> (bytes \<Rightarrow> 'a) \<Rightarrow> nat \<Rightarrow> istream \<Rightarrow> 'a list option \<times> istream" where
  "ReadFromStream_vector sz dec n is =
     (let ((got, ok), is') = ReadFixFromStream (sz * n) is
      in (if ok then Some (decode_all sz dec n got) else None, is'))"

section \<open>Lemmas\<close>

lemma read_fix_loop_enough:
  assumes "is_good is" "length got \<le> sz" "sz - length got \<le> length (is_data is)" "per \<noteq> Some 0"
  shows "read_fix_loop per sz got is =
           (got @ take (sz - length got) (is_data is), is\<lparr>is_data := drop (sz - length got) (is_data is)\<rparr>)"
  using assms
proof (induction per sz got "is" rule: read_fix_loop.induct)
  case (1 per sz got "is")
  show ?case
  proof (cases "length got = sz")
    case True
    then show ?thesis by (simp add: read_fix_loop.simps)
  next
    case False
    define left where "left = sz - length got"
    define s where "s = (case per of None \<Rightarrow> left | Some p \<Rightarrow> if p < left then p else left)"
    have s: "0 < s" "s \<le> left" using False "1.prems" by (auto simp: s_def left_def split: option.splits)
    let ?is' = "is\<lparr>is_data := drop s (is_data is)\<rparr>"
    have rd: "is_read s is = (take s (is_data is), ?is')"
      using "1.prems" s by (cases "is") (auto simp: is_read_def left_def)
    have fits: "min (length (is_data is)) s = s" using "1.prems"(3) s(2) by (simp add: left_def)
    have diff: "sz - (length got + s) = left - s" "sz + s - (length got + s) = left"
      using s(2) by (auto simp: left_def)
    have diff2: "length got + s \<le> sz" "left - s \<le> length (is_data is) - s"
      using s(2) "1.prems"(2,3) by (auto simp: left_def)
    have step: "read_fix_loop per sz got is = read_fix_loop per sz (got @ take s (is_data is)) ?is'"
      using False "1.prems" s rd
      by (subst read_fix_loop.simps) (simp add: Let_def s_def [symmetric] left_def [symmetric])
    also have "\<dots> = ((got @ take s (is_data is)) @ take (left - s) (drop s (is_data is)),
        ?is'\<lparr>is_data := drop (left - s) (drop s (is_data is))\<rparr>)"
      using "1.IH" [of left s "(take s (is_data is), ?is')" "take s (is_data is)" ?is'] False "1.prems" s rd
        diff diff2 fits by (simp add: s_def [symmetric] left_def [symmetric])
    also have "\<dots> = (got @ take left (is_data is), is\<lparr>is_data := drop left (is_data is)\<rparr>)"
      using s take_add [of s "left - s" "is_data is"] by (simp add: add.commute)
    finally show ?thesis by (simp add: left_def)
  qed
qed

lemma read_fix_loop_short:
  assumes "is_good is" "length got \<le> sz" "length (is_data is) < sz - length got" "per \<noteq> Some 0"
  shows "read_fix_loop per sz got is = (got @ is_data is, is\<lparr>is_data := [], is_good := False\<rparr>)"
  using assms
proof (induction per sz got "is" rule: read_fix_loop.induct)
  case (1 per sz got "is")
  define left where "left = sz - length got"
  define s where "s = (case per of None \<Rightarrow> left | Some p \<Rightarrow> if p < left then p else left)"
  have s: "0 < s" "s \<le> left" using "1.prems" by (auto simp: s_def left_def split: option.splits)
  have short: "length got < sz" "length got \<noteq> sz" using "1.prems"(3) by auto
  define is' where "is' = is\<lparr>is_data := drop s (is_data is), is_good := s \<le> length (is_data is)\<rparr>"
  have rd: "is_read s is = (take s (is_data is), is')" by (simp add: is_read_def is'_def)
  have step: "read_fix_loop per sz got is = read_fix_loop per sz (got @ take s (is_data is)) is'"
    using "1.prems" s rd short
    by (subst read_fix_loop.simps) (simp add: Let_def s_def [symmetric] left_def [symmetric])
  show ?case
  proof (cases "s \<le> length (is_data is)")
    case False
    then show ?thesis using step
      by (simp add: is'_def read_fix_loop.simps [of per sz _ "is\<lparr>is_data := [], is_good := False\<rparr>"])
  next
    case True
    have pre: "is_good is'" "length (got @ take s (is_data is)) \<le> sz"
        "length (is_data is') < sz - length (got @ take s (is_data is))"
      using True s(2) "1.prems"(2,3) by (auto simp: is'_def left_def min_def)
    have "read_fix_loop per sz (got @ take s (is_data is)) is' =
        ((got @ take s (is_data is)) @ is_data is', is'\<lparr>is_data := [], is_good := False\<rparr>)"
      by (rule "1.IH" [OF _ left_def s_def _ refl _ pre "1.prems"(4)])
        (use "1.prems"(1) short s rd in \<open>simp_all add: s_def [symmetric] left_def [symmetric]\<close>)
    then show ?thesis using step by (simp add: is'_def)
  qed
qed

lemma per_chunk_pos: "Some (per_chunk speed) \<noteq> Some 0"
  by (simp add: per_chunk_def)

lemma ReadFix_enough:
  assumes "is_good is" "sz \<le> length (is_data is)"
  shows "ReadFixFromStream sz is =
           ((take sz (is_data is), True), is\<lparr>is_data := drop sz (is_data is)\<rparr>)"
  using assms read_fix_loop_enough [of "is" "[]" sz None] by (simp add: ReadFixFromStream_def)

lemma ReadFix_short:
  assumes "is_good is" "length (is_data is) < sz"
  shows "ReadFixFromStream sz is = ((is_data is, False), is\<lparr>is_data := [], is_good := False\<rparr>)"
  using assms read_fix_loop_short [of "is" "[]" sz None] by (simp add: ReadFixFromStream_def)

lemma ReadFixWithSpeed_eq:
  assumes "is_good is"
  shows "ReadFixFromStreamWithSpeed sz speed is = ReadFixFromStream sz is"
proof (cases "sz \<le> length (is_data is)")
  case True
  then show ?thesis
    using assms read_fix_loop_enough [of "is" "[]" sz "Some (per_chunk speed)"] per_chunk_pos
    by (simp add: ReadFixFromStreamWithSpeed_def ReadFix_enough)
next
  case False
  then show ?thesis
    using assms read_fix_loop_short [of "is" "[]" sz "Some (per_chunk speed)"] per_chunk_pos
    by (simp add: ReadFixFromStreamWithSpeed_def ReadFix_short)
qed

lemma write_fix_loop_room:
  assumes "0 < per" "os_good os" "offset \<le> length data" "length data - offset \<le> os_room os"
  shows "write_fix_loop per data offset os =
           (length data, os\<lparr>os_data := os_data os @ drop offset data,
                            os_room := os_room os - (length data - offset)\<rparr>)"
  using assms
proof (induction per data offset os rule: write_fix_loop.induct)
  case (1 per data offset os)
  show ?case
  proof (cases "offset = length data")
    case True
    then show ?thesis by (simp add: write_fix_loop.simps)
  next
    case False
    define s where "s = (if per < length data - offset then per else length data - offset)"
    have s: "0 < s" "offset + s \<le> length data" using False "1.prems" by (auto simp: s_def)
    define os' where "os' = os\<lparr>os_data := os_data os @ take s (drop offset data), os_room := os_room os - s\<rparr>"
    have os': "os_write (take s (drop offset data)) os = os'"
      using "1.prems" s by (cases os) (auto simp: os_write_def os'_def)
    have "write_fix_loop per data offset os = write_fix_loop per data (offset + s) os'"
      using False "1.prems" s os' by (subst write_fix_loop.simps) (simp add: Let_def s_def [symmetric])
    also have "\<dots> = (length data, os'\<lparr>os_data := os_data os' @ drop (offset + s) data,
                                 os_room := os_room os' - (length data - (offset + s))\<rparr>)"
      using "1.IH" [OF _ refl s_def] False "1.prems" s os' by (simp add: os'_def)
    also have "os_data os' @ drop (offset + s) data = os_data os @ drop offset data"
      by (simp add: os'_def) (metis add.commute append_take_drop_id drop_drop)
    finally show ?thesis using s(2) by (simp add: os'_def)
  qed
qed

lemma WriteFixWithSpeed_eq:
  assumes "os_good os" "length data \<le> os_room os"
  shows "WriteFixToStreamWithSpeed data speed os = (True, os_write data os)"
  using assms write_fix_loop_room [of "per_chunk speed" os 0 data]
  by (cases os) (simp add: WriteFixToStreamWithSpeed_def os_write_def per_chunk_def)

section \<open>Plain data\<close>

text \<open>
  What the containers rely on when they write objects byte by byte: the type has a fixed size, and
  its bytes determine it.
\<close>

locale pod =
  fixes enc :: "'a \<Rightarrow> bytes" and dec :: "bytes \<Rightarrow> 'a" and sz :: nat
  assumes length_enc: "length (enc x) = sz" and dec_enc: "dec (enc x) = x"
begin

lemma length_enc_all: "length (concat (map enc xs)) = sz * length xs"
  by (induction xs) (simp_all add: length_enc)

lemma decode_all_enc: "decode_all sz dec (length xs) (concat (map enc xs) @ rest) = xs"
  by (induction xs) (simp_all add: length_enc dec_enc)

lemma read_one:
  assumes "is_good is" "is_data is = enc x @ rest"
  shows "ReadFromStream sz dec is = (Some x, is\<lparr>is_data := rest\<rparr>)"
  using assms ReadFix_enough [of "is" sz] by (simp add: ReadFromStream_def length_enc dec_enc)

lemma read_vector:
  assumes "is_good is" "is_data is = concat (map enc xs) @ rest"
  shows "ReadFromStream_vector sz dec (length xs) is = (Some xs, is\<lparr>is_data := rest\<rparr>)"
  using assms ReadFix_enough [of "is" "sz * length xs"] decode_all_enc [of xs "[]"]
  by (simp add: ReadFromStream_vector_def length_enc_all del: length_concat)

lemma read_fix_vector:
  assumes "is_good is" "is_data is = concat (map enc xs) @ rest"
  shows "ReadFixFromStream (length xs * sz) is = ((concat (map enc xs), True), is\<lparr>is_data := rest\<rparr>)"
  using assms ReadFix_enough [of "is" "length xs * sz"]
  by (simp add: length_enc_all mult.commute del: length_concat)

end

text \<open>A \<^verbatim>\<open>uint64_t\<close> (a \<^verbatim>\<open>size_t\<close>) in the byte order of the machine.\<close>

interpretation u64: pod "mem h 8 :: u64 \<Rightarrow> bytes" "of_mem h" 8 for h
  by unfold_locales simp_all

text \<open>A structure of two \<^verbatim>\<open>uint64_t\<close> members.\<close>

definition enc_node :: "byte_order \<Rightarrow> u64 \<times> u64 \<Rightarrow> bytes" where
  "enc_node h n = mem h 8 (fst n) @ mem h 8 (snd n)"

definition dec_node :: "byte_order \<Rightarrow> bytes \<Rightarrow> u64 \<times> u64" where
  "dec_node h bs = (of_mem h (take 8 bs), of_mem h (drop 8 bs))"

interpretation node: pod "enc_node h" "dec_node h" 16 for h
  by unfold_locales (simp_all add: enc_node_def dec_node_def)

section \<open>Properties\<close>

text \<open>
  Throttled and unthrottled transfers agree: reading in pieces of at most \<^verbatim>\<open>per\<close> bytes gives
  the bytes, the success flag and the stream state of one large read, for streams that hold enough
  bytes and for streams that run dry; writing in pieces writes the same bytes as one write.
\<close>

theorem throttled_transfer_same:
  assumes "is_good is" "os_good os" "length data \<le> os_room os"
  shows "ReadFixFromStreamWithSpeed sz speed is = ReadFixFromStream sz is \<and>
         WriteFixToStreamWithSpeed data speed os = (True, os_write data os)"
  using ReadFixWithSpeed_eq [OF assms(1)] WriteFixWithSpeed_eq [OF assms(2,3)] by simp

theorem throttled_transfer_same_witness:
  "ReadFixFromStreamWithSpeed 2 7 \<lparr>is_data = [1, 2, 3], is_good = True\<rparr> =
     ReadFixFromStream 2 \<lparr>is_data = [1, 2, 3], is_good = True\<rparr> \<and>
   WriteFixToStreamWithSpeed [5] 7 \<lparr>os_data = [], os_good = True, os_room = 9\<rparr> =
     (True, os_write [5] \<lparr>os_data = [], os_good = True, os_room = 9\<rparr>)"
  using throttled_transfer_same [of "\<lparr>is_data = [1, 2, 3], is_good = True\<rparr>"
      "\<lparr>os_data = [], os_good = True, os_room = 9\<rparr>" "[5]" 2 7] by simp

end
