(* ===== verification/HashMap.thy ===== *)
theory HashMap
  imports Buckets MapSpec StreamIO
begin

text \<open>
  \<^verbatim>\<open>sylar/ds/hash_map.h\<close>. \<open>hash\<close> is the function object \<^verbatim>\<open>m_posHash\<close>; \<^verbatim>\<open>m_datas\<close> is the
  array of buckets or null (\<open>None\<close>). Operations are modelled one at a time: every one of them holds
  its locks from its first access to the table to its last.
\<close>

record ('k, 'v) hashmap =
  hm_size :: nat
  hm_total :: nat
  hm_datas :: "('k, 'v) table option"

section \<open>Operations\<close>

definition new_HashMap :: "nat \<Rightarrow> failure + ('k, 'v) hashmap" where
  "new_HashMap sz =
     (case basket (to_int32 sz) of Inl e \<Rightarrow> Inl e
      | Inr n \<Rightarrow> Inr \<lparr>hm_size = n, hm_total = 0, hm_datas = Some (replicate n [])\<rparr>)"

text \<open>The iteration of \<^verbatim>\<open>rforeach\<close>: the callback has a state and asks to go on or to stop.\<close>

fun foreach_nodes :: "('k \<Rightarrow> 'v \<Rightarrow> 's \<Rightarrow> bool \<times> 's) \<Rightarrow> ('k \<times> 'v) list \<Rightarrow> 's \<Rightarrow> 's" where
  "foreach_nodes cb [] s = s"
| "foreach_nodes cb ((k, v) # ns) s = (let (go, s') = cb k v s in if go then foreach_nodes cb ns s' else s')"

definition all_nodes :: "nat \<Rightarrow> ('k, 'v) table option \<Rightarrow> failure + ('k \<times> 'v) list" where
  "all_nodes sz datas =
     (if sz = 0 then Inr []
      else case datas of None \<Rightarrow> Inl NullDeref
           | Some ds \<Rightarrow> if length ds < sz then Inl BadIndex else Inr (concat (take sz ds)))"

definition HashMap_rforeach :: "('k \<Rightarrow> 'v \<Rightarrow> 's \<Rightarrow> bool \<times> 's) \<Rightarrow> ('k, 'v) hashmap \<Rightarrow> 's \<Rightarrow> failure + 's" where
  "HashMap_rforeach cb m s =
     (case all_nodes (hm_size m) (hm_datas m) of Inl e \<Rightarrow> Inl e | Inr ns \<Rightarrow> Inr (foreach_nodes cb ns s))"

text \<open>\<^verbatim>\<open>wforeach\<close> hands the callback a reference into a copy of each node (\<^verbatim>\<open>auto n\<close>): the value it
  assigns is dropped.\<close>

definition HashMap_wforeach ::
  "('k \<Rightarrow> 'v \<Rightarrow> 's \<Rightarrow> (bool \<times> 'v) \<times> 's) \<Rightarrow> 's \<Rightarrow> (('k, 'v) hashmap, 's) action" where
  "HashMap_wforeach cb s m =
     (case all_nodes (hm_size m) (hm_datas m) of Inl e \<Rightarrow> (Inl e, m)
      | Inr ns \<Rightarrow> (Inr (foreach_nodes (\<lambda>k v s. let ((go, _), s') = cb k v s in (go, s')) ns s), m))"

definition HashMap_get :: "('k::linorder \<Rightarrow> u32) \<Rightarrow> 'k \<Rightarrow> ('k, 'v) hashmap \<Rightarrow> failure + 'v option" where
  "HashMap_get hash k m =
     (case locate hash (hm_size m) (hm_datas m) k of Inl e \<Rightarrow> Inl e
      | Inr (pos, b) \<Rightarrow> let it = find_node b k in
          if it = length b then Inr None else Inr (Some (snd (b ! it))))"

definition HashMap_exists :: "('k::linorder \<Rightarrow> u32) \<Rightarrow> 'k \<Rightarrow> ('k, 'v) hashmap \<Rightarrow> failure + bool" where
  "HashMap_exists hash k m =
     (case locate hash (hm_size m) (hm_datas m) k of Inl e \<Rightarrow> Inl e
      | Inr (pos, b) \<Rightarrow> Inr (find_node b k \<noteq> length b))"

definition HashMap_rehashUnlock :: "('k::linorder \<Rightarrow> u32) \<Rightarrow> (('k, 'v) hashmap, unit) action" where
  "HashMap_rehashUnlock hash m =
     (case basket (to_int32 (hm_total m)) of Inl e \<Rightarrow> (Inl e, m)
      | Inr sz \<Rightarrow>
          if sz = hm_size m then (Inr (), m)
          else case all_nodes (hm_size m) (hm_datas m) of Inl e \<Rightarrow> (Inl e, m)
               | Inr ns \<Rightarrow> (Inr (), m\<lparr>hm_size := sz, hm_datas := Some (fill_table hash sz ns)\<rparr>))"

definition HashMap_rehash :: "('k::linorder \<Rightarrow> u32) \<Rightarrow> (('k, 'v) hashmap, unit) action" where
  "HashMap_rehash hash m =
     (if needRehash (hm_total m) (hm_size m) then HashMap_rehashUnlock hash m else (Inr (), m))"

definition HashMap_set :: "('k::linorder \<Rightarrow> u32) \<Rightarrow> 'k \<Rightarrow> 'v \<Rightarrow> (('k, 'v) hashmap, bool) action" where
  "HashMap_set hash k v =
     bindE (\<lambda>m. if needRehash (hm_total m) (hm_size m) then HashMap_rehash hash m else (Inr (), m))
       (\<lambda>_ m. case locate hash (hm_size m) (hm_datas m) k of Inl e \<Rightarrow> (Inl e, m)
        | Inr (pos, b) \<Rightarrow> let it = find_node b k; ds = the (hm_datas m) in
            if it = length b
            then (Inr True, m\<lparr>hm_datas := Some (ds[pos := push_node b (k, v)]), hm_total := hm_total m + 1\<rparr>)
            else (Inr False, m\<lparr>hm_datas := Some (ds[pos := b[it := (k, v)]])\<rparr>))"

definition HashMap_getTotal :: "('k, 'v) hashmap \<Rightarrow> nat" where
  "HashMap_getTotal m = hm_total m"

definition HashMap_del :: "('k::linorder \<Rightarrow> u32) \<Rightarrow> 'k \<Rightarrow> (('k, 'v) hashmap, bool) action" where
  "HashMap_del hash k m =
     (case locate hash (hm_size m) (hm_datas m) k of Inl e \<Rightarrow> (Inl e, m)
      | Inr (pos, b) \<Rightarrow> let it = find_node b k; ds = the (hm_datas m) in
          if it = length b then (Inr False, m)
          else (Inr True, m\<lparr>hm_datas := Some (ds[pos := erase_node b it]), hm_total := hm_total m - 1\<rparr>))"

text \<open>\<^verbatim>\<open>freeDatas\<close> deletes the array and sets the pointer to null.\<close>

definition HashMap_clear :: "('k, 'v) hashmap \<Rightarrow> ('k, 'v) hashmap" where
  "HashMap_clear m = m\<lparr>hm_total := 0, hm_size := 0, hm_datas := None\<rparr>"

definition HashMap_swap :: "('k, 'v) hashmap \<Rightarrow> ('k, 'v) hashmap \<Rightarrow> ('k, 'v) hashmap \<times> ('k, 'v) hashmap" where
  "HashMap_swap m oth = (m\<lparr>hm_total := hm_total oth, hm_size := hm_size oth, hm_datas := hm_datas oth\<rparr>,
                         oth\<lparr>hm_total := hm_total m, hm_size := hm_size m, hm_datas := hm_datas m\<rparr>)"

primrec set_pairs :: "('k::linorder \<Rightarrow> u32) \<Rightarrow> ('k \<times> 'v) list \<Rightarrow> (('k, 'v) hashmap, unit) action" where
  "set_pairs hash [] m = (Inr (), m)"
| "set_pairs hash (p # ps) m =
     (case HashMap_set hash (fst p) (snd p) m of (Inl e, m') \<Rightarrow> (Inl e, m') | (Inr _, m') \<Rightarrow> set_pairs hash ps m')"

definition HashMap_merge :: "('k::linorder \<Rightarrow> u32) \<Rightarrow> ('k, 'v) hashmap \<Rightarrow> (('k, 'v) hashmap, unit) action" where
  "HashMap_merge hash oth m =
     (case HashMap_rforeach (\<lambda>k v tmp. (True, tmp @ [(k, v)])) oth [] of Inl e \<Rightarrow> (Inl e, m)
      | Inr tmp \<Rightarrow> set_pairs hash tmp m)"

text \<open>
  \<^verbatim>\<open>writeTo\<close>: the bucket count, the number of bytes of all nodes, the nodes. \<open>enc\<close>, \<open>dec\<close> and
  \<open>nsz\<close> are the bytes of a \<^verbatim>\<open>Node\<close> (plain data), reading them back, and \<^verbatim>\<open>sizeof(Node)\<close>.
\<close>

definition HashMap_writeTo :: "byte_order \<Rightarrow> ('k \<times> 'v \<Rightarrow> bytes) \<Rightarrow> nat \<Rightarrow> nat option \<Rightarrow>
    ('k, 'v) hashmap \<Rightarrow> ostream \<Rightarrow> (failure + bool) \<times> ostream" where
  "HashMap_writeTo h enc nsz speed m os =
     (let os1 = os_write (mem h 8 (of_nat (hm_size m) :: u64)) os in
      case all_nodes (hm_size m) (hm_datas m) of Inl e \<Rightarrow> (Inl e, os1)
      | Inr ns \<Rightarrow>
          let os2 = os_write (mem h 8 (of_nat (length ns * nsz) :: u64)) os1;
              data = concat (map enc ns);
              os3 = (case speed of None \<Rightarrow> os_write data os2
                     | Some s \<Rightarrow> snd (WriteFixToStreamWithSpeed data s os2))
          in (Inr (os_good os3), os3))"

text \<open>\<^verbatim>\<open>readFrom\<close>: a byte count that is not a multiple of \<^verbatim>\<open>sizeof(Node)\<close> makes the read run past
  the vector (\<open>BadIndex\<close>).\<close>

definition HashMap_readFrom :: "('k::linorder \<Rightarrow> u32) \<Rightarrow> byte_order \<Rightarrow> (bytes \<Rightarrow> 'k \<times> 'v) \<Rightarrow> nat \<Rightarrow>
    nat option \<Rightarrow> ('k, 'v) hashmap \<Rightarrow> istream \<Rightarrow> ((failure + bool) \<times> ('k, 'v) hashmap) \<times> istream" where
  "HashMap_readFrom hash h dec nsz speed m is =
     (let m = m\<lparr>hm_datas := None\<rparr>;
          ((got, ok), is1) = ReadFixFromStream 8 is;
          m = m\<lparr>hm_size := unat (of_mem h (store 0 got (mem h 8 (of_nat (hm_size m) :: u64))) :: u64)\<rparr>
      in if \<not> ok then ((Inr False, m), is1)
         else case ReadFromStream 8 (of_mem h :: bytes \<Rightarrow> u64) is1 of
           (None, is2) \<Rightarrow> ((Inr False, m), is2)
         | (Some w, is2) \<Rightarrow>
             let sz = unat w;
                 ((data, ok'), is3) = (case speed of None \<Rightarrow> ReadFixFromStream sz is2
                                       | Some s \<Rightarrow> ReadFixFromStreamWithSpeed sz s is2)
             in if sz mod nsz \<noteq> 0 then ((Inl BadIndex, m), is3)
                else if \<not> ok' then ((Inr False, m), is3)
                else let ns = decode_all nsz dec (sz div nsz) data;
                         m = m\<lparr>hm_total := sz div nsz\<rparr>
                     in if hm_size m = 0 \<and> ns \<noteq> [] then ((Inl DivByZero, m), is3)
                        else ((Inr True, m\<lparr>hm_datas := Some (fill_table hash (hm_size m) ns)\<rparr>), is3))"

section \<open>Invariant and abstraction\<close>

definition hm_ok :: "('k::linorder \<Rightarrow> u32) \<Rightarrow> ('k, 'v) hashmap \<Rightarrow> bool" where
  "hm_ok hash m \<longleftrightarrow>
     (case hm_datas m of None \<Rightarrow> False
      | Some ds \<Rightarrow> 0 < hm_size m \<and> length ds = hm_size m \<and> table_ok hash ds \<and> hm_total m = table_count ds)"

definition hm_map :: "('k \<Rightarrow> u32) \<Rightarrow> ('k, 'v) hashmap \<Rightarrow> 'k \<rightharpoonup> 'v" where
  "hm_map hash m = table_map hash (the (hm_datas m))"

lemma hm_okE:
  assumes "hm_ok hash m"
  obtains ds where "hm_datas m = Some ds" "0 < length ds" "hm_size m = length ds" "table_ok hash ds"
    "hm_total m = table_count ds" "hm_map hash m = table_map hash ds"
proof (cases "hm_datas m")
  case None
  then show ?thesis using assms by (simp add: hm_ok_def)
next
  case (Some ds)
  then show ?thesis using assms by (intro that [of ds]) (auto simp: hm_ok_def hm_map_def)
qed

lemma hm_okI:
  "0 < length ds \<Longrightarrow> table_ok hash ds \<Longrightarrow> hm_ok hash \<lparr>hm_size = length ds, hm_total = table_count ds, hm_datas = Some ds\<rparr>"
  by (simp add: hm_ok_def)

lemma locate_ok:
  assumes "0 < length ds"
  shows "locate hash (length ds) (Some ds) k =
           Inr (unat (hash k) mod length ds, ds ! (unat (hash k) mod length ds))"
  using assms by (simp add: locate_def Let_def)

lemma hm_total_card: "hm_ok hash m \<Longrightarrow> hm_total m = card (dom (hm_map hash m))"
  by (erule hm_okE) (simp add: table_dom(3))

lemma new_HashMap_ok:
  assumes "new_HashMap sz = Inr m"
  shows "hm_ok hash m" "hm_map hash m = Map.empty"
proof -
  obtain n where n: "basket (to_int32 sz) = Inr n" "m = \<lparr>hm_size = n, hm_total = 0, hm_datas = Some (replicate n [])\<rparr>"
    using assms by (auto simp: new_HashMap_def split: sum.splits)
  have "0 < n" using n(1) by (rule basket_pos)
  then show "hm_ok hash m" "hm_map hash m = Map.empty"
    using n(2) by (auto simp: hm_ok_def hm_map_def table_ok_def bucket_ok_def table_count_def table_map_def)
qed

lemma new_HashMap_returns:
  assumes "0 < sz" "sz < 2 ^ 31"
  shows "\<exists>m. new_HashMap sz = Inr m"
  using assms to_int32_id [of sz] by (simp add: new_HashMap_def basket_def)

section \<open>Laws\<close>

lemma HashMap_get_correct:
  assumes "hm_ok hash m"
  shows "HashMap_get hash k m = Inr (hm_map hash m k)"
    "HashMap_exists hash k m = Inr (hm_map hash m k \<noteq> None)"
proof -
  obtain ds where ds: "hm_datas m = Some ds" "0 < length ds" "hm_size m = length ds" "table_ok hash ds"
      "hm_map hash m = table_map hash ds"
    using assms by (rule hm_okE)
  let ?p = "unat (hash k) mod length ds"
  have b: "bucket_ok (ds ! ?p)" using ds(2,4) by (simp add: table_bucket_ok)
  have "HashMap_get hash k m = Inr (map_of (ds ! ?p) k) \<and>
      HashMap_exists hash k m = Inr (map_of (ds ! ?p) k \<noteq> None)"
  proof (cases "map_of (ds ! ?p) k")
    case None
    then show ?thesis
      using find_node_missing [OF b None] ds locate_ok [OF ds(2)] by (simp add: HashMap_get_def HashMap_exists_def)
  next
    case (Some v)
    then show ?thesis
      using find_node_present [OF b Some] ds locate_ok [OF ds(2)] by (simp add: HashMap_get_def HashMap_exists_def)
  qed
  then show "HashMap_get hash k m = Inr (hm_map hash m k)"
    "HashMap_exists hash k m = Inr (hm_map hash m k \<noteq> None)"
    using ds(5) by (simp_all add: table_map_def)
qed

lemma HashMap_rehash_correct:
  assumes ok: "hm_ok hash m" and total: "hm_total m < 2 ^ 31"
  shows "\<exists>m'. HashMap_rehash hash m = (Inr (), m') \<and> hm_ok hash m' \<and>
           hm_map hash m' = hm_map hash m \<and> hm_total m' = hm_total m"
proof (cases "needRehash (hm_total m) (hm_size m)")
  case False
  then show ?thesis using ok by (simp add: HashMap_rehash_def)
next
  case True
  obtain ds where ds: "hm_datas m = Some ds" "0 < length ds" "hm_size m = length ds" "table_ok hash ds"
      "hm_total m = table_count ds" "hm_map hash m = table_map hash ds"
    using ok by (rule hm_okE)
  have "0 < hm_total m" using True by (auto simp: needRehash_def)
  then obtain n where n: "basket (to_int32 (hm_total m)) = Inr n"
    using total to_int32_id [of "hm_total m"] by (simp add: basket_def)
  note n0 = basket_pos [OF n]
  show ?thesis
  proof (cases "n = hm_size m")
    case True
    then show ?thesis using n ok by (auto simp: HashMap_rehash_def HashMap_rehashUnlock_def)
  next
    case False
    let ?m' = "m\<lparr>hm_size := n, hm_datas := Some (fill_table hash n (concat ds))\<rparr>"
    have nodes: "all_nodes (hm_size m) (hm_datas m) = Inr (concat ds)"
      using ds by (simp add: all_nodes_def)
    note r = rehash_table_ok [OF ds(4,2) n0]
    have "HashMap_rehash hash m = (Inr (), ?m')"
      using True False n nodes by (simp add: HashMap_rehash_def HashMap_rehashUnlock_def)
    moreover have "hm_ok hash ?m'" using r n0 ds(5) by (simp add: hm_ok_def)
    moreover have "hm_map hash ?m' = hm_map hash m" using r ds(6) by (simp add: hm_map_def)
    ultimately show ?thesis by auto
  qed
qed

lemma HashMap_set_correct:
  assumes ok: "hm_ok hash m" and total: "hm_total m < 2 ^ 31"
  shows "\<exists>m'. HashMap_set hash k v m = (Inr (hm_map hash m k = None), m') \<and> hm_ok hash m' \<and>
           hm_map hash m' = (hm_map hash m)(k \<mapsto> v)"
proof -
  have "(if needRehash (hm_total m) (hm_size m) then HashMap_rehash hash m else (Inr (), m)) = HashMap_rehash hash m"
    by (simp add: HashMap_rehash_def)
  then obtain m1 where m1: "(if needRehash (hm_total m) (hm_size m) then HashMap_rehash hash m else (Inr (), m)) = (Inr (), m1)"
      "hm_ok hash m1" "hm_map hash m1 = hm_map hash m"
    using HashMap_rehash_correct [OF assms] by metis
  obtain ds where ds: "hm_datas m1 = Some ds" "0 < length ds" "hm_size m1 = length ds" "table_ok hash ds"
      "hm_total m1 = table_count ds" "hm_map hash m1 = table_map hash ds"
    using m1(2) by (rule hm_okE)
  define p where "p = unat (hash k) mod length ds"
  have p: "p < length ds" using ds(2) by (simp add: p_def)
  let ?b = "ds ! p"
  have b: "bucket_ok ?b" using ds(4) p by (rule table_bucket_ok)
  note t = table_put [OF ds(4) p_def p, of v]
  let ?m' = "m1\<lparr>hm_datas := Some (ds[p := put_bucket ?b k v]),
                 hm_total := (if map_of ?b k = None then hm_total m1 + 1 else hm_total m1)\<rparr>"
  have find: "find_node ?b k = length ?b \<longleftrightarrow> map_of ?b k = None"
    using find_node_missing [OF b] find_node_present(1) [OF b] by (cases "map_of ?b k") force+
  have "HashMap_set hash k v m = (Inr (map_of ?b k = None), ?m')"
  proof -
    have "HashMap_set hash k v m = (let it = find_node ?b k in
        if it = length ?b
        then (Inr True, m1\<lparr>hm_datas := Some (ds[p := push_node ?b (k, v)]), hm_total := hm_total m1 + 1\<rparr>)
        else (Inr False, m1\<lparr>hm_datas := Some (ds[p := ?b[it := (k, v)]])\<rparr>))"
      using m1(1) locate_ok [OF ds(2), of hash k] ds(1,3)
      by (simp add: HashMap_set_def bindE_def p_def Let_def)
    then show ?thesis using find by (auto simp: put_bucket_def Let_def)
  qed
  moreover have "map_of ?b k = hm_map hash m k" using m1(3) ds(6) table_map_def [of hash ds k] by (simp add: p_def)
  moreover have "hm_ok hash ?m'" using t(1,3) ds p by (simp add: hm_ok_def)
  moreover have "hm_map hash ?m' = (hm_map hash m)(k \<mapsto> v)" using t(2) m1(3) ds(6) by (simp add: hm_map_def)
  ultimately show ?thesis by auto
qed

lemma HashMap_del_correct:
  assumes ok: "hm_ok hash m"
  shows "\<exists>m'. HashMap_del hash k m = (Inr (hm_map hash m k \<noteq> None), m') \<and> hm_ok hash m' \<and>
           hm_map hash m' = (hm_map hash m)(k := None)"
proof -
  obtain ds where ds: "hm_datas m = Some ds" "0 < length ds" "hm_size m = length ds" "table_ok hash ds"
      "hm_total m = table_count ds" "hm_map hash m = table_map hash ds"
    using ok by (rule hm_okE)
  define p where "p = unat (hash k) mod length ds"
  have p: "p < length ds" using ds(2) by (simp add: p_def)
  have b: "bucket_ok (ds ! p)" using ds(4) p by (rule table_bucket_ok)
  have mk: "hm_map hash m k = map_of (ds ! p) k" using ds(6) by (simp add: table_map_def p_def)
  have loc: "locate hash (hm_size m) (hm_datas m) k = Inr (p, ds ! p)"
    using locate_ok [OF ds(2), of hash k] ds(1,3) by (simp add: p_def)
  show ?thesis
  proof (cases "map_of (ds ! p) k")
    case None
    then have "HashMap_del hash k m = (Inr False, m)"
      using loc find_node_missing [OF b None] by (simp add: HashMap_del_def)
    moreover have "(hm_map hash m)(k := None) = hm_map hash m" using None mk by (simp add: fun_upd_idem)
    ultimately show ?thesis using ok None mk by simp
  next
    case (Some v)
    let ?ds = "ds[p := erase_node (ds ! p) (find_node (ds ! p) k)]"
    let ?m' = "m\<lparr>hm_datas := Some ?ds, hm_total := hm_total m - 1\<rparr>"
    note t = table_erase [OF ds(4) p_def p Some]
    have "HashMap_del hash k m = (Inr True, ?m')"
      using loc find_node_present(1) [OF b Some] ds(1) by (simp add: HashMap_del_def)
    moreover have "hm_ok hash ?m'" using t(1,3) ds by (simp add: hm_ok_def)
    moreover have "hm_map hash ?m' = (hm_map hash m)(k := None)" using t(2) ds(6) by (simp add: hm_map_def)
    ultimately show ?thesis using Some mk by auto
  qed
qed

section \<open>HashMap as a map\<close>

interpretation hm: kv_map "HashMap_get hash" "HashMap_set hash" "HashMap_del hash" "hm_ok hash"
  "hm_map hash" "\<lambda>v. v" "\<lambda>r. r = None" "\<lambda>_. True" "2 ^ 31" for hash
proof unfold_locales
  fix s :: "('a, 'b) hashmap" assume s: "hm_ok hash s"
  show "finite (dom (hm_map hash s))" using s by (elim hm_okE) (simp add: table_dom(2))
  show "HashMap_get hash k s = Inr (hm_map hash s k)" for k using s by (rule HashMap_get_correct)
  show "\<exists>s'. HashMap_set hash k v s = (Inr (hm_map hash s k = None), s') \<and> hm_ok hash s' \<and>
      hm_map hash s' = (hm_map hash s)(k \<mapsto> v)" if "card (dom (hm_map hash s)) < 2 ^ 31" for k v
    using that hm_total_card [OF s] by (intro HashMap_set_correct [OF s]) simp
  show "\<exists>s'. HashMap_del hash k s = (Inr (hm_map hash s k \<noteq> None), s') \<and> hm_ok hash s' \<and>
      hm_map hash s' = (hm_map hash s)(k := None)" for k
    using s by (rule HashMap_del_correct)
qed

lemma set_pairs_eq: "set_pairs hash ps m = hm.set_all hash ps m"
  by (induction ps arbitrary: m) (auto split: prod.splits sum.splits)

lemma foreach_collect: "foreach_nodes (\<lambda>k v tmp. (True, tmp @ [(k, v)])) ns tmp = tmp @ ns"
  by (induction ns arbitrary: tmp) auto

section \<open>Properties\<close>

text \<open>
  (C2) \<^verbatim>\<open>HashMap\<close> is a finite map: on a new table of any size, and for every hash function, a run of
  \<^verbatim>\<open>set\<close>, \<^verbatim>\<open>get\<close> and \<^verbatim>\<open>del\<close> (rehashing included) returns what the abstract map returns, keeps the
  buckets sorted and complete, and counts the keys.
\<close>

theorem hashmap_refines_map:
  assumes "new_HashMap sz = Inr m" "length ops \<le> 2 ^ 31"
  shows "\<exists>m'. run_map (impl_exec (HashMap_get hash) (HashMap_set hash) (HashMap_del hash)) ops m =
                (fst (run_map (spec_exec (\<lambda>v. v) (\<lambda>r. r = None)) ops Map.empty), m') \<and> hm_ok hash m' \<and>
           hm_map hash m' = snd (run_map (spec_exec (\<lambda>v. v) (\<lambda>r. r = None)) ops Map.empty) \<and>
           HashMap_getTotal m' = card (dom (hm_map hash m'))"
proof -
  note n = new_HashMap_ok [OF assms(1), of hash]
  have "card (dom (hm_map hash m)) + length ops \<le> 2 ^ 31" using n(2) assms(2) by simp
  moreover have "list_all (value_ok (\<lambda>_. True)) ops"
    by (simp add: list_all_iff)
  ultimately show ?thesis
    using hm.run_simulates [OF n(1), of ops] n(2) hm_total_card by (auto simp: HashMap_getTotal_def)
qed

theorem hashmap_refines_map_witness:
  "\<exists>m m'. new_HashMap 10 = Inr m \<and>
     run_map (impl_exec (HashMap_get (\<lambda>_. 0)) (HashMap_set (\<lambda>_. 0)) (HashMap_del (\<lambda>_. 0)))
       [Update (3 :: nat) ''a'', Update 5 ''b'', Delete 3, Lookup 5, Lookup 3] m =
     ([Flag True, Flag True, Flag True, Val (Some ''b''), Val None], m')"
proof -
  obtain m :: "(nat, string) hashmap" where m: "new_HashMap 10 = Inr m"
    using new_HashMap_returns [of 10] by auto
  then show ?thesis
    using hashmap_refines_map [OF m, of "[Update 3 ''a'', Update 5 ''b'', Delete 3, Lookup 5, Lookup 3]" "\<lambda>_. 0"]
    by (auto simp del: run_map.simps(2) simp add: run_map.simps(2) [of "spec_exec (\<lambda>v. v) (\<lambda>r. r = None)"])
qed

text \<open>
  (C18) \<^verbatim>\<open>rehash\<close> changes the table, not the map: every key keeps its value and the count stays.
\<close>

theorem rehash_preserves_map:
  assumes "hm_ok hash m" "hm_total m < 2 ^ 31"
  shows "\<exists>m'. HashMap_rehash hash m = (Inr (), m') \<and> hm_ok hash m' \<and>
           hm_map hash m' = hm_map hash m \<and> hm_total m' = hm_total m"
  using assms by (rule HashMap_rehash_correct)

theorem rehash_preserves_map_witness:
  "\<exists>m' :: (nat, nat) hashmap. HashMap_rehash (\<lambda>_. 0)
     \<lparr>hm_size = 1, hm_total = 17, hm_datas = Some [map (\<lambda>i. (i, i)) [0..<17]]\<rparr> = (Inr (), m') \<and>
     hm_ok (\<lambda>_. 0) m' \<and> hm_total m' = 17"
proof -
  let ?m = "\<lparr>hm_size = 1, hm_total = 17, hm_datas = Some [map (\<lambda>i. (i, i)) [0..<17]]\<rparr> :: (nat, nat) hashmap"
  have "hm_ok (\<lambda>_. 0) ?m"
    by (simp add: hm_ok_def table_ok_def bucket_ok_def table_count_def comp_def)
  from rehash_preserves_map [OF this] show ?thesis by auto
qed

text \<open>
  \<^verbatim>\<open>merge\<close> overrides: afterwards every key of the other map has the other map's value and the
  remaining keys are as before.
\<close>

theorem merge_is_map_add:
  assumes "hm_ok hash m" "hm_ok hash oth" "hm_total m + hm_total oth \<le> 2 ^ 31"
  shows "\<exists>m'. HashMap_merge hash oth m = (Inr (), m') \<and> hm_ok hash m' \<and>
           hm_map hash m' = hm_map hash m ++ hm_map hash oth"
proof -
  obtain ds where ds: "hm_datas oth = Some ds" "0 < length ds" "hm_size oth = length ds" "table_ok hash ds"
      "hm_total oth = table_count ds" "hm_map hash oth = table_map hash ds"
    using assms(2) by (rule hm_okE)
  have merge: "HashMap_merge hash oth m = hm.set_all hash (concat ds) m"
    using ds(1-3) by (simp add: HashMap_merge_def HashMap_rforeach_def all_nodes_def foreach_collect set_pairs_eq)
  have "card (dom (hm_map hash m)) + length (concat ds) \<le> 2 ^ 31"
    using assms(3) hm_total_card [OF assms(1)] ds(5) by (simp add: table_count_def)
  then obtain m' where m': "hm.set_all hash (concat ds) m = (Inr (), m')" "hm_ok hash m'"
      "hm_map hash m' = hm_map hash m ++ map_of (rev (concat ds))"
    using hm.set_all_correct [OF assms(1), of "concat ds"] by (auto simp: list_all_iff)
  have "distinct (map fst (rev (concat ds)))"
    using table_distinct_keys [OF ds(4)] by (metis distinct_rev rev_map)
  then have "map_of (rev (concat ds)) k = Some v \<longleftrightarrow> table_map hash ds k = Some v" for k v
    using table_map_set [OF ds(4,2), of k v] map_of_eq_Some_iff by (metis set_rev table_nodes_def)
  then have "map_of (rev (concat ds)) = hm_map hash oth" using ds(6) by (metis ext option.exhaust)
  then show ?thesis using merge m' by simp
qed

theorem merge_is_map_add_witness:
  "\<exists>a b m' :: (nat, nat) hashmap. new_HashMap 1 = Inr a \<and> new_HashMap 2 = Inr b \<and>
     HashMap_merge (\<lambda>_. 0) b a = (Inr (), m')"
proof -
  obtain a b :: "(nat, nat) hashmap" where m: "new_HashMap 1 = Inr a" "new_HashMap 2 = Inr b"
    using new_HashMap_returns [of 1] new_HashMap_returns [of 2] by auto
  have "hm_total a + hm_total b \<le> 2 ^ 31"
    using m by (auto simp: new_HashMap_def split: sum.splits)
  then show ?thesis
    using merge_is_map_add [OF new_HashMap_ok(1) [OF m(1)] new_HashMap_ok(1) [OF m(2)]] m by blast
qed

text \<open>
  After \<^verbatim>\<open>clear\<close> the object is unusable: the bucket count is 0, so every access divides by
  zero instead of finding an empty map.
\<close>

theorem clear_then_access:
  "HashMap_get hash k (HashMap_clear m) = Inl DivByZero \<and>
   HashMap_set hash k v (HashMap_clear m) = (Inl DivByZero, HashMap_clear m) \<and>
   HashMap_del hash k (HashMap_clear m) = (Inl DivByZero, HashMap_clear m)"
  by (simp add: HashMap_clear_def HashMap_get_def HashMap_set_def HashMap_del_def locate_def
      needRehash_def bindE_def)

section \<open>Saving and loading\<close>

lemma HashMap_writeTo_bytes:
  assumes "pod enc dec nsz" "hm_ok hash m" "hm_datas m = Some ds" "os_good os"
    "16 + hm_total m * nsz \<le> os_room os"
  shows "fst (HashMap_writeTo h enc nsz speed m os) = Inr True"
    "os_data (snd (HashMap_writeTo h enc nsz speed m os)) =
       os_data os @ mem h 8 (of_nat (hm_size m) :: u64) @ mem h 8 (of_nat (hm_total m * nsz) :: u64) @
       concat (map enc (concat ds))"
proof -
  have ds: "hm_size m = length ds" "0 < length ds" "hm_total m = length (concat ds)"
    using assms(2,3) by (auto simp: hm_ok_def table_count_def simp del: length_concat)
  let ?a = "mem h 8 (of_nat (hm_size m) :: u64)" and ?b = "mem h 8 (of_nat (hm_total m * nsz) :: u64)"
  let ?c = "concat (map enc (concat ds))"
  have len: "length ?c = hm_total m * nsz"
    using pod.length_enc_all [OF assms(1), of "concat ds"] ds(3) by (simp add: mult.commute del: length_concat)
  define os2 where "os2 = os_write ?b (os_write ?a os)"
  have os2: "os_good os2" "os_data os2 = os_data os @ ?a @ ?b" "length ?c \<le> os_room os2"
    using assms(4,5) len by (auto simp: os2_def os_write_def simp del: length_concat)
  have nodes: "all_nodes (hm_size m) (hm_datas m) = Inr (concat ds)"
    using assms(3) ds by (simp add: all_nodes_def)
  have "HashMap_writeTo h enc nsz speed m os = (Inr (os_good (os_write ?c os2)), os_write ?c os2)"
    using WriteFixWithSpeed_eq [OF os2(1,3)] ds(3) nodes
    by (simp add: HashMap_writeTo_def Let_def os2_def del: length_concat split: option.split)
  then show "fst (HashMap_writeTo h enc nsz speed m os) = Inr True"
      "os_data (snd (HashMap_writeTo h enc nsz speed m os)) = os_data os @ ?a @ ?b @ ?c"
    using os2 by (auto simp: os_write_def simp del: length_concat)
qed

lemma HashMap_readFrom_bytes:
  assumes "pod enc dec nsz" "0 < nsz" "0 < sz" "sz < 2 ^ 64" "length ns * nsz < 2 ^ 64" "is_good is"
    and data: "is_data is = mem h 8 (of_nat sz :: u64) @ mem h 8 (of_nat (length ns * nsz) :: u64) @
                 concat (map enc ns) @ rest"
  shows "HashMap_readFrom hash h dec nsz speed m is =
    ((Inr True, \<lparr>hm_size = sz, hm_total = length ns, hm_datas = Some (fill_table hash sz ns)\<rparr>), is\<lparr>is_data := rest\<rparr>)"
proof -
  let ?a = "mem h 8 (of_nat sz :: u64)" and ?b = "mem h 8 (of_nat (length ns * nsz) :: u64)"
  let ?c = "concat (map enc ns)"
  have r1: "ReadFixFromStream 8 is = ((?a, True), is\<lparr>is_data := ?b @ ?c @ rest\<rparr>)"
    using ReadFix_enough [OF assms(6), of 8] data by simp
  have r2: "ReadFromStream 8 (of_mem h :: bytes \<Rightarrow> u64) (is\<lparr>is_data := ?b @ ?c @ rest\<rparr>) =
      (Some (of_nat (length ns * nsz)), is\<lparr>is_data := ?c @ rest\<rparr>)"
    using u64.read_one [of "is\<lparr>is_data := ?b @ ?c @ rest\<rparr>" h "of_nat (length ns * nsz)" "?c @ rest"] assms(6) by simp
  have r3: "ReadFixFromStream (length ns * nsz) (is\<lparr>is_data := ?c @ rest\<rparr>) = ((?c, True), is\<lparr>is_data := rest\<rparr>)"
    using pod.read_fix_vector [OF assms(1), of "is\<lparr>is_data := ?c @ rest\<rparr>" ns rest] assms(6) by simp
  have w: "unat (of_nat sz :: u64) = sz" "unat (of_nat (length ns * nsz) :: u64) = length ns * nsz"
    using assms(4,5) by (simp_all only: unat_of_nat) simp_all
  have d: "decode_all nsz dec (length ns) ?c = ns"
    using pod.decode_all_enc [OF assms(1), of ns "[]"] by simp
  show ?thesis
    using r1 r2 r3 w d assms(2,3,6) ReadFixWithSpeed_eq [of "is\<lparr>is_data := ?c @ rest\<rparr>"]
    by (cases m) (simp add: HashMap_readFrom_def Let_def store_def del: of_nat_mult length_concat split: option.split)
qed

text \<open>
  (C19) \<^verbatim>\<open>writeTo\<close> and \<^verbatim>\<open>readFrom\<close>: a table of plain keys and values written to a stream and read
  into any object gives the same map and count, with or without throttling on either side.
\<close>

theorem hashmap_save_load:
  assumes "pod enc dec nsz" "0 < nsz" "hm_ok hash m" "hm_size m < 2 ^ 64" "hm_total m * nsz < 2 ^ 64"
    "os_good os" "os_data os = []" "16 + hm_total m * nsz \<le> os_room os" "is_good is"
    "is_data is = os_data (snd (HashMap_writeTo h enc nsz speed m os)) @ rest"
  shows "fst (HashMap_writeTo h enc nsz speed m os) = Inr True \<and>
    (\<exists>m'. HashMap_readFrom hash h dec nsz speed' m0 is = ((Inr True, m'), is\<lparr>is_data := rest\<rparr>) \<and>
       hm_ok hash m' \<and> hm_map hash m' = hm_map hash m \<and> hm_total m' = hm_total m)"
proof -
  obtain ds where ds: "hm_datas m = Some ds" "0 < length ds" "hm_size m = length ds" "table_ok hash ds"
      "hm_total m = table_count ds" "hm_map hash m = table_map hash ds"
    using assms(3) by (rule hm_okE)
  note wr = HashMap_writeTo_bytes [OF assms(1,3) ds(1) assms(6,8), of h speed]
  have tot: "hm_total m = length (concat ds)" using ds(5) by (simp add: table_count_def)
  let ?m' = "\<lparr>hm_size = length ds, hm_total = length (concat ds),
              hm_datas = Some (fill_table hash (length ds) (concat ds))\<rparr>"
  have "HashMap_readFrom hash h dec nsz speed' m0 is = ((Inr True, ?m'), is\<lparr>is_data := rest\<rparr>)"
    by (rule HashMap_readFrom_bytes [OF assms(1,2) ds(2)])
      (use assms wr(2) tot ds(3) in \<open>auto simp del: length_concat\<close>)
  moreover have "hm_ok hash ?m'" "hm_map hash ?m' = hm_map hash m"
    using rehash_table_ok [OF ds(4,2,2)] ds(2,6) by (auto simp: hm_ok_def hm_map_def table_count_def)
  ultimately show ?thesis using wr(1) tot by auto
qed

theorem hashmap_save_load_witness:
  "\<exists>m is. hm_total m = 1 \<and> (\<exists>m'. HashMap_readFrom (\<lambda>_. 0) SYLAR_LITTLE_ENDIAN (dec_node SYLAR_LITTLE_ENDIAN) 16
     (Some 5) m is = ((Inr True, m'), is\<lparr>is_data := []\<rparr>) \<and> hm_map (\<lambda>_. 0) m' = hm_map (\<lambda>_. 0) m)"
proof -
  let ?h = SYLAR_LITTLE_ENDIAN and ?os = "\<lparr>os_data = [], os_good = True, os_room = 100\<rparr>"
  let ?m = "\<lparr>hm_size = 1, hm_total = 1, hm_datas = Some [[(4 :: u64, 2 :: u64)]]\<rparr>"
  let ?is = "\<lparr>is_data = os_data (snd (HashMap_writeTo ?h (enc_node ?h) 16 None ?m ?os)), is_good = True\<rparr>"
  have "hm_ok (\<lambda>_. 0) ?m" by (simp add: hm_ok_def table_ok_def bucket_ok_def table_count_def)
  then show ?thesis
    using hashmap_save_load [OF node.pod_axioms _ \<open>hm_ok (\<lambda>_. 0) ?m\<close>, of ?os ?is ?h ?h None "[]" "Some 5" ?m]
    by (intro exI [of _ ?m] exI [of _ ?is]) auto
qed

end
