(* ===== verification/HashMultimap.thy ===== *)
theory HashMultimap
  imports HashMap
begin

text \<open>
  \<^verbatim>\<open>sylar/ds/hash_multimap.h\<close>: every key has an array of values (\<^verbatim>\<open>val\<close> and \<^verbatim>\<open>size\<close> of a node,
  here a list), kept in order. \<^verbatim>\<open>m_values\<close> only decides which arrays are freed and is left out.
  \<^verbatim>\<open>m_total\<close> counts the keys, \<^verbatim>\<open>m_elements\<close> is meant to count the values.
\<close>

record ('k, 'v) multimap =
  mm_size :: nat
  mm_total :: nat
  mm_elements :: nat
  mm_datas :: "('k, 'v list) table option"

section \<open>Operations\<close>

definition new_HashMultimap :: "nat \<Rightarrow> failure + ('k, 'v) multimap" where
  "new_HashMultimap sz =
     (case basket (to_int32 sz) of Inl e \<Rightarrow> Inl e
      | Inr n \<Rightarrow> Inr \<lparr>mm_size = n, mm_total = 0, mm_elements = 0, mm_datas = Some (replicate n [])\<rparr>)"

definition Multimap_rforeach :: "('k \<Rightarrow> 'v list \<Rightarrow> 's \<Rightarrow> bool \<times> 's) \<Rightarrow> ('k, 'v) multimap \<Rightarrow> 's \<Rightarrow> failure + 's" where
  "Multimap_rforeach cb m s =
     (case all_nodes (mm_size m) (mm_datas m) of Inl e \<Rightarrow> Inl e | Inr ns \<Rightarrow> Inr (foreach_nodes cb ns s))"

text \<open>\<^verbatim>\<open>wforeach\<close>: the node is copied but the array it points to is the one of the table, so the values
  the callback stores stay; it cannot change their number.\<close>

primrec wforeach_bucket :: "('k \<Rightarrow> 'v list \<Rightarrow> 's \<Rightarrow> (bool \<times> 'v list) \<times> 's) \<Rightarrow> ('k \<times> 'v list) list \<Rightarrow> 's \<Rightarrow>
    (bool \<times> ('k \<times> 'v list) list) \<times> 's" where
  "wforeach_bucket cb [] s = ((True, []), s)"
| "wforeach_bucket cb (n # ns) s =
     (let ((go, vs), s') = cb (fst n) (snd n) s; vs = take (length (snd n)) (vs @ drop (length vs) (snd n)) in
      if go then let ((go', ns'), s'') = wforeach_bucket cb ns s' in ((go', (fst n, vs) # ns'), s'')
      else ((False, (fst n, vs) # ns), s'))"

primrec wforeach_table :: "('k \<Rightarrow> 'v list \<Rightarrow> 's \<Rightarrow> (bool \<times> 'v list) \<times> 's) \<Rightarrow> ('k, 'v list) table \<Rightarrow> 's \<Rightarrow>
    ('k, 'v list) table \<times> 's" where
  "wforeach_table cb [] s = ([], s)"
| "wforeach_table cb (b # bs) s =
     (let ((go, b'), s') = wforeach_bucket cb b s in
      if go then let (bs', s'') = wforeach_table cb bs s' in (b' # bs', s'') else (b' # bs, s'))"

definition Multimap_wforeach ::
  "('k \<Rightarrow> 'v list \<Rightarrow> 's \<Rightarrow> (bool \<times> 'v list) \<times> 's) \<Rightarrow> 's \<Rightarrow> (('k, 'v) multimap, 's) action" where
  "Multimap_wforeach cb s m =
     (if mm_size m = 0 then (Inr s, m)
      else case mm_datas m of None \<Rightarrow> (Inl NullDeref, m)
           | Some ds \<Rightarrow> if length ds < mm_size m then (Inl BadIndex, m)
               else let (ds', s') = wforeach_table cb (take (mm_size m) ds) s
                    in (Inr s', m\<lparr>mm_datas := Some (ds' @ drop (mm_size m) ds)\<rparr>))"

text \<open>The search that every operation begins with: the bucket and the position of the key in it.\<close>

definition Multimap_find :: "('k::linorder \<Rightarrow> u32) \<Rightarrow> 'k \<Rightarrow> ('k, 'v) multimap \<Rightarrow>
    failure + (nat \<times> ('k \<times> 'v list) list \<times> nat)" where
  "Multimap_find hash k m =
     (case locate hash (mm_size m) (mm_datas m) k of Inl e \<Rightarrow> Inl e
      | Inr (pos, b) \<Rightarrow> Inr (pos, b, find_node b k))"

text \<open>\<^verbatim>\<open>get(k, duplicate)\<close>; \<open>None\<close> is the empty \<^verbatim>\<open>SharedArray\<close>. The flag only decides whether the
  result shares the memory of the table.\<close>

definition Multimap_get :: "('k::linorder \<Rightarrow> u32) \<Rightarrow> 'k \<Rightarrow> ('k, 'v) multimap \<Rightarrow> failure + 'v list option" where
  "Multimap_get hash k m =
     (case Multimap_find hash k m of Inl e \<Rightarrow> Inl e
      | Inr (pos, b, it) \<Rightarrow> if it = length b then Inr None else Inr (Some (snd (b ! it))))"

text \<open>\<^verbatim>\<open>get(k, vector)\<close>: a missing key returns an empty \<^verbatim>\<open>SharedArray\<close> converted to \<^verbatim>\<open>bool\<close>, which is
  false, and leaves the vector alone.\<close>

definition Multimap_get_vector :: "('k::linorder \<Rightarrow> u32) \<Rightarrow> 'k \<Rightarrow> 'v list \<Rightarrow> ('k, 'v) multimap \<Rightarrow>
    failure + (bool \<times> 'v list)" where
  "Multimap_get_vector hash k v m =
     (case Multimap_find hash k m of Inl e \<Rightarrow> Inl e
      | Inr (pos, b, it) \<Rightarrow> if it = length b then Inr (False, v) else Inr (True, snd (b ! it)))"

definition Multimap_get_value :: "('k::linorder \<Rightarrow> u32) \<Rightarrow> 'k \<Rightarrow> 'v::linorder \<Rightarrow> ('k, 'v) multimap \<Rightarrow>
    failure + (bool \<times> 'v)" where
  "Multimap_get_value hash k v m =
     (case Multimap_find hash k m of Inl e \<Rightarrow> Inl e
      | Inr (pos, b, it) \<Rightarrow>
          if it = length b then Inr (False, v)
          else let vals = snd (b ! it); iit = BinarySearch (<) vals v in
            if iit \<noteq> length vals then Inr (True, vals ! iit) else Inr (False, v))"

definition Multimap_exists :: "('k::linorder \<Rightarrow> u32) \<Rightarrow> 'k \<Rightarrow> ('k, 'v) multimap \<Rightarrow> failure + bool" where
  "Multimap_exists hash k m =
     (case Multimap_find hash k m of Inl e \<Rightarrow> Inl e | Inr (pos, b, it) \<Rightarrow> Inr (it \<noteq> length b))"

definition Multimap_exists_value :: "('k::linorder \<Rightarrow> u32) \<Rightarrow> 'k \<Rightarrow> 'v::linorder \<Rightarrow> ('k, 'v) multimap \<Rightarrow> failure + bool" where
  "Multimap_exists_value hash k v m =
     (case Multimap_find hash k m of Inl e \<Rightarrow> Inl e
      | Inr (pos, b, it) \<Rightarrow>
          if it = length b then Inr False
          else let vals = snd (b ! it) in Inr (BinarySearch (<) vals v \<noteq> length vals))"

definition Multimap_rehashUnlock :: "('k::linorder \<Rightarrow> u32) \<Rightarrow> (('k, 'v) multimap, unit) action" where
  "Multimap_rehashUnlock hash m =
     (case basket (to_int32 (mm_total m)) of Inl e \<Rightarrow> (Inl e, m)
      | Inr sz \<Rightarrow>
          if sz = mm_size m then (Inr (), m)
          else case all_nodes (mm_size m) (mm_datas m) of Inl e \<Rightarrow> (Inl e, m)
               | Inr ns \<Rightarrow> (Inr (), m\<lparr>mm_size := sz, mm_datas := Some (fill_table hash sz ns)\<rparr>))"

definition Multimap_rehash :: "('k::linorder \<Rightarrow> u32) \<Rightarrow> (('k, 'v) multimap, unit) action" where
  "Multimap_rehash hash m =
     (if needRehash (mm_total m) (mm_size m) then Multimap_rehashUnlock hash m else (Inr (), m))"

text \<open>The writing operations: rehash if needed, search, then either add a node with the array
  \<open>fresh\<close> or change the array \<open>vals\<close> that is there to \<open>change vals\<close>; each reports by how much
  \<^verbatim>\<open>m_elements\<close> grows. A node's \<^verbatim>\<open>size\<close> is an \<^verbatim>\<open>int\<close>: from \<open>2 ^ 31\<close> values on, \<^verbatim>\<open>new V[node.size]\<close> of a new
  node throws, and for a present one the size overflows to a negative number, behind which \<^verbatim>\<open>std::sort\<close> runs.\<close>

definition max_array :: nat where
  "max_array = 2 ^ 31"

definition Multimap_write :: "('k::linorder \<Rightarrow> u32) \<Rightarrow> 'k \<Rightarrow> 'v list \<Rightarrow> ('v list \<Rightarrow> 'v list \<times> nat) \<Rightarrow>
    (('k, 'v) multimap, bool) action" where
  "Multimap_write hash k fresh change =
     bindE (\<lambda>m. if needRehash (mm_total m) (mm_size m) then Multimap_rehash hash m else (Inr (), m))
       (\<lambda>_ m. case Multimap_find hash k m of Inl e \<Rightarrow> (Inl e, m)
        | Inr (pos, b, it) \<Rightarrow> let ds = the (mm_datas m) in
            if it = length b
            then if max_array \<le> length fresh then (Inl BadAlloc, m)
            else (Inr True, m\<lparr>mm_datas := Some (ds[pos := push_node b (k, fresh)]),
                             mm_total := mm_total m + 1, mm_elements := mm_elements m + length fresh\<rparr>)
            else let (vals', n) = change (snd (b ! it)) in
              if max_array \<le> length vals' then (Inl Undefined, m)
              else (Inr True, m\<lparr>mm_datas := Some (ds[pos := b[it := (k, vals')]]),
                          mm_elements := mm_elements m + n\<rparr>))"

text \<open>\<^verbatim>\<open>insert(k, v)\<close>: a value that is there is overwritten by itself.\<close>

definition Multimap_insert :: "('k::linorder \<Rightarrow> u32) \<Rightarrow> 'k \<Rightarrow> 'v::linorder \<Rightarrow> (('k, 'v) multimap, bool) action" where
  "Multimap_insert hash k v = Multimap_write hash k [v]
     (\<lambda>vals. let iit = BinarySearch (<) vals v in
        if iit \<noteq> length vals then (vals[iit := v], 0) else (SortLast (<) (vals @ [v]), 1))"

text \<open>\<^verbatim>\<open>insert(k, v, size)\<close>: for a new key the values are sorted; for a present one those not found
  are collected in a \<^verbatim>\<open>std::set\<close>, appended and sorted in.\<close>

definition Multimap_insert_array :: "('k::linorder \<Rightarrow> u32) \<Rightarrow> 'k \<Rightarrow> 'v::linorder list \<Rightarrow> (('k, 'v) multimap, bool) action" where
  "Multimap_insert_array hash k v = Multimap_write hash k (sort v)
     (\<lambda>vals. let news = sort (remdups (filter (\<lambda>x. BinarySearch (<) vals x = length vals) v)) in
        (sort (vals @ news), length news))"

text \<open>\<^verbatim>\<open>set(k, v, size)\<close> replaces the array and adds its size to \<^verbatim>\<open>m_elements\<close>.\<close>

definition Multimap_set :: "('k::linorder \<Rightarrow> u32) \<Rightarrow> 'k \<Rightarrow> 'v::linorder list \<Rightarrow> (('k, 'v) multimap, bool) action" where
  "Multimap_set hash k v = Multimap_write hash k (sort v) (\<lambda>vals. (sort v, length v))"

definition Multimap_del :: "('k::linorder \<Rightarrow> u32) \<Rightarrow> 'k \<Rightarrow> (('k, 'v) multimap, bool) action" where
  "Multimap_del hash k m =
     (case Multimap_find hash k m of Inl e \<Rightarrow> (Inl e, m)
      | Inr (pos, b, it) \<Rightarrow>
          if it = length b then (Inr False, m)
          else (Inr True, m\<lparr>mm_elements := mm_elements m - length (snd (b ! it)),
                            mm_datas := Some ((the (mm_datas m))[pos := erase_node b it]),
                            mm_total := mm_total m - 1\<rparr>))"

text \<open>
  \<^verbatim>\<open>del(k, v)\<close>: when more than one value is left, the new array gets the values before \<^verbatim>\<open>iit\<close>, and
  then the second copy goes to its beginning again, from the memory behind the node
  (\<^verbatim>\<open>it + 1\<close>, an iterator of the bucket) instead of behind \<^verbatim>\<open>iit\<close>. \<open>zero\<close> is \<^verbatim>\<open>V()\<close> and
  \<open>junk n\<close> that memory read as \<open>n\<close> values. \<^verbatim>\<open>m_elements\<close> stays.
\<close>

definition Multimap_del_value :: "('k::linorder \<Rightarrow> u32) \<Rightarrow> 'v \<Rightarrow> (nat \<Rightarrow> 'v list) \<Rightarrow> 'k \<Rightarrow> 'v::linorder \<Rightarrow>
    (('k, 'v) multimap, bool) action" where
  "Multimap_del_value hash zero junk k v m =
     (case Multimap_find hash k m of Inl e \<Rightarrow> (Inl e, m)
      | Inr (pos, b, it) \<Rightarrow>
          if it = length b then (Inr False, m)
          else let vals = snd (b ! it); iit = BinarySearch (<) vals v; ds = the (mm_datas m) in
            if iit = length vals then (Inr False, m)
            else if length vals = 1
            then (Inr True, m\<lparr>mm_datas := Some (ds[pos := erase_node (b[it := (k, [])]) it]),
                              mm_total := mm_total m - 1, mm_elements := mm_elements m - 1\<rparr>)
            else let datas = store 0 (junk (length vals - iit - 1))
                               (store 0 (take iit vals) (replicate (length vals - 1) zero))
                 in (Inr True, m\<lparr>mm_datas := Some (ds[pos := b[it := (k, datas)]])\<rparr>))"

definition Multimap_getTotal :: "('k, 'v) multimap \<Rightarrow> nat" where
  "Multimap_getTotal m = mm_total m"

definition Multimap_getElements :: "('k, 'v) multimap \<Rightarrow> nat" where
  "Multimap_getElements m = mm_elements m"

section \<open>Invariant and abstraction\<close>

definition mm_ok :: "('k::linorder \<Rightarrow> u32) \<Rightarrow> ('k, 'v::linorder) multimap \<Rightarrow> bool" where
  "mm_ok hash m \<longleftrightarrow>
     (case mm_datas m of None \<Rightarrow> False
      | Some ds \<Rightarrow> 0 < mm_size m \<and> length ds = mm_size m \<and> table_ok hash ds \<and>
          mm_total m = table_count ds \<and> (\<forall>n \<in> table_nodes ds. sorted (snd n)))"

definition mm_map :: "('k \<Rightarrow> u32) \<Rightarrow> ('k, 'v) multimap \<Rightarrow> 'k \<rightharpoonup> 'v list" where
  "mm_map hash m = table_map hash (the (mm_datas m))"

definition node_values :: "('k, 'v list) table \<Rightarrow> nat" where
  "node_values ds = sum_list (map (\<lambda>n. length (snd n)) (concat ds))"

definition mm_exact :: "('k, 'v) multimap \<Rightarrow> bool" where
  "mm_exact m \<longleftrightarrow> mm_elements m = node_values (the (mm_datas m))"

lemma mm_okE:
  assumes "mm_ok hash m"
  obtains ds where "mm_datas m = Some ds" "0 < length ds" "mm_size m = length ds" "table_ok hash ds"
    "mm_total m = table_count ds" "mm_map hash m = table_map hash ds" "\<forall>n \<in> table_nodes ds. sorted (snd n)"
proof (cases "mm_datas m")
  case None
  then show ?thesis using assms by (simp add: mm_ok_def)
next
  case (Some ds)
  then show ?thesis using assms by (intro that [of ds]) (auto simp: mm_ok_def mm_map_def)
qed

lemma mm_sorted: "mm_ok hash m \<Longrightarrow> mm_map hash m k = Some vs \<Longrightarrow> sorted vs"
  by (erule mm_okE) (metis snd_conv table_map_set)

lemma mm_total_card: "mm_ok hash m \<Longrightarrow> mm_total m = card (dom (mm_map hash m))"
  by (erule mm_okE) (simp add: table_dom(3))

lemma new_HashMultimap_ok:
  assumes "new_HashMultimap sz = Inr m"
  shows "mm_ok hash m" "mm_map hash m = Map.empty" "mm_exact m"
proof -
  obtain n where n: "basket (to_int32 sz) = Inr n"
      "m = \<lparr>mm_size = n, mm_total = 0, mm_elements = 0, mm_datas = Some (replicate n [])\<rparr>"
    using assms by (auto simp: new_HashMultimap_def split: sum.splits)
  have "0 < n" using n(1) by (rule basket_pos)
  then show "mm_ok hash m" "mm_map hash m = Map.empty" "mm_exact m"
    using n(2) by (auto simp: mm_ok_def mm_map_def mm_exact_def node_values_def table_ok_def bucket_ok_def
        table_count_def table_map_def table_nodes_def)
qed

lemma new_HashMultimap_returns:
  assumes "0 < sz" "sz < 2 ^ 31"
  shows "\<exists>m. new_HashMultimap sz = Inr m"
  using assms to_int32_id [of sz] by (simp add: new_HashMultimap_def basket_def)

lemma node_values_update:
  assumes "i < length ds"
  shows "node_values (ds[i := b]) + sum_list (map (\<lambda>n. length (snd n)) (ds ! i)) =
           node_values ds + sum_list (map (\<lambda>n. length (snd n)) b)"
proof -
  have "concat (ds[i := b]) = concat (take i ds) @ b @ concat (drop (Suc i) ds)"
    using assms by (simp add: upd_conv_take_nth_drop)
  moreover have "concat ds = concat (take i ds) @ ds ! i @ concat (drop (Suc i) ds)"
    using assms by (metis concat.simps(2) concat_append id_take_nth_drop)
  ultimately show ?thesis by (simp add: node_values_def)
qed

text \<open>The search, seen from the map.\<close>

lemma Multimap_find_correct:
  assumes "mm_ok hash m" "mm_datas m = Some ds"
  defines "p \<equiv> \<lambda>k. unat (hash k) mod length ds"
  shows "Multimap_find hash k m = Inr (p k, ds ! p k, find_node (ds ! p k) k)" "p k < length ds"
    "mm_map hash m k = map_of (ds ! p k) k" "bucket_ok (ds ! p k)"
    "find_node (ds ! p k) k = length (ds ! p k) \<longleftrightarrow> mm_map hash m k = None"
    "mm_map hash m k = Some vs \<Longrightarrow> (ds ! p k) ! find_node (ds ! p k) k = (k, vs)"
proof -
  have ds: "0 < length ds" "mm_size m = length ds" "table_ok hash ds"
    using assms(1,2) by (auto simp: mm_ok_def)
  show p: "p k < length ds" using ds(1) by (simp add: p_def)
  show b: "bucket_ok (ds ! p k)" using ds(3) p by (rule table_bucket_ok)
  show mk: "mm_map hash m k = map_of (ds ! p k) k" using assms(2) by (simp add: mm_map_def table_map_def p_def)
  show "Multimap_find hash k m = Inr (p k, ds ! p k, find_node (ds ! p k) k)"
    using locate_ok [OF ds(1), of hash k] ds(2) assms(2) by (simp add: Multimap_find_def p_def)
  show "find_node (ds ! p k) k = length (ds ! p k) \<longleftrightarrow> mm_map hash m k = None"
    using find_node_missing [OF b] find_node_present(1) [OF b] mk by (cases "map_of (ds ! p k) k") force+
  show "(ds ! p k) ! find_node (ds ! p k) k = (k, vs)" if "mm_map hash m k = Some vs"
    using find_node_present(2) [OF b] that mk by simp
qed

lemma Multimap_get_correct:
  assumes "mm_ok hash m"
  shows "Multimap_get hash k m = Inr (mm_map hash m k)"
    "Multimap_exists hash k m = Inr (mm_map hash m k \<noteq> None)"
    "Multimap_get_vector hash k v m =
       Inr (case mm_map hash m k of None \<Rightarrow> (False, v) | Some vs \<Rightarrow> (True, vs))"
proof -
  obtain ds where ds: "mm_datas m = Some ds" using assms by (rule mm_okE)
  note f = Multimap_find_correct [OF assms ds, of k]
  show "Multimap_get hash k m = Inr (mm_map hash m k)"
    "Multimap_exists hash k m = Inr (mm_map hash m k \<noteq> None)"
    "Multimap_get_vector hash k v m =
       Inr (case mm_map hash m k of None \<Rightarrow> (False, v) | Some vs \<Rightarrow> (True, vs))"
    using f(1,5,6)
    by (cases "mm_map hash m k"; simp add: Multimap_get_def Multimap_exists_def Multimap_get_vector_def)+
qed

lemma BinarySearch_sorted:
  assumes "sorted (vals :: 'v::linorder list)"
  shows "BinarySearch (<) vals v = length vals \<longleftrightarrow> v \<notin> set vals"
    "v \<in> set vals \<Longrightarrow> BinarySearch (<) vals v < length vals \<and> vals ! BinarySearch (<) vals v = v"
  using BinarySearch_missing [of id vals v] BinarySearch_found [of id vals v] assms
  by (auto simp: key_less_id)

lemma Multimap_exists_value_correct:
  assumes "mm_ok hash m"
  shows "Multimap_exists_value hash k v m =
           Inr (case mm_map hash m k of None \<Rightarrow> False | Some vs \<Rightarrow> v \<in> set vs)"
    "Multimap_get_value hash k v m =
       Inr (case mm_map hash m k of None \<Rightarrow> False | Some vs \<Rightarrow> v \<in> set vs, v)"
proof -
  obtain ds where ds: "mm_datas m = Some ds" using assms by (rule mm_okE)
  note f = Multimap_find_correct [OF assms ds, of k]
  show "Multimap_exists_value hash k v m =
      Inr (case mm_map hash m k of None \<Rightarrow> False | Some vs \<Rightarrow> v \<in> set vs)"
    using f(1,5,6) mm_sorted [OF assms, of k] BinarySearch_sorted
    by (cases "mm_map hash m k") (auto simp: Multimap_exists_value_def Let_def)
  show "Multimap_get_value hash k v m =
      Inr (case mm_map hash m k of None \<Rightarrow> False | Some vs \<Rightarrow> v \<in> set vs, v)"
    using f(1,5,6) mm_sorted [OF assms, of k] BinarySearch_sorted
    by (cases "mm_map hash m k") (auto simp: Multimap_get_value_def Let_def)
qed

lemma Multimap_rehash_correct:
  assumes ok: "mm_ok hash m" and total: "mm_total m < 2 ^ 31"
  shows "\<exists>m'. Multimap_rehash hash m = (Inr (), m') \<and> mm_ok hash m' \<and> mm_map hash m' = mm_map hash m \<and>
           mm_total m' = mm_total m \<and> mm_elements m' = mm_elements m \<and> (mm_exact m \<longrightarrow> mm_exact m')"
proof (cases "needRehash (mm_total m) (mm_size m)")
  case False
  then show ?thesis using ok by (simp add: Multimap_rehash_def)
next
  case True
  obtain ds where ds: "mm_datas m = Some ds" "0 < length ds" "mm_size m = length ds" "table_ok hash ds"
      "mm_total m = table_count ds" "mm_map hash m = table_map hash ds" "\<forall>n \<in> table_nodes ds. sorted (snd n)"
    using ok by (rule mm_okE)
  have "0 < mm_total m" using True by (auto simp: needRehash_def)
  then obtain n where n: "basket (to_int32 (mm_total m)) = Inr n"
    using total to_int32_id [of "mm_total m"] by (simp add: basket_def)
  note n0 = basket_pos [OF n]
  show ?thesis
  proof (cases "n = mm_size m")
    case True
    then show ?thesis using n ok by (auto simp: Multimap_rehash_def Multimap_rehashUnlock_def)
  next
    case False
    let ?es = "fill_table hash n (concat ds)"
    let ?m' = "m\<lparr>mm_size := n, mm_datas := Some ?es\<rparr>"
    have nodes: "all_nodes (mm_size m) (mm_datas m) = Inr (concat ds)"
      using ds by (simp add: all_nodes_def)
    note r = rehash_table_ok [OF ds(4,2) n0]
    note f = fill_table_ok [OF n0 table_distinct_keys [OF ds(4)], of hash]
    have "Multimap_rehash hash m = (Inr (), ?m')"
      using True False n nodes by (simp add: Multimap_rehash_def Multimap_rehashUnlock_def)
    moreover have "mm_ok hash ?m'" using r n0 ds(5,7) f(3) by (simp add: mm_ok_def table_nodes_def)
    moreover have "mm_map hash ?m' = mm_map hash m" using r ds(6) by (simp add: mm_map_def)
    moreover have "node_values ?es = node_values ds"
      using arg_cong [OF fill_table_mset [OF n0, of hash "concat ds"], of "\<lambda>M. sum_mset (image_mset (\<lambda>n. length (snd n)) M)"]
      by (simp add: node_values_def sum_mset_sum_list del: mset_concat flip: mset_map)
    ultimately show ?thesis using ds(1) by (auto simp: mm_exact_def)
  qed
qed

text \<open>How the number of values changes with a bucket.\<close>

lemma put_bucket_values:
  assumes "bucket_ok b"
  shows "sum_list (map (\<lambda>n. length (snd n)) (put_bucket b k vs)) +
           (case map_of b k of None \<Rightarrow> 0 | Some ws \<Rightarrow> length ws) =
         sum_list (map (\<lambda>n. length (snd n)) b) + length vs"
proof (cases "map_of b k")
  case None
  have "mset (push_node b (k, vs)) = add_mset (k, vs) (mset b)" by (simp add: push_node_def)
  from arg_cong [OF this, of "\<lambda>M. sum_mset (image_mset (\<lambda>n. length (snd n)) M)"]
  show ?thesis using None find_node_missing [OF assms None]
    by (simp add: put_bucket_def sum_mset_sum_list flip: mset_map)
next
  case (Some ws)
  note i = find_node_present [OF assms Some]
  have "length ws \<le> sum_list (map (\<lambda>n. length (snd n)) b)"
    using member_le_sum_list [of "length ws" "map (\<lambda>n. length (snd n)) b"] i
    by (force simp: in_set_conv_nth)
  then show ?thesis using Some i
    by (simp add: put_bucket_def map_update sum_list_update)
qed

lemma erase_node_values:
  assumes "bucket_ok b" "map_of b k = Some vs"
  shows "sum_list (map (\<lambda>n. length (snd n)) (erase_node b (find_node b k))) + length vs =
         sum_list (map (\<lambda>n. length (snd n)) b)"
proof -
  note i = find_node_present [OF assms]
  have "mset (erase_node b (find_node b k)) = mset b - {#(k, vs)#}"
    using mset_erase_swap [OF i(1)] i(2) by (simp add: erase_node_def)
  moreover have "(k, vs) \<in># mset b" using i by (metis nth_mem set_mset_mset)
  ultimately have "add_mset (k, vs) (mset (erase_node b (find_node b k))) = mset b" by simp
  from arg_cong [OF this, of "\<lambda>M. sum_mset (image_mset (\<lambda>n. length (snd n)) M)"]
  show ?thesis by (simp add: sum_mset_sum_list flip: mset_map)
qed

lemma Multimap_write_correct:
  assumes ok: "mm_ok hash m" and total: "mm_total m < 2 ^ 31" and fresh: "sorted fresh"
    and change: "\<And>vals. mm_map hash m k = Some vals \<Longrightarrow> sorted (fst (change vals))"
  defines "new \<equiv> (case mm_map hash m k of None \<Rightarrow> fresh | Some vals \<Rightarrow> fst (change vals))"
  assumes small: "length new < max_array"
  shows "\<exists>m'. Multimap_write hash k fresh change m = (Inr True, m') \<and> mm_ok hash m' \<and>
           mm_map hash m' = (mm_map hash m)(k \<mapsto> new) \<and>
           mm_elements m' = mm_elements m +
             (case mm_map hash m k of None \<Rightarrow> length fresh | Some vals \<Rightarrow> snd (change vals)) \<and>
           (mm_exact m \<longrightarrow> node_values (the (mm_datas m')) +
             (case mm_map hash m k of None \<Rightarrow> 0 | Some vals \<Rightarrow> length vals) = mm_elements m + length new)"
proof -
  have "(if needRehash (mm_total m) (mm_size m) then Multimap_rehash hash m else (Inr (), m)) = Multimap_rehash hash m"
    by (simp add: Multimap_rehash_def)
  then obtain m1 where m1: "(if needRehash (mm_total m) (mm_size m) then Multimap_rehash hash m else (Inr (), m)) = (Inr (), m1)"
      "mm_ok hash m1" "mm_map hash m1 = mm_map hash m" "mm_elements m1 = mm_elements m" "mm_exact m \<longrightarrow> mm_exact m1"
    using Multimap_rehash_correct [OF ok total] by metis
  obtain ds where ds: "mm_datas m1 = Some ds" "0 < length ds" "mm_size m1 = length ds" "table_ok hash ds"
      "mm_total m1 = table_count ds" "mm_map hash m1 = table_map hash ds" "\<forall>n \<in> table_nodes ds. sorted (snd n)"
    using m1(2) by (rule mm_okE)
  define p where "p = unat (hash k) mod length ds"
  note f = Multimap_find_correct [OF m1(2) ds(1), of k, folded p_def, unfolded m1(3)]
  note t = table_put [OF ds(4) p_def f(2), of new]
  let ?ds' = "ds[p := put_bucket (ds ! p) k new]"
  let ?m' = "m1\<lparr>mm_datas := Some ?ds',
      mm_total := (if mm_map hash m k = None then mm_total m1 + 1 else mm_total m1),
      mm_elements := mm_elements m1 + (case mm_map hash m k of None \<Rightarrow> length fresh | Some vals \<Rightarrow> snd (change vals))\<rparr>"
  have "Multimap_write hash k fresh change m = (Inr True, ?m')"
    using m1(1) f(1,5,6) ds(1) small
    by (cases "mm_map hash m k")
      (simp_all add: Multimap_write_def bindE_def put_bucket_def new_def Let_def case_prod_beta)
  moreover have "mm_ok hash ?m'"
  proof -
    have "sorted new" using fresh change by (auto simp: new_def split: option.splits)
    moreover have "n \<in> table_nodes ds \<or> n = (k, new)" if n: "n \<in> table_nodes ?ds'" for n
    proof -
      obtain i where i: "i < length ds" "n \<in> set (?ds' ! i)" using n by (auto simp: in_table_nodes)
      then show ?thesis
        using put_bucket_ok(3) [OF f(4), of k new] by (cases "i = p") (auto simp: in_table_nodes)
    qed
    ultimately have "\<forall>n \<in> table_nodes ?ds'. sorted (snd n)" using ds(7) by fastforce
    then show ?thesis using t(1,3) ds f(2,3) by (simp add: mm_ok_def)
  qed
  moreover have "mm_map hash ?m' = (mm_map hash m)(k \<mapsto> new)" using t(2) m1(3) ds(6) by (simp add: mm_map_def)
  moreover have "mm_exact m \<longrightarrow> node_values ?ds' +
      (case mm_map hash m k of None \<Rightarrow> 0 | Some vals \<Rightarrow> length vals) = mm_elements m + length new"
    using node_values_update [OF f(2), of "put_bucket (ds ! p) k new"]
      put_bucket_values [OF f(4), of k new] m1(4,5) ds(1) f(3)
    by (auto simp: mm_exact_def)
  ultimately show ?thesis using m1(4) by auto
qed

lemma Multimap_del_correct:
  assumes ok: "mm_ok hash m"
  shows "\<exists>m'. Multimap_del hash k m = (Inr (mm_map hash m k \<noteq> None), m') \<and> mm_ok hash m' \<and>
           mm_map hash m' = (mm_map hash m)(k := None) \<and> (mm_exact m \<longrightarrow> mm_exact m')"
proof -
  obtain ds where ds: "mm_datas m = Some ds" "0 < length ds" "mm_size m = length ds" "table_ok hash ds"
      "mm_total m = table_count ds" "mm_map hash m = table_map hash ds" "\<forall>n \<in> table_nodes ds. sorted (snd n)"
    using ok by (rule mm_okE)
  define p where "p = unat (hash k) mod length ds"
  note f = Multimap_find_correct [OF ok ds(1), of k, folded p_def]
  show ?thesis
  proof (cases "mm_map hash m k")
    case None
    then have "Multimap_del hash k m = (Inr False, m)" using f(1,5) by (simp add: Multimap_del_def)
    moreover have "(mm_map hash m)(k := None) = mm_map hash m" using None by (simp add: fun_upd_idem)
    ultimately show ?thesis using ok None by simp
  next
    case (Some vs)
    then have kv: "map_of (ds ! p) k = Some vs" using f(3) by simp
    let ?b' = "erase_node (ds ! p) (find_node (ds ! p) k)"
    let ?ds = "ds[p := ?b']"
    let ?m' = "m\<lparr>mm_elements := mm_elements m - length vs, mm_datas := Some ?ds, mm_total := mm_total m - 1\<rparr>"
    note t = table_erase [OF ds(4) p_def f(2) kv]
    have "Multimap_del hash k m = (Inr True, ?m')"
      using f(1,5,6) Some ds(1) by (simp add: Multimap_del_def)
    moreover have "mm_ok hash ?m'"
    proof -
      have "n \<in> table_nodes ds" if n: "n \<in> table_nodes ?ds" for n
      proof -
        obtain i where i: "i < length ds" "n \<in> set (?ds ! i)" using n by (auto simp: in_table_nodes)
        then have "n \<in> set (ds ! i)" using erase_node_ok(2) [OF f(4) kv] by (cases "i = p") simp_all
        then show ?thesis using i(1) in_table_nodes by blast
      qed
      then show ?thesis using t(1,3) ds by (auto simp: mm_ok_def)
    qed
    moreover have "mm_map hash ?m' = (mm_map hash m)(k := None)" using t(2) ds(6) by (simp add: mm_map_def)
    moreover have "mm_exact m \<longrightarrow> mm_exact ?m'"
      using node_values_update [OF f(2), of ?b'] erase_node_values [OF f(4) kv] ds(1)
      by (auto simp: mm_exact_def)
    ultimately show ?thesis using Some by auto
  qed
qed

lemma Multimap_set_correct:
  assumes "mm_ok hash m" "mm_total m < 2 ^ 31" "length vs < max_array"
  shows "\<exists>m'. Multimap_set hash k vs m = (Inr True, m') \<and> mm_ok hash m' \<and>
           mm_map hash m' = (mm_map hash m)(k \<mapsto> sort vs) \<and> mm_elements m' = mm_elements m + length vs"
proof -
  have "(case mm_map hash m k of None \<Rightarrow> sort vs | Some vals \<Rightarrow> fst (sort vs, length vs)) = sort vs"
    "(case mm_map hash m k of None \<Rightarrow> length (sort vs) | Some vals \<Rightarrow> snd (sort vs, length vs)) = length vs"
    by (simp_all split: option.split)
  then show ?thesis
    using Multimap_write_correct [OF assms(1,2), of "sort vs" k "\<lambda>vals. (sort vs, length vs)"] assms(3)
    by (auto simp: Multimap_set_def)
qed

text \<open>Writing operations that add the values \<open>W\<close> and count the additions.\<close>

lemma Multimap_add_correct:
  assumes ok: "mm_ok hash m" "mm_total m < 2 ^ 31" and fresh: "sorted fresh" "set fresh = W"
    and ch: "\<And>vals. sorted vals \<Longrightarrow> sorted (fst (ch vals)) \<and> set (fst (ch vals)) = W \<union> set vals \<and>
               length (fst (ch vals)) = length vals + snd (ch vals)"
    and small: "length fresh < max_array"
      "\<And>vals. mm_map hash m k = Some vals \<Longrightarrow> length (fst (ch vals)) < max_array"
  shows "\<exists>m' vs. Multimap_write hash k fresh ch m = (Inr True, m') \<and> mm_ok hash m' \<and>
           mm_map hash m' = (mm_map hash m)(k \<mapsto> vs) \<and> sorted vs \<and>
           set vs = W \<union> (case mm_map hash m k of None \<Rightarrow> {} | Some vals \<Rightarrow> set vals) \<and>
           (mm_exact m \<longrightarrow> mm_exact m')"
proof (cases "mm_map hash m k")
  case None
  then show ?thesis using Multimap_write_correct [OF ok fresh(1), of k ch] fresh small by (auto simp: mm_exact_def)
next
  case (Some vals)
  note c = ch [OF mm_sorted [OF ok(1) Some]]
  have "\<exists>m'. Multimap_write hash k fresh ch m = (Inr True, m') \<and> mm_ok hash m' \<and>
      mm_map hash m' = (mm_map hash m)(k \<mapsto> fst (ch vals)) \<and> mm_elements m' = mm_elements m + snd (ch vals) \<and>
      (mm_exact m \<longrightarrow> node_values (the (mm_datas m')) + length vals = mm_elements m + length (fst (ch vals)))"
    using Multimap_write_correct [OF ok fresh(1), of k ch] Some c small by simp
  then show ?thesis using Some c by (auto simp: mm_exact_def)
qed

section \<open>HashMultimap as a map\<close>

interpretation mm: kv_map "Multimap_get hash" "Multimap_set hash" "Multimap_del hash" "mm_ok hash"
  "mm_map hash" sort "\<lambda>_. True" "\<lambda>v. length v < max_array" "2 ^ 31" for hash
proof unfold_locales
  fix s :: "('a, 'b) multimap" assume s: "mm_ok hash s"
  show "finite (dom (mm_map hash s))" using s by (elim mm_okE) (simp add: table_dom(2))
  show "Multimap_get hash k s = Inr (mm_map hash s k)" for k using s by (rule Multimap_get_correct)
  show "\<exists>s'. Multimap_set hash k v s = (Inr True, s') \<and> mm_ok hash s' \<and>
      mm_map hash s' = (mm_map hash s)(k \<mapsto> sort v)" if "card (dom (mm_map hash s)) < 2 ^ 31" "length v < max_array" for k v
    using Multimap_set_correct [OF s, of v k] that mm_total_card [OF s] by auto
  show "\<exists>s'. Multimap_del hash k s = (Inr (mm_map hash s k \<noteq> None), s') \<and> mm_ok hash s' \<and>
      mm_map hash s' = (mm_map hash s)(k := None)" for k
    using Multimap_del_correct [OF s, of k] by blast
qed

section \<open>Properties\<close>

text \<open>
  (C21) \<^verbatim>\<open>HashMultimap\<close> with whole arrays is a finite map: a run of \<^verbatim>\<open>set\<close>, \<^verbatim>\<open>get\<close> and \<^verbatim>\<open>del\<close> on a
  new table returns what the abstract map from keys to sorted arrays returns, for arrays of less than
  \<open>2 ^ 31\<close> values (the size of a node is an \<^verbatim>\<open>int\<close>) and at most \<open>2 ^ 31\<close> operations.
\<close>

theorem multimap_refines_map:
  assumes "new_HashMultimap sz = Inr m" "length ops \<le> 2 ^ 31"
    and "list_all (value_ok (\<lambda>v. length v < max_array)) ops"
  shows "\<exists>m'. run_map (impl_exec (Multimap_get hash) (Multimap_set hash) (Multimap_del hash)) ops m =
                (fst (run_map (spec_exec sort (\<lambda>_. True)) ops Map.empty), m') \<and> mm_ok hash m' \<and>
           mm_map hash m' = snd (run_map (spec_exec sort (\<lambda>_. True)) ops Map.empty) \<and>
           Multimap_getTotal m' = card (dom (mm_map hash m'))"
proof -
  note n = new_HashMultimap_ok(1,2) [OF assms(1), of hash]
  have "card (dom (mm_map hash m)) + length ops \<le> 2 ^ 31" using n(2) assms(2) by simp
  then show ?thesis
    using mm.run_simulates [OF n(1) _ assms(3)] n(2) mm_total_card by (auto simp: Multimap_getTotal_def)
qed

theorem multimap_refines_map_witness:
  "\<exists>m m'. new_HashMultimap 10 = Inr m \<and>
     run_map (impl_exec (Multimap_get (\<lambda>_. 0)) (Multimap_set (\<lambda>_. 0)) (Multimap_del (\<lambda>_. 0)))
       [Update (3 :: nat) [2, 1 :: nat], Lookup 3, Delete 3, Lookup 3] m =
     ([Flag True, Val (Some [1, 2]), Flag True, Val None], m')"
proof -
  obtain m :: "(nat, nat) multimap" where m: "new_HashMultimap 10 = Inr m"
    using new_HashMultimap_returns [of 10] by auto
  then show ?thesis
    using multimap_refines_map [OF m, of "[Update 3 [2, 1], Lookup 3, Delete 3, Lookup 3]" "\<lambda>_. 0"]
    by (auto simp del: run_map.simps(2) simp add: max_array_def run_map.simps(2) [of "spec_exec sort (\<lambda>_. True)"])
qed

text \<open>
  Adding single values and arrays of values: afterwards the key has exactly the old values and the
  new ones, in order (there is room for them below \<open>2 ^ 31\<close>), other keys are untouched, and \<^verbatim>\<open>m_elements\<close> stays the number of stored values.
\<close>

theorem multimap_insert_correct:
  assumes "mm_ok hash m" "mm_total m < 2 ^ 31"
    and small: "length ws + (case mm_map hash m k of None \<Rightarrow> 1 | Some vals \<Rightarrow> Suc (length vals)) < max_array"
  defines "old \<equiv> \<lambda>k. case mm_map hash m k of None \<Rightarrow> {} | Some vals \<Rightarrow> set vals"
  shows "(\<exists>m' vs. Multimap_insert hash k v m = (Inr True, m') \<and> mm_ok hash m' \<and>
            mm_map hash m' = (mm_map hash m)(k \<mapsto> vs) \<and> sorted vs \<and> set vs = {v} \<union> old k \<and>
            (mm_exact m \<longrightarrow> mm_exact m')) \<and>
         (\<exists>m' vs. Multimap_insert_array hash k ws m = (Inr True, m') \<and> mm_ok hash m' \<and>
            mm_map hash m' = (mm_map hash m)(k \<mapsto> vs) \<and> sorted vs \<and> set vs = set ws \<union> old k \<and>
            (mm_exact m \<longrightarrow> mm_exact m'))"
proof
  let ?ch = "\<lambda>vals. let iit = BinarySearch (<) vals v in
        if iit \<noteq> length vals then (vals[iit := v], 0) else (SortLast (<) (vals @ [v]), 1)"
  have ch: "sorted (fst (?ch vals)) \<and> set (fst (?ch vals)) = {v} \<union> set vals \<and>
      length (fst (?ch vals)) = length vals + snd (?ch vals)" if s: "sorted vals" for vals
  proof (cases "v \<in> set vals")
    case True
    then show ?thesis using BinarySearch_sorted [OF s, of v] s
      by (auto simp: Let_def) (metis list_update_id)+
  next
    case False
    have m: "mset (SortLast (<) (vals @ [v])) = mset (v # vals)" by simp
    show ?thesis
      using False BinarySearch_sorted [OF s, of v] sorted_SortLast [of id vals v] s
        mset_eq_setD [OF m] mset_eq_length [OF m]
      by (simp add: key_less_id)
  qed
  have len: "length (fst (?ch vals)) < max_array" if "mm_map hash m k = Some vals" for vals
    using mset_eq_length [of "SortLast (<) (vals @ [v])" "v # vals"] small that by (auto simp: Let_def)
  show "\<exists>m' vs. Multimap_insert hash k v m = (Inr True, m') \<and> mm_ok hash m' \<and>
      mm_map hash m' = (mm_map hash m)(k \<mapsto> vs) \<and> sorted vs \<and> set vs = {v} \<union> old k \<and>
      (mm_exact m \<longrightarrow> mm_exact m')"
    unfolding Multimap_insert_def old_def
    by (rule Multimap_add_correct [OF assms(1,2) _ _ ch _ len]) (auto simp: max_array_def)
next
  let ?new = "\<lambda>vals. sort (remdups (filter (\<lambda>x. BinarySearch (<) vals x = length vals) ws))"
  let ?ch = "\<lambda>vals. let news = ?new vals in (sort (vals @ news), length news)"
  have ch: "sorted (fst (?ch vals)) \<and> set (fst (?ch vals)) = set ws \<union> set vals \<and>
      length (fst (?ch vals)) = length vals + snd (?ch vals)" if s: "sorted vals" for vals
    using BinarySearch_sorted(1) [OF s] by (auto simp: Let_def)
  have len: "length (fst (?ch vals)) < max_array" if "mm_map hash m k = Some vals" for vals
    using small that order_trans [OF length_remdups_leq length_filter_le,
        of "\<lambda>x. BinarySearch (<) vals x = length vals" ws] by (simp add: Let_def)
  show "\<exists>m' vs. Multimap_insert_array hash k ws m = (Inr True, m') \<and> mm_ok hash m' \<and>
      mm_map hash m' = (mm_map hash m)(k \<mapsto> vs) \<and> sorted vs \<and> set vs = set ws \<union> old k \<and>
      (mm_exact m \<longrightarrow> mm_exact m')"
    unfolding Multimap_insert_array_def old_def
    by (rule Multimap_add_correct [OF assms(1,2) _ _ ch _ len]) (use small in auto)
qed

theorem multimap_insert_correct_witness:
  "\<exists>m m' vs. new_HashMultimap 4 = Inr m \<and> Multimap_insert_array (\<lambda>_. 0) (1 :: nat) [7, 5 :: nat] m = (Inr True, m') \<and>
     mm_map (\<lambda>_. 0) m' 1 = Some vs \<and> set vs = {5, 7} \<and> mm_exact m'"
proof -
  obtain m :: "(nat, nat) multimap" where m: "new_HashMultimap 4 = Inr m"
    using new_HashMultimap_returns [of 4] by auto
  note n = new_HashMultimap_ok(1,2) [OF m, of "\<lambda>_. 0"] new_HashMultimap_ok(3) [OF m]
  have "mm_total m < 2 ^ 31" using mm_total_card [OF n(1)] n(2) by simp
  from multimap_insert_correct [OF n(1) this, of "[7, 5]" 1 0] show ?thesis
    using m n by (fastforce simp: max_array_def insert_commute)
qed

text \<open>
  \<^verbatim>\<open>set\<close> on a key that is present adds the size of the new array to \<^verbatim>\<open>m_elements\<close> without taking
  the old one off: the count exceeds the number of stored values by the size of what was replaced.
\<close>

theorem multimap_set_overcounts:
  assumes "mm_ok hash m" "mm_total m < 2 ^ 31" "mm_exact m" "mm_map hash m k = Some old" "length vs < max_array"
  shows "\<exists>m'. Multimap_set hash k vs m = (Inr True, m') \<and>
           Multimap_getElements m' = node_values (the (mm_datas m')) + length old"
proof -
  obtain m' where "Multimap_set hash k vs m = (Inr True, m')" "mm_elements m' = mm_elements m + length vs"
      "node_values (the (mm_datas m')) + length old = mm_elements m + length vs"
    using Multimap_write_correct [OF assms(1,2), of "sort vs" k "\<lambda>vals. (sort vs, length vs)"] assms(3-5)
    by (auto simp: Multimap_set_def)
  then show ?thesis by (auto simp: Multimap_getElements_def)
qed

theorem multimap_set_overcounts_witness:
  "\<exists>m'. Multimap_set (\<lambda>_. 0) (1 :: nat) [8 :: nat]
     \<lparr>mm_size = 1, mm_total = 1, mm_elements = 2, mm_datas = Some [[(1, [5, 6])]]\<rparr> = (Inr True, m') \<and>
     Multimap_getElements m' = node_values (the (mm_datas m')) + 2"
proof -
  let ?m = "\<lparr>mm_size = 1, mm_total = 1, mm_elements = 2, mm_datas = Some [[(1, [5, 6])]]\<rparr> :: (nat, nat) multimap"
  have "mm_ok (\<lambda>_. 0) ?m" "mm_exact ?m" "mm_map (\<lambda>_. 0) ?m 1 = Some [5, 6]"
    by (simp_all add: mm_ok_def table_ok_def bucket_ok_def table_count_def table_nodes_def mm_exact_def
        node_values_def mm_map_def table_map_def)
  from multimap_set_overcounts [OF this(1) _ this(2,3), of "[8]"] show ?thesis by (simp add: max_array_def)
qed

text \<open>
  \<^verbatim>\<open>del(k, v)\<close> removes the value when it is the last one of the array, but leaves
  \<^verbatim>\<open>m_elements\<close> as it was.
\<close>

theorem multimap_del_value_last:
  assumes ok: "mm_ok hash m" and vs: "mm_map hash m k = Some (vs @ [v])" "vs \<noteq> []" "v \<notin> set vs"
    and junk: "junk 0 = []"
  shows "\<exists>m'. Multimap_del_value hash zero junk k v m = (Inr True, m') \<and> mm_map hash m' k = Some vs \<and>
           Multimap_getElements m' = Multimap_getElements m"
proof -
  obtain ds where ds: "mm_datas m = Some ds" using ok by (rule mm_okE)
  define p where "p = unat (hash k) mod length ds"
  note f = Multimap_find_correct [OF ok ds, of k, folded p_def]
  have it: "find_node (ds ! p) k < length (ds ! p)"
    using find_node_present(1) [OF f(4), of k "vs @ [v]"] f(3) vs(1) by simp
  have s: "sorted (vs @ [v])" using mm_sorted [OF ok vs(1)] .
  have iit: "BinarySearch (<) (vs @ [v]) v = length vs"
  proof -
    have b: "BinarySearch (<) (vs @ [v]) v < length (vs @ [v])" "(vs @ [v]) ! BinarySearch (<) (vs @ [v]) v = v"
      using BinarySearch_sorted(2) [OF s, of v] by auto
    then show ?thesis using vs(3) by (metis length_append_singleton less_antisym nth_append nth_mem)
  qed
  let ?b = "(ds ! p)[find_node (ds ! p) k := (k, vs)]"
  have "Multimap_del_value hash zero junk k v m = (Inr True, m\<lparr>mm_datas := Some (ds[p := ?b])\<rparr>)"
    using f(1,5,6) vs(1,2) iit ds junk it by (simp add: Multimap_del_value_def Let_def store_def)
  moreover have "map_of ?b k = Some vs"
    using put_bucket_ok(2) [OF f(4), of k vs] it by (simp add: put_bucket_def)
  then have "mm_map hash (m\<lparr>mm_datas := Some (ds[p := ?b])\<rparr>) k = Some vs"
    using f(2) by (simp add: mm_map_def table_map_def p_def)
  ultimately show ?thesis by (simp add: Multimap_getElements_def)
qed

theorem multimap_del_value_last_witness:
  "\<exists>m'. Multimap_del_value (\<lambda>_. 0) 0 (\<lambda>n. replicate n 99) (1 :: nat) (6 :: nat)
     \<lparr>mm_size = 1, mm_total = 1, mm_elements = 2, mm_datas = Some [[(1, [5, 6])]]\<rparr> = (Inr True, m') \<and>
     mm_map (\<lambda>_. 0) m' 1 = Some [5] \<and> Multimap_getElements m' = 2"
proof -
  let ?m = "\<lparr>mm_size = 1, mm_total = 1, mm_elements = 2, mm_datas = Some [[(1, [5, 6])]]\<rparr> :: (nat, nat) multimap"
  have "mm_ok (\<lambda>_. 0) ?m" "mm_map (\<lambda>_. 0) ?m 1 = Some ([5] @ [6])"
    by (simp_all add: mm_ok_def table_ok_def bucket_ok_def table_count_def table_nodes_def mm_map_def table_map_def)
  from multimap_del_value_last [OF this, of "\<lambda>n. replicate n 99" 0] show ?thesis
    by (simp add: Multimap_getElements_def)
qed

text \<open>
  For a value that is not the last one, \<^verbatim>\<open>del(k, v)\<close> fills the array from the memory behind the
  node: the values 1, 2 without 1 become whatever that memory holds, not 2.
\<close>

theorem multimap_del_value_first:
  "Multimap_del_value (\<lambda>_. 0) zero junk (1 :: nat) (1 :: nat)
     \<lparr>mm_size = 1, mm_total = 1, mm_elements = 2, mm_datas = Some [[(1, [1, 2])]]\<rparr> =
   (Inr True, \<lparr>mm_size = 1, mm_total = 1, mm_elements = 2,
               mm_datas = Some [[(1, junk 1 @ drop (length (junk 1)) [zero])]]\<rparr>)"
proof -
  have "BinarySearch (<) [1 :: nat] 1 = 0" "BinarySearch (<) [1, 2 :: nat] 1 = 0"
    using BinarySearch_index [of id "[1 :: nat]" 0 1] BinarySearch_index [of id "[1, 2 :: nat]" 0 1]
    by (simp_all add: key_less_id)
  then show ?thesis
    by (simp add: Multimap_del_value_def Multimap_find_def locate_def find_node_def store_def)
qed

section \<open>Saving and loading tables of arrays\<close>

text \<open>
  The byte streams of \<^verbatim>\<open>HashMultimap\<close> and \<^verbatim>\<open>Dict\<close>: the bucket count, the bytes of all arrays one
  after the other, and the bytes of the nodes, each with the key, the size (\<^verbatim>\<open>int\<close>) and in place of the
  pointer the offset of its array. \<open>encV\<close>, \<open>encN\<close> are the bytes of a value and of such a node.
\<close>

fun pack_nodes :: "('k \<times> 'v list) list \<Rightarrow> nat \<Rightarrow> ('k \<times> u32 \<times> u64) list" where
  "pack_nodes [] offset = []"
| "pack_nodes ((k, vals) # ns) offset =
     (k, of_nat (length vals), of_nat offset) # pack_nodes ns (offset + length vals)"

definition pack_values :: "('k \<times> 'v list) list \<Rightarrow> 'v list" where
  "pack_values ns = concat (map snd ns)"

definition unpack_node :: "'v list \<Rightarrow> 'k \<times> u32 \<times> u64 \<Rightarrow> 'k \<times> 'v list" where
  "unpack_node vs n = (fst n, take (unat (fst (snd n))) (drop (unat (snd (snd n))) vs))"

definition os_put :: "nat option \<Rightarrow> bytes \<Rightarrow> ostream \<Rightarrow> ostream" where
  "os_put speed data os =
     (case speed of None \<Rightarrow> os_write data os | Some s \<Rightarrow> snd (WriteFixToStreamWithSpeed data s os))"

definition save_arrays :: "byte_order \<Rightarrow> ('v \<Rightarrow> bytes) \<Rightarrow> nat \<Rightarrow> ('k \<times> u32 \<times> u64 \<Rightarrow> bytes) \<Rightarrow> nat \<Rightarrow> nat option \<Rightarrow>
    ('k \<times> 'v list) list \<Rightarrow> ostream \<Rightarrow> ostream" where
  "save_arrays h encV vsz encN nsz speed nodes os =
     (let vs = pack_values nodes; ns = pack_nodes nodes 0;
          os1 = os_write (mem h 8 (of_nat (length vs * vsz) :: u64)) os;
          os2 = os_put speed (concat (map encV vs)) os1;
          os3 = os_write (mem h 8 (of_nat (length ns * nsz) :: u64)) os2
      in os_put speed (concat (map encN ns)) os3)"

text \<open>
  Loading. The result is the new \<^verbatim>\<open>m_size\<close> and the nodes, or \<open>None\<close> when the stream runs dry. Byte counts
  that are not multiples of the element size make the reads run past the vectors, and offsets outside
  the values, like sizes that are negative as an \<^verbatim>\<open>int\<close>, give dangling arrays; all are \<open>BadIndex\<close> here.
\<close>

definition load_sized :: "byte_order \<Rightarrow> (bytes \<Rightarrow> 'a) \<Rightarrow> nat \<Rightarrow> nat option \<Rightarrow> istream \<Rightarrow> (failure + 'a list option) \<times> istream" where
  "load_sized h dec sz speed is =
     (case ReadFromStream 8 (of_mem h :: bytes \<Rightarrow> u64) is of
        (None, is1) \<Rightarrow> (Inr None, is1)
      | (Some w, is1) \<Rightarrow>
          let ((data, ok), is2) = (case speed of None \<Rightarrow> ReadFixFromStream (unat w) is1
                                   | Some s \<Rightarrow> ReadFixFromStreamWithSpeed (unat w) s is1)
          in if unat w mod sz \<noteq> 0 then (Inl BadIndex, is2)
             else if \<not> ok then (Inr None, is2)
             else (Inr (Some (decode_all sz dec (unat w div sz) data)), is2))"

definition load_arrays :: "byte_order \<Rightarrow> (bytes \<Rightarrow> 'v) \<Rightarrow> nat \<Rightarrow> (bytes \<Rightarrow> 'k \<times> u32 \<times> u64) \<Rightarrow> nat \<Rightarrow> nat option \<Rightarrow>
    nat \<Rightarrow> istream \<Rightarrow> (nat \<times> (failure + ('k \<times> 'v list) list option)) \<times> istream" where
  "load_arrays h decV vsz decN nsz speed old_size is =
     (let ((got, ok), is1) = ReadFixFromStream 8 is;
          n = unat (of_mem h (store 0 got (mem h 8 (of_nat old_size :: u64))) :: u64)
      in if \<not> ok then ((n, Inr None), is1)
         else case load_sized h decV vsz speed is1 of
           (Inl e, is2) \<Rightarrow> ((n, Inl e), is2)
         | (Inr None, is2) \<Rightarrow> ((n, Inr None), is2)
         | (Inr (Some vs), is2) \<Rightarrow>
             (case load_sized h decN nsz speed is2 of
                (Inl e, is3) \<Rightarrow> ((n, Inl e), is3)
              | (Inr None, is3) \<Rightarrow> ((n, Inr None), is3)
              | (Inr (Some ns), is3) \<Rightarrow>
                  if list_ex (\<lambda>x. max_array \<le> unat (fst (snd x)) \<or> length vs < unat (fst (snd x)) + unat (snd (snd x))) ns
                  then ((n, Inl BadIndex), is3)
                  else if n = 0 \<and> ns \<noteq> [] then ((n, Inl DivByZero), is3)
                  else ((n, Inr (Some (map (unpack_node vs) ns))), is3)))"

definition Multimap_writeTo :: "byte_order \<Rightarrow> ('v \<Rightarrow> bytes) \<Rightarrow> nat \<Rightarrow> ('k \<times> u32 \<times> u64 \<Rightarrow> bytes) \<Rightarrow> nat \<Rightarrow> nat option \<Rightarrow>
    ('k, 'v) multimap \<Rightarrow> ostream \<Rightarrow> (failure + bool) \<times> ostream" where
  "Multimap_writeTo h encV vsz encN nsz speed m os =
     (let os1 = os_write (mem h 8 (of_nat (mm_size m) :: u64)) os in
      case all_nodes (mm_size m) (mm_datas m) of Inl e \<Rightarrow> (Inl e, os1)
      | Inr nodes \<Rightarrow>
          let os2 = save_arrays h encV vsz encN nsz speed (filter (\<lambda>n. snd n \<noteq> []) nodes) os1
          in (Inr (os_good os2), os2))"

definition Multimap_readFrom :: "('k::linorder \<Rightarrow> u32) \<Rightarrow> byte_order \<Rightarrow> (bytes \<Rightarrow> 'v) \<Rightarrow> nat \<Rightarrow>
    (bytes \<Rightarrow> 'k \<times> u32 \<times> u64) \<Rightarrow> nat \<Rightarrow> nat option \<Rightarrow> ('k, 'v) multimap \<Rightarrow> istream \<Rightarrow>
    ((failure + bool) \<times> ('k, 'v) multimap) \<times> istream" where
  "Multimap_readFrom hash h decV vsz decN nsz speed m is =
     (let m = m\<lparr>mm_datas := None\<rparr> in
      case load_arrays h decV vsz decN nsz speed (mm_size m) is of
        ((n, Inl e), is') \<Rightarrow> ((Inl e, m\<lparr>mm_size := n\<rparr>), is')
      | ((n, Inr None), is') \<Rightarrow> ((Inr False, m\<lparr>mm_size := n\<rparr>), is')
      | ((n, Inr (Some ns)), is') \<Rightarrow>
          ((Inr True, m\<lparr>mm_size := n, mm_total := length ns, mm_elements := sum_list (map (length \<circ> snd) ns),
                       mm_datas := Some (fill_table hash n ns)\<rparr>), is'))"

lemma unpack_pack:
  assumes "length pre + length (pack_values ns) < 2 ^ 64" "\<forall>n \<in> set ns. length (snd n) < 2 ^ 31"
  shows "map (unpack_node (pre @ pack_values ns)) (pack_nodes ns (length pre)) = ns \<and>
    \<not> list_ex (\<lambda>x. max_array \<le> unat (fst (snd x)) \<or> length (pre @ pack_values ns) < unat (fst (snd x)) + unat (snd (snd x))) (pack_nodes ns (length pre))"
  using assms
proof (induction ns arbitrary: pre)
  case (Cons n ns)
  obtain k vals where n: "n = (k, vals)" by fastforce
  have w: "unat (of_nat (length vals) :: u32) = length vals" "unat (of_nat (length pre) :: u64) = length pre"
    using Cons.prems n by (simp_all add: unat_of_nat pack_values_def)
  have eq: "(pre @ vals) @ pack_values ns = pre @ pack_values (n # ns)" by (simp add: n pack_values_def)
  have bound: "length (pre @ vals) + length (pack_values ns) < 2 ^ 64"
    using Cons.prems(1) by (simp add: n pack_values_def del: length_concat)
  have IH: "map (unpack_node (pre @ pack_values (n # ns))) (pack_nodes ns (length (pre @ vals))) = ns"
      "\<not> list_ex (\<lambda>x. max_array \<le> unat (fst (snd x)) \<or> length (pre @ pack_values (n # ns)) < unat (fst (snd x)) + unat (snd (snd x))) (pack_nodes ns (length (pre @ vals)))"
    using Cons.IH [OF bound] Cons.prems(2) unfolding eq by simp_all
  have "unpack_node (pre @ pack_values (n # ns)) (k, of_nat (length vals), of_nat (length pre)) = n"
    using w by (simp add: unpack_node_def n pack_values_def)
  moreover have "\<not> length (pre @ pack_values (n # ns)) < length vals + length pre"
    by (simp add: n pack_values_def del: length_concat)
  moreover have "pack_nodes (n # ns) (length pre) =
      (k, of_nat (length vals), of_nat (length pre)) # pack_nodes ns (length (pre @ vals))" by (simp add: n)
  ultimately show ?case using IH w Cons.prems(2) by (simp add: n max_array_def)
qed simp_all

lemma os_put_room:
  assumes "os_good os" "length data \<le> os_room os"
  shows "os_put speed data os = os\<lparr>os_data := os_data os @ data, os_room := os_room os - length data\<rparr>"
  using assms WriteFixWithSpeed_eq [OF assms] by (cases os) (auto simp: os_put_def os_write_def split: option.split)

lemma save_arrays_bytes:
  assumes "pod encV decV vsz" "pod encN decN nsz" "os_good os"
    "16 + length (pack_values nodes) * vsz + length nodes * nsz \<le> os_room os"
  shows "os_good (save_arrays h encV vsz encN nsz speed nodes os)"
    "os_data (save_arrays h encV vsz encN nsz speed nodes os) = os_data os @
       mem h 8 (of_nat (length (pack_values nodes) * vsz) :: u64) @ concat (map encV (pack_values nodes)) @
       mem h 8 (of_nat (length (pack_nodes nodes 0) * nsz) :: u64) @ concat (map encN (pack_nodes nodes 0))"
proof -
  have len: "length (pack_nodes nodes off) = length nodes" for off
    by (induction nodes off rule: pack_nodes.induct) simp_all
  have lv: "length (concat (map encV vs)) = length vs * vsz" for vs
    using pod.length_enc_all [OF assms(1)] by (simp add: mult.commute del: length_concat)
  have ln: "length (concat (map encN ns)) = length ns * nsz" for ns
    using pod.length_enc_all [OF assms(2)] by (simp add: mult.commute del: length_concat)
  have wr: "os_write bs os = os_put None bs os" for bs os by (simp add: os_put_def)
  show "os_good (save_arrays h encV vsz encN nsz speed nodes os)"
    "os_data (save_arrays h encV vsz encN nsz speed nodes os) = os_data os @
       mem h 8 (of_nat (length (pack_values nodes) * vsz) :: u64) @ concat (map encV (pack_values nodes)) @
       mem h 8 (of_nat (length (pack_nodes nodes 0) * nsz) :: u64) @ concat (map encN (pack_nodes nodes 0))"
    using assms(3,4) by (simp_all add: save_arrays_def Let_def wr os_put_room lv ln len del: length_concat)
qed

lemma load_sized_bytes:
  assumes "pod enc dec sz" "0 < sz" "length xs * sz < 2 ^ 64" "is_good is"
    and "is_data is = mem h 8 (of_nat (length xs * sz) :: u64) @ concat (map enc xs) @ rest"
  shows "load_sized h dec sz speed is = (Inr (Some xs), is\<lparr>is_data := rest\<rparr>)"
proof -
  let ?c = "concat (map enc xs)"
  have r1: "ReadFromStream 8 (of_mem h :: bytes \<Rightarrow> u64) is = (Some (of_nat (length xs * sz)), is\<lparr>is_data := ?c @ rest\<rparr>)"
    using u64.read_one [OF assms(4,5)] .
  have r2: "ReadFixFromStream (length xs * sz) (is\<lparr>is_data := ?c @ rest\<rparr>) = ((?c, True), is\<lparr>is_data := rest\<rparr>)"
    using pod.read_fix_vector [OF assms(1), of "is\<lparr>is_data := ?c @ rest\<rparr>" xs rest] assms(4) by simp
  have w: "unat (of_nat (length xs * sz) :: u64) = length xs * sz"
    using assms(3) by (simp only: unat_of_nat) simp
  have d: "decode_all sz dec (length xs) ?c = xs" using pod.decode_all_enc [OF assms(1), of xs "[]"] by simp
  show ?thesis
    using r1 r2 w d assms(2,4) ReadFixWithSpeed_eq [of "is\<lparr>is_data := ?c @ rest\<rparr>"]
    by (simp add: load_sized_def Let_def del: of_nat_mult length_concat split: option.split)
qed

lemma load_arrays_bytes:
  assumes pods: "pod encV decV vsz" "pod encN decN nsz" "0 < vsz" "0 < nsz"
    and sz: "0 < sz" "sz < 2 ^ 64" "length (pack_values nodes) * vsz < 2 ^ 64" "length nodes * nsz < 2 ^ 64"
      "\<forall>n \<in> set nodes. length (snd n) < 2 ^ 31"
    and str: "is_good is" "is_data is = mem h 8 (of_nat sz :: u64) @
       mem h 8 (of_nat (length (pack_values nodes) * vsz) :: u64) @ concat (map encV (pack_values nodes)) @
       mem h 8 (of_nat (length (pack_nodes nodes 0) * nsz) :: u64) @ concat (map encN (pack_nodes nodes 0)) @ rest"
  shows "load_arrays h decV vsz decN nsz speed old is = ((sz, Inr (Some nodes)), is\<lparr>is_data := rest\<rparr>)"
proof -
  let ?a = "mem h 8 (of_nat sz :: u64)" and ?vs = "pack_values nodes" and ?ns = "pack_nodes nodes 0"
  let ?nb = "mem h 8 (of_nat (length ?ns * nsz) :: u64) @ concat (map encN ?ns) @ rest"
  let ?vb = "mem h 8 (of_nat (length ?vs * vsz) :: u64) @ concat (map encV ?vs) @ ?nb"
  have len: "length (pack_nodes nodes off) = length nodes" for off
    by (induction nodes off rule: pack_nodes.induct) simp_all
  have r1: "ReadFixFromStream 8 is = ((?a, True), is\<lparr>is_data := ?vb\<rparr>)"
    using ReadFix_enough [OF str(1), of 8] str(2) by simp
  have r2: "load_sized h decV vsz speed (is\<lparr>is_data := ?vb\<rparr>) = (Inr (Some ?vs), is\<lparr>is_data := ?nb\<rparr>)"
    using load_sized_bytes [OF pods(1,3) sz(3), of "is\<lparr>is_data := ?vb\<rparr>" h ?nb speed] str(1) by simp
  have r3: "load_sized h decN nsz speed (is\<lparr>is_data := ?nb\<rparr>) = (Inr (Some ?ns), is\<lparr>is_data := rest\<rparr>)"
    using load_sized_bytes [OF pods(2,4), of ?ns "is\<lparr>is_data := ?nb\<rparr>" h rest speed] str(1) sz(4) len by simp
  have w: "unat (of_mem h (store 0 ?a (mem h 8 (of_nat old :: u64))) :: u64) = sz"
    using sz(2) by (simp add: store_def unat_of_nat)
  have "length ?vs < 2 ^ 64"
    using sz(3) pods(3) by (metis le_less_trans mult_le_mono2 nat_mult_1_right One_nat_def Suc_leI)
  then have u: "map (unpack_node ?vs) ?ns = nodes"
      "\<not> list_ex (\<lambda>x. max_array \<le> unat (fst (snd x)) \<or> length ?vs < unat (fst (snd x)) + unat (snd (snd x))) ?ns"
    using unpack_pack [of "[]" nodes] sz(5) by auto
  show ?thesis
    using r1 r2 r3 w u sz(1) by (simp add: load_arrays_def Let_def)
qed

text \<open>What \<^verbatim>\<open>writeTo\<close> wrote into an empty stream, \<^verbatim>\<open>readFrom\<close> takes apart again.\<close>

lemma save_load_arrays:
  fixes h speed nodes encV vsz encN nsz
  defines "out sz os \<equiv> save_arrays h encV vsz encN nsz speed nodes (os_write (mem h 8 (of_nat sz :: u64)) os)"
  assumes pods: "pod encV decV vsz" "pod encN decN nsz" "0 < vsz" "0 < nsz"
    and sz: "0 < sz" "sz < 2 ^ 64" "length (pack_values nodes) * vsz < 2 ^ 64" "length nodes * nsz < 2 ^ 64"
      "\<forall>n \<in> set nodes. length (snd n) < 2 ^ 31"
    and os: "os_good os" "os_data os = []" "24 + length (pack_values nodes) * vsz + length nodes * nsz \<le> os_room os"
    and str: "is_good is" "is_data is = os_data (out sz os) @ rest"
  shows "os_good (out sz os)"
    "load_arrays h decV vsz decN nsz speed' old is = ((sz, Inr (Some nodes)), is\<lparr>is_data := rest\<rparr>)"
proof -
  define os1 where "os1 = os_write (mem h 8 (of_nat sz :: u64)) os"
  have os1: "os_good os1" "os_data os1 = mem h 8 (of_nat sz :: u64)" "os_room os1 = os_room os - 8"
    using os by (auto simp: os1_def os_write_def)
  have room: "16 + length (pack_values nodes) * vsz + length nodes * nsz \<le> os_room os1"
    using os(3) os1(3) by simp
  note sv = save_arrays_bytes [OF pods(1,2) os1(1) room, of h speed]
  show "os_good (out sz os)" using sv(1) by (simp add: out_def os1_def)
  show "load_arrays h decV vsz decN nsz speed' old is = ((sz, Inr (Some nodes)), is\<lparr>is_data := rest\<rparr>)"
    by (rule load_arrays_bytes [OF pods sz str(1)]) (simp add: str(2) out_def sv(2) os1(2) flip: os1_def)
qed

text \<open>
  \<^verbatim>\<open>HashMultimap::writeTo\<close> and \<^verbatim>\<open>readFrom\<close>: a table of plain keys and values in which every
  key has a value is restored as the same map, with the counts of keys and of values exact.
\<close>

theorem multimap_save_load:
  assumes pods: "pod encV decV vsz" "pod encN decN nsz" "0 < vsz" "0 < nsz"
    and m: "mm_ok hash m" "\<forall>k. mm_map hash m k \<noteq> Some []" "mm_size m < 2 ^ 64"
      "node_values (the (mm_datas m)) * vsz < 2 ^ 64" "mm_total m * nsz < 2 ^ 64"
      "\<forall>k vs. mm_map hash m k = Some vs \<longrightarrow> length vs < 2 ^ 31"
    and os: "os_good os" "os_data os = []"
      "24 + node_values (the (mm_datas m)) * vsz + mm_total m * nsz \<le> os_room os"
    and str: "is_good is" "is_data is = os_data (snd (Multimap_writeTo h encV vsz encN nsz speed m os)) @ rest"
  shows "fst (Multimap_writeTo h encV vsz encN nsz speed m os) = Inr True \<and>
    (\<exists>m'. Multimap_readFrom hash h decV vsz decN nsz speed' m0 is = ((Inr True, m'), is\<lparr>is_data := rest\<rparr>) \<and>
       mm_ok hash m' \<and> mm_map hash m' = mm_map hash m \<and> mm_total m' = mm_total m \<and> mm_exact m')"
proof -
  obtain ds where ds: "mm_datas m = Some ds" "0 < length ds" "mm_size m = length ds" "table_ok hash ds"
      "mm_total m = table_count ds" "mm_map hash m = table_map hash ds" "\<forall>n \<in> table_nodes ds. sorted (snd n)"
    using m(1) by (rule mm_okE)
  let ?ns = "concat ds"
  have in_ds: "n \<in> set ?ns \<Longrightarrow> mm_map hash m (fst n) = Some (snd n)" for n
    using table_map_set [OF ds(4,2), of "fst n" "snd n"] ds(6) by (simp add: table_nodes_def)
  have nonempty: "filter (\<lambda>n. snd n \<noteq> []) ?ns = ?ns"
    using in_ds m(2) by (metis (mono_tags, lifting) filter_id_conv)
  have short: "\<forall>n \<in> set ?ns. length (snd n) < 2 ^ 31" using in_ds m(6) by blast
  have lv: "length (pack_values ?ns) = node_values ds"
    by (simp add: pack_values_def node_values_def length_concat comp_def)
  have tot: "length ?ns = mm_total m" using ds(5) by (simp add: table_count_def)
  let ?out = "save_arrays h encV vsz encN nsz speed ?ns (os_write (mem h 8 (of_nat (length ds) :: u64)) os)"
  have wr: "Multimap_writeTo h encV vsz encN nsz speed m os = (Inr (os_good ?out), ?out)"
    using ds(1-3) nonempty by (simp add: Multimap_writeTo_def all_nodes_def Let_def)
  have sv: "os_good ?out"
    and ld: "load_arrays h decV vsz decN nsz speed' (mm_size m0) is = ((length ds, Inr (Some ?ns)), is\<lparr>is_data := rest\<rparr>)"
    by (rule save_load_arrays [OF pods ds(2) _ _ _ short os(1,2) _ str(1)],
        use m ds(1,3) lv tot os(3) str(2) wr in \<open>simp_all del: length_concat\<close>)+
  let ?m' = "m0\<lparr>mm_datas := None, mm_size := length ds, mm_total := length ?ns,
      mm_elements := sum_list (map (length \<circ> snd) ?ns), mm_datas := Some (fill_table hash (length ds) ?ns)\<rparr>"
  have "Multimap_readFrom hash h decV vsz decN nsz speed' m0 is = ((Inr True, ?m'), is\<lparr>is_data := rest\<rparr>)"
    using ld by (simp add: Multimap_readFrom_def)
  moreover note r = rehash_table_ok [OF ds(4,2,2)] and f = fill_table_ok [OF ds(2) table_distinct_keys [OF ds(4)], of hash]
  have "mm_ok hash ?m'" using r f(3) ds(2,7) by (simp add: mm_ok_def table_count_def table_nodes_def)
  moreover have "mm_map hash ?m' = mm_map hash m" using r ds(6) by (simp add: mm_map_def)
  moreover have "mm_exact ?m'"
    using arg_cong [OF fill_table_mset [OF ds(2), of hash ?ns], of "\<lambda>M. sum_mset (image_mset (\<lambda>n. length (snd n)) M)"]
    by (simp add: mm_exact_def node_values_def sum_mset_sum_list comp_def del: mset_concat flip: mset_map)
  ultimately show ?thesis using wr sv tot by auto
qed

text \<open>A node of a \<^verbatim>\<open>uint64_t\<close> key, a size and an offset.\<close>

definition enc_ref :: "byte_order \<Rightarrow> u64 \<times> u32 \<times> u64 \<Rightarrow> bytes" where
  "enc_ref h n = mem h 8 (fst n) @ mem h 4 (fst (snd n)) @ mem h 8 (snd (snd n))"

definition dec_ref :: "byte_order \<Rightarrow> bytes \<Rightarrow> u64 \<times> u32 \<times> u64" where
  "dec_ref h bs = (of_mem h (take 8 bs), of_mem h (take 4 (drop 8 bs)), of_mem h (drop 12 bs))"

interpretation ref: pod "enc_ref h" "dec_ref h" 20 for h
  by unfold_locales (simp_all add: enc_ref_def dec_ref_def)

theorem multimap_save_load_witness:
  "\<exists>m is. mm_total m = 1 \<and> (\<exists>m'. Multimap_readFrom (\<lambda>_. 0) SYLAR_LITTLE_ENDIAN (of_mem SYLAR_LITTLE_ENDIAN) 8
     (dec_ref SYLAR_LITTLE_ENDIAN) 20 (Some 5) m is = ((Inr True, m'), is\<lparr>is_data := []\<rparr>) \<and>
     mm_map (\<lambda>_. 0) m' = mm_map (\<lambda>_. 0) m \<and> mm_map (\<lambda>_. 0) m 4 = Some [2, 3 :: u64])"
proof -
  let ?h = SYLAR_LITTLE_ENDIAN and ?os = "\<lparr>os_data = [], os_good = True, os_room = 100\<rparr>"
  let ?m = "\<lparr>mm_size = 1, mm_total = 1, mm_elements = 2, mm_datas = Some [[(4 :: u64, [2, 3 :: u64])]]\<rparr>"
  let ?is = "\<lparr>is_data = os_data (snd (Multimap_writeTo ?h (mem ?h 8) 8 (enc_ref ?h) 20 None ?m ?os)), is_good = True\<rparr>"
  have ok: "mm_ok (\<lambda>_. 0) ?m"
    by (simp add: mm_ok_def table_ok_def bucket_ok_def table_count_def table_nodes_def)
  have m: "mm_map (\<lambda>_. 0) ?m = [4 \<mapsto> [2, 3]]" by (intro ext) (simp add: mm_map_def table_map_def)
  have ne: "\<forall>k. mm_map (\<lambda>_. 0) ?m k \<noteq> Some []"
    and short: "\<forall>k vs. mm_map (\<lambda>_. 0) ?m k = Some vs \<longrightarrow> length vs < 2 ^ 31" unfolding m by auto
  have v: "node_values (the (mm_datas ?m)) = 2" by (simp add: node_values_def)
  show ?thesis
    using multimap_save_load [OF u64.pod_axioms ref.pod_axioms _ _ ok ne _ _ _ short, of ?os ?is ?h ?h ?h None "[]" "Some 5" ?m] m v
    by (intro exI [of _ ?m] exI [of _ ?is]) auto
qed

end
