(* ===== verification/HashUtil.thy ===== *)
theory HashUtil
  imports Endian
begin

text \<open>
  \<^verbatim>\<open>sylar/util/hash_util.cc\<close>: the Murmur hashes, base64, hexadecimal strings, HMAC, replacing and
  splitting. A \<^verbatim>\<open>std::string\<close> is its bytes. The digests of OpenSSL are an argument \<open>H\<close>.
\<close>

definition str :: "string \<Rightarrow> bytes" where
  "str s = map of_char s"

section \<open>Hashes\<close>

definition ROTL :: "u32 \<Rightarrow> nat \<Rightarrow> u32" where
  "ROTL x r = push_bit r x OR drop_bit (32 - r) x"

definition fmix32 :: "u32 \<Rightarrow> u32" where
  "fmix32 h =
     (let h = h XOR drop_bit 16 h; h = h * 0x85ebca6b;
          h = h XOR drop_bit 13 h; h = h * 0xc2b2ae35
      in h XOR drop_bit 16 h)"

text \<open>One round of the block loop, and the loop over the blocks of four bytes; \<open>host\<close> is the byte order
  in which \<^verbatim>\<open>ptr[i]\<close> reads them.\<close>

definition murmur_scramble :: "u32 \<Rightarrow> u32" where
  "murmur_scramble s = ROTL (s * 0xcc9e2d51) 15 * 0x1b873593"

definition murmur_round :: "u32 \<Rightarrow> u32 \<Rightarrow> u32" where
  "murmur_round h s = ROTL (h XOR murmur_scramble s) 13 * 5 + 0xe6546b64"

fun murmur_blocks :: "byte_order \<Rightarrow> nat \<Rightarrow> bytes \<Rightarrow> u32 \<Rightarrow> u32" where
  "murmur_blocks host 0 bs h = h"
| "murmur_blocks host (Suc n) bs h =
     murmur_blocks host n (drop 4 bs) (murmur_round h (of_mem host (take 4 bs)))"

text \<open>The \<^verbatim>\<open>switch\<close> on the remaining bytes, cases falling through.\<close>

definition murmur_tail :: "bytes \<Rightarrow> u32 \<Rightarrow> u32" where
  "murmur_tail tail h =
     (let s2 = (if length tail = 3 then push_bit 16 (ucast (tail ! 2)) else 0 :: u32);
          s1 = (if 2 \<le> length tail then s2 OR push_bit 8 (ucast (tail ! 1)) else s2);
          s0 = (if 1 \<le> length tail then s1 OR ucast (tail ! 0) else s1)
      in if 1 \<le> length tail then h XOR murmur_scramble s0 else h)"

text \<open>\<^verbatim>\<open>murmur3_hash(data, size, seed)\<close>; \<open>None\<close> is a null pointer. The length is an \<^verbatim>\<open>int\<close>, so strings
  of \<open>2 ^ 31\<close> bytes or more are outside the model.\<close>

definition murmur3_hash :: "byte_order \<Rightarrow> bytes option \<Rightarrow> u32 \<Rightarrow> u32" where
  "murmur3_hash host data seed =
     (case data of None \<Rightarrow> 0
      | Some bs \<Rightarrow>
          let blk = length bs div 4;
              h = murmur_blocks host blk bs seed;
              h = murmur_tail (drop (blk * 4) bs) h
          in fmix32 (h XOR of_nat (length bs)))"

text \<open>The overload for C strings measures the text up to the terminating zero.\<close>

definition c_str :: "bytes \<Rightarrow> bytes" where
  "c_str bs = takeWhile (\<lambda>b. b \<noteq> 0) bs"

definition murmur3_hash_cstr :: "byte_order \<Rightarrow> bytes option \<Rightarrow> u32 \<Rightarrow> u32" where
  "murmur3_hash_cstr host s seed =
     (case s of None \<Rightarrow> 0
      | Some bs \<Rightarrow>
          let bs = c_str bs; blk = length bs div 4;
              h = murmur_blocks host blk bs seed;
              h = murmur_tail (drop (blk * 4) bs) h
          in fmix32 (h XOR of_nat (length bs)))"

definition murmur3_hash64 :: "byte_order \<Rightarrow> bytes option \<Rightarrow> u32 \<Rightarrow> u32 \<Rightarrow> u64" where
  "murmur3_hash64 host data seed seed2 =
     push_bit 32 (ucast (murmur3_hash host data seed)) OR ucast (murmur3_hash host data seed2)"

definition murmur3_hash64_cstr :: "byte_order \<Rightarrow> bytes option \<Rightarrow> u32 \<Rightarrow> u32 \<Rightarrow> u64" where
  "murmur3_hash64_cstr host s seed seed2 =
     push_bit 32 (ucast (murmur3_hash_cstr host s seed)) OR ucast (murmur3_hash_cstr host s seed2)"

text \<open>\<^verbatim>\<open>quick_hash\<close>: \<^verbatim>\<open>*str\<close> is a signed \<^verbatim>\<open>char\<close>. The second overload never moves the pointer. An
  empty buffer is not read.\<close>

definition quick_hash :: "bytes \<Rightarrow> u32" where
  "quick_hash s = fold (\<lambda>c h. 31 * h + scast c) (c_str s) 0"

fun quick_hash_loop :: "nat \<Rightarrow> byte \<Rightarrow> u32 \<Rightarrow> u32" where
  "quick_hash_loop 0 c h = h"
| "quick_hash_loop (Suc n) c h = quick_hash_loop n c (31 * h + scast c)"

definition quick_hash_size :: "bytes \<Rightarrow> u32" where
  "quick_hash_size bs = quick_hash_loop (length bs) (hd bs) 0"

section \<open>Base64\<close>

definition base64_table :: bytes where
  "base64_table = str ''ABCDEFGHIJKLMNOPQRSTUVWXYZabcdefghijklmnopqrstuvwxyz0123456789+/''"

definition base64_char :: "u32 \<Rightarrow> byte" where
  "base64_char i = base64_table ! unat i"

text \<open>One pass of the outer loop: three bytes, or the last one or two shifted up.\<close>

definition base64_group :: "u32 \<Rightarrow> nat \<Rightarrow> bytes" where
  "base64_group packed padding =
     [base64_char (drop_bit 18 packed), base64_char (drop_bit 12 packed AND 0x3f)] @
     (if padding \<noteq> 2 then [base64_char (drop_bit 6 packed AND 0x3f)] else []) @
     (if padding = 0 then [base64_char (packed AND 0x3f)] else []) @
     replicate padding 0x3d"

fun base64encode :: "bytes \<Rightarrow> bytes" where
  "base64encode [] = []"
| "base64encode [a] = base64_group (push_bit 8 (push_bit 8 (ucast a))) 2"
| "base64encode [a, b] = base64_group (push_bit 8 (push_bit 8 (ucast a) OR ucast b)) 1"
| "base64encode (a # b # c # rest) =
     base64_group (push_bit 8 (push_bit 8 (ucast a) OR ucast b) OR ucast c) 0 @ base64encode rest"

definition base64_val :: "byte \<Rightarrow> u32 option" where
  "base64_val c =
     (if 0x41 \<le> c \<and> c \<le> 0x5a then Some (ucast c - 0x41)
      else if 0x61 \<le> c \<and> c \<le> 0x7a then Some (ucast c - 0x61 + 26)
      else if 0x30 \<le> c \<and> c \<le> 0x39 then Some (ucast c - 0x30 + 52)
      else if c = 0x2b then Some 62
      else if c = 0x2f then Some 63
      else None)"

text \<open>The inner loop: up to \<open>n\<close> more characters; \<open>None\<close> is \<^verbatim>\<open>return ""\<close>. The result is how many were
  missing, the padding, the packed bits and the rest of the source.\<close>

fun base64_read :: "nat \<Rightarrow> nat \<Rightarrow> u32 \<Rightarrow> bytes \<Rightarrow> (nat \<times> nat \<times> u32 \<times> bytes) option" where
  "base64_read 0 padding packed src = Some (0, padding, packed, src)"
| "base64_read (Suc n) padding packed [] = Some (Suc n, padding, packed, [])"
| "base64_read (Suc n) padding packed (c # src) =
     (if c = 0x3d then base64_read n (padding + 1) (push_bit 6 packed) src
      else if 0 < padding then None
      else case base64_val c of None \<Rightarrow> None
           | Some v \<Rightarrow> base64_read n padding (push_bit 6 packed OR v) src)"

lemma base64_read_length:
  "base64_read n padding packed src = Some (m, p, q, rest) \<Longrightarrow> length rest + n = length src + m"
  by (induction n padding packed src arbitrary: m p q rest rule: base64_read.induct)
    (auto split: if_splits option.splits)

function base64_loop :: "bytes \<Rightarrow> bytes \<Rightarrow> bytes option" where
  "base64_loop src out =
     (if src = [] then Some out
      else case base64_read 4 0 0 src of None \<Rightarrow> None
      | Some (missing, padding, packed, rest) \<Rightarrow>
          if missing \<noteq> 0 then None
          else if 0 < padding \<and> rest \<noteq> [] then None
          else if 2 < padding then None
          else base64_loop rest (out @ [ucast (drop_bit 16 packed)] @
                 (if padding \<noteq> 2 then [ucast (drop_bit 8 packed)] else []) @
                 (if padding = 0 then [ucast packed] else [])))"
  by pat_completeness auto
termination
  by (relation "measure (\<lambda>(src, out). length src)") (auto dest: base64_read_length)

declare base64_loop.simps [simp del]

definition base64decode :: "bytes \<Rightarrow> bytes" where
  "base64decode src = (case base64_loop src [] of None \<Rightarrow> [] | Some out \<Rightarrow> out)"

section \<open>Lemmas on base64\<close>

lemma base64_table_values:
  "map base64_val base64_table = map (\<lambda>n. Some (of_nat n)) [0..<64]" "0x3d \<notin> set base64_table"
  by (simp_all add: base64_table_def str_def base64_val_def upt_conv_Cons)

lemma base64_table_ok:
  assumes "n < 64"
  shows "base64_val (base64_table ! n) = Some (of_nat n)" "base64_table ! n \<noteq> 0x3d"
proof -
  have l: "length base64_table = 64" by (simp add: base64_table_def str_def)
  show "base64_val (base64_table ! n) = Some (of_nat n)"
    using arg_cong [OF base64_table_values(1), of "\<lambda>xs. xs ! n"] assms l by simp
  show "base64_table ! n \<noteq> 0x3d" using base64_table_values(2) assms l by (metis nth_mem)
qed

lemma base64_char_ok:
  fixes v :: u32
  assumes "v < 64"
  shows "base64_val (base64_char v) = Some v" "base64_char v \<noteq> 0x3d"
proof -
  have "unat v < 64" using assms by (simp add: word_less_nat_alt)
  from base64_table_ok [OF this] show "base64_val (base64_char v) = Some v" "base64_char v \<noteq> 0x3d"
    by (simp_all add: base64_char_def)
qed

lemma sextet_less: "(v AND 0x3f :: u32) < 64"
proof -
  have "v AND 0x3f = take_bit 6 v" by (simp add: take_bit_eq_mask mask_eq_exp_minus_1)
  then show ?thesis using take_bit_nat_less_exp [of 6 "unat v"] by (simp add: word_less_nat_alt unsigned_take_bit_eq)
qed

lemma sextet_join: "push_bit 6 (drop_bit 6 p) OR (p AND 0x3f) = (p :: u32)"
proof -
  have m: "(0x3f :: u32) = mask 6" by (simp add: mask_eq_exp_minus_1)
  show ?thesis unfolding m by (rule bit_word_eqI) (auto simp: bit_simps)
qed

lemma low_bits_zero:
  fixes x :: u32
  shows "push_bit 8 x AND 0x3f = 0" "drop_bit 6 (push_bit 8 (push_bit 8 x)) AND 0x3f = 0"
proof -
  have m: "(0x3f :: u32) = mask 6" by (simp add: mask_eq_exp_minus_1)
  show "push_bit 8 x AND 0x3f = 0" "drop_bit 6 (push_bit 8 (push_bit 8 x)) AND 0x3f = 0"
    unfolding m by (rule bit_word_eqI, auto simp: bit_simps)+
qed

lemma packed_bytes:
  fixes a b c :: byte
  defines "p \<equiv> push_bit 8 (push_bit 8 (ucast a) OR ucast b) OR ucast c :: u32"
  shows "drop_bit 18 p < 64" "ucast (drop_bit 16 p) = a" "ucast (drop_bit 8 p) = b" "ucast p = c"
proof -
  have m: "(0x3f :: u32) = mask 6" by (simp add: mask_eq_exp_minus_1)
  have bp: "bit p n \<longleftrightarrow> n < 8 \<and> bit c n \<or> 8 \<le> n \<and> n < 16 \<and> bit b (n - 8) \<or> 16 \<le> n \<and> n < 24 \<and> bit a (n - 16)" for n
    unfolding p_def by (auto simp: bit_simps dest: bit_imp_le_length)
  show "ucast (drop_bit 16 p) = a" "ucast (drop_bit 8 p) = b" "ucast p = c"
    by (rule bit_word_eqI; simp add: bit_simps bp)+
  have "drop_bit 18 p = take_bit 6 (drop_bit 18 p)"
    by (rule bit_word_eqI) (auto simp: bit_simps bp)
  then show "drop_bit 18 p < 64" by (metis m sextet_less take_bit_eq_mask)
qed

lemma base64_read_group:
  assumes "v1 < 64" "v2 < 64"
  shows "base64_read 4 0 0 (base64_char v1 # base64_char v2 # 0x3d # 0x3d # rest) =
           Some (0, 2, push_bit 6 (push_bit 6 (push_bit 6 v1 OR v2)), rest)"
    "v3 < 64 \<Longrightarrow> base64_read 4 0 0 (base64_char v1 # base64_char v2 # base64_char v3 # 0x3d # rest) =
           Some (0, 1, push_bit 6 (push_bit 6 (push_bit 6 v1 OR v2) OR v3), rest)"
    "v3 < 64 \<Longrightarrow> v4 < 64 \<Longrightarrow>
       base64_read 4 0 0 (base64_char v1 # base64_char v2 # base64_char v3 # base64_char v4 # rest) =
           Some (0, 0, push_bit 6 (push_bit 6 (push_bit 6 v1 OR v2) OR v3) OR v4, rest)"
  using assms by (simp_all add: numeral_eq_Suc base64_char_ok [unfolded numeral_eq_Suc])

lemma base64_read_sextets:
  fixes p :: u32
  assumes "drop_bit 18 p < 64"
  shows "base64_read 4 0 0 (base64_group p 0 @ rest) = Some (0, 0, p, rest)"
    "p AND 0x3f = 0 \<Longrightarrow> base64_read 4 0 0 (base64_group p 1 @ rest) = Some (0, 1, p, rest)"
    "p AND 0x3f = 0 \<Longrightarrow> drop_bit 6 p AND 0x3f = 0 \<Longrightarrow>
       base64_read 4 0 0 (base64_group p 2 @ rest) = Some (0, 2, p, rest)"
proof -
  have j: "push_bit 6 (drop_bit 18 p) OR (drop_bit 12 p AND 0x3f) = drop_bit 12 p"
      "push_bit 6 (drop_bit 12 p) OR (drop_bit 6 p AND 0x3f) = drop_bit 6 p"
      "push_bit 6 (drop_bit 6 p) OR (p AND 0x3f) = p"
    using sextet_join [of "drop_bit 12 p"] sextet_join [of "drop_bit 6 p"] sextet_join [of p] by simp_all
  have g: "base64_group p 0 @ rest = base64_char (drop_bit 18 p) # base64_char (drop_bit 12 p AND 0x3f) #
        base64_char (drop_bit 6 p AND 0x3f) # base64_char (p AND 0x3f) # rest"
      "base64_group p 1 @ rest = base64_char (drop_bit 18 p) # base64_char (drop_bit 12 p AND 0x3f) #
        base64_char (drop_bit 6 p AND 0x3f) # 0x3d # rest"
      "base64_group p 2 @ rest = base64_char (drop_bit 18 p) # base64_char (drop_bit 12 p AND 0x3f) # 0x3d # 0x3d # rest"
    by (simp_all add: base64_group_def eval_nat_numeral)
  note r = base64_read_group [OF assms sextet_less]
  show "base64_read 4 0 0 (base64_group p 0 @ rest) = Some (0, 0, p, rest)"
    unfolding g r(3) [OF sextet_less sextet_less] j ..
  show "base64_read 4 0 0 (base64_group p 1 @ rest) = Some (0, 1, p, rest)" if "p AND 0x3f = 0"
    unfolding g r(2) [OF sextet_less] j(1,2) using j(3) that by simp
  show "base64_read 4 0 0 (base64_group p 2 @ rest) = Some (0, 2, p, rest)"
    if "p AND 0x3f = 0" "drop_bit 6 p AND 0x3f = 0"
    unfolding g r(1) j(1) using j(2,3) that by simp
qed

lemma base64_loop_encode:
  "base64_loop (base64encode bs) out = Some (out @ bs)"
proof (induction bs arbitrary: out rule: base64encode.induct)
  case 1
  then show ?case by (simp add: base64_loop.simps)
next
  case (2 a)
  define p where "p = (push_bit 8 (push_bit 8 (ucast a)) :: u32)"
  have p: "drop_bit 18 p < 64" "ucast (drop_bit 16 p) = a"
    using packed_bytes(1,2) [of a 0 0] by (simp_all add: p_def)
  have "base64_read 4 0 0 (base64_group p 2 @ []) = Some (0, 2, p, [])"
    by (rule base64_read_sextets(3) [OF p(1)]) (unfold p_def, rule low_bits_zero(1), rule low_bits_zero(2))
  moreover have "base64encode [a] = base64_group p 2 @ []" "base64_group p 2 \<noteq> []"
    by (simp_all add: p_def base64_group_def)
  ultimately show ?case using p(2) by (subst base64_loop.simps) (simp add: base64_loop.simps [of "[]"])
next
  case (3 a b)
  define p where "p = (push_bit 8 (push_bit 8 (ucast a) OR ucast b) :: u32)"
  have p: "drop_bit 18 p < 64" "ucast (drop_bit 16 p) = a" "ucast (drop_bit 8 p) = b"
    using packed_bytes(1-3) [of a b 0] by (simp_all add: p_def)
  have "base64_read 4 0 0 (base64_group p 1 @ []) = Some (0, 1, p, [])"
    by (rule base64_read_sextets(2) [OF p(1)]) (unfold p_def, rule low_bits_zero(1))
  moreover have "base64encode [a, b] = base64_group p 1 @ []" "base64_group p 1 \<noteq> []"
    by (simp_all add: p_def base64_group_def)
  ultimately show ?case using p(2,3) by (subst base64_loop.simps) (simp add: base64_loop.simps [of "[]"])
next
  case (4 a b c rest)
  define p where "p = (push_bit 8 (push_bit 8 (ucast a) OR ucast b) OR ucast c :: u32)"
  have p: "drop_bit 18 p < 64" "ucast (drop_bit 16 p) = a" "ucast (drop_bit 8 p) = b" "ucast p = c"
    using packed_bytes [of a b c] by (simp_all add: p_def)
  have e: "base64encode (a # b # c # rest) = base64_group p 0 @ base64encode rest" "base64_group p 0 \<noteq> []"
    by (simp_all only: p_def base64encode.simps) (simp add: base64_group_def)
  show ?case
    unfolding e(1) using base64_read_sextets(1) [OF p(1), of "base64encode rest"] "4.IH" p(2-4) e(2)
    by (subst base64_loop.simps) simp
qed


text \<open>
  (C23) Decoding the base64 text of any byte string gives the byte string back, whatever its length modulo
  three, and so whatever padding the text ends with.
\<close>

theorem base64_roundtrip: "base64decode (base64encode bs) = bs"
  by (simp add: base64decode_def base64_loop_encode)

section \<open>Lemmas on the Murmur hash\<close>

lemma inj_of_inverse: "(\<And>x. g (f x) = x) \<Longrightarrow> inj f"
  by (metis injI)

lemma inj_times: "a * b = (1 :: u32) \<Longrightarrow> inj (\<lambda>h. h * a)"
  by (rule inj_of_inverse [where g = "\<lambda>y. y * b"]) (simp add: mult.assoc)

lemma xorshift_inverse:
  fixes x :: u32
  shows "16 \<le> k \<Longrightarrow> (x XOR drop_bit k x) XOR drop_bit k (x XOR drop_bit k x) = x"
    "11 \<le> k \<Longrightarrow> (x XOR drop_bit k x) XOR drop_bit k ((x XOR drop_bit k x) XOR drop_bit k (x XOR drop_bit k x)) = x"
  by (rule bit_word_eqI; auto simp: bit_simps dest: bit_imp_le_length)+

lemma inj_xorshift: "11 \<le> k \<Longrightarrow> inj (\<lambda>x :: u32. x XOR drop_bit k x)"
  by (rule inj_of_inverse [where g = "\<lambda>y. y XOR drop_bit k (y XOR drop_bit k y)"]) (rule xorshift_inverse(2))

lemma inj_ROTL:
  assumes "0 < r" "r < 32"
  shows "inj (\<lambda>x. ROTL x r)"
proof (rule inj_of_inverse [where g = "\<lambda>y. ROTL y (32 - r)"])
  fix x
  show "ROTL (ROTL x r) (32 - r) = x"
    using assms by (intro bit_word_eqI) (auto simp: ROTL_def bit_simps dest: bit_imp_le_length)
qed

lemma inj_xor: "inj (\<lambda>h :: u32. h XOR c)"
  by (rule inj_of_inverse [where g = "\<lambda>h. h XOR c"]) (simp add: xor.assoc)

lemma inj_fmix32: "inj fmix32"
proof -
  have e: "fmix32 = (\<lambda>h. h XOR drop_bit 16 h) \<circ> (\<lambda>h. h * 0xc2b2ae35) \<circ> (\<lambda>h. h XOR drop_bit 13 h)
      \<circ> (\<lambda>h. h * 0x85ebca6b) \<circ> (\<lambda>h. h XOR drop_bit 16 h)"
    by (rule ext) (simp add: fmix32_def Let_def)
  have m: "inj (\<lambda>h :: u32. h * 0xc2b2ae35)" "inj (\<lambda>h :: u32. h * 0x85ebca6b)"
    by (rule inj_times [where b = "0x7ed1b41d"], simp) (rule inj_times [where b = "0xa5cb9243"], simp)
  show ?thesis unfolding e by (intro inj_compose m inj_xorshift) simp_all
qed

lemma inj_murmur_round: "inj (\<lambda>h. murmur_round h s)"
proof -
  have e: "(\<lambda>h. murmur_round h s) = (\<lambda>h. h + 0xe6546b64) \<circ> (\<lambda>h. h * 5) \<circ> (\<lambda>x. ROTL x 13) \<circ> (\<lambda>h. h XOR murmur_scramble s)"
    by (rule ext) (simp add: murmur_round_def)
  have "inj (\<lambda>h :: u32. h * 5)" by (rule inj_times [where b = "0xcccccccd"]) simp
  moreover have "inj (\<lambda>h :: u32. h + 0xe6546b64)" by (simp add: inj_def)
  ultimately show ?thesis unfolding e by (intro inj_compose inj_xor inj_ROTL) simp_all
qed

lemma inj_murmur_blocks: "inj (murmur_blocks host n bs)"
proof (induction n arbitrary: bs)
  case 0
  show ?case by (rule injI) simp
next
  case (Suc n)
  have "murmur_blocks host (Suc n) bs = murmur_blocks host n (drop 4 bs) \<circ> (\<lambda>h. murmur_round h (of_mem host (take 4 bs)))"
    by (rule ext) simp
  then show ?case by (simp only:) (rule inj_compose [OF Suc.IH inj_murmur_round])
qed

lemma inj_murmur_tail: "inj (murmur_tail tail)"
proof (cases "1 \<le> length tail")
  case True
  obtain c where "murmur_tail tail = (\<lambda>h. h XOR c)"
    unfolding murmur_tail_def Let_def using True by simp
  then show ?thesis by (simp only: inj_xor)
next
  case False
  then have "murmur_tail tail = (\<lambda>h. h)" by (intro ext) (simp add: murmur_tail_def)
  then show ?thesis by (simp only: inj_on_id2)
qed

lemma inj_murmur3_hash: "inj (murmur3_hash host (Some bs))"
proof (rule injI)
  fix x y assume "murmur3_hash host (Some bs) x = murmur3_hash host (Some bs) y"
  then have "murmur_tail (drop (length bs div 4 * 4) bs) (murmur_blocks host (length bs div 4) bs x) XOR of_nat (length bs) =
      murmur_tail (drop (length bs div 4 * 4) bs) (murmur_blocks host (length bs div 4) bs y) XOR of_nat (length bs)"
    by (simp add: murmur3_hash_def Let_def inj_eq [OF inj_fmix32])
  then have "murmur_tail (drop (length bs div 4 * 4) bs) (murmur_blocks host (length bs div 4) bs x) =
      murmur_tail (drop (length bs div 4 * 4) bs) (murmur_blocks host (length bs div 4) bs y)"
    by (rule injD [OF inj_xor])
  then show "x = y" by (simp add: inj_eq [OF inj_murmur_tail] inj_eq [OF inj_murmur_blocks])
qed

lemma c_str_id: "0 \<notin> set bs \<Longrightarrow> c_str bs = bs"
  by (auto simp: c_str_def takeWhile_eq_all_conv)

lemma hash64_halves:
  fixes a b :: u32
  defines "h \<equiv> push_bit 32 (ucast a) OR ucast b :: u64"
  shows "ucast (drop_bit 32 h) = a" "ucast h = b"
  unfolding h_def by (rule bit_word_eqI; simp add: bit_simps; auto dest: bit_imp_le_length)+

text \<open>
  For given data the Murmur hash is a bijection of the seed, so different seeds give different hashes;
  the two halves of \<^verbatim>\<open>murmur3_hash64\<close> are the hashes under the two seeds, and differ when the seeds do, as
  the default seeds do.
\<close>

theorem murmur3_seed_bijective:
  "bij (murmur3_hash host (Some bs)) \<and>
   ucast (drop_bit 32 (murmur3_hash64 host (Some bs) s1 s2)) = murmur3_hash host (Some bs) s1 \<and>
   ucast (murmur3_hash64 host (Some bs) s1 s2) = murmur3_hash host (Some bs) s2 \<and>
   (murmur3_hash host (Some bs) s1 = murmur3_hash host (Some bs) s2 \<longleftrightarrow> s1 = s2)"
proof (intro conjI)
  show "bij (murmur3_hash host (Some bs))"
    by (rule bijI [OF inj_murmur3_hash finite_UNIV_inj_surj [OF _ inj_murmur3_hash]]) simp
  show "murmur3_hash host (Some bs) s1 = murmur3_hash host (Some bs) s2 \<longleftrightarrow> s1 = s2"
    by (rule inj_eq [OF inj_murmur3_hash])
qed (simp_all only: murmur3_hash64_def hash64_halves)

text \<open>
  The overloads for C strings give the hash of the characters before the terminating zero: on a text
  without a zero byte they agree with the overloads that take a length, in 32 and in 64 bits.
\<close>

theorem murmur3_overloads_agree:
  assumes "0 \<notin> set bs"
  shows "murmur3_hash_cstr host (Some (bs @ 0 # junk)) seed = murmur3_hash host (Some bs) seed \<and>
    murmur3_hash64_cstr host (Some (bs @ 0 # junk)) seed seed2 = murmur3_hash64 host (Some bs) seed seed2"
proof -
  have "c_str (bs @ 0 # junk) = bs" using assms by (induction bs) (auto simp: c_str_def)
  then show ?thesis
    by (simp add: murmur3_hash_cstr_def murmur3_hash_def murmur3_hash64_cstr_def murmur3_hash64_def)
qed

theorem murmur3_overloads_agree_witness:
  "0 \<notin> set (str ''sylar'') \<and>
   murmur3_hash_cstr SYLAR_LITTLE_ENDIAN (Some (str ''sylar'' @ [0])) 1060627423 = murmur3_hash SYLAR_LITTLE_ENDIAN (Some (str ''sylar'')) 1060627423"
proof -
  have z: "0 \<notin> set (str ''sylar'')" by (simp add: str_def)
  show ?thesis using murmur3_overloads_agree [OF z, of SYLAR_LITTLE_ENDIAN "[]"] z by simp
qed

text \<open>
  \<^verbatim>\<open>quick_hash(data, size)\<close> depends only on the first byte and the length, because its loop never moves
  the pointer: any two buffers that agree in those have the same hash.
\<close>

theorem quick_hash_ignores_data: "quick_hash_size (c # xs) = quick_hash_size (c # replicate (length xs) 0)"
  by (simp add: quick_hash_size_def)

end
