(* ===== verification/Dict.thy ===== *)
theory Dict
  imports HashMultimap HashUtil
begin

text \<open>
  \<^verbatim>\<open>sylar/ds/dict.h\<close>: \<^verbatim>\<open>Dict\<close>, a hash table from keys to arrays, and \<^verbatim>\<open>StringDict\<close>, which names
  strings by their hash. A node's \<^verbatim>\<open>size\<close> and \<^verbatim>\<open>val\<close> are one list. Where the array lives (its own
  allocation or \<^verbatim>\<open>m_values\<close>, see \<^verbatim>\<open>inValues\<close>) only decides which memory is freed and is not
  modelled.
\<close>

record ('k, 'v) dict =
  dc_size :: nat
  dc_total :: nat
  dc_datas :: "('k, 'v list) table option"

section \<open>Operations\<close>

definition new_Dict :: "nat \<Rightarrow> failure + ('k, 'v) dict" where
  "new_Dict sz =
     (case basket (to_int32 sz) of Inl e \<Rightarrow> Inl e
      | Inr n \<Rightarrow> Inr \<lparr>dc_size = n, dc_total = 0, dc_datas = Some (replicate n [])\<rparr>)"

text \<open>\<^verbatim>\<open>get\<close> returns the array, \<open>None\<close> an empty \<^verbatim>\<open>SharedArray\<close> or false.\<close>

definition Dict_get :: "('k::linorder \<Rightarrow> u32) \<Rightarrow> 'k \<Rightarrow> ('k, 'v) dict \<Rightarrow> failure + 'v list option" where
  "Dict_get hash k d =
     (case locate hash (dc_size d) (dc_datas d) k of Inl e \<Rightarrow> Inl e
      | Inr (pos, b) \<Rightarrow> let it = find_node b k in
          if it = length b then Inr None else Inr (Some (snd (b ! it))))"

definition Dict_exists :: "('k::linorder \<Rightarrow> u32) \<Rightarrow> 'k \<Rightarrow> ('k, 'v) dict \<Rightarrow> failure + bool" where
  "Dict_exists hash k d =
     (case locate hash (dc_size d) (dc_datas d) k of Inl e \<Rightarrow> Inl e
      | Inr (pos, b) \<Rightarrow> Inr (find_node b k \<noteq> length b))"

definition Dict_rehashUnlock :: "('k::linorder \<Rightarrow> u32) \<Rightarrow> (('k, 'v) dict, unit) action" where
  "Dict_rehashUnlock hash d =
     (case basket (to_int32 (dc_total d)) of Inl e \<Rightarrow> (Inl e, d)
      | Inr sz \<Rightarrow>
          if sz = dc_size d then (Inr (), d)
          else case all_nodes (dc_size d) (dc_datas d) of Inl e \<Rightarrow> (Inl e, d)
               | Inr ns \<Rightarrow> (Inr (), d\<lparr>dc_size := sz, dc_datas := Some (fill_table hash sz ns)\<rparr>))"

definition Dict_rehash :: "('k::linorder \<Rightarrow> u32) \<Rightarrow> (('k, 'v) dict, unit) action" where
  "Dict_rehash hash d =
     (if needRehash (dc_total d) (dc_size d) then Dict_rehashUnlock hash d else (Inr (), d))"

text \<open>\<^verbatim>\<open>insert\<close>: the array is overwritten in place when the size is the same and replaced otherwise; either way
  the node then holds \<open>vs\<close>. The size is a \<^verbatim>\<open>uint32_t\<close>, that of a node an \<^verbatim>\<open>int\<close>: from \<open>2 ^ 31\<close> values on a new
  node's allocation throws, and a present node gets a negative size.\<close>

definition Dict_insert :: "('k::linorder \<Rightarrow> u32) \<Rightarrow> 'k \<Rightarrow> 'v list \<Rightarrow> (('k, 'v) dict, bool) action" where
  "Dict_insert hash k vs d =
     (if vs = [] then (Inr True, d)
      else bindE (\<lambda>d. if needRehash (dc_total d) (dc_size d) then Dict_rehash hash d else (Inr (), d))
       (\<lambda>_ d. case locate hash (dc_size d) (dc_datas d) k of Inl e \<Rightarrow> (Inl e, d)
        | Inr (pos, b) \<Rightarrow> let it = find_node b k; ds = the (dc_datas d) in
            if it = length b
            then if max_array \<le> length vs then (Inl BadAlloc, d)
            else (Inr True, d\<lparr>dc_datas := Some (ds[pos := push_node b (k, vs)]), dc_total := dc_total d + 1\<rparr>)
            else let old = snd (b ! it) in
              if max_array \<le> length vs then (Inl Undefined, d)
              else if length old = length vs
              then (Inr True, d\<lparr>dc_datas := Some (ds[pos := b[it := (fst (b ! it), store 0 vs old)]])\<rparr>)
              else (Inr True, d\<lparr>dc_datas := Some (ds[pos := b[it := (fst (b ! it), vs)]])\<rparr>)) d)"

text \<open>\<^verbatim>\<open>foreach\<close>: a callback that returns false ends the bucket, not the iteration.\<close>

definition Dict_foreach :: "('k \<Rightarrow> 'v list \<Rightarrow> 's \<Rightarrow> bool \<times> 's) \<Rightarrow> ('k, 'v) dict \<Rightarrow> 's \<Rightarrow> failure + 's" where
  "Dict_foreach cb d s =
     (if dc_size d = 0 then Inr s
      else case dc_datas d of None \<Rightarrow> Inl NullDeref
      | Some ds \<Rightarrow> if length ds < dc_size d then Inl BadIndex
          else Inr (fold (\<lambda>b s. foreach_nodes cb b s) (take (dc_size d) ds) s))"

definition Dict_getTotal :: "('k, 'v) dict \<Rightarrow> nat" where
  "Dict_getTotal d = dc_total d"

definition Dict_del :: "('k::linorder \<Rightarrow> u32) \<Rightarrow> 'k \<Rightarrow> (('k, 'v) dict, bool) action" where
  "Dict_del hash k d =
     (case locate hash (dc_size d) (dc_datas d) k of Inl e \<Rightarrow> (Inl e, d)
      | Inr (pos, b) \<Rightarrow> let it = find_node b k; ds = the (dc_datas d) in
          if it = length b then (Inr False, d)
          else (Inr True, d\<lparr>dc_datas := Some (ds[pos := erase_node b it]), dc_total := dc_total d - 1\<rparr>))"

definition Dict_writeTo :: "byte_order \<Rightarrow> ('v \<Rightarrow> bytes) \<Rightarrow> nat \<Rightarrow> ('k \<times> u32 \<times> u64 \<Rightarrow> bytes) \<Rightarrow> nat \<Rightarrow> nat option \<Rightarrow>
    ('k, 'v) dict \<Rightarrow> ostream \<Rightarrow> (failure + bool) \<times> ostream" where
  "Dict_writeTo h encV vsz encN nsz speed d os =
     (let os1 = os_write (mem h 8 (of_nat (dc_size d) :: u64)) os in
      case all_nodes (dc_size d) (dc_datas d) of Inl e \<Rightarrow> (Inl e, os1)
      | Inr nodes \<Rightarrow>
          let os2 = save_arrays h encV vsz encN nsz speed nodes os1
          in (Inr (os_good os2), os2))"

definition Dict_readFrom :: "('k::linorder \<Rightarrow> u32) \<Rightarrow> byte_order \<Rightarrow> (bytes \<Rightarrow> 'v) \<Rightarrow> nat \<Rightarrow>
    (bytes \<Rightarrow> 'k \<times> u32 \<times> u64) \<Rightarrow> nat \<Rightarrow> nat option \<Rightarrow> ('k, 'v) dict \<Rightarrow> istream \<Rightarrow>
    ((failure + bool) \<times> ('k, 'v) dict) \<times> istream" where
  "Dict_readFrom hash h decV vsz decN nsz speed d is =
     (let d = d\<lparr>dc_datas := None\<rparr> in
      case load_arrays h decV vsz decN nsz speed (dc_size d) is of
        ((n, Inl e), is') \<Rightarrow> ((Inl e, d\<lparr>dc_size := n\<rparr>), is')
      | ((n, Inr None), is') \<Rightarrow> ((Inr False, d\<lparr>dc_size := n\<rparr>), is')
      | ((n, Inr (Some ns)), is') \<Rightarrow>
          ((Inr True, d\<lparr>dc_size := n, dc_total := length ns, dc_datas := Some (fill_table hash n ns)\<rparr>), is'))"

text \<open>\<^verbatim>\<open>getString\<close>, for dictionaries of characters.\<close>

definition Dict_getString :: "('k::linorder \<Rightarrow> u32) \<Rightarrow> 'k \<Rightarrow> ('k, byte) dict \<Rightarrow> failure + bytes" where
  "Dict_getString hash k d =
     (case locate hash (dc_size d) (dc_datas d) k of Inl e \<Rightarrow> Inl e
      | Inr (pos, b) \<Rightarrow> let it = find_node b k in
          if it = length b then Inr [] else Inr (snd (b ! it)))"

section \<open>StringDict\<close>

text \<open>The three \<^verbatim>\<open>GetID\<close> overloads; \<open>host\<close> is the byte order of the machine.\<close>

definition GetID :: "byte_order \<Rightarrow> bytes \<Rightarrow> u64" where
  "GetID host s = (if s = [] then 0 else murmur3_hash64 host (Some s) 1060627423 1050126127)"

definition GetID_cstr :: "byte_order \<Rightarrow> bytes option \<Rightarrow> u64" where
  "GetID_cstr host s = (if s = None then 0 else murmur3_hash64_cstr host s 1060627423 1050126127)"

definition StringDict_update :: "(u64 \<Rightarrow> u32) \<Rightarrow> byte_order \<Rightarrow> bytes \<Rightarrow> ((u64, byte) dict, u64) action" where
  "StringDict_update hash host s d =
     (let sid = GetID host s in
      if sid = 0 then (Inr 0, d)
      else case Dict_insert hash sid s d of (Inl e, d') \<Rightarrow> (Inl e, d') | (Inr _, d') \<Rightarrow> (Inr sid, d'))"

definition StringDict_update_cstr :: "(u64 \<Rightarrow> u32) \<Rightarrow> byte_order \<Rightarrow> bytes option \<Rightarrow> ((u64, byte) dict, u64) action" where
  "StringDict_update_cstr hash host s d =
     (let sid = GetID_cstr host s in
      if sid = 0 then (Inr 0, d)
      else case Dict_insert hash sid (c_str (the s)) d of (Inl e, d') \<Rightarrow> (Inl e, d') | (Inr _, d') \<Rightarrow> (Inr sid, d'))"

definition StringDict_get :: "(u64 \<Rightarrow> u32) \<Rightarrow> u64 \<Rightarrow> (u64, byte) dict \<Rightarrow> failure + bytes" where
  "StringDict_get hash sid d = Dict_getString hash sid d"

definition StringDict_getRaw :: "(u64 \<Rightarrow> u32) \<Rightarrow> u64 \<Rightarrow> (u64, byte) dict \<Rightarrow> failure + bytes option" where
  "StringDict_getRaw hash sid d = Dict_get hash sid d"

section \<open>A dictionary as a hash map of arrays\<close>

text \<open>The table of a \<^verbatim>\<open>Dict\<close> is one of a \<^verbatim>\<open>HashMap\<close>, and so are the steps on it; what is proved of the one carries
  over.\<close>

definition dc_hm :: "('k, 'v) dict \<Rightarrow> ('k, 'v list) hashmap" where
  "dc_hm d = \<lparr>hm_size = dc_size d, hm_total = dc_total d, hm_datas = dc_datas d\<rparr>"

definition hm_dc :: "('k, 'v list) hashmap \<Rightarrow> ('k, 'v) dict" where
  "hm_dc m = \<lparr>dc_size = hm_size m, dc_total = hm_total m, dc_datas = hm_datas m\<rparr>"

lemma hm_dc_simps [simp]:
  "dc_hm (hm_dc m) = m" "hm_dc (dc_hm d) = d"
  "hm_size (dc_hm d) = dc_size d" "hm_total (dc_hm d) = dc_total d" "hm_datas (dc_hm d) = dc_datas d"
  "dc_size (hm_dc m) = hm_size m" "dc_total (hm_dc m) = hm_total m" "dc_datas (hm_dc m) = hm_datas m"
  by (simp_all add: hm_dc_def dc_hm_def)

definition dc_ok :: "('k::linorder \<Rightarrow> u32) \<Rightarrow> ('k, 'v) dict \<Rightarrow> bool" where
  "dc_ok hash d \<longleftrightarrow> hm_ok hash (dc_hm d)"

definition dc_map :: "('k \<Rightarrow> u32) \<Rightarrow> ('k, 'v) dict \<Rightarrow> 'k \<rightharpoonup> 'v list" where
  "dc_map hash d = hm_map hash (dc_hm d)"

lemma Dict_get_hm: "Dict_get hash k d = HashMap_get hash k (dc_hm d)"
  by (simp add: Dict_get_def HashMap_get_def)

lemma Dict_exists_hm: "Dict_exists hash k d = HashMap_exists hash k (dc_hm d)"
  by (simp add: Dict_exists_def HashMap_exists_def)

lemma Dict_del_hm: "Dict_del hash k d = map_prod id hm_dc (HashMap_del hash k (dc_hm d))"
  by (auto simp: Dict_del_def HashMap_del_def Let_def hm_dc_def dc_hm_def split: sum.split)

lemma Dict_rehash_hm: "Dict_rehash hash d = map_prod id hm_dc (HashMap_rehash hash (dc_hm d))"
  by (auto simp: Dict_rehash_def HashMap_rehash_def Dict_rehashUnlock_def HashMap_rehashUnlock_def
      hm_dc_def dc_hm_def split: sum.split)

lemma dc_okE:
  assumes "dc_ok hash d"
  obtains ds where "dc_datas d = Some ds" "0 < length ds" "dc_size d = length ds" "table_ok hash ds"
    "dc_total d = table_count ds" "dc_map hash d = table_map hash ds"
  using assms by (auto simp: dc_ok_def dc_map_def elim: hm_okE)

lemma Dict_insert_hm:
  assumes ok: "dc_ok hash d" "dc_total d < 2 ^ 31" and ne: "vs \<noteq> []" "length vs < max_array"
  shows "Dict_insert hash k vs d = map_prod (map_sum id (\<lambda>_. True)) hm_dc (HashMap_set hash k vs (dc_hm d))"
proof -
  obtain m1 where m1: "HashMap_rehash hash (dc_hm d) = (Inr (), m1)" "hm_ok hash m1"
    using HashMap_rehash_correct [of hash "dc_hm d"] ok by (auto simp: dc_ok_def)
  obtain ds where ds: "hm_datas m1 = Some ds" "0 < length ds" "hm_size m1 = length ds" "table_ok hash ds"
    using m1(2) by (rule hm_okE)
  let ?p = "unat (hash k) mod length ds"
  let ?b = "ds ! ?p"
  have b: "bucket_ok ?b" using ds(2,4) by (simp add: table_bucket_ok)
  have key: "fst (?b ! find_node ?b k) = k" if "find_node ?b k \<noteq> length ?b"
  proof (cases "map_of ?b k")
    case None
    then show ?thesis using find_node_missing [OF b None] that by simp
  next
    case (Some v)
    then show ?thesis using find_node_present(2) [OF b Some] by simp
  qed
  have st: "length old = length vs \<Longrightarrow> store 0 vs old = vs" for old by (simp add: store_def)
  have r: "(if needRehash (dc_total d) (dc_size d) then Dict_rehash hash d else (Inr (), d)) = (Inr (), hm_dc m1)"
    "(if needRehash (dc_total d) (dc_size d) then HashMap_rehash hash (dc_hm d) else (Inr (), dc_hm d)) = (Inr (), m1)"
    using m1(1) Dict_rehash_hm [of hash d] by (auto simp: HashMap_rehash_def split: if_splits)
  show ?thesis
    using ne r locate_ok [OF ds(2), of hash k] ds(1,3) key st
    by (simp add: Dict_insert_def HashMap_set_def bindE_def Let_def hm_dc_def)
qed

section \<open>Laws\<close>

lemma new_Dict_ok:
  assumes "new_Dict sz = Inr d"
  shows "dc_ok hash d" "dc_map hash d = Map.empty"
proof -
  have "new_HashMap sz = Inr (dc_hm d)"
    using assms by (auto simp: new_Dict_def new_HashMap_def dc_hm_def split: sum.splits)
  then show "dc_ok hash d" "dc_map hash d = Map.empty"
    using new_HashMap_ok by (auto simp: dc_ok_def dc_map_def)
qed

lemma dc_total_card: "dc_ok hash d \<Longrightarrow> dc_total d = card (dom (dc_map hash d))"
  using hm_total_card [of hash "dc_hm d"] by (simp add: dc_ok_def dc_map_def)

interpretation dc: kv_map "Dict_get hash" "Dict_insert hash" "Dict_del hash" "dc_ok hash" "dc_map hash"
  "\<lambda>v. v" "\<lambda>_. True" "\<lambda>vs. vs \<noteq> [] \<and> length vs < max_array" "2 ^ 31" for hash
proof unfold_locales
  fix s :: "('a, 'b) dict" assume s: "dc_ok hash s"
  then have hm: "hm_ok hash (dc_hm s)" by (simp add: dc_ok_def)
  show "finite (dom (dc_map hash s))" using hm.finite_abs [OF hm] by (simp add: dc_map_def)
  show "Dict_get hash k s = Inr (dc_map hash s k)" for k
    using hm.get_law [OF hm] by (simp add: Dict_get_hm dc_map_def)
  show "\<exists>s'. Dict_insert hash k v s = (Inr True, s') \<and> dc_ok hash s' \<and> dc_map hash s' = (dc_map hash s)(k \<mapsto> v)"
    if "card (dom (dc_map hash s)) < 2 ^ 31" "v \<noteq> [] \<and> length v < max_array" for k v
    using HashMap_set_correct [OF hm, of k v] Dict_insert_hm [OF s, of v k] that dc_total_card [OF s]
    by (auto simp: dc_ok_def dc_map_def)
  show "\<exists>s'. Dict_del hash k s = (Inr (dc_map hash s k \<noteq> None), s') \<and> dc_ok hash s' \<and>
      dc_map hash s' = (dc_map hash s)(k := None)" for k
    using HashMap_del_correct [OF hm, of k] by (auto simp: Dict_del_hm dc_ok_def dc_map_def)
qed

lemma Dict_getString_get:
  "Dict_getString hash k d = (case Dict_get hash k d of Inl e \<Rightarrow> Inl e | Inr None \<Rightarrow> Inr [] | Inr (Some s) \<Rightarrow> Inr s)"
  by (simp add: Dict_getString_def Dict_get_def Let_def split: sum.split)

text \<open>The two halves of an id are hashes under different seeds, hence different, hence not both zero.\<close>

lemma GetID_nonzero:
  assumes "s \<noteq> []"
  shows "GetID host s \<noteq> 0"
proof
  assume z: "GetID host s = 0"
  let ?h = "murmur3_hash64 host (Some s) 1060627423 1050126127"
  have "?h = 0" using z assms by (simp add: GetID_def)
  then have "murmur3_hash host (Some s) 1060627423 = murmur3_hash host (Some s) 1050126127"
    using hash64_halves [of "murmur3_hash host (Some s) 1060627423" "murmur3_hash host (Some s) 1050126127"]
    by (simp only: murmur3_hash64_def) simp
  then show False by (simp add: inj_eq [OF inj_murmur3_hash])
qed

section \<open>Properties\<close>

text \<open>
  (C22) \<^verbatim>\<open>Dict\<close> is a finite map from keys to nonempty arrays of less than \<open>2 ^ 31\<close> values (the size of a node is an
  \<^verbatim>\<open>int\<close>): on a new table a run of \<^verbatim>\<open>insert\<close>, \<^verbatim>\<open>get\<close> and
  \<^verbatim>\<open>del\<close> returns what the abstract map returns (\<^verbatim>\<open>insert\<close> always true), whether arrays are overwritten in
  place or replaced and whether the table is rehashed, and \<^verbatim>\<open>getTotal\<close> counts the keys. Inserting an empty
  array changes nothing.
\<close>

theorem dict_refines_map:
  assumes "new_Dict sz = Inr d" "length ops \<le> 2 ^ 31" "list_all (value_ok (\<lambda>vs. vs \<noteq> [] \<and> length vs < max_array)) ops"
  shows "\<exists>d'. run_map (impl_exec (Dict_get hash) (Dict_insert hash) (Dict_del hash)) ops d =
                (fst (run_map (spec_exec (\<lambda>v. v) (\<lambda>_. True)) ops Map.empty), d') \<and> dc_ok hash d' \<and>
           dc_map hash d' = snd (run_map (spec_exec (\<lambda>v. v) (\<lambda>_. True)) ops Map.empty) \<and>
           Dict_getTotal d' = card (dom (dc_map hash d')) \<and> Dict_insert hash k [] d' = (Inr True, d')"
proof -
  note n = new_Dict_ok [OF assms(1), of hash]
  have "card (dom (dc_map hash d)) + length ops \<le> 2 ^ 31" using n(2) assms(2) by simp
  from dc.run_simulates [OF n(1) this assms(3)] n(2) show ?thesis
    using dc_total_card by (auto simp: Dict_getTotal_def Dict_insert_def)
qed

theorem dict_refines_map_witness:
  "\<exists>d d'. new_Dict 3 = Inr d \<and>
     run_map (impl_exec (Dict_get (\<lambda>_. 7)) (Dict_insert (\<lambda>_. 7)) (Dict_del (\<lambda>_. 7)))
       [Update (3 :: nat) ''ab'', Update 3 ''cd'', Lookup 3, Delete 3, Lookup 3] d =
     ([Flag True, Flag True, Val (Some ''cd''), Flag True, Val None], d')"
proof -
  obtain d :: "(nat, char) dict" where d: "new_Dict 3 = Inr d"
    by (simp add: new_Dict_def basket_def to_int32_def)
  then show ?thesis
    using dict_refines_map [OF d, of "[Update 3 ''ab'', Update 3 ''cd'', Lookup 3, Delete 3, Lookup 3]" "\<lambda>_. 7"]
    by (auto simp del: run_map.simps(2) simp add: max_array_def run_map.simps(2) [of "spec_exec (\<lambda>v. v) (\<lambda>_. True)"])
qed

text \<open>
  \<^verbatim>\<open>StringDict\<close>: \<^verbatim>\<open>update\<close> of a nonempty string below 2 GB returns an id that is not 0 (the mark of an empty string),
  \<^verbatim>\<open>get(id)\<close> then returns the string, and every other id still returns what it did; \<^verbatim>\<open>update\<close> of a C string
  does the same with the characters before the terminating zero.
\<close>

theorem stringdict_update_get:
  assumes "dc_ok hash d" "dc_total d < 2 ^ 31" "s \<noteq> []" "length s < max_array"
  shows "GetID host s \<noteq> 0 \<and> (\<exists>d'. StringDict_update hash host s d = (Inr (GetID host s), d') \<and> dc_ok hash d' \<and>
      StringDict_get hash (GetID host s) d' = Inr s \<and>
      (\<forall>i. i \<noteq> GetID host s \<longrightarrow> StringDict_get hash i d' = StringDict_get hash i d) \<and>
      (0 \<notin> set s \<longrightarrow> StringDict_update_cstr hash host (Some (s @ [0])) d = (Inr (GetID host s), d')))"
proof -
  note ne = assms(3) and nz = GetID_nonzero [OF assms(3), of host]
  obtain d' where d': "Dict_insert hash (GetID host s) s d = (Inr True, d')" "dc_ok hash d'"
      "Dict_get hash (GetID host s) d' = Inr (Some s)" "\<forall>j. j \<noteq> GetID host s \<longrightarrow> Dict_get hash j d' = Dict_get hash j d"
    using dc.get_after_set [OF assms(1) _ conjI [OF ne assms(4)]] assms(1,2) dc_total_card [OF assms(1)] by metis
  have c: "GetID_cstr host (Some (s @ [0])) = GetID host s \<and> c_str (s @ [0]) = s" if "0 \<notin> set s"
  proof -
    have cs: "c_str (s @ [0]) = s" using that by (induction s) (auto simp: c_str_def)
    show ?thesis using ne
      by (simp add: GetID_cstr_def GetID_def murmur3_hash64_cstr_def murmur3_hash64_def murmur3_hash_cstr_def
          murmur3_hash_def cs)
  qed
  show ?thesis using d' nz c
    by (intro conjI exI [of _ d'])
      (simp_all add: StringDict_update_def StringDict_update_cstr_def StringDict_get_def Dict_getString_get)
qed

theorem stringdict_update_get_witness:
  "\<exists>d d'. new_Dict 1 = Inr d \<and> StringDict_update ucast SYLAR_LITTLE_ENDIAN (str ''sylar'') d = (Inr (GetID SYLAR_LITTLE_ENDIAN (str ''sylar'')), d') \<and>
     StringDict_get ucast (GetID SYLAR_LITTLE_ENDIAN (str ''sylar'')) d' = Inr (str ''sylar'')"
proof -
  obtain d :: "(u64, byte) dict" where d: "new_Dict 1 = Inr d" "dc_total d = 0"
    by (auto simp: new_Dict_def basket_def to_int32_def)
  show ?thesis
    using stringdict_update_get [OF new_Dict_ok(1) [OF d(1)], of "str ''sylar''" SYLAR_LITTLE_ENDIAN ucast] d
    by (auto simp: str_def max_array_def)
qed

text \<open>
  A \<^verbatim>\<open>foreach\<close> callback that returns false ends the bucket it is in, and the iteration goes on with the next
  one: a callback that only counts and always stops is called once for every bucket that is not empty.
\<close>

theorem foreach_stops_bucket_only:
  assumes "dc_ok hash d"
  shows "Dict_foreach (\<lambda>k v n. (False, n + 1)) d (0 :: nat) =
    Inr (length (filter (\<lambda>b. b \<noteq> []) (the (dc_datas d))))"
proof -
  obtain ds where ds: "dc_datas d = Some ds" "0 < length ds" "dc_size d = length ds"
    using assms by (rule dc_okE)
  have one: "foreach_nodes (\<lambda>k v n. (False, n + 1)) b n = (if b = [] then n else n + 1)" for b :: "('a \<times> 'b list) list" and n :: nat
    by (cases b) auto
  have "fold (\<lambda>b. foreach_nodes (\<lambda>k v n. (False, n + 1)) b) bs n = n + length (filter (\<lambda>b. b \<noteq> []) bs)"
    for bs :: "('a, 'b list) table" and n :: nat
    by (induction bs arbitrary: n) (simp_all add: one [simplified])
  then show ?thesis using ds by (simp add: Dict_foreach_def)
qed

theorem foreach_stops_bucket_only_witness:
  "Dict_foreach (\<lambda>k v n. (False, n + 1)) \<lparr>dc_size = 2, dc_total = 2, dc_datas = Some [[(2 :: nat, [1 :: nat])], [(1, [7])]]\<rparr> (0 :: nat) = Inr 2"
proof -
  let ?d = "\<lparr>dc_size = 2, dc_total = 2, dc_datas = Some [[(2 :: nat, [1 :: nat])], [(1, [7])]]\<rparr>"
  have "dc_ok (\<lambda>k. if k = 1 then 1 else 0) ?d"
    by (auto simp: dc_ok_def dc_hm_def hm_ok_def table_ok_def bucket_ok_def table_count_def less_Suc_eq)
  from foreach_stops_bucket_only [OF this] show ?thesis by simp
qed


text \<open>
  \<^verbatim>\<open>Dict::writeTo\<close> and \<^verbatim>\<open>readFrom\<close>: a table of plain keys and values is restored as the same map with the
  same count, throttled or not.
\<close>

theorem dict_save_load:
  assumes pods: "pod encV decV vsz" "pod encN decN nsz" "0 < vsz" "0 < nsz"
    and d: "dc_ok hash d" "dc_size d < 2 ^ 64"
      "length (pack_values (concat (the (dc_datas d)))) * vsz < 2 ^ 64" "dc_total d * nsz < 2 ^ 64"
      "\<forall>k vs. dc_map hash d k = Some vs \<longrightarrow> length vs < 2 ^ 31"
    and os: "os_good os" "os_data os = []"
      "24 + length (pack_values (concat (the (dc_datas d)))) * vsz + dc_total d * nsz \<le> os_room os"
    and str: "is_good is" "is_data is = os_data (snd (Dict_writeTo h encV vsz encN nsz speed d os)) @ rest"
  shows "fst (Dict_writeTo h encV vsz encN nsz speed d os) = Inr True \<and>
    (\<exists>d'. Dict_readFrom hash h decV vsz decN nsz speed' d0 is = ((Inr True, d'), is\<lparr>is_data := rest\<rparr>) \<and>
       dc_ok hash d' \<and> dc_map hash d' = dc_map hash d \<and> dc_total d' = dc_total d)"
proof -
  obtain ds where ds: "dc_datas d = Some ds" "0 < length ds" "dc_size d = length ds" "table_ok hash ds"
      "dc_total d = table_count ds" "dc_map hash d = table_map hash ds"
    using d(1) by (rule dc_okE)
  let ?ns = "concat ds"
  have short: "\<forall>n \<in> set ?ns. length (snd n) < 2 ^ 31"
    using table_map_set [OF ds(4,2)] ds(6) d(5) by (metis table_nodes_def prod.collapse)
  have tot: "length ?ns = dc_total d" using ds(5) by (simp add: table_count_def)
  let ?out = "save_arrays h encV vsz encN nsz speed ?ns (os_write (mem h 8 (of_nat (length ds) :: u64)) os)"
  have wr: "Dict_writeTo h encV vsz encN nsz speed d os = (Inr (os_good ?out), ?out)"
    using ds(1-3) by (simp add: Dict_writeTo_def all_nodes_def Let_def)
  have sv: "os_good ?out"
    and ld: "load_arrays h decV vsz decN nsz speed' (dc_size d0) is = ((length ds, Inr (Some ?ns)), is\<lparr>is_data := rest\<rparr>)"
    by (rule save_load_arrays [OF pods ds(2) _ _ _ short os(1,2) _ str(1)],
        use d ds(1,3) tot os(3) str(2) wr in \<open>simp_all del: length_concat\<close>)+
  let ?d' = "d0\<lparr>dc_datas := None, dc_size := length ds, dc_total := length ?ns,
      dc_datas := Some (fill_table hash (length ds) ?ns)\<rparr>"
  have "Dict_readFrom hash h decV vsz decN nsz speed' d0 is = ((Inr True, ?d'), is\<lparr>is_data := rest\<rparr>)"
    using ld by (simp add: Dict_readFrom_def)
  moreover note r = rehash_table_ok [OF ds(4,2,2)]
  have "dc_ok hash ?d'" using r ds(2) by (simp add: dc_ok_def dc_hm_def hm_ok_def table_count_def)
  moreover have "dc_map hash ?d' = dc_map hash d" using r ds(6) by (simp add: dc_map_def dc_hm_def hm_map_def)
  ultimately show ?thesis using wr sv tot by auto
qed

theorem dict_save_load_witness:
  "\<exists>d is. dc_total d = 1 \<and> (\<exists>d'. Dict_readFrom (\<lambda>_. 0) SYLAR_LITTLE_ENDIAN (of_mem SYLAR_LITTLE_ENDIAN) 8
     (dec_ref SYLAR_LITTLE_ENDIAN) 20 (Some 5) d is = ((Inr True, d'), is\<lparr>is_data := []\<rparr>) \<and>
     dc_map (\<lambda>_. 0) d' = dc_map (\<lambda>_. 0) d \<and> dc_map (\<lambda>_. 0) d 4 = Some [2, 3 :: u64])"
proof -
  let ?h = SYLAR_LITTLE_ENDIAN and ?os = "\<lparr>os_data = [], os_good = True, os_room = 100\<rparr>"
  let ?d = "\<lparr>dc_size = 1, dc_total = 1, dc_datas = Some [[(4 :: u64, [2, 3 :: u64])]]\<rparr>"
  let ?is = "\<lparr>is_data = os_data (snd (Dict_writeTo ?h (mem ?h 8) 8 (enc_ref ?h) 20 None ?d ?os)), is_good = True\<rparr>"
  have ok: "dc_ok (\<lambda>_. 0) ?d"
    by (simp add: dc_ok_def dc_hm_def hm_ok_def table_ok_def bucket_ok_def table_count_def)
  have m: "dc_map (\<lambda>_. 0) ?d = [4 \<mapsto> [2, 3]]" by (intro ext) (simp add: dc_map_def dc_hm_def hm_map_def table_map_def)
  have short: "\<forall>k vs. dc_map (\<lambda>_. 0) ?d k = Some vs \<longrightarrow> length vs < 2 ^ 31" unfolding m by auto
  show ?thesis
    using dict_save_load [OF u64.pod_axioms ref.pod_axioms _ _ ok _ _ _ short, of ?os ?is ?h ?h ?h None "[]" "Some 5" ?d] m
    by (intro exI [of _ ?d] exI [of _ ?is]) (auto simp: pack_values_def)
qed

end
