(* ===== verification/DsArray.thy ===== *)
theory DsArray
  imports DsUtil StreamIO
begin

text \<open>
  \<^verbatim>\<open>sylar/ds/array.h\<close>: a growable array that is kept sorted through \<^verbatim>\<open>exists\<close> and
  \<^verbatim>\<open>insert\<close>. \<open>lt\<close> is the \<^verbatim>\<open>operator<\<close> of the element type; accesses outside the
  allocation are \<open>BadIndex\<close>.
\<close>

record 'a array =
  ar_size :: nat
  ar_data :: "'a list"

text \<open>The constructors: \<^verbatim>\<open>calloc\<close> gives \<open>size\<close> zero elements (\<open>z\<close>); the copying one duplicates
  the data, and the other takes the pointer over.\<close>

definition new_Array :: "'a \<Rightarrow> nat \<Rightarrow> 'a array" where
  "new_Array z sz = \<lparr>ar_size = sz, ar_data = (if 0 < sz then replicate sz z else [])\<rparr>"

definition Array_of :: "'a list \<Rightarrow> 'a array" where
  "Array_of xs = \<lparr>ar_size = length xs, ar_data = xs\<rparr>"

definition ar_get :: "nat \<Rightarrow> 'a array \<Rightarrow> failure + 'a" where
  "ar_get idx a = (if idx < length (ar_data a) then Inr (ar_data a ! idx) else Inl BadIndex)"

definition ar_set :: "nat \<Rightarrow> 'a \<Rightarrow> ('a array, unit) action" where
  "ar_set idx v a =
     (if idx < length (ar_data a) then (Inr (), a\<lparr>ar_data := (ar_data a)[idx := v]\<rparr>)
      else (Inl BadIndex, a))"

text \<open>\<^verbatim>\<open>isSorted\<close>; at the last index the loop returns true.\<close>

function isSorted_loop :: "('a \<Rightarrow> 'a \<Rightarrow> bool) \<Rightarrow> 'a array \<Rightarrow> nat \<Rightarrow> bool" where
  "isSorted_loop lt a i =
     (if i < ar_size a
      then if i = ar_size a - 1 then True
           else if \<not> lt (ar_data a ! (i + 1)) (ar_data a ! i) then isSorted_loop lt a (i + 1)
           else False
      else True)"
  by pat_completeness auto
termination
  by (relation "measure (\<lambda>(lt, a, i). ar_size a - i)") auto

declare isSorted_loop.simps [simp del]

definition isSorted :: "('a \<Rightarrow> 'a \<Rightarrow> bool) \<Rightarrow> 'a array \<Rightarrow> bool" where
  "isSorted lt a = isSorted_loop lt a 0"

text \<open>\<^verbatim>\<open>sort\<close>: \<^verbatim>\<open>std::sort\<close> orders the data by the key the comparison looks at.\<close>

definition ar_sort :: "('a \<Rightarrow> 'k::linorder) \<Rightarrow> 'a array \<Rightarrow> 'a array" where
  "ar_sort key a = a\<lparr>ar_data := sort_key key (ar_data a)\<rparr>"

definition ar_exists :: "('a \<Rightarrow> 'a \<Rightarrow> bool) \<Rightarrow> 'a \<Rightarrow> 'a array \<Rightarrow> int" where
  "ar_exists lt v a = search_loop lt (ar_data a) v 0 (int (ar_size a) - 1)"

text \<open>
  \<^verbatim>\<open>exists\<close> with a comparison function: in the branch for a smaller value the statement is the
  comparison \<^verbatim>\<open>end == m - 1\<close>, so nothing changes and the loop goes round again. \<open>None\<close> is the
  loop not ending.
\<close>

partial_function (option) exists_cmp_loop ::
  "('a \<Rightarrow> 'a \<Rightarrow> bool) \<Rightarrow> 'a \<Rightarrow> 'a list \<Rightarrow> int \<Rightarrow> int \<Rightarrow> int option" where
  "exists_cmp_loop cmp v data lo hi =
     (if lo \<le> hi then
        let m = (lo + hi) div 2 in
        if cmp v (data ! nat m) then exists_cmp_loop cmp v data lo hi
        else if cmp (data ! nat m) v then exists_cmp_loop cmp v data (m + 1) hi
        else Some m
      else Some (- lo - 1))"

definition ar_exists_cmp :: "('a \<Rightarrow> 'a \<Rightarrow> bool) \<Rightarrow> 'a \<Rightarrow> 'a array \<Rightarrow> int option" where
  "ar_exists_cmp cmp v a = exists_cmp_loop cmp v (ar_data a) 0 (int (ar_size a) - 1)"

definition insert_at :: "int \<Rightarrow> 'a \<Rightarrow> ('a array, bool) action" where
  "insert_at idx v a =
     (let idx = - idx - 1 in
      if 0 \<le> idx \<and> nat idx \<le> ar_size a
      then (Inr True, a\<lparr>ar_size := ar_size a + 1,
                        ar_data := take (nat idx) (ar_data a) @ v # drop (nat idx) (ar_data a)\<rparr>)
      else (Inl BadIndex, a))"

definition ar_insert :: "('a \<Rightarrow> 'a \<Rightarrow> bool) \<Rightarrow> 'a \<Rightarrow> ('a array, bool) action" where
  "ar_insert lt v a =
     (let idx = ar_exists lt v a in
      if 0 \<le> idx then (Inr False, a\<lparr>ar_data := (ar_data a)[nat idx := v]\<rparr>)
      else insert_at idx v a)"

definition ar_insert_cmp :: "('a \<Rightarrow> 'a \<Rightarrow> bool) \<Rightarrow> 'a \<Rightarrow> 'a array \<Rightarrow> ((failure + bool) \<times> 'a array) option" where
  "ar_insert_cmp cmp v a =
     (case ar_exists_cmp cmp v a of None \<Rightarrow> None
      | Some idx \<Rightarrow> Some (if 0 \<le> idx then (Inr False, a\<lparr>ar_data := (ar_data a)[nat idx := v]\<rparr>)
                         else insert_at idx v a))"

definition ar_erase :: "nat \<Rightarrow> ('a array, bool) action" where
  "ar_erase idx a =
     (if idx < ar_size a
      then (Inr True, a\<lparr>ar_size := ar_size a - 1,
                        ar_data := take idx (ar_data a) @ drop (idx + 1) (ar_data a)\<rparr>)
      else (Inl BadIndex, a))"

definition ar_append :: "'a \<Rightarrow> 'a array \<Rightarrow> 'a array" where
  "ar_append v a = a\<lparr>ar_size := ar_size a + 1, ar_data := ar_data a @ [v]\<rparr>"

text \<open>
  \<^verbatim>\<open>writeTo\<close>: the size, then the elements as bytes; \<open>speed\<close> is \<open>None\<close> for the default
  \<^verbatim>\<open>(uint64_t)-1\<close>. \<open>h\<close> is the byte order of the machine and \<open>enc\<close> the bytes of an element.
\<close>

definition ar_writeTo :: "byte_order \<Rightarrow> ('a \<Rightarrow> bytes) \<Rightarrow> nat option \<Rightarrow> 'a array \<Rightarrow> ostream \<Rightarrow> bool \<times> ostream" where
  "ar_writeTo h enc speed a os =
     (let os1 = os_write (mem h 8 (of_nat (ar_size a) :: u64)) os;
          data = concat (map enc (ar_data a));
          os2 = (case speed of None \<Rightarrow> os_write data os1
                 | Some s \<Rightarrow> snd (WriteFixToStreamWithSpeed data s os1))
      in (os_good os2, os2))"

text \<open>
  \<^verbatim>\<open>readFrom\<close>: the bytes that arrive overwrite \<^verbatim>\<open>m_size\<close> and then the reallocated block, also
  when the stream runs dry. \<open>blk n\<close> are the bytes of the block of \<open>n\<close> elements before that.
\<close>

definition ar_readFrom ::
  "byte_order \<Rightarrow> (bytes \<Rightarrow> 'a) \<Rightarrow> nat \<Rightarrow> (nat \<Rightarrow> bytes) \<Rightarrow> nat option \<Rightarrow> 'a array \<Rightarrow> istream \<Rightarrow>
   (bool \<times> 'a array) \<times> istream" where
  "ar_readFrom h dec sz blk speed a is =
     (let ((got, ok), is1) = ReadFixFromStream 8 is;
          n = unat (of_mem h (store 0 got (mem h 8 (of_nat (ar_size a) :: u64))) :: u64)
      in if \<not> ok then ((False, a\<lparr>ar_size := n\<rparr>), is1)
         else let ((got', ok'), is2) =
                    (case speed of None \<Rightarrow> ReadFixFromStream (n * sz) is1
                     | Some s \<Rightarrow> ReadFixFromStreamWithSpeed (n * sz) s is1)
              in ((ok', \<lparr>ar_size = n, ar_data = decode_all sz dec n (store 0 got' (blk n))\<rparr>), is2))"

section \<open>Invariant and lemmas\<close>

definition wf_array :: "'a array \<Rightarrow> bool" where
  "wf_array a \<longleftrightarrow> ar_size a = length (ar_data a)"

definition sorted_array :: "('a \<Rightarrow> 'k::linorder) \<Rightarrow> 'a array \<Rightarrow> bool" where
  "sorted_array key a \<longleftrightarrow> wf_array a \<and> sorted_wrt (<) (map key (ar_data a))"

lemma isSorted_loop_correct:
  assumes "wf_array a" "i \<le> ar_size a"
  shows "isSorted_loop (key_less key) a i \<longleftrightarrow>
           (\<forall>j. i \<le> j \<and> Suc j < ar_size a \<longrightarrow> key (ar_data a ! j) \<le> key (ar_data a ! Suc j))"
  using assms
proof (induction "ar_size a - i" arbitrary: i)
  case 0
  then show ?case by (auto simp: isSorted_loop.simps)
next
  case (Suc n)
  show ?case
  proof (cases "Suc i < ar_size a")
    case False
    then have "i = ar_size a - 1" "i < ar_size a" using Suc.hyps(2) by auto
    then have "isSorted_loop (key_less key) a i" by (subst isSorted_loop.simps) simp
    then show ?thesis using False by auto
  next
    case True
    have "isSorted_loop (key_less key) a (i + 1) \<longleftrightarrow>
        (\<forall>j. Suc i \<le> j \<and> Suc j < ar_size a \<longrightarrow> key (ar_data a ! j) \<le> key (ar_data a ! Suc j))"
      using Suc.hyps True Suc.prems by simp
    moreover have "isSorted_loop (key_less key) a i \<longleftrightarrow>
        key (ar_data a ! i) \<le> key (ar_data a ! Suc i) \<and> isSorted_loop (key_less key) a (i + 1)"
      using True by (subst isSorted_loop.simps) (auto simp: key_less_def not_less)
    moreover have "i \<le> j \<longleftrightarrow> j = i \<or> Suc i \<le> j" for j by auto
    ultimately show ?thesis using True by auto
  qed
qed

lemma sorted_array_exists:
  assumes "sorted_array key a"
  shows "located key (ar_data a) v (ar_exists (key_less key) v a)"
  using assms BinarySearch_arr_located [of key "ar_data a" v]
  by (simp add: sorted_array_def wf_array_def ar_exists_def BinarySearch_arr_def strict_sorted_iff)

lemma sorted_wrt_insert_at:
  assumes "sorted_wrt (<) (map key xs)" "p \<le> length xs"
    and "\<forall>i < p. key (xs ! i) < key v" "\<forall>i. p \<le> i \<longrightarrow> i < length xs \<longrightarrow> key v < key (xs ! i)"
  shows "sorted_wrt (<) (map key (take p xs @ v # drop p xs))"
proof -
  have "sorted_wrt (<) (map key (take p xs @ drop p xs))" using assms(1) by simp
  then have "sorted_wrt (<) (map key (take p xs))" "sorted_wrt (<) (map key (drop p xs))"
      "\<And>x y. x \<in> set (take p xs) \<Longrightarrow> y \<in> set (drop p xs) \<Longrightarrow> key x < key y"
    unfolding map_append sorted_wrt_append by auto
  moreover have "key x < key v" if "x \<in> set (take p xs)" for x
    using that assms(2,3) by (auto simp: in_set_conv_nth)
  moreover have "key v < key x" if "x \<in> set (drop p xs)" for x
    using that assms(2,4) by (auto simp: in_set_conv_nth)
  ultimately show ?thesis by (auto simp: sorted_wrt_append)
qed

lemma ar_insert_new:
  assumes a: "sorted_array key a" and v: "key v \<notin> key ` set (ar_data a)"
  shows "\<exists>a'. ar_insert (key_less key) v a = (Inr True, a') \<and> sorted_array key a' \<and>
           mset (ar_data a') = add_mset v (mset (ar_data a))"
proof -
  let ?xs = "ar_data a" and ?r = "ar_exists (key_less key) v a"
  have loc: "located key ?xs v ?r" using a by (rule sorted_array_exists)
  have neg: "?r < 0"
  proof (rule ccontr)
    assume "\<not> ?r < 0"
    then have "nat ?r < length ?xs" "key (?xs ! nat ?r) = key v" using loc by (auto simp: located_def)
    then show False using v by (metis imageI nth_mem)
  qed
  define p where "p = nat (- ?r - 1)"
  have p: "p \<le> length ?xs" "\<forall>i < p. key (?xs ! i) < key v"
      "\<forall>i. p \<le> i \<longrightarrow> i < length ?xs \<longrightarrow> key v < key (?xs ! i)"
    using loc neg by (auto simp: located_def p_def)
  let ?a' = "a\<lparr>ar_size := ar_size a + 1, ar_data := take p ?xs @ v # drop p ?xs\<rparr>"
  have "ar_insert (key_less key) v a = (Inr True, ?a')"
    using neg p(1) a by (simp add: ar_insert_def insert_at_def Let_def p_def sorted_array_def wf_array_def)
  moreover have "sorted_array key ?a'"
    using a p sorted_wrt_insert_at [OF _ p, of] by (simp add: sorted_array_def wf_array_def)
  moreover have "mset (ar_data ?a') = add_mset v (mset ?xs)"
    by simp (metis append_take_drop_id mset_append)
  ultimately show ?thesis by blast
qed

lemma ar_exists_index:
  assumes a: "sorted_array key a" and i: "i < length (ar_data a)" "key (ar_data a ! i) = key v"
  shows "ar_exists (key_less key) v a = int i"
proof -
  let ?r = "ar_exists (key_less key) v a"
  have loc: "located key (ar_data a) v ?r" using a by (rule sorted_array_exists)
  have r: "0 \<le> ?r"
  proof (rule ccontr)
    assume "\<not> 0 \<le> ?r"
    then have "key (ar_data a ! i) < key v \<or> key v < key (ar_data a ! i)"
      using loc i(1) by (cases "i < nat (- ?r - 1)") (simp_all add: located_def)
    then show False using i by simp
  qed
  then have "nat ?r < length (ar_data a)" "key (ar_data a ! nat ?r) = key v"
    using loc by (auto simp: located_def)
  moreover have "distinct (map key (ar_data a))"
    using a by (simp add: sorted_array_def strict_sorted_iff)
  ultimately have "nat ?r = i" using i by (metis distinct_conv_nth length_map nth_map)
  then show ?thesis using r by simp
qed

lemma ar_insert_present:
  assumes a: "sorted_array key a" and i: "i < length (ar_data a)" "key (ar_data a ! i) = key v"
  shows "ar_insert (key_less key) v a = (Inr False, a\<lparr>ar_data := (ar_data a)[i := v]\<rparr>)"
    "sorted_array key (a\<lparr>ar_data := (ar_data a)[i := v]\<rparr>)"
proof -
  show "ar_insert (key_less key) v a = (Inr False, a\<lparr>ar_data := (ar_data a)[i := v]\<rparr>)"
    using ar_exists_index [OF assms] by (simp add: ar_insert_def Let_def)
  have "map key ((ar_data a)[i := v]) = map key (ar_data a)"
    using i by (simp add: map_update list_update_same_conv)
  then show "sorted_array key (a\<lparr>ar_data := (ar_data a)[i := v]\<rparr>)"
    using a by (simp add: sorted_array_def wf_array_def)
qed

lemma exists_cmp_diverges:
  assumes "lo \<le> hi" "cmp v (data ! nat ((lo + hi) div 2))"
  shows "exists_cmp_loop cmp v data lo hi = None"
proof (rule ccontr)
  assume "exists_cmp_loop cmp v data lo hi \<noteq> None"
  then obtain r where "exists_cmp_loop cmp v data lo hi = Some r" by auto
  then have "\<not> (lo \<le> hi \<and> cmp v (data ! nat ((lo + hi) div 2)))"
    by (rule exists_cmp_loop.raw_induct [rotated,
          where P = "\<lambda>cmp v data lo hi r. \<not> (lo \<le> hi \<and> cmp v (data ! nat ((lo + hi) div 2)))"])
      (auto simp: Let_def split: if_splits; blast)
  then show False using assms by simp
qed

section \<open>Properties\<close>

text \<open>
  (C20) \<^verbatim>\<open>Array::insert\<close> on a sorted array without duplicates keeps it so: a new key is added in its
  place and true returned, a present key has its element replaced and false returned; every other
  element stays.
\<close>

theorem array_insert_correct:
  assumes "sorted_array key a"
  shows "\<exists>a'. ar_insert (key_less key) v a = (Inr (key v \<notin> key ` set (ar_data a)), a') \<and>
           sorted_array key a' \<and>
           set (ar_data a') = insert v {x \<in> set (ar_data a). key x \<noteq> key v}"
proof (cases "key v \<in> key ` set (ar_data a)")
  case False
  then obtain a' where "ar_insert (key_less key) v a = (Inr True, a')" "sorted_array key a'"
      "mset (ar_data a') = add_mset v (mset (ar_data a))"
    using ar_insert_new [OF assms False] by blast
  moreover from this have "set (ar_data a') = insert v (set (ar_data a))"
    by (metis set_mset_add_mset_insert set_mset_mset)
  moreover have "{x \<in> set (ar_data a). key x \<noteq> key v} = set (ar_data a)"
    using False by (auto intro: rev_image_eqI)
  ultimately show ?thesis using False by simp
next
  case True
  then obtain i where i: "i < length (ar_data a)" "key (ar_data a ! i) = key v"
    by (auto simp: in_set_conv_nth)
  have d: "distinct (map key (ar_data a))" using assms by (simp add: sorted_array_def strict_sorted_iff)
  have "set ((ar_data a)[i := v]) = insert v {x \<in> set (ar_data a). key x \<noteq> key v}"
  proof (intro set_eqI iffI)
    fix x assume "x \<in> set ((ar_data a)[i := v])"
    then obtain j where j: "j < length (ar_data a)" "x = (ar_data a)[i := v] ! j"
      by (auto simp: in_set_conv_nth)
    moreover have "j \<noteq> i \<Longrightarrow> key (ar_data a ! j) \<noteq> key v"
      using d i j(1) by (metis distinct_conv_nth length_map nth_map)
    ultimately show "x \<in> insert v {x \<in> set (ar_data a). key x \<noteq> key v}"
      using i by (cases "j = i") auto
  next
    fix x assume x: "x \<in> insert v {x \<in> set (ar_data a). key x \<noteq> key v}"
    then show "x \<in> set ((ar_data a)[i := v])"
    proof (cases "x = v")
      case False
      then obtain j where "j < length (ar_data a)" "x = ar_data a ! j" "key x \<noteq> key v"
        using x by (auto simp: in_set_conv_nth)
      then show ?thesis using i by (metis length_list_update nth_list_update_neq nth_mem)
    qed (use i in \<open>simp add: set_update_memI\<close>)
  qed
  then show ?thesis using ar_insert_present [OF assms i] True by simp
qed

theorem array_insert_correct_witness:
  "\<exists>a'. ar_insert (key_less id) 2 (Array_of [1, 3 :: nat]) = (Inr True, a') \<and> set (ar_data a') = {1, 2, 3}"
  using array_insert_correct [of id "Array_of [1, 3 :: nat]" 2]
  by (auto simp: sorted_array_def wf_array_def Array_of_def)

text \<open>
  \<^verbatim>\<open>exists\<close> on a sorted array: a value \<open>r\<close> not below 0 is the index of the element with the
  key, and otherwise \<open>- r - 1\<close> is the index where it belongs; \<^verbatim>\<open>erase\<close> at the index found
  removes exactly that element.
\<close>

theorem array_exists_erase:
  assumes "sorted_array key a"
  shows "located key (ar_data a) v (ar_exists (key_less key) v a) \<and>
    (key v \<in> key ` set (ar_data a) \<longrightarrow>
     (\<exists>a'. ar_erase (nat (ar_exists (key_less key) v a)) a = (Inr True, a') \<and> sorted_array key a' \<and>
        set (ar_data a') = {x \<in> set (ar_data a). key x \<noteq> key v}))"
proof (intro conjI impI)
  let ?xs = "ar_data a" and ?r = "ar_exists (key_less key) v a"
  show loc: "located key ?xs v ?r" using assms by (rule sorted_array_exists)
  assume "key v \<in> key ` set ?xs"
  then obtain i where i: "i < length ?xs" "key (?xs ! i) = key v" by (auto simp: in_set_conv_nth)
  have s: "sorted_wrt (<) (map key ?xs)" and wf: "ar_size a = length ?xs"
    using assms by (auto simp: sorted_array_def wf_array_def)
  have r: "nat ?r = i" using ar_exists_index [OF assms i] by simp
  have split: "?xs = take i ?xs @ ?xs ! i # drop (Suc i) ?xs" using i(1) by (rule id_take_nth_drop)
  have d: "distinct (map key (take i ?xs @ ?xs ! i # drop (Suc i) ?xs))"
    using s split by (metis strict_sorted_iff)
  have st: "sorted_wrt (<) (map key (take i ?xs @ ?xs ! i # drop (Suc i) ?xs))" using s split by metis
  have "set (take i ?xs @ drop (Suc i) ?xs) = {x \<in> set ?xs. key x \<noteq> key v}"
    using d i(2) by (subst (3) split) (auto intro: rev_image_eqI)
  moreover have "sorted_wrt (<) (map key (take i ?xs @ drop (Suc i) ?xs))"
    using st by (auto simp: sorted_wrt_append)
  ultimately show "\<exists>a'. ar_erase (nat ?r) a = (Inr True, a') \<and> sorted_array key a' \<and>
      set (ar_data a') = {x \<in> set ?xs. key x \<noteq> key v}"
    using i(1) wf r by (auto simp: ar_erase_def sorted_array_def wf_array_def)
qed

theorem array_exists_erase_witness:
  "\<exists>a'. ar_erase (nat (ar_exists (key_less id) 3 (Array_of [1, 3 :: nat]))) (Array_of [1, 3 :: nat]) =
      (Inr True, a') \<and> set (ar_data a') = {1}"
proof -
  have "sorted_array id (Array_of [1, 3 :: nat])" by (simp add: sorted_array_def wf_array_def Array_of_def)
  moreover have "{x. (x = Suc 0 \<or> x = 3) \<and> x \<noteq> 3} = {1}" by auto
  ultimately show ?thesis using array_exists_erase [of id "Array_of [1, 3 :: nat]" 3] by (auto simp: Array_of_def)
qed

text \<open>
  \<^verbatim>\<open>exists\<close> and \<^verbatim>\<open>insert\<close> with a comparison function never return when the value is smaller
  than the middle element.
\<close>

theorem exists_cmp_never_returns:
  assumes "0 < ar_size a" "cmp v (ar_data a ! nat ((int (ar_size a) - 1) div 2))"
  shows "ar_exists_cmp cmp v a = None \<and> ar_insert_cmp cmp v a = None"
  using exists_cmp_diverges [of 0 "int (ar_size a) - 1" cmp v "ar_data a"] assms
  by (simp add: ar_exists_cmp_def ar_insert_cmp_def)

theorem exists_cmp_never_returns_witness:
  "ar_exists_cmp (<) 1 (Array_of [2 :: nat]) = None"
  using exists_cmp_never_returns [of "Array_of [2 :: nat]" "(<)" 1] by (simp add: Array_of_def)

lemma ar_writeTo_bytes:
  assumes "pod enc dec sz" "wf_array a" "os_good os" "8 + sz * ar_size a \<le> os_room os"
  shows "fst (ar_writeTo h enc speed a os)"
    "os_data (snd (ar_writeTo h enc speed a os)) =
       os_data os @ mem h 8 (of_nat (ar_size a) :: u64) @ concat (map enc (ar_data a))"
proof -
  let ?bs = "concat (map enc (ar_data a))" and ?n = "mem h 8 (of_nat (ar_size a) :: u64)"
  define os1 where "os1 = os_write ?n os"
  have len: "length ?bs = sz * ar_size a"
    using pod.length_enc_all [OF assms(1)] assms(2) by (simp add: wf_array_def del: length_concat)
  have os1: "os_good os1" "os_data os1 = os_data os @ ?n" "length ?bs \<le> os_room os1"
    using assms(3,4) len by (auto simp: os1_def os_write_def simp del: length_concat)
  have "ar_writeTo h enc speed a os = (os_good (os_write ?bs os1), os_write ?bs os1)"
    using WriteFixWithSpeed_eq [OF os1(1,3)]
    by (simp add: ar_writeTo_def Let_def os1_def split: option.split)
  then show "fst (ar_writeTo h enc speed a os)"
      "os_data (snd (ar_writeTo h enc speed a os)) = os_data os @ ?n @ ?bs"
    using os1 by (auto simp: os_write_def simp del: length_concat)
qed

text \<open>
  \<^verbatim>\<open>writeTo\<close> and \<^verbatim>\<open>readFrom\<close>: an array of plain data written to a stream is read back by any
  object, with or without throttling on either side, and the stream is left behind the array.
\<close>

theorem array_save_load:
  assumes "pod enc dec sz" "wf_array a" "ar_size a < 2 ^ 64" "os_good os" "os_data os = []"
    "8 + sz * ar_size a \<le> os_room os" "is_good is"
    "is_data is = os_data (snd (ar_writeTo h enc speed a os)) @ rest"
    "length (blk (ar_size a)) = sz * ar_size a"
  shows "fst (ar_writeTo h enc speed a os) \<and>
    ar_readFrom h dec sz blk speed' b is = ((True, a), is\<lparr>is_data := rest\<rparr>)"
proof -
  let ?bs = "concat (map enc (ar_data a))" and ?n = "mem h 8 (of_nat (ar_size a) :: u64)"
  note wr = ar_writeTo_bytes [OF assms(1,2,4,6), of h speed]
  have data: "is_data is = ?n @ ?bs @ rest" using assms(5,8) wr(2) by simp
  have size_eq: "ar_size a = length (ar_data a)" using assms(2) by (simp add: wf_array_def)
  have len: "length ?bs = sz * ar_size a"
    using pod.length_enc_all [OF assms(1)] size_eq by (simp del: length_concat)
  have r1: "ReadFixFromStream 8 is = ((?n, True), is\<lparr>is_data := ?bs @ rest\<rparr>)"
    using ReadFix_enough [OF assms(7), of 8] data by simp
  have r2: "ReadFixFromStream (ar_size a * sz) (is\<lparr>is_data := ?bs @ rest\<rparr>) =
      ((?bs, True), is\<lparr>is_data := rest\<rparr>)"
    using pod.read_fix_vector [OF assms(1), of "is\<lparr>is_data := ?bs @ rest\<rparr>" "ar_data a" rest] assms(7) size_eq
    by simp
  have n: "unat (of_mem h (store 0 ?n (mem h 8 (of_nat (ar_size b) :: u64))) :: u64) = ar_size a"
    using assms(3) by (simp add: store_def unat_of_nat)
  have d: "decode_all sz dec (ar_size a) (store 0 ?bs (blk (ar_size a))) = ar_data a"
    using pod.decode_all_enc [OF assms(1), of "ar_data a" "[]"] assms(9) len size_eq
    by (simp add: store_def del: length_concat)
  have "ar_readFrom h dec sz blk speed' b is = ((True, \<lparr>ar_size = ar_size a, ar_data = ar_data a\<rparr>), is\<lparr>is_data := rest\<rparr>)"
    using r1 r2 ReadFixWithSpeed_eq [of "is\<lparr>is_data := ?bs @ rest\<rparr>"] assms(7) n d
    by (simp add: ar_readFrom_def Let_def split: option.split)
  then show ?thesis using wr(1) by simp
qed

theorem array_save_load_witness:
  "\<exists>is. is_data is \<noteq> [] \<and>
     ar_readFrom SYLAR_LITTLE_ENDIAN (of_mem SYLAR_LITTLE_ENDIAN) 8 (\<lambda>n. replicate (8 * n) 0) (Some 5)
       (new_Array 0 0) is = ((True, Array_of [7, 9 :: u64]), is\<lparr>is_data := []\<rparr>)"
proof -
  let ?os = "\<lparr>os_data = [], os_good = True, os_room = 100\<rparr>"
  let ?a = "Array_of [7, 9 :: u64]"
  let ?is = "\<lparr>is_data = os_data (snd (ar_writeTo SYLAR_LITTLE_ENDIAN (mem SYLAR_LITTLE_ENDIAN 8) None ?a ?os)), is_good = True\<rparr>"
  have "is_data ?is \<noteq> []"
    using ar_writeTo_bytes(2) [OF u64.pod_axioms, of ?a ?os SYLAR_LITTLE_ENDIAN SYLAR_LITTLE_ENDIAN None]
    by (simp add: wf_array_def Array_of_def mem_def le_bytes_def)
  moreover have "ar_readFrom SYLAR_LITTLE_ENDIAN (of_mem SYLAR_LITTLE_ENDIAN) 8 (\<lambda>n. replicate (8 * n) 0) (Some 5)
       (new_Array 0 0) ?is = ((True, ?a), ?is\<lparr>is_data := []\<rparr>)"
    using array_save_load [OF u64.pod_axioms, of ?a ?os ?is SYLAR_LITTLE_ENDIAN SYLAR_LITTLE_ENDIAN None "[]"
        "\<lambda>n. replicate (8 * n) 0" "Some 5" "new_Array 0 0"]
    by (simp add: wf_array_def Array_of_def)
  ultimately show ?thesis by blast
qed

end
