(* ===== verification/HashText.thy ===== *)
theory HashText
  imports HashUtil
begin

text \<open>
  The second half of \<^verbatim>\<open>sylar/util/hash_util.cc\<close>: HMAC over a digest, hexadecimal strings, the
  three \<^verbatim>\<open>replace\<close> overloads, the two \<^verbatim>\<open>split\<close> overloads and random strings. The digest of
  OpenSSL is an argument \<open>H\<close>: what \<^verbatim>\<open>Init\<close>, the \<^verbatim>\<open>Update\<close> calls and \<^verbatim>\<open>Final\<close> write for the
  concatenation of the updates.
\<close>

section \<open>HMAC and hexadecimal strings\<close>

definition hmac :: "(bytes \<Rightarrow> bytes) \<Rightarrow> nat \<Rightarrow> bytes \<Rightarrow> bytes \<Rightarrow> bytes" where
  "hmac H B text key =
     (let keyLocal = (if B < length key then H key else key);
          keyLocal = keyLocal @ replicate (B - length keyLocal) 0;
          ipad = map (\<lambda>c. c XOR 0x36) keyLocal;
          opad = map (\<lambda>c. c XOR 0x5c) keyLocal;
          result = H (take B ipad @ text)
      in H (take B opad @ result))"

definition hex_digit :: "byte \<Rightarrow> byte" where
  "hex_digit c = (if 9 < c then c + 0x61 - 10 else c + 0x30)"

fun hexstring_from_data :: "bytes \<Rightarrow> bytes" where
  "hexstring_from_data [] = []"
| "hexstring_from_data (b # bs) =
     hex_digit (drop_bit 4 b AND 0xf) # hex_digit (b AND 0xf) # hexstring_from_data bs"

text \<open>\<^verbatim>\<open>md5\<close> and \<^verbatim>\<open>sha1\<close> of a string, and the three keyed hashes; all have blocks of 64 bytes.\<close>

definition digest_hex :: "(bytes \<Rightarrow> bytes) \<Rightarrow> bytes \<Rightarrow> bytes" where
  "digest_hex H data = hexstring_from_data (H data)"

definition hmac_64 :: "(bytes \<Rightarrow> bytes) \<Rightarrow> bytes \<Rightarrow> bytes \<Rightarrow> bytes" where
  "hmac_64 H text key = hmac H 64 text key"

definition hex_value :: "byte \<Rightarrow> byte option" where
  "hex_value c =
     (if 0x61 \<le> c \<and> c \<le> 0x66 then Some (c - 0x61 + 10)
      else if 0x41 \<le> c \<and> c \<le> 0x46 then Some (c - 0x41 + 10)
      else if 0x30 \<le> c \<and> c \<le> 0x39 then Some (c - 0x30)
      else None)"

fun hex_loop :: "bytes \<Rightarrow> failure + bytes" where
  "hex_loop (c # d # rest) =
     (case hex_value c of None \<Rightarrow> Inl InvalidArgument
      | Some x \<Rightarrow>
          (case hex_value d of None \<Rightarrow> Inl InvalidArgument
           | Some y \<Rightarrow>
               (case hex_loop rest of Inl e \<Rightarrow> Inl e
                | Inr bs \<Rightarrow> Inr ((push_bit 4 x OR y) # bs))))"
| "hex_loop _ = Inr []"

definition data_from_hexstring :: "bytes \<Rightarrow> failure + bytes" where
  "data_from_hexstring s =
     (if length s mod 2 \<noteq> 0 then Inl InvalidArgument
      else if length s = 0 then Inr []
      else hex_loop s)"

section \<open>Replacing\<close>

text \<open>\<^verbatim>\<open>str.find(c, pos)\<close> and \<^verbatim>\<open>str.find_first_of(set, pos)\<close>, and \<^verbatim>\<open>str.find(text, pos)\<close>;
  \<open>None\<close> is \<^verbatim>\<open>npos\<close>.\<close>

definition find_from :: "(byte \<Rightarrow> bool) \<Rightarrow> bytes \<Rightarrow> nat \<Rightarrow> nat option" where
  "find_from P s i = find (\<lambda>j. P (s ! j)) [i..<length s]"

definition find_text :: "bytes \<Rightarrow> bytes \<Rightarrow> nat \<Rightarrow> nat option" where
  "find_text t s i = find (\<lambda>j. take (length t) (drop j s) = t) [i..<Suc (length s) - length t]"

lemma find_upt_Some:
  assumes "find P [i..<n] = Some j"
  shows "P j \<and> i \<le> j \<and> j < n \<and> (\<forall>k. i \<le> k \<and> k < j \<longrightarrow> \<not> P k)"
proof -
  obtain m where m: "m < length [i..<n]" "P ([i..<n] ! m)" "j = [i..<n] ! m" "\<forall>q<m. \<not> P ([i..<n] ! q)"
    using assms by (auto simp: find_Some_iff)
  have "\<not> P k" if "i \<le> k" "k < j" for k
    using m(4) [rule_format, of "k - i"] m(1,3) that by simp
  then show ?thesis using m by auto
qed

lemma find_from_Some:
  "find_from P s i = Some j \<Longrightarrow>
     i \<le> j \<and> j < length s \<and> P (s ! j) \<and> (\<forall>k. i \<le> k \<and> k < j \<longrightarrow> \<not> P (s ! k))"
  unfolding find_from_def by (drule find_upt_Some) simp

lemma find_from_None: "find_from P s i = None \<Longrightarrow> \<forall>k. i \<le> k \<and> k < length s \<longrightarrow> \<not> P (s ! k)"
  by (auto simp: find_from_def find_None_iff)

text \<open>The loop of \<^verbatim>\<open>replace(str, char, char)\<close>.\<close>

function replace_char_loop :: "byte \<Rightarrow> byte \<Rightarrow> bytes \<Rightarrow> nat option \<Rightarrow> bytes" where
  "replace_char_loop c r s None = s"
| "replace_char_loop c r s (Some i) =
     replace_char_loop c r (s[i := r]) (find_from (\<lambda>b. b = c) (s[i := r]) (i + 1))"
  by pat_completeness auto
termination
  by (relation "measure (\<lambda>(c, r, s, idx). case idx of None \<Rightarrow> 0 | Some i \<Rightarrow> Suc (length s - i))")
    (auto split: option.splits dest!: find_from_Some)

definition replace_char :: "bytes \<Rightarrow> byte \<Rightarrow> byte \<Rightarrow> bytes" where
  "replace_char s c r = replace_char_loop c r s (find_from (\<lambda>b. b = c) s 0)"

text \<open>The loop of \<^verbatim>\<open>replace(str, char, string)\<close>.\<close>

function replace_char_str_loop :: "byte \<Rightarrow> bytes \<Rightarrow> bytes \<Rightarrow> nat option \<Rightarrow> bytes" where
  "replace_char_str_loop c r s None = s"
| "replace_char_str_loop c r s (Some i) =
     (let s' = take i s @ r @ drop (i + 1) s
      in replace_char_str_loop c r s' (find_from (\<lambda>b. b = c) s' (i + length r)))"
  by pat_completeness auto
termination
  by (relation "measure (\<lambda>(c, r, s, idx). case idx of None \<Rightarrow> 0 | Some i \<Rightarrow> Suc (length s - i))")
    (auto split: option.splits dest!: find_from_Some)

definition replace_char_str :: "bytes \<Rightarrow> byte \<Rightarrow> bytes \<Rightarrow> bytes" where
  "replace_char_str s c r = replace_char_str_loop c r s (find_from (\<lambda>b. b = c) s 0)"

text \<open>The loop of \<^verbatim>\<open>replace(str, string, string)\<close> need not end: the empty text is found again at every
  position. \<open>None\<close> is not returning.\<close>

partial_function (option) replace_str_loop :: "bytes \<Rightarrow> bytes \<Rightarrow> bytes \<Rightarrow> nat option \<Rightarrow> bytes option" where
  [code]: "replace_str_loop t r s idx =
     (if idx = None then Some s
      else replace_str_loop t r (take (the idx) s @ r @ drop (the idx + length t) s)
             (find_text t (take (the idx) s @ r @ drop (the idx + length t) s) (the idx + length r)))"

definition replace_str :: "bytes \<Rightarrow> bytes \<Rightarrow> bytes \<Rightarrow> bytes option" where
  "replace_str s t r = replace_str_loop t r s (find_text t s 0)"

section \<open>Splitting\<close>

text \<open>The loop of both \<^verbatim>\<open>split\<close> overloads; \<open>P\<close> says which characters are delimiters, \<open>mx\<close> is the
  \<^verbatim>\<open>size_t max\<close>, which \<^verbatim>\<open>--max\<close> wraps.\<close>

function split_loop :: "(byte \<Rightarrow> bool) \<Rightarrow> bytes \<Rightarrow> nat \<Rightarrow> nat option \<Rightarrow> u64 \<Rightarrow> bytes list \<Rightarrow> bytes list" where
  "split_loop P s last_pos None mx result = result @ [drop last_pos s]"
| "split_loop P s last_pos (Some pos) mx result =
     (let result = result @ [take (pos - last_pos) (drop last_pos s)]; last_pos = pos + 1; mx = mx - 1
      in if mx = 1 then result @ [drop last_pos s]
         else split_loop P s last_pos (find_from P s last_pos) mx result)"
  by pat_completeness auto
termination
  by (relation "measure (\<lambda>(P, s, last_pos, pos, mx, result). case pos of None \<Rightarrow> 0 | Some p \<Rightarrow> Suc (length s - p))")
    (auto split: option.splits dest!: find_from_Some)

definition split_with :: "(byte \<Rightarrow> bool) \<Rightarrow> bytes \<Rightarrow> u64 \<Rightarrow> bytes list" where
  "split_with P s mx = (if s = [] then [] else split_loop P s 0 (find_from P s 0) mx [])"

definition split_char :: "bytes \<Rightarrow> byte \<Rightarrow> u64 \<Rightarrow> bytes list" where
  "split_char s delim mx = split_with (\<lambda>b. b = delim) s mx"

definition split_any :: "bytes \<Rightarrow> bytes \<Rightarrow> u64 \<Rightarrow> bytes list" where
  "split_any s delims mx = split_with (\<lambda>b. b \<in> set (c_str delims)) s mx"

section \<open>Random strings\<close>

text \<open>\<open>rnd i\<close> is what the call of \<^verbatim>\<open>rand()\<close> in pass \<open>i\<close> returns.\<close>

definition random_string :: "(nat \<Rightarrow> nat) \<Rightarrow> nat \<Rightarrow> bytes \<Rightarrow> bytes" where
  "random_string rnd len chars =
     (if len = 0 \<or> chars = [] then []
      else map (\<lambda>i. chars ! (rnd i mod length chars)) [0..<len])"

section \<open>Hexadecimal round trips\<close>

lemma hex_digit_value:
  assumes "(v :: byte) < 16"
  shows "hex_value (hex_digit v) = Some v"
  using assms unfolding hex_value_def hex_digit_def
  by (auto simp: word_less_nat_alt word_le_nat_alt unat_word_ariths unat_sub_if' unat_arith_simps)

lemma nibbles:
  fixes b :: byte
  shows "drop_bit 4 b AND 0xf < 16" "b AND 0xf < 16" "push_bit 4 (drop_bit 4 b AND 0xf) OR (b AND 0xf) = b"
proof -
  have m: "(0xf :: byte) = mask 4" by (simp add: mask_eq_exp_minus_1)
  have l: "v AND 0xf < 16" for v :: byte
    using take_bit_nat_less_exp [of 4 "unat v"]
    by (simp add: m word_less_nat_alt unsigned_take_bit_eq flip: take_bit_eq_mask)
  show "drop_bit 4 b AND 0xf < 16" "b AND 0xf < 16" by (rule l)+
  show "push_bit 4 (drop_bit 4 b AND 0xf) OR (b AND 0xf) = b"
    unfolding m by (rule bit_word_eqI) (auto simp: bit_simps)
qed

lemmas nibbles_join = nibbles(3) [simplified]

lemma hex_loop_hexstring: "hex_loop (hexstring_from_data bs) = Inr bs"
  by (induction bs) (simp_all add: hex_digit_value nibbles nibbles_join)

lemma length_hexstring: "length (hexstring_from_data bs) = 2 * length bs"
  by (induction bs) simp_all

text \<open>
  Reading back the hexadecimal text of any data gives the data.
\<close>

theorem hexstring_roundtrip: "data_from_hexstring (hexstring_from_data bs) = Inr bs"
  by (cases bs) (simp_all add: data_from_hexstring_def hex_loop_hexstring length_hexstring nibbles nibbles_join hex_digit_value)

lemma hex_loop_result:
  "even (length s) \<Longrightarrow>
   (if list_all (\<lambda>c. hex_value c \<noteq> None) s then \<exists>bs. hex_loop s = Inr bs \<and> 2 * length bs = length s
    else hex_loop s = Inl InvalidArgument)"
  by (induction s rule: induct_list012) (auto split: if_splits option.splits sum.splits)

text \<open>
  \<^verbatim>\<open>data_from_hexstring\<close> succeeds exactly on the texts of even length made of hexadecimal digits of
  either case, and gives half as many bytes; every other text makes it throw
  \<^verbatim>\<open>std::invalid_argument\<close>.
\<close>

theorem data_from_hexstring_errors:
  "if even (length s) \<and> list_all (\<lambda>c. hex_value c \<noteq> None) s
   then \<exists>bs. data_from_hexstring s = Inr bs \<and> 2 * length bs = length s
   else data_from_hexstring s = Inl InvalidArgument"
  using hex_loop_result [of s] by (cases "even (length s)") (auto simp: data_from_hexstring_def odd_iff_mod_2_eq_one)

section \<open>Replacing\<close>

lemma find_from_split:
  assumes "i \<le> length s"
  shows "case find_from P s i of
      None \<Rightarrow> filter P (drop i s) = []
    | Some j \<Rightarrow> i \<le> j \<and> j < length s \<and> P (s ! j) \<and> filter P (take (j - i) (drop i s)) = []
        \<and> drop i s = take (j - i) (drop i s) @ s ! j # drop (Suc j) s"
proof (cases "find_from P s i")
  case None
  then show ?thesis using find_from_None [OF None] by (auto simp: filter_empty_conv in_set_conv_nth)
next
  case (Some j)
  note f = find_from_Some [OF Some]
  have "drop i s = take (j - i) (drop i s) @ drop (j - i) (drop i s)" by (rule append_take_drop_id [symmetric])
  also have "drop (j - i) (drop i s) = s ! j # drop (Suc j) s" using f by (simp add: Cons_nth_drop_Suc)
  finally show ?thesis using Some f by (auto simp: filter_empty_conv in_set_conv_nth)
qed

lemma replace_char_loop_map:
  "find_from (\<lambda>b. b = c) s i = idx \<Longrightarrow> i \<le> length s \<Longrightarrow>
   replace_char_loop c r s idx = take i s @ map (\<lambda>b. if b = c then r else b) (drop i s)"
proof (induction c r s idx arbitrary: i rule: replace_char_loop.induct)
  case (1 c r s)
  then show ?case using find_from_split [of i s "\<lambda>b. b = c"]
    by (auto simp: filter_empty_conv map_idI)
next
  case (2 c r s j)
  let ?f = "\<lambda>b. if b = c then r else b"
  from find_from_split [of i s "\<lambda>b. b = c"] 2(2,3)
  have j: "i \<le> j" "j < length s" "s ! j = c" "filter (\<lambda>b. b = c) (take (j - i) (drop i s)) = []"
    "drop i s = take (j - i) (drop i s) @ c # drop (Suc j) s" by auto
  have m: "map ?f (take (j - i) (drop i s)) = take (j - i) (drop i s)"
    using j(4) by (auto simp: filter_empty_conv intro: map_idI)
  have "replace_char_loop c r s (Some j) = take (Suc j) (s[j := r]) @ map ?f (drop (Suc j) (s[j := r]))"
    using "2.IH" [of "Suc j"] j(2) by simp
  also have "\<dots> = take j s @ r # map ?f (drop (Suc j) s)"
    using j(2) by (simp add: take_Suc_conv_app_nth)
  also have "take j s = take i s @ take (j - i) (drop i s)"
    using j(1) by (metis le_add_diff_inverse take_add)
  finally show ?case by (subst j(5)) (simp add: m)
qed

lemma replace_char_str_loop_concat:
  "find_from (\<lambda>b. b = c) s i = idx \<Longrightarrow> i \<le> length s \<Longrightarrow>
   replace_char_str_loop c r s idx = take i s @ concat (map (\<lambda>b. if b = c then r else [b]) (drop i s))"
proof (induction c r s idx arbitrary: i rule: replace_char_str_loop.induct)
  case (1 c r s)
  have "concat (map (\<lambda>b. if b = c then r else [b]) (drop i s)) = drop i s"
    using find_from_split [of i s "\<lambda>b. b = c"] 1
    by (auto simp: filter_empty_conv cong: map_cong)
  then show ?case by simp
next
  case (2 c r s j)
  let ?f = "\<lambda>b. if b = c then r else [b]"
  from find_from_split [of i s "\<lambda>b. b = c"] 2(2,3)
  have j: "i \<le> j" "j < length s" "s ! j = c" "filter (\<lambda>b. b = c) (take (j - i) (drop i s)) = []"
    "drop i s = take (j - i) (drop i s) @ c # drop (Suc j) s" by auto
  have m: "concat (map ?f (take (j - i) (drop i s))) = take (j - i) (drop i s)"
    using j(4) by (simp add: filter_empty_conv cong: map_cong)
  define s' where "s' = take j s @ r @ drop (j + 1) s"
  have t: "take (j + length r) s' = take j s @ r" "drop (j + length r) s' = drop (Suc j) s" "j + length r \<le> length s'"
    using j(2) by (simp_all add: s'_def)
  have "replace_char_str_loop c r s (Some j) =
      take (j + length r) s' @ concat (map ?f (drop (j + length r) s'))"
    using "2.IH" [OF s'_def refl t(3)] by (simp add: s'_def Let_def)
  also have "\<dots> = take j s @ r @ concat (map ?f (drop (Suc j) s))"
    by (simp only: t(1,2) append_assoc)
  also have "take j s = take i s @ take (j - i) (drop i s)"
    using j(1) by (metis le_add_diff_inverse take_add)
  finally show ?case by (subst j(5)) (simp add: m)
qed

text \<open>
  Both overloads of \<^verbatim>\<open>replace\<close> for a character, which rewrite the string in place while they search
  it, replace every occurrence in the original string and nothing else, also when the replacement itself
  holds the character searched for.
\<close>

theorem replace_char_correct:
  "replace_char s c r' = map (\<lambda>b. if b = c then r' else b) s \<and>
   replace_char_str s c r = concat (map (\<lambda>b. if b = c then r else [b]) s)"
  by (simp add: replace_char_def replace_char_str_def
      replace_char_loop_map [OF refl, of 0] replace_char_str_loop_concat [OF refl, of 0])


section \<open>Replacing a text\<close>

text \<open>What replacing a text means, scanning from the left.\<close>

fun replace_all :: "bytes \<Rightarrow> bytes \<Rightarrow> bytes \<Rightarrow> bytes" where
  "replace_all t r [] = []"
| "replace_all t r (b # bs) =
     (if t \<noteq> [] \<and> take (length t) (b # bs) = t then r @ replace_all t r (drop (length t - 1) bs)
      else b # replace_all t r bs)"

lemma replace_all_hit:
  assumes "t \<noteq> []" "take (length t) s = t"
  shows "replace_all t r s = r @ replace_all t r (drop (length t) s)"
  using assms by (cases s; cases t) simp_all

lemma replace_all_skip:
  "(\<And>j. j < n \<Longrightarrow> take (length t) (drop j s) \<noteq> t) \<Longrightarrow> n \<le> length s \<Longrightarrow>
   replace_all t r s = take n s @ replace_all t r (drop n s)"
proof (induction n arbitrary: s)
  case (Suc n)
  then obtain b bs where s: "s = b # bs" by (cases s) auto
  have "take (length t) (drop j bs) \<noteq> t" if "j < n" for j
    using Suc.prems(1) [of "Suc j"] that by (simp add: s)
  moreover have "take (length t) s \<noteq> t" using Suc.prems(1) [of 0] by simp
  ultimately show ?case using Suc.IH [of bs] Suc.prems(2) by (simp add: s)
qed simp

lemma find_text_Some:
  "find_text t s i = Some j \<Longrightarrow> i \<le> j \<and> j + length t \<le> length s \<and> take (length t) (drop j s) = t
     \<and> (\<forall>k. i \<le> k \<and> k < j \<longrightarrow> take (length t) (drop k s) \<noteq> t)"
  unfolding find_text_def by (drule find_upt_Some) auto

lemma find_text_None:
  assumes "find_text t s i = None"
  shows "\<forall>k\<ge>i. k \<le> length s \<longrightarrow> take (length t) (drop k s) \<noteq> t"
proof (intro allI impI notI)
  fix k assume k: "i \<le> k" "k \<le> length s" and e: "take (length t) (drop k s) = t"
  have "length t \<le> length s - k" using arg_cong [OF e, of length] by simp
  then show False using assms k e by (auto simp: find_text_def find_None_iff)
qed

lemma replace_str_loop_all:
  assumes "t \<noteq> []" "i \<le> length s"
  shows "replace_str_loop t r s (find_text t s i) = Some (take i s @ replace_all t r (drop i s))"
  using assms(2)
proof (induction "length s - i" arbitrary: s i rule: less_induct)
  case less
  show ?case
  proof (cases "find_text t s i")
    case None
    have "replace_all t r (drop i s) = drop i s"
      using replace_all_skip [of "length s - i" t "drop i s" r] find_text_None [OF None] by simp
    then show ?thesis using None by (simp add: replace_str_loop.simps)
  next
    case (Some j)
    note f = find_text_Some [OF Some]
    define s' where "s' = take j s @ r @ drop (j + length t) s"
    have t: "take (j + length r) s' = take j s @ r" "drop (j + length r) s' = drop (j + length t) s"
      "j + length r \<le> length s'" "length s' - (j + length r) < length s - i"
      using f assms(1) by (simp_all add: s'_def less_diff_conv) (cases t, simp, simp, arith)+
    have "replace_str_loop t r s (find_text t s i) = replace_str_loop t r s' (find_text t s' (j + length r))"
      by (subst replace_str_loop.simps) (simp add: Some s'_def)
    also have "\<dots> = Some (take j s @ r @ replace_all t r (drop (j + length t) s))"
      using less.hyps [OF t(4,3)] by (simp only: t(1,2) append_assoc)
    also have "take j s @ r @ replace_all t r (drop (j + length t) s) = take i s @ replace_all t r (drop i s)"
    proof -
      have "replace_all t r (drop i s) = take (j - i) (drop i s) @ replace_all t r (drop j s)"
        using replace_all_skip [of "j - i" t "drop i s" r] f by auto
      also have "replace_all t r (drop j s) = r @ replace_all t r (drop (j + length t) s)"
        using replace_all_hit [OF assms(1), of "drop j s" r] f by (simp add: add.commute)
      finally show ?thesis using f by (metis append_assoc le_add_diff_inverse take_add)
    qed
    finally show ?thesis .
  qed
qed

text \<open>
  (C24) \<^verbatim>\<open>replace\<close> for a nonempty text returns, and replaces the occurrences of the text in the original
  string from left to right, never looking into what it put in.
\<close>

theorem replace_str_correct:
  assumes "t \<noteq> []"
  shows "replace_str s t r = Some (replace_all t r s)"
  using replace_str_loop_all [OF assms, of 0 s r] by (simp add: replace_str_def)

theorem replace_str_correct_witness:
  "str ''aa'' \<noteq> [] \<and> replace_str (str ''baaaab'') (str ''aa'') (str ''aaa'') = Some (str ''baaaaaab'')"
  using replace_str_correct [of "str ''aa''" "str ''baaaab''" "str ''aaa''"] by (simp add: str_def)

lemma find_text_empty: "i \<le> length s \<Longrightarrow> find_text [] s i = Some i"
  by (simp add: find_text_def upt_conv_Cons del: upt_Suc)

lemma replace_str_loop_empty:
  assumes "i \<le> length s"
  shows "replace_str_loop [] r s (Some i) = None"
proof (rule ccontr)
  assume "replace_str_loop [] r s (Some i) \<noteq> None"
  then obtain x where "replace_str_loop [] r s (Some i) = Some x" by auto
  then have "\<not> ([] = ([] :: bytes) \<and> (\<exists>j. Some i = Some j \<and> j \<le> length s))"
  proof (rule replace_str_loop.raw_induct [rotated,
        where P = "\<lambda>t r s idx x. \<not> (t = [] \<and> (\<exists>j. idx = Some j \<and> j \<le> length s))"])
    fix f t r s idx x
    assume IH: "\<And>t r s idx x. f t r s idx = Some x \<Longrightarrow> \<not> (t = [] \<and> (\<exists>j. idx = Some j \<and> j \<le> length s))"
      and e: "(if idx = None then Some s
        else f t r (take (the idx) s @ r @ drop (the idx + length t) s)
             (find_text t (take (the idx) s @ r @ drop (the idx + length t) s) (the idx + length r))) = Some x"
    show "\<not> (t = [] \<and> (\<exists>j. idx = Some j \<and> j \<le> length s))"
    proof
      assume "t = [] \<and> (\<exists>j. idx = Some j \<and> j \<le> length s)"
      then obtain j where j: "t = []" "idx = Some j" "j \<le> length s" by blast
      let ?s = "take j s @ r @ drop j s"
      have "j + length r \<le> length ?s" using j(3) by simp
      then show False using IH [of "[]" r ?s "Some (j + length r)" x] e j find_text_empty [of "j + length r" ?s]
        by simp
    qed
  qed
  then show False using assms by simp
qed

text \<open>
  (C25) \<^verbatim>\<open>replace\<close> for the empty text never returns, whatever the string and the replacement.
\<close>

theorem replace_empty_never_returns: "replace_str s [] r = None"
  using replace_str_loop_empty [of 0 s r] find_text_empty [of 0 s] by (simp add: replace_str_def)

section \<open>Splitting\<close>

text \<open>The pieces of a text cut at the first \<open>n\<close> delimiters, and the text put together again.\<close>

fun pieces :: "(byte \<Rightarrow> bool) \<Rightarrow> nat \<Rightarrow> bytes \<Rightarrow> bytes list" where
  "pieces P 0 s = [s]"
| "pieces P (Suc n) s =
     (case dropWhile (\<lambda>b. \<not> P b) s of [] \<Rightarrow> [s]
      | b # rest \<Rightarrow> takeWhile (\<lambda>b. \<not> P b) s # pieces P n rest)"

fun glue :: "byte \<Rightarrow> bytes list \<Rightarrow> bytes" where
  "glue d [] = []"
| "glue d [p] = p"
| "glue d (p # ps) = p @ d # glue d ps"

lemma pieces_not_Nil [simp]: "pieces P n s \<noteq> []"
  by (cases n) (auto split: list.splits)

lemma glue_Cons: "ps \<noteq> [] \<Longrightarrow> glue d (p # ps) = p @ d # glue d ps"
  by (cases ps) simp_all

lemma pieces_cases:
  obtains "dropWhile (\<lambda>b. \<not> P b) s = []" "filter P s = []"
  | b rest where "P b" "dropWhile (\<lambda>b. \<not> P b) s = b # rest" "s = takeWhile (\<lambda>b. \<not> P b) s @ b # rest"
      "filter P s = b # filter P rest"
proof (cases "dropWhile (\<lambda>b. \<not> P b) s")
  case Nil
  then show ?thesis using that(1) by (simp add: dropWhile_eq_Nil_conv filter_empty_conv)
next
  case (Cons b rest)
  have "P b" using Cons hd_dropWhile [of "\<lambda>b. \<not> P b" s] by simp
  moreover have s: "s = takeWhile (\<lambda>b. \<not> P b) s @ b # rest"
    using takeWhile_dropWhile_id [of "\<lambda>b. \<not> P b" s] Cons by simp
  moreover have "filter P (takeWhile (\<lambda>b. \<not> P b) s) = []"
    by (auto simp: filter_empty_conv dest: set_takeWhileD)
  moreover have "filter P s = filter P (takeWhile (\<lambda>b. \<not> P b) s) @ filter P (b # rest)"
    by (subst s) (simp only: filter_append)
  ultimately show ?thesis using that(2) Cons by simp
qed

lemma cut_none: "filter P s = [] \<Longrightarrow> pieces P n s = [s]"
proof (cases n)
  case (Suc m)
  assume "filter P s = []"
  then have "dropWhile (\<lambda>b. \<not> P b) s = []" by (simp add: dropWhile_eq_Nil_conv filter_empty_conv)
  then show ?thesis unfolding Suc pieces.simps by (simp only: list.case)
qed simp

lemma pieces_Suc:
  "dropWhile (\<lambda>b. \<not> P b) s = b # rest \<Longrightarrow> pieces P (Suc n) s = takeWhile (\<lambda>b. \<not> P b) s # pieces P n rest"
  by simp

lemma glue_cut: "glue d (pieces (\<lambda>b. b = d) n s) = s"
proof (induction n arbitrary: s)
  case (Suc n)
  show ?case
  proof (cases rule: pieces_cases [of "\<lambda>b. b = d" s])
    case 1
    show ?thesis by (simp only: cut_none [OF 1(2)] glue.simps)
  next
    case (2 b rest)
    then show ?thesis using Suc.IH [of rest] by (simp add: glue_Cons)
  qed
qed simp

lemma length_cut: "length (pieces P n s) = Suc (min n (length (filter P s)))"
proof (induction n arbitrary: s)
  case (Suc n)
  show ?case
  proof (cases rule: pieces_cases [of P s])
    case 1
    show ?thesis by (simp only: cut_none [OF 1(2)] 1(2) list.size min_0R add_0)
  next
    case (2 b rest)
    show ?thesis by (simp only: pieces_Suc [OF 2(2)] 2(4) list.size Suc.IH add_Suc_right add_0_right min_Suc_Suc)
  qed
qed simp

lemma cut_butlast: "p \<in> set (butlast (pieces P n s)) \<Longrightarrow> b \<in> set p \<Longrightarrow> \<not> P b"
  by (induction n arbitrary: s)
    (auto split: list.splits if_splits dest: set_takeWhileD)

lemma cut_at:
  assumes "filter P xs = []" "P b"
  shows "pieces P (Suc n) (xs @ b # ys) = xs # pieces P n ys"
proof -
  have "\<forall>x\<in>set xs. \<not> P x" using assms(1) by (simp add: filter_empty_conv)
  then show ?thesis using assms(2) by (simp add: dropWhile_append2 takeWhile_append2)
qed

lemma unat_pred: "(x :: u64) \<noteq> 0 \<Longrightarrow> unat x = Suc (unat (x - 1))"
  using unat_minus_one [of x] by (simp add: unat_gt_0)

lemma split_loop_cut:
  "find_from P s l = pos \<Longrightarrow> l \<le> length s \<Longrightarrow>
   split_loop P s l pos mx result = result @ pieces P (Suc (unat (mx - 2))) (drop l s)"
proof (induction P s l pos mx result rule: split_loop.induct)
  case (1 P s l mx result)
  then have "filter P (drop l s) = []" using find_from_split [of l s P] by simp
  then show ?case by (simp add: cut_none del: pieces.simps)
next
  case (2 P s l j mx result)
  from find_from_split [of l s P] 2(2,3)
  have j: "l \<le> j" "j < length s" "P (s ! j)" "filter P (take (j - l) (drop l s)) = []"
    "drop l s = take (j - l) (drop l s) @ s ! j # drop (Suc j) s" by auto
  have c: "pieces P (Suc n) (drop l s) = take (j - l) (drop l s) # pieces P n (drop (Suc j) s)" for n
    by (subst j(5)) (rule cut_at [OF j(4,3)])
  show ?case
  proof (cases "mx - 1 = 1")
    case True
    then have "mx = 2" by (metis add.commute diff_add_cancel one_add_one)
    then show ?thesis using j(2) by (simp add: c Let_def del: pieces.simps(2))
  next
    case False
    then have ne: "mx - 2 \<noteq> 0" by auto
    have "unat (mx - 2) = Suc (unat (mx - 1 - 2))"
      using unat_pred [OF ne] by (simp add: algebra_simps)
    then show ?thesis using "2.IH" [OF refl refl refl False refl] j(2) False
      by (simp add: c Let_def del: pieces.simps(2))
  qed
qed

text \<open>How many cuts \<^verbatim>\<open>max\<close> allows in a text no longer than a \<^verbatim>\<open>size_t\<close> counts: one less than \<^verbatim>\<open>max\<close>, and
  any number of them when \<^verbatim>\<open>max\<close> is 0 or 1.\<close>

definition max_cuts :: "u64 \<Rightarrow> bytes \<Rightarrow> nat" where
  "max_cuts mx s = (if mx \<le> 1 then length s else unat mx - 1)"

lemma cut_saturates:
  assumes "length (filter P s) \<le> n" "length (filter P s) \<le> m"
  shows "pieces P n s = pieces P m s"
  using assms
proof (induction n arbitrary: s m)
  case 0
  then show ?case by (simp add: cut_none)
next
  case (Suc n)
  show ?case
  proof (cases m)
    case 0
    then show ?thesis using Suc.prems by (simp add: cut_none del: pieces.simps(2))
  next
    case m: (Suc k)
    show ?thesis
    proof (cases rule: pieces_cases [of P s])
      case 1
      show ?thesis by (simp only: cut_none [OF 1(2)])
    next
      case (2 b rest)
      then have "pieces P n rest = pieces P k rest" using Suc.prems m by (intro Suc.IH) simp_all
      then show ?thesis by (simp only: m pieces_Suc [OF 2(2)])
    qed
  qed
qed

lemma split_with_cut:
  assumes "s \<noteq> []" "length s < 2 ^ 64"
  shows "split_with P s mx = pieces P (max_cuts mx s) s"
proof -
  have e: "split_with P s mx = pieces P (Suc (unat (mx - 2))) s"
    using assms(1) split_loop_cut [of P s 0] by (simp add: split_with_def del: pieces.simps(2))
  show ?thesis
  proof (cases "mx \<le> 1")
    case True
    then have "mx = 0 \<or> mx = 1" by (metis le_less word_less_1 order_antisym_conv word_zero_le)
    moreover have "(- 1 :: u64) = 0xFFFFFFFFFFFFFFFF" "(- 2 :: u64) = 0xFFFFFFFFFFFFFFFE" by simp_all
    then have "unat (- 1 :: u64) = 2 ^ 64 - 1" "unat (- 2 :: u64) = 2 ^ 64 - 2" by (simp_all only:) simp_all
    ultimately have "length s \<le> Suc (unat (mx - 2))" using assms(2) by auto
    then show ?thesis unfolding e using True
      by (intro cut_saturates order_trans [OF length_filter_le]) (simp_all add: max_cuts_def)
  next
    case False
    then have "Suc (unat (mx - 2)) = unat mx - 1"
      by (simp add: word_le_nat_alt unat_sub word_less_nat_alt not_le)
    then show ?thesis using False by (simp add: e max_cuts_def del: pieces.simps(2))
  qed
qed

text \<open>
  The pieces of \<^verbatim>\<open>split(str, delim, max)\<close> joined with the delimiter give the string back; only the
  last one can hold the delimiter; and there is one piece more than there are delimiters, but at most
  \<^verbatim>\<open>max\<close>, except that \<^verbatim>\<open>max = 1\<close> (like \<^verbatim>\<open>max = 0\<close>) does not limit anything.
\<close>

theorem split_char_correct:
  assumes "s \<noteq> []" "length s < 2 ^ 64"
  shows "glue delim (split_char s delim mx) = s \<and>
    length (split_char s delim mx) =
      (if mx \<le> 1 then Suc (count_list s delim) else min (unat mx) (Suc (count_list s delim))) \<and>
    (\<forall>p\<in>set (butlast (split_char s delim mx)). delim \<notin> set p)"
proof -
  have e: "split_char s delim mx = pieces (\<lambda>b. b = delim) (max_cuts mx s) s"
    using split_with_cut [OF assms] by (simp add: split_char_def)
  have c: "length (filter (\<lambda>b. b = delim) s) = count_list s delim"
    by (induction s) auto
  have "0 < unat mx" if "\<not> mx \<le> 1" using that by (simp add: word_le_nat_alt)
  then have "length (pieces (\<lambda>b. b = delim) (max_cuts mx s) s) =
      (if mx \<le> 1 then Suc (count_list s delim) else min (unat mx) (Suc (count_list s delim)))"
    using count_le_length [of s delim] by (auto simp: length_cut c max_cuts_def)
  then show ?thesis using cut_butlast [where P = "\<lambda>b. b = delim"] unfolding e
    by (simp only: glue_cut) blast
qed

theorem split_char_correct_witness:
  "str ''a,,b'' \<noteq> [] \<and> glue 0x2c (split_char (str ''a,,b'') 0x2c 2) = str ''a,,b''
   \<and> length (split_char (str ''a,,b'') 0x2c 2) = 2 \<and> length (split_char (str ''a,,b'') 0x2c 1) = 3"
proof -
  have s: "str ''a,,b'' = [0x61, 0x2c, 0x2c, 0x62]" by (simp add: str_def)
  show ?thesis
    using split_char_correct [of "[0x61, 0x2c, 0x2c, 0x62]" "0x2c" 2] split_char_correct [of "[0x61, 0x2c, 0x2c, 0x62]" "0x2c" 1]
    unfolding s by (simp add: word_le_nat_alt)
qed

text \<open>
  A random string has the length asked for and only characters of the given set.
\<close>

theorem random_string_chars:
  "if chars = [] then random_string rnd len chars = []
   else length (random_string rnd len chars) = len \<and> set (random_string rnd len chars) \<subseteq> set chars"
  by (auto simp: random_string_def)

end
