(* ===== verification/CacheBase.thy ===== *)
theory CacheBase
  imports Prelude
begin

text \<open>
  What the cache classes share: \<^verbatim>\<open>CacheStatus\<close> (\<^verbatim>\<open>sylar/ds/cache_status.h\<close>), \<^verbatim>\<open>std::unordered_map\<close> as an
  association list with one entry per key, and \<^verbatim>\<open>std::list\<close> as a list of nodes. A node is created with a
  number of its own, which stands for its address: an iterator is the number, and following an iterator to a
  node that is not in the list any more is undefined.
\<close>

section \<open>Counters\<close>

record cache_status =
  cs_get :: u64
  cs_set :: u64
  cs_del :: u64
  cs_timeout :: u64
  cs_prune :: u64
  cs_hit :: u64

definition new_status :: cache_status where
  "new_status = \<lparr>cs_get = 0, cs_set = 0, cs_del = 0, cs_timeout = 0, cs_prune = 0, cs_hit = 0\<rparr>"

definition incGet :: "cache_status \<Rightarrow> cache_status" where "incGet s = s\<lparr>cs_get := cs_get s + 1\<rparr>"
definition incSet :: "cache_status \<Rightarrow> cache_status" where "incSet s = s\<lparr>cs_set := cs_set s + 1\<rparr>"
definition incDel :: "cache_status \<Rightarrow> cache_status" where "incDel s = s\<lparr>cs_del := cs_del s + 1\<rparr>"
definition incHit :: "cache_status \<Rightarrow> cache_status" where "incHit s = s\<lparr>cs_hit := cs_hit s + 1\<rparr>"
definition incPrune :: "nat \<Rightarrow> cache_status \<Rightarrow> cache_status" where
  "incPrune n s = s\<lparr>cs_prune := cs_prune s + of_nat n\<rparr>"

definition incTimeout :: "cache_status \<Rightarrow> cache_status" where "incTimeout s = s\<lparr>cs_timeout := cs_timeout s + 1\<rparr>"

definition decGet :: "cache_status \<Rightarrow> cache_status" where "decGet s = s\<lparr>cs_get := cs_get s - 1\<rparr>"
definition decSet :: "cache_status \<Rightarrow> cache_status" where "decSet s = s\<lparr>cs_set := cs_set s - 1\<rparr>"
definition decDel :: "cache_status \<Rightarrow> cache_status" where "decDel s = s\<lparr>cs_del := cs_del s - 1\<rparr>"
definition decTimeout :: "cache_status \<Rightarrow> cache_status" where "decTimeout s = s\<lparr>cs_timeout := cs_timeout s - 1\<rparr>"
definition decHit :: "cache_status \<Rightarrow> cache_status" where "decHit s = s\<lparr>cs_hit := cs_hit s - 1\<rparr>"
definition decPrune :: "nat \<Rightarrow> cache_status \<Rightarrow> cache_status" where
  "decPrune n s = s\<lparr>cs_prune := cs_prune s - of_nat n\<rparr>"

definition status_merge :: "cache_status \<Rightarrow> cache_status \<Rightarrow> cache_status" where
  "status_merge oth s = s\<lparr>cs_get := cs_get s + cs_get oth, cs_set := cs_set s + cs_set oth,
     cs_del := cs_del s + cs_del oth, cs_timeout := cs_timeout s + cs_timeout oth,
     cs_prune := cs_prune s + cs_prune oth, cs_hit := cs_hit s + cs_hit oth\<rparr>"

section \<open>Maps and lists\<close>

text \<open>\<^verbatim>\<open>unordered_map::erase(k)\<close> and \<^verbatim>\<open>insert\<close>, which keeps an entry that is there.\<close>

definition map_erase :: "'k \<Rightarrow> ('k \<times> 'a) list \<Rightarrow> ('k \<times> 'a) list" where
  "map_erase k m = filter (\<lambda>e. fst e \<noteq> k) m"

definition map_insert :: "'k \<Rightarrow> 'a \<Rightarrow> ('k \<times> 'a) list \<Rightarrow> ('k \<times> 'a) list" where
  "map_insert k a m = (if map_of m k = None then (k, a) # m else m)"

text \<open>\<^verbatim>\<open>list::splice(begin, list, it)\<close> moves a node to the front, \<^verbatim>\<open>list::erase(it)\<close> removes it, and an assignment
  through the iterator changes its content.\<close>

type_synonym 'a nodes = "(nat \<times> 'a) list"

definition splice_front :: "nat \<Rightarrow> 'a nodes \<Rightarrow> 'a nodes" where
  "splice_front i ns = filter (\<lambda>n. fst n = i) ns @ filter (\<lambda>n. fst n \<noteq> i) ns"

definition list_erase :: "nat \<Rightarrow> 'a nodes \<Rightarrow> 'a nodes" where
  "list_erase i ns = filter (\<lambda>n. fst n \<noteq> i) ns"

definition node_assign :: "nat \<Rightarrow> ('a \<Rightarrow> 'a) \<Rightarrow> 'a nodes \<Rightarrow> 'a nodes" where
  "node_assign i f ns = map (\<lambda>n. if fst n = i then (i, f (snd n)) else n) ns"

text \<open>\<^verbatim>\<open>m_maxSize + m_elasticity\<close> in \<^verbatim>\<open>size_t\<close>.\<close>

definition max_allowed :: "nat \<Rightarrow> nat \<Rightarrow> nat" where
  "max_allowed mx el = (mx + el) mod 2 ^ 64"

section \<open>Lemmas\<close>

named_theorems cache_simps "maps and node lists of the caches"

lemma map_of_erase [cache_simps]: "map_of (map_erase k m) j = (if j = k then None else map_of m j)"
  by (induction m) (auto simp: map_erase_def)

lemma map_of_insert [cache_simps]:
  "map_of m k = None \<Longrightarrow> map_of (map_insert k a m) j = (if j = k then Some a else map_of m j)"
  by (simp add: map_insert_def)

lemma keys_erase [cache_simps]: "fst ` set (map_erase k m) = fst ` set m - {k}"
  by (force simp: map_erase_def)

lemma distinct_erase [cache_simps]: "distinct (map fst m) \<Longrightarrow> distinct (map fst (map_erase k m))"
  by (simp add: map_erase_def distinct_map_filter)

lemma distinct_insert [cache_simps]: "distinct (map fst m) \<Longrightarrow> distinct (map fst (map_insert k a m))"
  by (simp add: map_insert_def map_of_eq_None_iff)

lemma length_erase:
  assumes "distinct (map fst m)"
  shows "length (map_erase k m) = (if k \<in> fst ` set m then length m - 1 else length m)"
proof -
  have "length (map_erase k m) = card (fst ` set m - {k})"
    using distinct_card [OF distinct_erase [OF assms, of k]] by (simp add: keys_erase)
  moreover have "length m = card (fst ` set m)" using distinct_card [OF assms] by simp
  ultimately show ?thesis by (simp add: card_Diff_singleton_if)
qed

lemma nodes_untouched:
  assumes "i \<notin> fst ` set ns"
  shows "filter (\<lambda>n. fst n \<noteq> i) ns = ns" "filter (\<lambda>n. fst n = i) ns = []"
    "map (\<lambda>n. if fst n = i then (i, f (snd n)) else n) ns = ns"
  using assms by (auto simp: filter_empty_conv image_iff intro!: filter_True map_idI)

lemma node_ops_split [cache_simps]:
  assumes "distinct (map fst (xs @ (i, a) # ys))"
  shows "splice_front i (xs @ (i, a) # ys) = (i, a) # xs @ ys"
    "list_erase i (xs @ (i, a) # ys) = xs @ ys"
    "node_assign i f (xs @ (i, a) # ys) = xs @ (i, f a) # ys"
    "map_of (xs @ (i, a) # ys) i = Some a"
proof -
  have "i \<notin> fst ` set xs" "i \<notin> fst ` set ys" using assms by auto
  then show "splice_front i (xs @ (i, a) # ys) = (i, a) # xs @ ys"
    "list_erase i (xs @ (i, a) # ys) = xs @ ys"
    "node_assign i f (xs @ (i, a) # ys) = xs @ (i, f a) # ys"
    "map_of (xs @ (i, a) # ys) i = Some a"
    by (simp_all add: splice_front_def list_erase_def node_assign_def nodes_untouched map_add_Some_iff
        map_of_eq_None_iff)
qed

section \<open>Index of a list\<close>

text \<open>The map and the list agree: every entry of the map is the node of its key, and every node is entered.\<close>

definition index_ok :: "('k \<times> nat) list \<Rightarrow> (nat \<times> 'k) list \<Rightarrow> bool" where
  "index_ok cache ks \<longleftrightarrow> distinct (map fst cache) \<and> distinct (map fst ks) \<and> distinct (map snd ks) \<and>
     (\<forall>k i. map_of cache k = Some i \<longleftrightarrow> (i, k) \<in> set ks)"

lemma index_perm: "index_ok cache ks \<Longrightarrow> mset ks' = mset ks \<Longrightarrow> index_ok cache ks'"
  unfolding index_ok_def by (metis mset_eq_imp_distinct_iff mset_map set_mset_mset)

lemma index_node:
  assumes "index_ok cache ks" "map_of cache k = Some i"
  obtains xs ys where "ks = xs @ (i, k) # ys"
  using assms by (auto simp: index_ok_def dest: split_list)

lemma index_okD:
  assumes "index_ok cache ks"
  shows "distinct (map fst cache)" "distinct (map fst ks)" "distinct (map snd ks)"
    "map_of cache k = Some i \<longleftrightarrow> (i, k) \<in> set ks"
  using assms unfolding index_ok_def by blast+

lemma index_length:
  assumes "index_ok cache ks"
  shows "length cache = length ks"
proof -
  have "k \<in> dom (map_of cache) \<longleftrightarrow> k \<in> snd ` set ks" for k
    using index_okD(4) [OF assms, of k] by (force simp: dom_def image_iff)
  then have "fst ` set cache = snd ` set ks" by (metis dom_map_of_conv_image_fst subsetI subset_antisym)
  then show ?thesis
    using distinct_card [OF index_okD(1) [OF assms]] distinct_card [OF index_okD(3) [OF assms]] by simp
qed

lemma index_Nil [simp]: "index_ok [] []"
  by (simp add: index_ok_def)

lemma index_None: "index_ok cache ks \<Longrightarrow> map_of cache k = None \<longleftrightarrow> k \<notin> snd ` set ks"
  unfolding index_ok_def by (metis (no_types, lifting) image_iff not_Some_eq prod.collapse snd_conv)

lemma index_push:
  assumes "index_ok cache ks" "map_of cache k = None" "i \<notin> fst ` set ks"
  shows "index_ok (map_insert k i cache) ((i, k) # ks)"
  using assms index_None [OF assms(1), of k] by (auto simp: index_ok_def cache_simps)

lemma index_drop:
  assumes "index_ok cache (xs @ (i, k) # ys)"
  shows "index_ok (map_erase k cache) (xs @ ys)"
  using assms unfolding index_ok_def
  by (auto simp: cache_simps) (metis image_eqI snd_conv)+

end
