(* ===== verification/LruCache.thy ===== *)
theory LruCache
  imports CacheBase
begin

text \<open>
  \<^verbatim>\<open>LruCache\<close> of \<^verbatim>\<open>sylar/ds/lru_cache.h\<close>: a list of the items, the most recently used first, and a map from
  keys to list iterators. \<^verbatim>\<open>m_status\<close> is a pointer to counters the cache may share with others; the record
  holds what it points to. The results of \<open>set\<close> and of pruning list the calls of the prune callback.
\<close>

record ('k, 'v) lru =
  lc_cache :: "('k \<times> nat) list"
  lc_keys :: "('k \<times> 'v) nodes"
  lc_fresh :: nat
  lc_maxSize :: nat
  lc_elasticity :: nat
  lc_cb :: bool
  lc_status :: cache_status

section \<open>Operations\<close>

definition new_LruCache :: "nat \<Rightarrow> nat \<Rightarrow> cache_status option \<Rightarrow> ('k, 'v) lru" where
  "new_LruCache mx el status =
     \<lparr>lc_cache = [], lc_keys = [], lc_fresh = 0, lc_maxSize = mx, lc_elasticity = el, lc_cb = False,
      lc_status = (case status of None \<Rightarrow> new_status | Some s \<Rightarrow> s)\<rparr>"

text \<open>The loop of \<^verbatim>\<open>prune\<close>: the size of the map is compared, the back of the list is dropped. \<^verbatim>\<open>back\<close> of an empty
  list is undefined.\<close>

function lru_prune_loop :: "nat \<Rightarrow> ('k \<times> nat) list \<Rightarrow> ('k \<times> 'v) nodes \<Rightarrow> ('k \<times> 'v) list \<Rightarrow>
    failure + (('k \<times> nat) list \<times> ('k \<times> 'v) nodes \<times> ('k \<times> 'v) list)" where
  "lru_prune_loop mx cache keys gone =
     (if length cache \<le> mx then Inr (cache, keys, gone)
      else if keys = [] then Inl Undefined
      else let back = snd (last keys)
           in lru_prune_loop mx (map_erase (fst back) cache) (butlast keys) (gone @ [back]))"
  by pat_completeness auto
termination by (relation "measure (\<lambda>(mx, cache, keys, gone). length keys)") auto

declare lru_prune_loop.simps [simp del]

definition LruCache_prune :: "(('k, 'v) lru, nat \<times> ('k \<times> 'v) list) action" where
  "LruCache_prune c =
     (if lc_maxSize c = 0 \<or> length (lc_cache c) < max_allowed (lc_maxSize c) (lc_elasticity c)
      then (Inr (0, []), c)
      else case lru_prune_loop (lc_maxSize c) (lc_cache c) (lc_keys c) [] of
        Inl e \<Rightarrow> (Inl e, c)
      | Inr (cache, keys, gone) \<Rightarrow>
          (Inr (length gone, if lc_cb c then gone else []),
           c\<lparr>lc_cache := cache, lc_keys := keys, lc_status := incPrune (length gone) (lc_status c)\<rparr>))"

definition LruCache_set :: "'k \<Rightarrow> 'v \<Rightarrow> (('k, 'v) lru, ('k \<times> 'v) list) action" where
  "LruCache_set k v c =
     (let c = c\<lparr>lc_status := incSet (lc_status c)\<rparr> in
      case map_of (lc_cache c) k of
        Some i \<Rightarrow>
          (case map_of (lc_keys c) i of None \<Rightarrow> (Inl Undefined, c)
           | Some _ \<Rightarrow> (Inr [], c\<lparr>lc_keys := splice_front i (node_assign i (\<lambda>item. (fst item, v)) (lc_keys c))\<rparr>))
      | None \<Rightarrow>
          let c = c\<lparr>lc_keys := (lc_fresh c, (k, v)) # lc_keys c, lc_fresh := lc_fresh c + 1\<rparr>;
              c = c\<lparr>lc_cache := map_insert k (fst (hd (lc_keys c))) (lc_cache c)\<rparr>
          in case LruCache_prune c of (Inl e, c') \<Rightarrow> (Inl e, c') | (Inr (n, calls), c') \<Rightarrow> (Inr calls, c'))"

definition LruCache_get :: "'k \<Rightarrow> (('k, 'v) lru, 'v option) action" where
  "LruCache_get k c =
     (let c = c\<lparr>lc_status := incGet (lc_status c)\<rparr> in
      case map_of (lc_cache c) k of
        None \<Rightarrow> (Inr None, c)
      | Some i \<Rightarrow>
          (case map_of (lc_keys c) i of None \<Rightarrow> (Inl Undefined, c)
           | Some item \<Rightarrow> (Inr (Some (snd item)),
               c\<lparr>lc_keys := splice_front i (lc_keys c), lc_status := incHit (lc_status c)\<rparr>)))"

definition LruCache_del :: "'k \<Rightarrow> (('k, 'v) lru, bool) action" where
  "LruCache_del k c =
     (let c = c\<lparr>lc_status := incDel (lc_status c)\<rparr> in
      case map_of (lc_cache c) k of
        None \<Rightarrow> (Inr False, c)
      | Some i \<Rightarrow>
          if map_of (lc_keys c) i = None then (Inl Undefined, c)
          else (Inr True, c\<lparr>lc_keys := list_erase i (lc_keys c), lc_cache := map_erase k (lc_cache c)\<rparr>))"

definition LruCache_exists :: "'k \<Rightarrow> ('k, 'v) lru \<Rightarrow> bool" where
  "LruCache_exists k c = (map_of (lc_cache c) k \<noteq> None)"

definition LruCache_size :: "('k, 'v) lru \<Rightarrow> nat" where
  "LruCache_size c = length (lc_cache c)"

definition LruCache_empty :: "('k, 'v) lru \<Rightarrow> bool" where
  "LruCache_empty c = (lc_cache c = [])"

definition LruCache_clear :: "('k, 'v) lru \<Rightarrow> ('k, 'v) lru" where
  "LruCache_clear c = c\<lparr>lc_cache := [], lc_keys := []\<rparr>"

definition LruCache_setMaxSize :: "nat \<Rightarrow> ('k, 'v) lru \<Rightarrow> ('k, 'v) lru" where
  "LruCache_setMaxSize n c = c\<lparr>lc_maxSize := n\<rparr>"

definition LruCache_setElasticity :: "nat \<Rightarrow> ('k, 'v) lru \<Rightarrow> ('k, 'v) lru" where
  "LruCache_setElasticity n c = c\<lparr>lc_elasticity := n\<rparr>"

definition LruCache_setPruneCallback :: "('k, 'v) lru \<Rightarrow> ('k, 'v) lru" where
  "LruCache_setPruneCallback c = c\<lparr>lc_cb := True\<rparr>"

definition LruCache_setStatus :: "cache_status option \<Rightarrow> ('k, 'v) lru \<Rightarrow> ('k, 'v) lru" where
  "LruCache_setStatus st c = c\<lparr>lc_status := (case st of None \<Rightarrow> new_status | Some s \<Rightarrow> s)\<rparr>"

section \<open>Invariant\<close>

definition lru_ok :: "('k, 'v) lru \<Rightarrow> bool" where
  "lru_ok c \<longleftrightarrow> index_ok (lc_cache c) (map (\<lambda>n. (fst n, fst (snd n))) (lc_keys c)) \<and>
     (\<forall>n \<in> set (lc_keys c). fst n < lc_fresh c)"

definition lru_items :: "('k, 'v) lru \<Rightarrow> ('k \<times> 'v) list" where
  "lru_items c = map snd (lc_keys c)"

section \<open>Specification: a recency list\<close>

text \<open>The items in the order of their last use. Storing or finding a key moves it to the front; when the list has
  grown to the allowed size it is cut to the maximal one.\<close>

datatype ('k, 'v) cache_op = Set 'k 'v | Get 'k | Del 'k

datatype ('k, 'v) cache_result = Evicted "('k \<times> 'v) list" | Found "'v option" | Deleted bool

definition without :: "'k \<Rightarrow> ('k \<times> 'v) list \<Rightarrow> ('k \<times> 'v) list" where
  "without k l = filter (\<lambda>x. fst x \<noteq> k) l"

definition cut_items :: "bool \<Rightarrow> nat \<Rightarrow> nat \<Rightarrow> ('k \<times> 'v) list \<Rightarrow> ('k \<times> 'v) list \<times> ('k \<times> 'v) list" where
  "cut_items cb mx el l =
     (if mx = 0 \<or> length l < max_allowed mx el then ([], l)
      else (if cb then rev (drop mx l) else [], take mx l))"

fun recency :: "bool \<Rightarrow> nat \<Rightarrow> nat \<Rightarrow> ('k, 'v) cache_op \<Rightarrow> ('k \<times> 'v) list \<Rightarrow> ('k, 'v) cache_result \<times> ('k \<times> 'v) list" where
  "recency cb mx el (Set k v) l =
     (if k \<in> fst ` set l then (Evicted [], (k, v) # without k l)
      else let (gone, l') = cut_items cb mx el ((k, v) # l) in (Evicted gone, l'))"
| "recency cb mx el (Get k) l =
     (case map_of l k of None \<Rightarrow> (Found None, l) | Some v \<Rightarrow> (Found (Some v), (k, v) # without k l))"
| "recency cb mx el (Del k) l = (Deleted (k \<in> fst ` set l), without k l)"

fun lru_exec :: "('k, 'v) cache_op \<Rightarrow> ('k, 'v) lru \<Rightarrow> (failure + ('k, 'v) cache_result) \<times> ('k, 'v) lru" where
  "lru_exec (Set k v) c = (case LruCache_set k v c of (r, c') \<Rightarrow> (map_sum id Evicted r, c'))"
| "lru_exec (Get k) c = (case LruCache_get k c of (r, c') \<Rightarrow> (map_sum id Found r, c'))"
| "lru_exec (Del k) c = (case LruCache_del k c of (r, c') \<Rightarrow> (map_sum id Deleted r, c'))"

primrec run_cache :: "('o \<Rightarrow> 's \<Rightarrow> 'r \<times> 's) \<Rightarrow> 'o list \<Rightarrow> 's \<Rightarrow> 'r list \<times> 's" where
  "run_cache f [] s = ([], s)"
| "run_cache f (a # as) s = (let (r, s') = f a s; (rs, s'') = run_cache f as s' in (r # rs, s''))"

section \<open>Simulation\<close>

abbreviation lru_index :: "('k \<times> 'v) nodes \<Rightarrow> (nat \<times> 'k) list" where
  "lru_index ns \<equiv> map (\<lambda>n. (fst n, fst (snd n))) ns"

lemma lru_items_keys: "fst ` set (map snd ns) = snd ` set (lru_index ns)"
  by (auto simp: image_iff) force+

lemma lru_prune_loop_correct:
  assumes "index_ok cache (lru_index keys)"
  shows "\<exists>cache'. lru_prune_loop mx cache keys gone =
      Inr (cache', take mx keys, gone @ rev (map snd (drop mx keys))) \<and> index_ok cache' (lru_index (take mx keys))"
  using assms
proof (induction mx cache keys gone rule: lru_prune_loop.induct)
  case (1 mx cache keys gone)
  have len: "length cache = length keys" using index_length [OF "1.prems"] by simp
  show ?case
  proof (cases "length cache \<le> mx")
    case True
    then show ?thesis using len "1.prems" by (simp add: lru_prune_loop.simps)
  next
    case False
    then have ne: "keys \<noteq> []" using len by auto
    obtain i k v where l: "last keys = (i, (k, v))" by (metis prod.collapse)
    have keys: "keys = butlast keys @ [(i, (k, v))]" using ne l by (metis append_butlast_last_id)
    have "index_ok (map_erase k cache) (lru_index (butlast keys))"
      using index_drop [of cache "lru_index (butlast keys)" i k "[]"] "1.prems" by (subst (asm) keys) simp
    then obtain cache' where c': "lru_prune_loop mx (map_erase k cache) (butlast keys) (gone @ [(k, v)]) =
        Inr (cache', take mx (butlast keys), (gone @ [(k, v)]) @ rev (map snd (drop mx (butlast keys))))"
        "index_ok cache' (lru_index (take mx (butlast keys)))"
      using "1.IH" [OF False ne refl] l by auto
    have "mx \<le> length (butlast keys)" using False len by simp
    then have "take mx keys = take mx (butlast keys)" "drop mx keys = drop mx (butlast keys) @ [(i, (k, v))]"
      using keys by (metis append.right_neutral take_append take_eq_Nil diff_is_0_eq, metis drop_append drop0 diff_is_0_eq)
    then show ?thesis using c' False ne l by (subst lru_prune_loop.simps) simp
  qed
qed

lemma lru_okD:
  assumes "lru_ok c"
  shows "index_ok (lc_cache c) (lru_index (lc_keys c))" "distinct (map fst (lc_keys c))"
    "distinct (map fst (lru_items c))" "\<forall>n \<in> set (lc_keys c). fst n < lc_fresh c"
    "length (lc_cache c) = length (lru_items c)"
  using assms index_okD(2,3) [of "lc_cache c" "lru_index (lc_keys c)"] index_length [of "lc_cache c" "lru_index (lc_keys c)"]
  by (auto simp: lru_ok_def lru_items_def comp_def)

lemma lru_found:
  assumes "lru_ok c" "map_of (lc_cache c) k = Some i"
  obtains xs v ys where "lc_keys c = xs @ (i, (k, v)) # ys" "map_of (lc_keys c) i = Some (k, v)"
    "map_of (lru_items c) k = Some v" "without k (lru_items c) = map snd (xs @ ys)" "k \<in> fst ` set (lru_items c)"
proof -
  note d = lru_okD [OF assms(1)]
  have "(i, k) \<in> set (lru_index (lc_keys c))" using index_okD(4) [OF d(1)] assms(2) by blast
  then obtain v where mem: "(i, (k, v)) \<in> set (lc_keys c)" by auto
  then obtain xs ys where l: "lc_keys c = xs @ (i, (k, v)) # ys" by (meson split_list)
  have no: "k \<notin> fst ` set (map snd xs)" "k \<notin> fst ` set (map snd ys)" using d(3) by (simp_all add: l lru_items_def image_image)
  have "without k (map snd zs) = map snd zs" if "k \<notin> fst ` set (map snd zs)" for zs :: "('a \<times> 'b) nodes"
    using that unfolding without_def by (intro filter_True) auto
  then have w: "without k (lru_items c) = map snd (xs @ ys)"
    using no by (simp add: l lru_items_def without_def)
  have m: "map_of (lc_keys c) i = Some (k, v)" using d(2) mem by simp
  have "(k, v) \<in> set (lru_items c)" using mem by (force simp: lru_items_def)
  then have "map_of (lru_items c) k = Some v" "k \<in> fst ` set (lru_items c)" using d(3) by (auto simp: rev_image_eqI)
  then show ?thesis using that l m w by blast
qed

lemma lru_missing:
  assumes "lru_ok c" "map_of (lc_cache c) k = None"
  shows "map_of (lru_items c) k = None" "k \<notin> fst ` set (lru_items c)"
  using index_None [OF lru_okD(1) [OF assms(1)], of k] assms(2)
  by (simp_all add: lru_items_def lru_items_keys map_of_eq_None_iff del: set_map)

lemma lru_perm:
  assumes "lru_ok c" "mset (lru_index ns) = mset (lru_index (lc_keys c))"
  shows "lru_ok (c\<lparr>lc_keys := ns, lc_status := st\<rparr>)"
proof -
  have "fst ` set ns = fst ` set (lc_keys c)"
    using arg_cong [OF assms(2), of "\<lambda>M. fst ` set_mset M"] by (simp add: image_image)
  then have "\<forall>n \<in> set ns. fst n < lc_fresh c" using lru_okD(4) [OF assms(1)] by (metis (no_types, lifting) image_iff)
  then show ?thesis using index_perm [OF lru_okD(1) [OF assms(1)] assms(2)] by (simp add: lru_ok_def)
qed

lemma lru_splice:
  assumes "lru_ok c" "lc_keys c = xs @ (i, (k, v)) # ys"
  shows "splice_front i (lc_keys c) = (i, (k, v)) # xs @ ys"
    "list_erase i (lc_keys c) = xs @ ys"
    "splice_front i (node_assign i f (lc_keys c)) = (i, f (k, v)) # xs @ ys"
proof -
  have d: "distinct (map fst (xs @ (i, a) # ys))" for a :: "'a \<times> 'b"
    using lru_okD(2) [OF assms(1)] by (simp add: assms(2))
  show "splice_front i (lc_keys c) = (i, (k, v)) # xs @ ys" "list_erase i (lc_keys c) = xs @ ys"
    "splice_front i (node_assign i f (lc_keys c)) = (i, f (k, v)) # xs @ ys"
    unfolding assms(2) by (simp_all only: node_ops_split [OF d])
qed

text \<open>What an operation leaves unchanged.\<close>

definition same_limits :: "('k, 'v) lru \<Rightarrow> ('k, 'v) lru \<Rightarrow> bool" where
  "same_limits c c' \<longleftrightarrow> lc_maxSize c' = lc_maxSize c \<and> lc_elasticity c' = lc_elasticity c \<and> lc_cb c' = lc_cb c"

lemma LruCache_get_correct:
  assumes "lru_ok c"
  shows "\<exists>c'. LruCache_get k c = (Inr (map_of (lru_items c) k), c') \<and> lru_ok c' \<and> same_limits c c' \<and>
    lru_items c' = (case map_of (lru_items c) k of None \<Rightarrow> lru_items c | Some v \<Rightarrow> (k, v) # without k (lru_items c))"
proof (cases "map_of (lc_cache c) k")
  case None
  then show ?thesis using lru_missing [OF assms None] assms
    by (simp add: LruCache_get_def lru_ok_def lru_items_def same_limits_def)
next
  case (Some i)
  obtain xs v ys where f: "lc_keys c = xs @ (i, (k, v)) # ys" "map_of (lc_keys c) i = Some (k, v)"
      "map_of (lru_items c) k = Some v" "without k (lru_items c) = map snd (xs @ ys)"
    using lru_found [OF assms Some] by metis
  note s = lru_splice(1) [OF assms f(1)]
  have "lru_ok (c\<lparr>lc_keys := (i, (k, v)) # xs @ ys, lc_status := incHit (incGet (lc_status c))\<rparr>)"
    by (rule lru_perm [OF assms]) (simp add: f(1))
  then show ?thesis using Some f s by (simp add: LruCache_get_def lru_items_def same_limits_def)
qed

lemma LruCache_del_correct:
  assumes "lru_ok c"
  shows "\<exists>c'. LruCache_del k c = (Inr (k \<in> fst ` set (lru_items c)), c') \<and> lru_ok c' \<and> same_limits c c' \<and>
    lru_items c' = without k (lru_items c)"
proof (cases "map_of (lc_cache c) k")
  case None
  have "without k (lru_items c) = lru_items c"
    unfolding without_def using lru_missing(2) [OF assms None] by (intro filter_True) auto
  then show ?thesis using lru_missing [OF assms None] assms None
    by (simp add: LruCache_del_def lru_ok_def lru_items_def same_limits_def)
next
  case (Some i)
  obtain xs v ys where f: "lc_keys c = xs @ (i, (k, v)) # ys" "map_of (lc_keys c) i = Some (k, v)"
      "without k (lru_items c) = map snd (xs @ ys)" "k \<in> fst ` set (lru_items c)"
    using lru_found [OF assms Some] by metis
  note s = lru_splice(2) [OF assms f(1)]
  have "index_ok (map_erase k (lc_cache c)) (lru_index (xs @ ys))"
    using index_drop [of "lc_cache c" "lru_index xs" i k "lru_index ys"] lru_okD(1) [OF assms] by (simp add: f(1))
  moreover have "\<forall>n \<in> set (xs @ ys). fst n < lc_fresh c" using lru_okD(4) [OF assms] by (auto simp: f(1))
  ultimately show ?thesis using Some f s by (simp add: LruCache_del_def lru_items_def same_limits_def lru_ok_def)
qed

lemma LruCache_prune_correct:
  assumes "lru_ok c"
  shows "\<exists>c' n. LruCache_prune c = (Inr (n, fst (cut_items (lc_cb c) (lc_maxSize c) (lc_elasticity c) (lru_items c))), c') \<and>
    lru_ok c' \<and> same_limits c c' \<and>
    lru_items c' = snd (cut_items (lc_cb c) (lc_maxSize c) (lc_elasticity c) (lru_items c))"
proof (cases "lc_maxSize c = 0 \<or> length (lru_items c) < max_allowed (lc_maxSize c) (lc_elasticity c)")
  case True
  then show ?thesis using assms lru_okD(5) [OF assms] by (auto simp: LruCache_prune_def same_limits_def cut_items_def)
next
  case False
  let ?mx = "lc_maxSize c"
  obtain cache' where c': "lru_prune_loop ?mx (lc_cache c) (lc_keys c) [] =
      Inr (cache', take ?mx (lc_keys c), rev (map snd (drop ?mx (lc_keys c))))"
      "index_ok cache' (lru_index (take ?mx (lc_keys c)))"
    using lru_prune_loop_correct [OF lru_okD(1) [OF assms], of ?mx "[]"] by auto
  have "\<forall>n \<in> set (take ?mx (lc_keys c)). fst n < lc_fresh c"
    using lru_okD(4) [OF assms] by (meson in_set_takeD)
  then show ?thesis using False c' lru_okD(5) [OF assms]
    by (auto simp: LruCache_prune_def same_limits_def lru_ok_def lru_items_def take_map drop_map cut_items_def)
qed

lemma LruCache_set_correct:
  assumes "lru_ok c"
  shows "\<exists>c' calls. LruCache_set k v c = (Inr calls, c') \<and> lru_ok c' \<and> same_limits c c' \<and>
    (Evicted calls, lru_items c') = recency (lc_cb c) (lc_maxSize c) (lc_elasticity c) (Set k v) (lru_items c)"
proof (cases "map_of (lc_cache c) k")
  case None
  define c1 where "c1 = c\<lparr>lc_status := incSet (lc_status c), lc_keys := (lc_fresh c, (k, v)) # lc_keys c,
    lc_fresh := lc_fresh c + 1, lc_cache := map_insert k (lc_fresh c) (lc_cache c)\<rparr>"
  have "lc_fresh c \<notin> fst ` set (lru_index (lc_keys c))" using lru_okD(4) [OF assms] by (force simp: image_iff)
  then have ok1: "lru_ok c1"
    using index_push [OF lru_okD(1) [OF assms] None, of "lc_fresh c"] lru_okD(4) [OF assms]
    by (auto simp: lru_ok_def c1_def less_SucI)
  have c1: "lru_items c1 = (k, v) # lru_items c" "same_limits c c1" by (simp_all add: c1_def lru_items_def same_limits_def)
  obtain c' n where "LruCache_prune c1 = (Inr (n, fst (cut_items (lc_cb c1) (lc_maxSize c1) (lc_elasticity c1) (lru_items c1))), c')"
    "lru_ok c'" "same_limits c1 c'"
    "lru_items c' = snd (cut_items (lc_cb c1) (lc_maxSize c1) (lc_elasticity c1) (lru_items c1))"
    using LruCache_prune_correct [OF ok1] by blast
  moreover have "LruCache_set k v c = (case LruCache_prune c1 of (Inl e, c') \<Rightarrow> (Inl e, c') | (Inr (n, calls), c') \<Rightarrow> (Inr calls, c'))"
    using None by (simp add: LruCache_set_def c1_def)
  ultimately show ?thesis
    using c1 lru_missing(2) [OF assms None] by (simp add: same_limits_def case_prod_beta)
next
  case (Some i)
  obtain xs v' ys where f: "lc_keys c = xs @ (i, (k, v')) # ys" "map_of (lc_keys c) i = Some (k, v')"
      "without k (lru_items c) = map snd (xs @ ys)" "k \<in> fst ` set (lru_items c)"
    using lru_found [OF assms Some] by metis
  note s = lru_splice(3) [OF assms f(1), of "\<lambda>item. (fst item, v)"]
  have "lru_ok (c\<lparr>lc_keys := (i, (k, v)) # xs @ ys, lc_status := incSet (lc_status c)\<rparr>)"
    by (rule lru_perm [OF assms]) (simp add: f(1))
  then show ?thesis using Some f s
    by (simp add: LruCache_set_def lru_items_def same_limits_def lru_ok_def)
qed

lemma lru_exec_correct:
  assumes "lru_ok c"
  shows "\<exists>c'. lru_exec a c = (Inr (fst (recency (lc_cb c) (lc_maxSize c) (lc_elasticity c) a (lru_items c))), c') \<and>
    lru_ok c' \<and> same_limits c c' \<and>
    lru_items c' = snd (recency (lc_cb c) (lc_maxSize c) (lc_elasticity c) a (lru_items c))"
proof (cases a)
  case (Set k v)
  then show ?thesis using LruCache_set_correct [OF assms, of k v] by (metis fst_conv id_apply lru_exec.simps(1) map_sum.simps(2) prod.case snd_conv)
next
  case (Get k)
  then show ?thesis using LruCache_get_correct [OF assms, of k] by (auto split: option.splits)
next
  case (Del k)
  then show ?thesis using LruCache_del_correct [OF assms, of k] by auto
qed

lemma lru_run:
  assumes "lru_ok c"
  shows "\<exists>c'. run_cache lru_exec ops c =
      (map Inr (fst (run_cache (recency (lc_cb c) (lc_maxSize c) (lc_elasticity c)) ops (lru_items c))), c') \<and>
    lru_ok c' \<and> same_limits c c' \<and>
    lru_items c' = snd (run_cache (recency (lc_cb c) (lc_maxSize c) (lc_elasticity c)) ops (lru_items c))"
  using assms
proof (induction ops arbitrary: c)
  case Nil
  then show ?case by (simp add: same_limits_def)
next
  case (Cons a ops)
  obtain c1 where 1: "lru_exec a c = (Inr (fst (recency (lc_cb c) (lc_maxSize c) (lc_elasticity c) a (lru_items c))), c1)"
      "lru_ok c1" "same_limits c c1" "lru_items c1 = snd (recency (lc_cb c) (lc_maxSize c) (lc_elasticity c) a (lru_items c))"
    using lru_exec_correct [OF Cons.prems, of a] by blast
  then show ?case using Cons.IH [OF 1(2)] by (auto simp: same_limits_def split: prod.splits)
qed

section \<open>The recency list\<close>

definition within_limits :: "nat \<Rightarrow> nat \<Rightarrow> ('k \<times> 'v) list \<Rightarrow> bool" where
  "within_limits mx el l \<longleftrightarrow> distinct (map fst l) \<and> (mx = 0 \<or> length l \<le> max mx (mx + el - 1))"

lemma without_props [simp]:
  "distinct (map fst l) \<Longrightarrow> distinct (map fst (without k l))" "k \<notin> fst ` set (without k l)"
  "length (without k l) \<le> length l" "fst ` set (without k l) = fst ` set l - {k}"
  by (auto simp: without_def distinct_map_filter)

lemma without_length: "k \<in> fst ` set l \<Longrightarrow> length (without k l) < length l"
  unfolding without_def by (auto intro: length_filter_less)

lemma cut_within:
  assumes "distinct (map fst l)" "mx + el < 2 ^ 64"
  shows "within_limits mx el (snd (cut_items cb mx el l))"
proof -
  have "distinct (map fst (take mx l))" using assms(1) by (simp add: distinct_take flip: take_map)
  then show ?thesis using assms by (auto simp: cut_items_def within_limits_def max_allowed_def)
qed

lemma move_within:
  assumes "within_limits mx el l" "k \<in> fst ` set l"
  shows "within_limits mx el ((k, v) # without k l)"
  using assms without_length [OF assms(2)] without_props(2) [of k l]
  by (auto simp: within_limits_def simp del: without_props(2-4))

lemma recency_within:
  assumes "within_limits mx el l" "mx + el < 2 ^ 64"
  shows "within_limits mx el (snd (recency cb mx el a l))"
proof (cases a)
  case (Set k v)
  show ?thesis
  proof (cases "k \<in> fst ` set l")
    case True
    then show ?thesis using Set move_within [OF assms(1) True, of v] by simp
  next
    case False
    then show ?thesis using Set cut_within [OF _ assms(2), of "(k, v) # l" cb] assms(1)
      by (simp add: within_limits_def case_prod_beta)
  qed
next
  case (Get k)
  then show ?thesis
    using assms(1) move_within [OF assms(1), of k]
    by (simp add: dom_map_of_conv_image_fst [symmetric] domIff split: option.splits)
next
  case (Del k)
  then show ?thesis using assms without_props(3) [of k l] by (auto simp: within_limits_def simp del: without_props(3))
qed

section \<open>Properties\<close>

lemma run_within:
  "within_limits mx el l \<Longrightarrow> mx + el < 2 ^ 64 \<Longrightarrow> within_limits mx el (snd (run_cache (recency cb mx el) ops l))"
proof (induction ops arbitrary: l)
  case (Cons a ops)
  then show ?case using recency_within [OF Cons.prems, of cb a] by (auto simp: Let_def split: prod.splits) (metis snd_conv)
qed simp

lemma new_LruCache_ok:
  "lru_ok (LruCache_setPruneCallback (new_LruCache mx el st))" "lru_items (LruCache_setPruneCallback (new_LruCache mx el st)) = []"
  by (simp_all add: lru_ok_def lru_items_def new_LruCache_def LruCache_setPruneCallback_def)

text \<open>
  (C4) \<^verbatim>\<open>LruCache\<close> keeps its items by the time of their last use: on a new cache a run of \<^verbatim>\<open>set\<close>, \<^verbatim>\<open>get\<close> and
  \<^verbatim>\<open>del\<close> never follows a dead iterator, returns what the recency list returns, evicts from the end of that list
  (calling the callback with the evicted items, the oldest first), keeps map and list in step, and never holds
  more than \<^verbatim>\<open>maxSize\<close> items or, with elasticity, fewer than \<^verbatim>\<open>maxSize + elasticity\<close>.
\<close>

theorem lru_refines_recency:
  assumes "mx + el < 2 ^ 64"
  shows "\<exists>c'. run_cache lru_exec ops (LruCache_setPruneCallback (new_LruCache mx el st)) =
      (map Inr (fst (run_cache (recency True mx el) ops [])), c') \<and> lru_ok c' \<and>
    lru_items c' = snd (run_cache (recency True mx el) ops []) \<and> LruCache_size c' = length (lru_items c') \<and>
    (mx = 0 \<or> LruCache_size c' \<le> max mx (mx + el - 1))"
proof -
  let ?c = "LruCache_setPruneCallback (new_LruCache mx el st)"
  have p: "lc_cb ?c = True" "lc_maxSize ?c = mx" "lc_elasticity ?c = el"
    by (simp_all add: LruCache_setPruneCallback_def new_LruCache_def)
  have "within_limits mx el (snd (run_cache (recency True mx el) ops []))"
    by (rule run_within [OF _ assms]) (simp add: within_limits_def)
  then show ?thesis using lru_run [OF new_LruCache_ok(1), of ops mx el st] lru_okD(5)
    unfolding p new_LruCache_ok(2) by (auto simp: LruCache_size_def within_limits_def)
qed

theorem lru_refines_recency_witness:
  "\<exists>c' :: (nat, char) lru. run_cache lru_exec [Set 1 CHR ''a'', Set 2 CHR ''b'', Get 1, Set 3 CHR ''c'', Get 2]
       (LruCache_setPruneCallback (new_LruCache 2 0 None)) =
     ([Inr (Evicted []), Inr (Evicted []), Inr (Found (Some CHR ''a'')), Inr (Evicted [(2, CHR ''b'')]), Inr (Found None)], c')"
proof -
  let ?ops = "[Set (1 :: nat) CHR ''a'', Set 2 CHR ''b'', Get 1, Set 3 CHR ''c'', Get 2]"
  have s: "run_cache (recency True 2 0) ?ops [] =
     ([Evicted [], Evicted [], Found (Some CHR ''a''), Evicted [(2, CHR ''b'')], Found None], [(3, CHR ''c''), (1, CHR ''a'')])"
    by (simp add: cut_items_def max_allowed_def without_def)
  obtain c' where "run_cache lru_exec ?ops (LruCache_setPruneCallback (new_LruCache 2 0 None)) =
      (map Inr (fst (run_cache (recency True 2 0) ?ops [])), c')"
    using lru_refines_recency [of 2 0 ?ops None] by auto
  then show ?thesis unfolding s by (intro exI [of _ c']) simp
qed

text \<open>What is in front of a key in the recency list are keys used after it.\<close>

fun op_key :: "('k, 'v) cache_op \<Rightarrow> 'k" where
  "op_key (Set k v) = k"
| "op_key (Get k) = k"
| "op_key (Del k) = k"

definition newer_than :: "'k set \<Rightarrow> 'k \<Rightarrow> 'v \<Rightarrow> ('k \<times> 'v) list \<Rightarrow> bool" where
  "newer_than T k v l \<longleftrightarrow> distinct (map fst l) \<and> (\<exists>xs ys. l = xs @ (k, v) # ys \<and> fst ` set xs \<subseteq> T)"

lemma newer_than_map: "newer_than T k v l \<Longrightarrow> map_of l k = Some v"
  by (auto simp: newer_than_def)

lemma newer_front:
  assumes "newer_than T k v l" "j \<noteq> k" "j \<in> T"
  shows "newer_than T k v ((j, w) # without j l)" "newer_than T k v (without j l)"
proof -
  obtain xs ys where l: "distinct (map fst l)" "l = xs @ (k, v) # ys" "fst ` set xs \<subseteq> T"
    using assms(1) by (auto simp: newer_than_def)
  have w: "without j l = without j xs @ (k, v) # without j ys" using assms(2) by (simp add: l(2) without_def)
  have d: "distinct (map fst (without j l))" "j \<notin> fst ` set (without j l)" using l(1) by simp_all
  have s: "fst ` set (without j xs) \<subseteq> T" using l(3) by (auto simp: without_def)
  show "newer_than T k v (without j l)" unfolding newer_than_def using d s w by blast
  have "(j, w) # without j l = ((j, w) # without j xs) @ (k, v) # without j ys" using w by simp
  moreover have "fst ` set ((j, w) # without j xs) \<subseteq> T" using s assms(3) by (simp del: without_props(4))
  moreover have "distinct (map fst ((j, w) # without j l))" using d by simp
  ultimately show "newer_than T k v ((j, w) # without j l)" unfolding newer_than_def by blast
qed

lemma newer_cut:
  assumes "newer_than T k v l" "finite T" "mx = 0 \<or> card T < mx"
  shows "newer_than T k v (snd (cut_items cb mx el l))"
proof (cases "mx = 0 \<or> length l < max_allowed mx el")
  case True
  then show ?thesis using assms(1) by (simp add: cut_items_def)
next
  case False
  obtain xs ys where l: "distinct (map fst l)" "l = xs @ (k, v) # ys" "fst ` set xs \<subseteq> T"
    using assms(1) by (auto simp: newer_than_def)
  have "length xs = card (fst ` set xs)" using l(1,2) distinct_card [of "map fst xs"] by simp
  then have "length xs < mx" using card_mono [OF assms(2) l(3)] False assms(3) by simp
  then have "take mx l = xs @ (k, v) # take (mx - length xs - 1) ys" by (simp add: l(2) take_Cons')
  moreover have "distinct (map fst (take mx l))" using l(1) by (simp add: distinct_take flip: take_map)
  ultimately have "newer_than T k v (take mx l)" using l(3) unfolding newer_than_def by blast
  then show ?thesis using False by (simp add: cut_items_def)
qed

lemma newer_step:
  assumes "newer_than T k v l" "finite T" "mx = 0 \<or> card T < mx" "op_key a \<noteq> k" "op_key a \<in> T"
  shows "newer_than T k v (snd (recency cb mx el a l))"
proof (cases a)
  case (Set j w)
  show ?thesis
  proof (cases "j \<in> fst ` set l")
    case True
    then show ?thesis using Set newer_front(1) [OF assms(1), of j w] assms(4,5) by simp
  next
    case False
    have "without j l = l" unfolding without_def using False by (intro filter_True) auto
    then have "newer_than T k v ((j, w) # l)" using newer_front(1) [OF assms(1), of j w] Set assms(4,5) by simp
    then show ?thesis using False Set newer_cut [OF _ assms(2,3)] by (simp add: case_prod_beta)
  qed
next
  case (Get j)
  then show ?thesis using newer_front(1) [OF assms(1), of j] assms by (auto split: option.splits)
next
  case (Del j)
  then show ?thesis using newer_front(2) [OF assms(1), of j] assms by auto
qed

lemma newer_run:
  assumes "newer_than T k v l" "finite T" "mx = 0 \<or> card T < mx" "\<forall>a \<in> set ops. op_key a \<noteq> k \<and> op_key a \<in> T"
  shows "newer_than T k v (snd (run_cache (recency cb mx el) ops l))"
  using assms(1,4)
proof (induction ops arbitrary: l)
  case (Cons a ops)
  then show ?case using newer_step [OF Cons.prems(1) assms(2,3), of a cb el]
    by (auto simp: Let_def split: prod.splits) (metis snd_conv)
qed simp

text \<open>
  (C26) \<^verbatim>\<open>LruCache\<close> keeps what was used recently: after \<^verbatim>\<open>set(k, v)\<close>, as long as the operations that follow touch
  other keys and fewer of them than \<^verbatim>\<open>maxSize\<close>, \<^verbatim>\<open>get(k)\<close> finds \<open>v\<close>.
\<close>

theorem lru_keeps_recent:
  assumes "lru_ok c" "\<forall>a \<in> set ops. op_key a \<noteq> k"
    and "lc_maxSize c = 0 \<or> card (op_key ` set ops) < lc_maxSize c"
  shows "\<exists>c1 c2 c3 calls. LruCache_set k v c = (Inr calls, c1) \<and> snd (run_cache lru_exec ops c1) = c2 \<and>
    LruCache_get k c2 = (Inr (Some v), c3)"
proof -
  let ?T = "op_key ` set ops"
  obtain c1 calls where 1: "LruCache_set k v c = (Inr calls, c1)" "lru_ok c1" "same_limits c c1"
      "(Evicted calls, lru_items c1) = recency (lc_cb c) (lc_maxSize c) (lc_elasticity c) (Set k v) (lru_items c)"
    using LruCache_set_correct [OF assms(1)] by blast
  have d: "distinct (map fst (lru_items c))" using lru_okD(3) [OF assms(1)] .
  have fr: "newer_than ?T k v ((k, v) # without k (lru_items c))"
    unfolding newer_than_def using d
    by (intro conjI exI [of _ "[]"] exI [of _ "without k (lru_items c)"]) simp_all
  have "newer_than ?T k v (lru_items c1)"
  proof (cases "k \<in> fst ` set (lru_items c)")
    case True
    then show ?thesis using fr 1(4) by simp
  next
    case False
    have "without k (lru_items c) = lru_items c" unfolding without_def using False by (intro filter_True) auto
    then show ?thesis using newer_cut [of ?T k v "(k, v) # lru_items c"] fr 1(4) False assms(3)
      by (simp add: case_prod_beta)
  qed
  moreover obtain c2 where 2: "snd (run_cache lru_exec ops c1) = c2" "lru_ok c2"
      "lru_items c2 = snd (run_cache (recency (lc_cb c1) (lc_maxSize c1) (lc_elasticity c1)) ops (lru_items c1))"
    using lru_run [OF 1(2), of ops] by auto
  ultimately have "newer_than ?T k v (lru_items c2)"
    using newer_run [of ?T k v "lru_items c1" "lc_maxSize c1" ops] assms(2,3) 1(3) by (auto simp: same_limits_def)
  then show ?thesis using 1(1) 2 LruCache_get_correct [OF 2(2), of k] newer_than_map by fastforce
qed

theorem lru_keeps_recent_witness:
  "\<exists>c1 c2 c3 calls. LruCache_set 7 CHR ''x'' (new_LruCache 3 1 None :: (nat, char) lru) = (Inr calls, c1) \<and>
     snd (run_cache lru_exec [Set 1 CHR ''a'', Get 5, Set 1 CHR ''b''] c1) = c2 \<and> LruCache_get 7 c2 = (Inr (Some CHR ''x''), c3)"
proof -
  have ok: "lru_ok (new_LruCache 3 1 None :: (nat, char) lru)" "lc_maxSize (new_LruCache 3 1 None :: (nat, char) lru) = 3"
    by (simp_all add: lru_ok_def new_LruCache_def)
  show ?thesis
    by (rule lru_keeps_recent [OF ok(1)]) (simp_all add: new_LruCache_def card_insert_if)
qed

end
