(* ===== verification/OrderedSet.thy ===== *)
theory OrderedSet
  imports Prelude "HOL-Library.Product_Lexorder"
begin

text \<open>
  \<^verbatim>\<open>std::set\<close> with a comparison that compares a projection \<open>f\<close> of the elements (a pair is compared by its first
  component, then by its second): the elements in order, at most one for each value of \<open>f\<close>. The timer
  manager and the timed caches keep their deadlines in such sets.
\<close>

fun oset_insert :: "('a \<Rightarrow> 'b::linorder) \<Rightarrow> 'a \<Rightarrow> 'a list \<Rightarrow> 'a list" where
  "oset_insert f a [] = [a]"
| "oset_insert f a (x # xs) =
     (if f a < f x then a # x # xs
      else if f x < f a then x # oset_insert f a xs
      else x # xs)"

text \<open>\<^verbatim>\<open>find\<close> and \<^verbatim>\<open>erase\<close> by value: the element that is equivalent.\<close>

definition oset_find :: "('a \<Rightarrow> 'b::linorder) \<Rightarrow> 'a \<Rightarrow> 'a list \<Rightarrow> 'a option" where
  "oset_find f a xs = find (\<lambda>x. \<not> f x < f a \<and> \<not> f a < f x) xs"

definition oset_erase :: "('a \<Rightarrow> 'b::linorder) \<Rightarrow> 'a \<Rightarrow> 'a list \<Rightarrow> 'a list" where
  "oset_erase f a xs = filter (\<lambda>x. f x < f a \<or> f a < f x) xs"

definition oset :: "('a \<Rightarrow> 'b::linorder) \<Rightarrow> 'a list \<Rightarrow> bool" where
  "oset f xs \<longleftrightarrow> sorted_wrt (\<lambda>a b. f a < f b) xs"

lemma oset_Nil [simp]: "oset f []"
  by (simp add: oset_def)

lemma oset_Cons [simp]: "oset f (x # xs) \<longleftrightarrow> (\<forall>y \<in> set xs. f x < f y) \<and> oset f xs"
  by (simp add: oset_def)

lemma oset_append [simp]:
  "oset f (xs @ ys) \<longleftrightarrow> oset f xs \<and> oset f ys \<and> (\<forall>x \<in> set xs. \<forall>y \<in> set ys. f x < f y)"
  by (simp add: oset_def sorted_wrt_append)

lemma oset_distinct: "oset f xs \<Longrightarrow> distinct (map f xs)"
  by (induction xs) (auto simp: image_iff)

lemma oset_inj: "oset f xs \<Longrightarrow> x \<in> set xs \<Longrightarrow> y \<in> set xs \<Longrightarrow> f x = f y \<Longrightarrow> x = y"
  using oset_distinct [of f xs] by (auto simp: distinct_map inj_on_def)

lemma oset_filter: "oset f xs \<Longrightarrow> oset f (filter P xs)"
  by (auto simp: oset_def intro: sorted_wrt_filter)

lemma oset_cong: "(\<And>x. x \<in> set xs \<Longrightarrow> f x = g x) \<Longrightarrow> oset f xs = oset g xs"
  by (induction xs) auto

lemma set_oset_insert: "set (oset_insert f a xs) \<subseteq> insert a (set xs)"
  by (induction xs) auto

lemma oset_insert_oset: "oset f xs \<Longrightarrow> oset f (oset_insert f a xs)"
proof (induction xs)
  case (Cons x xs)
  then show ?case using set_oset_insert [of f a xs] by (auto dest: less_trans)
qed simp

lemma oset_insert_new:
  assumes "oset f xs" "f a \<notin> f ` set xs"
  shows "set (oset_insert f a xs) = insert a (set xs)" "length (oset_insert f a xs) = Suc (length xs)"
  using assms by (induction xs) auto

lemma oset_insert_old:
  assumes "oset f xs" "f a \<in> f ` set xs"
  shows "oset_insert f a xs = xs"
  using assms by (induction xs) (auto dest: less_asym)

lemma oset_find_eq:
  assumes "oset f xs"
  shows "oset_find f a xs = Some x \<longleftrightarrow> x \<in> set xs \<and> f x = f a"
  using assms unfolding oset_find_def by (induction xs) (auto simp: neq_iff)

lemma oset_find_None: "oset_find f a xs = None \<longleftrightarrow> f a \<notin> f ` set xs"
  unfolding oset_find_def find_None_iff by (auto simp: image_iff)

lemma set_oset_erase: "set (oset_erase f a xs) = {x \<in> set xs. f x \<noteq> f a}"
  by (auto simp: oset_erase_def)

lemma oset_erase_oset: "oset f xs \<Longrightarrow> oset f (oset_erase f a xs)"
  by (simp add: oset_erase_def oset_filter)

lemma length_oset_erase:
  "oset f xs \<Longrightarrow> length (oset_erase f a xs) = (if f a \<in> f ` set xs then length xs - 1 else length xs)"
proof (induction xs)
  case (Cons x xs)
  have *: "oset_erase f a xs = xs" if "f a = f x"
    using Cons.prems that unfolding oset_erase_def by (intro filter_True) auto
  show ?case
  proof (cases "f a = f x")
    case True
    then show ?thesis using * by (simp add: oset_erase_def)
  next
    case False
    have "f a \<in> f ` set xs \<Longrightarrow> 0 < length xs" by auto
    then show ?thesis using False Cons by (auto simp: oset_erase_def neq_iff)
  qed
qed (simp add: oset_erase_def)

text \<open>Two such sequences with the same elements are equal.\<close>

lemma oset_unique:
  assumes "oset f xs" "oset f ys" "set xs = set ys"
  shows "xs = ys"
  using assms
proof (induction xs arbitrary: ys)
  case (Cons x xs)
  then obtain y ys' where ys: "ys = y # ys'" by (cases ys) auto
  have "x = y"
  proof (rule ccontr)
    assume "x \<noteq> y"
    then have "x \<in> set ys'" "y \<in> set xs" using Cons.prems(3) ys by auto
    then show False using Cons.prems(1,2) ys by (auto dest: less_asym)
  qed
  moreover have "x \<notin> set xs" "y \<notin> set ys'" using Cons.prems(1,2) ys by auto
  ultimately have "set xs = set ys'" using Cons.prems(3) ys by (metis insert_ident list.simps(15))
  then show ?case using Cons ys \<open>x = y\<close> by simp
qed simp

lemma oset_takeWhile:
  "oset f xs \<Longrightarrow> (\<And>x y. f x < f y \<Longrightarrow> P y \<Longrightarrow> P x) \<Longrightarrow> takeWhile P xs = filter P xs \<and> dropWhile P xs = filter (\<lambda>x. \<not> P x) xs"
proof (induction xs)
  case (Cons x xs)
  show ?case
  proof (cases "P x")
    case True
    then show ?thesis using Cons by simp
  next
    case False
    then have "\<not> P y" if "y \<in> set xs" for y using Cons.prems that by auto
    then show ?thesis using False by (auto simp: filter_empty_conv intro!: filter_True [symmetric])
  qed
qed simp

end
