(* ===== verification/TimedCache.thy ===== *)
theory TimedCache
  imports CacheBase OrderedSet
begin

text \<open>
  \<^verbatim>\<open>TimedCache\<close> of \<^verbatim>\<open>sylar/ds/timed_cache.h\<close>: items ordered by deadline and key in a set, and a map from keys to
  iterators of the set. A node of the set has a number that stands for its address. \<open>now\<close> is what
  \<^verbatim>\<open>GetCurrentMS()\<close> returns; deadlines are \<^verbatim>\<open>uint64_t\<close> and wrap.
\<close>

record ('k, 'v) titem =
  it_key :: 'k
  it_val :: 'v
  it_ts :: u64

definition item_order :: "('k, 'v) titem \<Rightarrow> u64 \<times> 'k" where
  "item_order i = (it_ts i, it_key i)"

abbreviation node_order :: "nat \<times> ('k, 'v) titem \<Rightarrow> u64 \<times> 'k" where
  "node_order n \<equiv> item_order (snd n)"

record ('k, 'v) timed =
  tc_cache :: "('k \<times> nat) list"
  tc_timed :: "('k, 'v) titem nodes"
  tc_fresh :: nat
  tc_maxSize :: nat
  tc_elasticity :: nat
  tc_cb :: bool
  tc_status :: cache_status

section \<open>Operations\<close>

definition new_TimedCache :: "nat \<Rightarrow> nat \<Rightarrow> cache_status option \<Rightarrow> ('k, 'v) timed" where
  "new_TimedCache mx el status =
     \<lparr>tc_cache = [], tc_timed = [], tc_fresh = 0, tc_maxSize = mx, tc_elasticity = el, tc_cb = False,
      tc_status = (case status of None \<Rightarrow> new_status | Some s \<Rightarrow> s)\<rparr>"

text \<open>The loop of \<^verbatim>\<open>prune\<close>: the item with the nearest deadline goes; reading \<^verbatim>\<open>begin()\<close> of an empty set is
  undefined.\<close>

fun timed_prune_loop :: "nat \<Rightarrow> ('k \<times> nat) list \<Rightarrow> ('k, 'v) titem nodes \<Rightarrow> ('k \<times> 'v) list \<Rightarrow>
    failure + (('k \<times> nat) list \<times> ('k, 'v) titem nodes \<times> ('k \<times> 'v) list)" where
  "timed_prune_loop mx cache [] gone =
     (if length cache \<le> mx then Inr (cache, [], gone) else Inl Undefined)"
| "timed_prune_loop mx cache (n # ns) gone =
     (if length cache \<le> mx then Inr (cache, n # ns, gone)
      else timed_prune_loop mx (map_erase (it_key (snd n)) cache) ns (gone @ [(it_key (snd n), it_val (snd n))]))"

definition TimedCache_prune :: "(('k, 'v) timed, nat \<times> ('k \<times> 'v) list) action" where
  "TimedCache_prune c =
     (if tc_maxSize c = 0 \<or> length (tc_cache c) < max_allowed (tc_maxSize c) (tc_elasticity c)
      then (Inr (0, []), c)
      else case timed_prune_loop (tc_maxSize c) (tc_cache c) (tc_timed c) [] of
        Inl e \<Rightarrow> (Inl e, c)
      | Inr (cache, timed, gone) \<Rightarrow>
          (Inr (length gone, if tc_cb c then gone else []),
           c\<lparr>tc_cache := cache, tc_timed := timed, tc_status := incPrune (length gone) (tc_status c)\<rparr>))"

text \<open>\<^verbatim>\<open>m_timed.insert(item)\<close>: the iterator returned is that of the new node, or of the equivalent one that was there.\<close>

definition timed_insert :: "('k::linorder, 'v) titem \<Rightarrow> ('k, 'v) timed \<Rightarrow> nat \<times> ('k, 'v) timed" where
  "timed_insert item c =
     (let n = (tc_fresh c, item); ns = oset_insert node_order n (tc_timed c)
      in (fst (the (oset_find node_order n ns)), c\<lparr>tc_timed := ns, tc_fresh := tc_fresh c + 1\<rparr>))"

text \<open>\<^verbatim>\<open>set\<close>: an entry of the key is dropped from the map only, not from the set.\<close>

definition TimedCache_set :: "u64 \<Rightarrow> 'k::linorder \<Rightarrow> 'v \<Rightarrow> u64 \<Rightarrow> (('k, 'v) timed, ('k \<times> 'v) list) action" where
  "TimedCache_set now k v expired c =
     (let c = c\<lparr>tc_status := incSet (tc_status c)\<rparr>;
          c = (if map_of (tc_cache c) k \<noteq> None then c\<lparr>tc_cache := map_erase k (tc_cache c)\<rparr> else c);
          (i, c) = timed_insert \<lparr>it_key = k, it_val = v, it_ts = expired + now\<rparr> c;
          c = c\<lparr>tc_cache := map_insert k i (tc_cache c)\<rparr>
      in case TimedCache_prune c of (Inl e, c') \<Rightarrow> (Inl e, c') | (Inr (n, calls), c') \<Rightarrow> (Inr calls, c'))"

definition TimedCache_get :: "'k \<Rightarrow> (('k, 'v) timed, 'v option) action" where
  "TimedCache_get k c =
     (let c = c\<lparr>tc_status := incGet (tc_status c)\<rparr> in
      case map_of (tc_cache c) k of
        None \<Rightarrow> (Inr None, c)
      | Some i \<Rightarrow>
          (case map_of (tc_timed c) i of None \<Rightarrow> (Inl Undefined, c)
           | Some item \<Rightarrow> (Inr (Some (it_val item)), c\<lparr>tc_status := incHit (tc_status c)\<rparr>)))"

text \<open>\<^verbatim>\<open>del\<close> runs off its end without a return when the key was there.\<close>

definition TimedCache_del :: "'k \<Rightarrow> (('k, 'v) timed, bool) action" where
  "TimedCache_del k c =
     (let c = c\<lparr>tc_status := incDel (tc_status c)\<rparr> in
      case map_of (tc_cache c) k of
        None \<Rightarrow> (Inr False, c)
      | Some i \<Rightarrow>
          if map_of (tc_timed c) i = None then (Inl Undefined, c)
          else (Inl Undefined, c\<lparr>tc_timed := list_erase i (tc_timed c), tc_cache := map_erase k (tc_cache c),
                                 tc_status := incHit (tc_status c)\<rparr>))"

text \<open>\<^verbatim>\<open>expired\<close>: the item put back is the copy of the old one, deadline included.\<close>

definition TimedCache_expired :: "u64 \<Rightarrow> 'k::linorder \<Rightarrow> u64 \<Rightarrow> (('k, 'v) timed, bool) action" where
  "TimedCache_expired now k ts c =
     (case map_of (tc_cache c) k of
        None \<Rightarrow> (Inr False, c)
      | Some i \<Rightarrow>
          (case map_of (tc_timed c) i of None \<Rightarrow> (Inl Undefined, c)
           | Some item \<Rightarrow>
               if it_ts item = ts + now then (Inr True, c)
               else let (j, c) = timed_insert item (c\<lparr>tc_timed := list_erase i (tc_timed c)\<rparr>)
                    in (Inr True, c\<lparr>tc_cache := map (\<lambda>e. if fst e = k then (k, j) else e) (tc_cache c)\<rparr>)))"

definition TimedCache_exists :: "'k \<Rightarrow> ('k, 'v) timed \<Rightarrow> bool" where
  "TimedCache_exists k c = (map_of (tc_cache c) k \<noteq> None)"

definition TimedCache_size :: "('k, 'v) timed \<Rightarrow> nat" where
  "TimedCache_size c = length (tc_cache c)"

definition TimedCache_empty :: "('k, 'v) timed \<Rightarrow> bool" where
  "TimedCache_empty c = (tc_cache c = [])"

definition TimedCache_clear :: "('k, 'v) timed \<Rightarrow> ('k, 'v) timed" where
  "TimedCache_clear c = c\<lparr>tc_timed := [], tc_cache := []\<rparr>"

definition TimedCache_setMaxSize :: "nat \<Rightarrow> ('k, 'v) timed \<Rightarrow> ('k, 'v) timed" where
  "TimedCache_setMaxSize n c = c\<lparr>tc_maxSize := n\<rparr>"

definition TimedCache_setElasticity :: "nat \<Rightarrow> ('k, 'v) timed \<Rightarrow> ('k, 'v) timed" where
  "TimedCache_setElasticity n c = c\<lparr>tc_elasticity := n\<rparr>"

definition TimedCache_setPruneCallback :: "('k, 'v) timed \<Rightarrow> ('k, 'v) timed" where
  "TimedCache_setPruneCallback c = c\<lparr>tc_cb := True\<rparr>"

definition TimedCache_setStatus :: "cache_status option \<Rightarrow> ('k, 'v) timed \<Rightarrow> ('k, 'v) timed" where
  "TimedCache_setStatus st c = c\<lparr>tc_status := (case st of None \<Rightarrow> new_status | Some s \<Rightarrow> s)\<rparr>"

text \<open>The loop of \<^verbatim>\<open>checkTimeout\<close>: from the front as long as deadlines have passed.\<close>

fun timeout_loop :: "u64 \<Rightarrow> ('k \<times> nat) list \<Rightarrow> ('k, 'v) titem nodes \<Rightarrow> ('k \<times> 'v) list \<Rightarrow>
    ('k \<times> nat) list \<times> ('k, 'v) titem nodes \<times> ('k \<times> 'v) list" where
  "timeout_loop ts cache [] gone = (cache, [], gone)"
| "timeout_loop ts cache (n # ns) gone =
     (if it_ts (snd n) \<le> ts
      then timeout_loop ts (map_erase (it_key (snd n)) cache) ns (gone @ [(it_key (snd n), it_val (snd n))])
      else (cache, n # ns, gone))"

definition TimedCache_checkTimeout :: "u64 \<Rightarrow> ('k, 'v) timed \<Rightarrow> (nat \<times> ('k \<times> 'v) list) \<times> ('k, 'v) timed" where
  "TimedCache_checkTimeout ts c =
     (let (cache, timed, gone) = timeout_loop ts (tc_cache c) (tc_timed c) []
      in ((length gone, if tc_cb c then gone else []), c\<lparr>tc_cache := cache, tc_timed := timed\<rparr>))"

section \<open>Invariant\<close>

text \<open>Every entry of the map is a live node of its key. (A node need not be entered: see \<^verbatim>\<open>set\<close>.)\<close>

definition tc_ok :: "('k::linorder, 'v) timed \<Rightarrow> bool" where
  "tc_ok c \<longleftrightarrow> distinct (map fst (tc_cache c)) \<and> distinct (map fst (tc_timed c)) \<and>
     oset node_order (tc_timed c) \<and> (\<forall>n \<in> set (tc_timed c). fst n < tc_fresh c) \<and>
     (\<forall>k i. map_of (tc_cache c) k = Some i \<longrightarrow> (\<exists>item. (i, item) \<in> set (tc_timed c) \<and> it_key item = k))"

definition live :: "('k \<times> nat) list \<Rightarrow> ('k, 'v) titem nodes \<Rightarrow> bool" where
  "live cache ns \<longleftrightarrow> distinct (map fst cache) \<and>
     (\<forall>k i. map_of cache k = Some i \<longrightarrow> (\<exists>item. (i, item) \<in> set ns \<and> it_key item = k))"

lemma tc_ok_live:
  "tc_ok c \<longleftrightarrow> live (tc_cache c) (tc_timed c) \<and> distinct (map fst (tc_timed c)) \<and>
     oset node_order (tc_timed c) \<and> (\<forall>n \<in> set (tc_timed c). fst n < tc_fresh c)"
  by (auto simp: tc_ok_def live_def)

lemma live_erase:
  assumes "live cache (n # ns)"
  shows "live (map_erase (it_key (snd n)) cache) ns"
  using assms unfolding live_def by (auto simp: cache_simps) fastforce

lemma live_Nil: "live cache [] \<Longrightarrow> cache = []"
  by (cases cache) (auto simp: live_def split: if_splits)

lemma live_entry: "live cache ns \<Longrightarrow> map_of cache k = Some i \<Longrightarrow> \<exists>item. (i, item) \<in> set ns \<and> it_key item = k"
  by (simp add: live_def)

lemma timed_prune_loop_ok:
  assumes "live cache ns"
  shows "\<exists>cache' ns' gone' xs. timed_prune_loop mx cache ns gone = Inr (cache', ns', gone') \<and> live cache' ns' \<and>
    ns = xs @ ns' \<and> length cache' \<le> mx \<and> (\<forall>k i. map_of cache' k = Some i \<longrightarrow> map_of cache k = Some i)"
  using assms
proof (induction mx cache ns gone rule: timed_prune_loop.induct)
  case (1 mx cache gone)
  then show ?case using live_Nil [OF "1"] by (auto simp: live_def)
next
  case (2 mx cache n ns gone)
  show ?case
  proof (cases "length cache \<le> mx")
    case True
    then show ?thesis using "2.prems" by fastforce
  next
    case False
    then obtain cache' ns' gone' xs where "timed_prune_loop mx (map_erase (it_key (snd n)) cache) ns (gone @ [(it_key (snd n), it_val (snd n))]) = Inr (cache', ns', gone')"
        "live cache' ns'" "ns = xs @ ns'" "length cache' \<le> mx" "\<forall>k i. map_of cache' k = Some i \<longrightarrow> map_of (map_erase (it_key (snd n)) cache) k = Some i"
      using "2.IH" [OF False live_erase [OF "2.prems"]] by blast
    note l = this
    have "map_of cache k = Some i" if "map_of cache' k = Some i" for k i
      using l(5) [rule_format, OF that] by (simp add: cache_simps split: if_splits)
    then show ?thesis using False l(1-4) by (intro exI [of _ cache'] exI [of _ ns'] exI [of _ gone'] exI [of _ "n # xs"]) simp
  qed
qed

text \<open>The bound that pruning establishes.\<close>

definition tc_within :: "('k, 'v) timed \<Rightarrow> ('k, 'v) timed \<Rightarrow> bool" where
  "tc_within c c' \<longleftrightarrow> tc_maxSize c = 0 \<or> TimedCache_size c' \<le> tc_maxSize c \<or>
     TimedCache_size c' < max_allowed (tc_maxSize c) (tc_elasticity c)"

lemma TimedCache_prune_ok:
  assumes "tc_ok c"
  obtains n calls c' where "TimedCache_prune c = (Inr (n, calls), c')" "tc_ok c'"
    "tc_maxSize c = 0 \<longrightarrow> c' = c" "set (tc_timed c') \<subseteq> set (tc_timed c)"
    "\<forall>k i. map_of (tc_cache c') k = Some i \<longrightarrow> map_of (tc_cache c) k = Some i" "tc_within c c'"
proof (cases "tc_maxSize c = 0 \<or> length (tc_cache c) < max_allowed (tc_maxSize c) (tc_elasticity c)")
  case True
  then have p: "TimedCache_prune c = (Inr (0, []), c)" by (simp add: TimedCache_prune_def)
  have "tc_within c c" using True by (auto simp: tc_within_def TimedCache_size_def)
  then show ?thesis using assms by (intro that [OF p]) simp_all
next
  case False
  have lv: "live (tc_cache c) (tc_timed c)" using assms by (simp add: tc_ok_live)
  obtain cache' ns' gone' xs where l: "timed_prune_loop (tc_maxSize c) (tc_cache c) (tc_timed c) [] = Inr (cache', ns', gone')"
      "live cache' ns'" "tc_timed c = xs @ ns'" "length cache' \<le> tc_maxSize c"
      "\<forall>k i. map_of cache' k = Some i \<longrightarrow> map_of (tc_cache c) k = Some i"
    using timed_prune_loop_ok [OF lv, of "tc_maxSize c" "[]"] by (elim exE conjE) (rule that)
  have t: "distinct (map fst ns')" "oset node_order ns'" "\<forall>n \<in> set ns'. fst n < tc_fresh c"
    using assms by (auto simp: tc_ok_live l(3))
  define c' where "c' = c\<lparr>tc_cache := cache', tc_timed := ns', tc_status := incPrune (length gone') (tc_status c)\<rparr>"
  have p: "TimedCache_prune c = (Inr (length gone', if tc_cb c then gone' else []), c')"
    using False by (simp add: TimedCache_prune_def l(1) c'_def)
  have "tc_ok c'" using t l(2) by (simp add: tc_ok_live c'_def)
  moreover have "set (tc_timed c') \<subseteq> set (tc_timed c)" by (simp add: c'_def l(3))
  moreover have "tc_within c c'" using l(4) by (simp add: tc_within_def TimedCache_size_def c'_def)
  ultimately show ?thesis using False l(5) by (intro that [OF p]) (simp_all add: c'_def)
qed

text \<open>Inserting an item gives a live node of its key, with its deadline, and keeps every other node.\<close>

lemma timed_insert_ok:
  assumes "distinct (map fst (tc_timed c))" "oset node_order (tc_timed c)" "\<forall>n \<in> set (tc_timed c). fst n < tc_fresh c"
  obtains i item' c' where "timed_insert item c = (i, c')" "(i, item') \<in> set (tc_timed c')"
    "it_key item' = it_key item" "it_ts item' = it_ts item"
    "set (tc_timed c) \<subseteq> set (tc_timed c')" "set (tc_timed c') \<subseteq> insert (tc_fresh c, item) (set (tc_timed c))"
    "distinct (map fst (tc_timed c'))" "oset node_order (tc_timed c')"
    "\<forall>n \<in> set (tc_timed c'). fst n < tc_fresh c'" "tc_cache c' = tc_cache c" "tc_maxSize c' = tc_maxSize c"
    "tc_elasticity c' = tc_elasticity c" "item_order item \<notin> node_order ` set (tc_timed c) \<longrightarrow> item' = item"
proof -
  define n where "n = (tc_fresh c, item)"
  define ns where "ns = oset_insert node_order n (tc_timed c)"
  have n: "fst n = tc_fresh c" "snd n = item" by (simp_all add: n_def)
  have os: "oset node_order ns" unfolding ns_def using assms(2) by (rule oset_insert_oset)
  have sub: "set ns \<subseteq> insert n (set (tc_timed c))" unfolding ns_def by (rule set_oset_insert)
  have "distinct (map fst ns) \<and> set (tc_timed c) \<subseteq> set ns \<and> node_order n \<in> node_order ` set ns \<and>
        (item_order item \<notin> node_order ` set (tc_timed c) \<longrightarrow> n \<in> set ns)"
  proof (cases "node_order n \<in> node_order ` set (tc_timed c)")
    case True
    then have "ns = tc_timed c" unfolding ns_def by (rule oset_insert_old [OF assms(2)])
    then show ?thesis
      using True assms(1) n(2) by (simp only:) blast
  next
    case False
    have s: "set ns = insert n (set (tc_timed c))" "length ns = Suc (length (tc_timed c))"
      unfolding ns_def by (rule oset_insert_new [OF assms(2) False])+
    have new: "fst n \<notin> fst ` set (tc_timed c)" using assms(3) n(1) by auto
    have "card (fst ` set ns) = length ns"
      using new distinct_card [OF assms(1)] by (simp add: s card_insert_if)
    then have "distinct (map fst ns)" by (metis card_distinct length_map set_map)
    then show ?thesis
      using s(1) by blast
  qed
  then have d: "distinct (map fst ns)" "set (tc_timed c) \<subseteq> set ns" "node_order n \<in> node_order ` set ns"
    "item_order item \<notin> node_order ` set (tc_timed c) \<longrightarrow> n \<in> set ns" by blast+
  obtain m where mo: "node_order n = node_order m" and m: "m \<in> set ns" using d(3) by (rule imageE)
  have f: "oset_find node_order n ns = Some m" using oset_find_eq [OF os] m mo by metis
  have mk: "it_key (snd m) = it_key item" "it_ts (snd m) = it_ts item"
    using mo n(2) by (simp_all add: item_order_def)
  have same: "snd m = item" if new: "item_order item \<notin> node_order ` set (tc_timed c)"
  proof -
    have "n \<in> set ns" using d(4) new by blast
    then have "m = n" using mo by (intro oset_inj [OF os m]) simp_all
    then show ?thesis using n(2) by simp
  qed
  have fresh: "\<forall>x \<in> set ns. fst x < tc_fresh c + 1" using assms(3) sub n(1) by fastforce
  have ti: "timed_insert item c = (fst m, c\<lparr>tc_timed := ns, tc_fresh := tc_fresh c + 1\<rparr>)"
    using f unfolding n_def ns_def by (simp add: timed_insert_def Let_def)
  show ?thesis
    by (rule that [OF ti, of "snd m"]) (use d os m mk same fresh sub in \<open>simp_all add: n_def\<close>)
qed

lemma live_mono: "live cache ns \<Longrightarrow> set ns \<subseteq> set ns' \<Longrightarrow> live cache ns'"
  unfolding live_def by blast

lemma live_map_erase: "live cache ns \<Longrightarrow> live (map_erase k cache) ns"
  by (auto simp: live_def cache_simps split: if_splits)

lemma live_map_insert:
  assumes "live cache ns" "map_of cache k = None" "(i, item) \<in> set ns" "it_key item = k"
  shows "live (map_insert k i cache) ns"
  using assms unfolding live_def by (auto simp: cache_simps)

text \<open>The state of \<^verbatim>\<open>set\<close> before it prunes: the key is entered with its new deadline, and the nodes that were there,
  also one of the same key, are still there.\<close>

lemma TimedCache_set_ok:
  assumes "tc_ok c"
  obtains c1 i item where "tc_ok c1" "map_of (tc_cache c1) k = Some i" "(i, item) \<in> set (tc_timed c1)"
    "it_key item = k" "it_ts item = expired + now" "set (tc_timed c) \<subseteq> set (tc_timed c1)"
    "(expired + now, k) \<notin> node_order ` set (tc_timed c) \<Longrightarrow> it_val item = v"
    "tc_maxSize c1 = tc_maxSize c" "tc_elasticity c1 = tc_elasticity c"
    "\<And>j. j \<noteq> k \<Longrightarrow> map_of (tc_cache c1) j = map_of (tc_cache c) j"
    "TimedCache_set now k v expired c =
       (case TimedCache_prune c1 of (Inl e, c') \<Rightarrow> (Inl e, c') | (Inr (n, calls), c') \<Rightarrow> (Inr calls, c'))"
proof -
  define c0 where "c0 = c\<lparr>tc_status := incSet (tc_status c), tc_cache := map_erase k (tc_cache c)\<rparr>"
  note ok = assms [unfolded tc_ok_live]
  have drop: "(if map_of (tc_cache c) k \<noteq> None
      then c\<lparr>tc_status := incSet (tc_status c), tc_cache := map_erase k (tc_cache c)\<rparr>
      else c\<lparr>tc_status := incSet (tc_status c)\<rparr>) = c0"
  proof (cases "map_of (tc_cache c) k")
    case None
    then have "map_erase k (tc_cache c) = tc_cache c"
      unfolding map_erase_def map_of_eq_None_iff by (intro filter_True) auto
    then show ?thesis by (simp add: c0_def)
  qed (simp add: c0_def)
  let ?item = "\<lparr>it_key = k, it_val = v, it_ts = expired + now\<rparr>"
  have c0: "distinct (map fst (tc_timed c0))" "oset node_order (tc_timed c0)" "\<forall>n \<in> set (tc_timed c0). fst n < tc_fresh c0"
    "tc_timed c0 = tc_timed c" using ok by (simp_all add: c0_def)
  obtain i item' c' where i: "timed_insert ?item c0 = (i, c')" "(i, item') \<in> set (tc_timed c')"
    "it_key item' = it_key ?item" "it_ts item' = it_ts ?item" "set (tc_timed c0) \<subseteq> set (tc_timed c')"
    "set (tc_timed c') \<subseteq> insert (tc_fresh c0, ?item) (set (tc_timed c0))" "distinct (map fst (tc_timed c'))" "oset node_order (tc_timed c')"
    "\<forall>n \<in> set (tc_timed c'). fst n < tc_fresh c'" "tc_cache c' = tc_cache c0" "tc_maxSize c' = tc_maxSize c0"
    "tc_elasticity c' = tc_elasticity c0" "item_order ?item \<notin> node_order ` set (tc_timed c0) \<longrightarrow> item' = ?item"
    by (rule timed_insert_ok [OF c0(1-3), of ?item])
  have cache: "tc_cache c0 = map_erase k (tc_cache c)" by (simp add: c0_def)
  define c1 where "c1 = c'\<lparr>tc_cache := map_insert k i (map_erase k (tc_cache c))\<rparr>"
  have l0: "live (map_erase k (tc_cache c)) (tc_timed c')"
    using ok i(5) c0(4) live_map_erase [of "tc_cache c" "tc_timed c"] live_mono by metis
  have none: "map_of (map_erase k (tc_cache c)) k = None" by (simp add: cache_simps)
  have key: "it_key item' = k" "it_ts item' = expired + now" using i(3,4) by simp_all
  have ok1: "tc_ok c1" using live_map_insert [OF l0 none i(2) key(1)] i(7-9) by (simp add: tc_ok_live c1_def)
  have look: "map_of (tc_cache c1) j = (if j = k then Some i else map_of (tc_cache c) j)" for j
    using none by (simp add: c1_def cache_simps)
  have val: "it_val item' = v" if "(expired + now, k) \<notin> node_order ` set (tc_timed c)"
    using i(13) that c0(4) by (simp add: item_order_def)
  have set: "TimedCache_set now k v expired c =
      (case TimedCache_prune c1 of (Inl e, c') \<Rightarrow> (Inl e, c') | (Inr (n, calls), c') \<Rightarrow> (Inr calls, c'))"
  proof -
    have sel: "tc_cache (c\<lparr>tc_status := st\<rparr>) = tc_cache c" for st by simp
    show ?thesis unfolding TimedCache_set_def Let_def sel drop i(1) split_conv c1_def i(10) cache ..
  qed
  show ?thesis
    by (rule that [OF ok1 _ _ key _ val _ _ _ set])
      (use i(2,5,11,12) c0(4) look in \<open>simp_all add: c1_def c0_def\<close>)
qed

lemma TimedCache_get_ok:
  assumes "tc_ok c"
  shows "\<exists>c'. TimedCache_get k c =
      (Inr (case map_of (tc_cache c) k of None \<Rightarrow> None | Some i \<Rightarrow> map_option it_val (map_of (tc_timed c) i)), c') \<and>
    tc_ok c' \<and> tc_cache c' = tc_cache c \<and> tc_timed c' = tc_timed c"
proof (cases "map_of (tc_cache c) k")
  case None
  then show ?thesis using assms by (simp add: TimedCache_get_def tc_ok_def)
next
  case (Some i)
  obtain item where "map_of (tc_timed c) i = Some item"
    using live_entry [of "tc_cache c" "tc_timed c" k i] Some assms unfolding tc_ok_live by force
  then show ?thesis using Some assms by (simp add: TimedCache_get_def tc_ok_def)
qed

lemma timeout_loop_eq:
  "timeout_loop ts cache ns gone =
     (fold (\<lambda>n. map_erase (it_key (snd n))) (takeWhile (\<lambda>n. it_ts (snd n) \<le> ts) ns) cache,
      dropWhile (\<lambda>n. it_ts (snd n) \<le> ts) ns,
      gone @ map (\<lambda>n. (it_key (snd n), it_val (snd n))) (takeWhile (\<lambda>n. it_ts (snd n) \<le> ts) ns))"
  by (induction ts cache ns gone rule: timeout_loop.induct) simp_all

lemma live_fold_erase:
  "live cache (xs @ ys) \<Longrightarrow> live (fold (\<lambda>n. map_erase (it_key (snd n))) xs cache) ys"
  by (induction xs arbitrary: cache) (auto dest: live_erase)

lemma map_of_fold_erase:
  "map_of (fold (\<lambda>n. map_erase (it_key (snd n))) xs cache) k =
     (if k \<in> (\<lambda>n. it_key (snd n)) ` set xs then None else map_of cache k)"
  by (induction xs arbitrary: cache) (auto simp: cache_simps)

lemma passed_deadlines:
  assumes "oset node_order ns"
  shows "takeWhile (\<lambda>n. it_ts (snd n) \<le> ts) ns = filter (\<lambda>n. it_ts (snd n) \<le> ts) ns"
    "dropWhile (\<lambda>n. it_ts (snd n) \<le> ts) ns = filter (\<lambda>n. \<not> it_ts (snd n) \<le> ts) ns"
proof -
  have mono: "it_ts (snd x) \<le> ts" if "node_order x < node_order y" "it_ts (snd y) \<le> ts"
    for x y :: "nat \<times> ('a, 'b) titem"
  proof -
    have "it_ts (snd x) \<le> it_ts (snd y)" using that(1) by (auto simp: item_order_def)
    then show ?thesis using that(2) by (rule order_trans)
  qed
  show "takeWhile (\<lambda>n. it_ts (snd n) \<le> ts) ns = filter (\<lambda>n. it_ts (snd n) \<le> ts) ns"
    "dropWhile (\<lambda>n. it_ts (snd n) \<le> ts) ns = filter (\<lambda>n. \<not> it_ts (snd n) \<le> ts) ns"
    using oset_takeWhile [OF assms, of "\<lambda>n. it_ts (snd n) \<le> ts"] mono by blast+
qed

lemma TimedCache_checkTimeout_ok:
  assumes "tc_ok c"
  obtains c' where "TimedCache_checkTimeout ts c =
      ((length (filter (\<lambda>n. it_ts (snd n) \<le> ts) (tc_timed c)),
        if tc_cb c then map (\<lambda>n. (it_key (snd n), it_val (snd n))) (filter (\<lambda>n. it_ts (snd n) \<le> ts) (tc_timed c)) else []), c')"
    "tc_ok c'" "tc_timed c' = filter (\<lambda>n. \<not> it_ts (snd n) \<le> ts) (tc_timed c)" "tc_maxSize c' = tc_maxSize c" "tc_elasticity c' = tc_elasticity c"
    "\<And>k. map_of (tc_cache c') k = (if \<exists>n \<in> set (tc_timed c). it_key (snd n) = k \<and> it_ts (snd n) \<le> ts then None else map_of (tc_cache c) k)"
proof -
  note ok = assms [unfolded tc_ok_live]
  let ?P = "\<lambda>n. it_ts (snd n) \<le> ts"
  let ?cache = "fold (\<lambda>n. map_erase (it_key (snd n))) (filter ?P (tc_timed c)) (tc_cache c)"
  let ?c' = "c\<lparr>tc_cache := ?cache, tc_timed := filter (\<lambda>n. \<not> ?P n) (tc_timed c)\<rparr>"
  have os: "oset node_order (tc_timed c)" using ok by blast
  have "tc_timed c = filter ?P (tc_timed c) @ filter (\<lambda>n. \<not> ?P n) (tc_timed c)"
    using takeWhile_dropWhile_id [of ?P "tc_timed c"] by (simp only: passed_deadlines [OF os])
  then have "live ?cache (filter (\<lambda>n. \<not> ?P n) (tc_timed c))" using ok by (metis live_fold_erase)
  then have "tc_ok ?c'" using ok by (auto simp: tc_ok_live distinct_map_filter oset_filter)
  moreover have "TimedCache_checkTimeout ts c = ((length (filter ?P (tc_timed c)),
        if tc_cb c then map (\<lambda>n. (it_key (snd n), it_val (snd n))) (filter ?P (tc_timed c)) else []), ?c')"
    by (simp add: TimedCache_checkTimeout_def timeout_loop_eq passed_deadlines [OF os])
  moreover have "map_of (tc_cache ?c') k = (if \<exists>n \<in> set (tc_timed c). it_key (snd n) = k \<and> ?P n then None else map_of (tc_cache c) k)" for k
    by (auto simp: map_of_fold_erase)
  ultimately show ?thesis by (intro that [of ?c']) simp_all
qed

lemma live_without_node:
  assumes "live cache ns" "distinct (map fst ns)" "(i, item) \<in> set ns" "it_key item = k"
  shows "live (map_erase k cache) (list_erase i ns)"
  unfolding live_def
proof (intro conjI allI impI)
  show "distinct (map fst (map_erase k cache))" using assms(1) by (simp add: live_def cache_simps)
  fix j l assume "map_of (map_erase k cache) j = Some l"
  then have j: "j \<noteq> k" "map_of cache j = Some l" by (auto simp: cache_simps split: if_splits)
  then obtain it where it: "(l, it) \<in> set ns" "it_key it = j" using live_entry [OF assms(1)] by blast
  have "l \<noteq> i" using it assms(2-4) j(1) by (metis eq_key_imp_eq_value)
  then show "\<exists>item. (l, item) \<in> set (list_erase i ns) \<and> it_key item = j" using it by (auto simp: list_erase_def)
qed

lemma list_erase_props:
  assumes "distinct (map fst ns)" "oset node_order ns" "\<forall>n \<in> set ns. fst n < (m :: nat)"
  shows "distinct (map fst (list_erase i ns))" "oset node_order (list_erase i ns)" "\<forall>n \<in> set (list_erase i ns). fst n < m"
proof -
  show "distinct (map fst (list_erase i ns))" unfolding list_erase_def using assms(1) by (rule distinct_map_filter)
  show "oset node_order (list_erase i ns)" unfolding list_erase_def using assms(2) by (rule oset_filter)
  show "\<forall>n \<in> set (list_erase i ns). fst n < m" unfolding list_erase_def using assms(3) by simp
qed

lemma tc_entry:
  assumes "tc_ok c" "map_of (tc_cache c) k = Some i"
  obtains item where "(i, item) \<in> set (tc_timed c)" "it_key item = k" "map_of (tc_timed c) i = Some item"
    "live (map_erase k (tc_cache c)) (list_erase i (tc_timed c))"
    "distinct (map fst (list_erase i (tc_timed c)))" "oset node_order (list_erase i (tc_timed c))"
    "\<forall>n \<in> set (list_erase i (tc_timed c)). fst n < tc_fresh c"
proof -
  have ok: "live (tc_cache c) (tc_timed c)" "distinct (map fst (tc_timed c))" "oset node_order (tc_timed c)"
    "\<forall>n \<in> set (tc_timed c). fst n < tc_fresh c" using assms(1) unfolding tc_ok_live by blast+
  obtain item where it: "(i, item) \<in> set (tc_timed c)" "it_key item = k" using live_entry [OF ok(1) assms(2)] by blast
  show ?thesis
    by (rule that [OF it map_of_is_SomeI [OF ok(2) it(1)] live_without_node [OF ok(1,2) it] list_erase_props [OF ok(2-4)]])
qed

lemma TimedCache_del_ok:
  assumes "tc_ok c"
  shows "tc_ok (snd (TimedCache_del k c)) \<and> map_of (tc_cache (snd (TimedCache_del k c))) k = None"
proof (cases "map_of (tc_cache c) k")
  case None
  then show ?thesis using assms by (simp add: TimedCache_del_def tc_ok_def)
next
  case (Some i)
  obtain item where "map_of (tc_timed c) i = Some item" "live (map_erase k (tc_cache c)) (list_erase i (tc_timed c))"
    "distinct (map fst (list_erase i (tc_timed c)))" "oset node_order (list_erase i (tc_timed c))"
    "\<forall>n \<in> set (list_erase i (tc_timed c)). fst n < tc_fresh c"
    using tc_entry [OF assms Some] by metis
  then show ?thesis using Some by (simp add: TimedCache_del_def tc_ok_live cache_simps)
qed

lemma map_of_replace:
  "map_of (map (\<lambda>e. if fst e = k then (k, j) else e) m) l = (if l = k \<and> map_of m k \<noteq> None then Some j else map_of m l)"
proof (induction m)
  case (Cons e m)
  then show ?case by (cases e; cases "l = k") auto
qed simp

lemma TimedCache_expired_ok:
  assumes "tc_ok c"
  obtains c' where "TimedCache_expired now k ts c = (Inr (TimedCache_exists k c), c')" "tc_ok c'"
    "map snd (tc_timed c') = map snd (tc_timed c)" "fst ` set (tc_cache c') = fst ` set (tc_cache c)"
proof (cases "map_of (tc_cache c) k")
  case None
  then show ?thesis using assms by (intro that [of c]) (simp_all add: TimedCache_expired_def TimedCache_exists_def)
next
  case (Some i)
  have ok: "distinct (map fst (tc_timed c))" "oset node_order (tc_timed c)" "distinct (map fst (tc_cache c))"
    using assms unfolding tc_ok_def by blast+
  obtain item where it: "(i, item) \<in> set (tc_timed c)" "it_key item = k" and mi: "map_of (tc_timed c) i = Some item"
    and lv0: "live (map_erase k (tc_cache c)) (list_erase i (tc_timed c))"
    and er: "distinct (map fst (list_erase i (tc_timed c)))" "oset node_order (list_erase i (tc_timed c))"
      "\<forall>n \<in> set (list_erase i (tc_timed c)). fst n < tc_fresh c"
    by (rule tc_entry [OF assms Some])
  show ?thesis
  proof (cases "it_ts item = ts + now")
    case True
    then show ?thesis using assms Some mi by (intro that [of c]) (simp_all add: TimedCache_expired_def TimedCache_exists_def)
  next
    case False
    define c0 where "c0 = c\<lparr>tc_timed := list_erase i (tc_timed c)\<rparr>"
    have c0: "distinct (map fst (tc_timed c0))" "oset node_order (tc_timed c0)" "\<forall>n \<in> set (tc_timed c0). fst n < tc_fresh c0"
      using er by (simp_all add: c0_def)
    obtain j c1 item' where j: "timed_insert item c0 = (j, c1)" "(j, item') \<in> set (tc_timed c1)"
      "it_key item' = it_key item" "it_ts item' = it_ts item" "set (tc_timed c0) \<subseteq> set (tc_timed c1)"
      "set (tc_timed c1) \<subseteq> insert (tc_fresh c0, item) (set (tc_timed c0))" "distinct (map fst (tc_timed c1))"
      "oset node_order (tc_timed c1)" "\<forall>n \<in> set (tc_timed c1). fst n < tc_fresh c1" "tc_cache c1 = tc_cache c0"
      "tc_maxSize c1 = tc_maxSize c0" "tc_elasticity c1 = tc_elasticity c0"
      "item_order item \<notin> node_order ` set (tc_timed c0) \<longrightarrow> item' = item"
      by (rule timed_insert_ok [OF c0, of item])
    have rest: "set (tc_timed c0) = set (tc_timed c) - {(i, item)}"
    proof -
      have "fst n \<noteq> i \<longleftrightarrow> n \<noteq> (i, item)" if n: "n \<in> set (tc_timed c)" for n
        using eq_key_imp_eq_value [OF ok(1) it(1), of "snd n"] n by (cases n) auto
      then show ?thesis by (auto simp: c0_def list_erase_def simp del: split_paired_All)
    qed
    have "item_order item \<notin> node_order ` set (tc_timed c0)"
    proof
      assume "item_order item \<in> node_order ` set (tc_timed c0)"
      then obtain m where m: "item_order item = node_order m" "m \<in> set (tc_timed c)" "m \<noteq> (i, item)"
        unfolding rest by blast
      then show False using oset_inj [OF ok(2) it(1) m(2)] by simp
    qed
    then have item': "item' = item" using j(13) by blast
    have "snd ` set (tc_timed c1) \<subseteq> insert item (snd ` set (tc_timed c0))" using image_mono [OF j(6), of snd] by simp
    moreover have "insert item (snd ` set (tc_timed c0)) \<subseteq> snd ` set (tc_timed c1)"
      using image_mono [OF j(5), of snd] imageI [OF j(2), of snd] item' by simp
    moreover have "set (tc_timed c) = insert (i, item) (set (tc_timed c0))" using rest it(1) by blast
    ultimately have "snd ` set (tc_timed c1) = snd ` set (tc_timed c)" by simp
    then have same: "map snd (tc_timed c1) = map snd (tc_timed c)"
      using j(8) ok(2) by (intro oset_unique [of item_order]) (simp_all add: oset_def sorted_wrt_map)
    define c' where "c' = c1\<lparr>tc_cache := map (\<lambda>e. if fst e = k then (k, j) else e) (tc_cache c1)\<rparr>"
    have keys: "map fst (tc_cache c') = map fst (tc_cache c)" using j(10) by (simp add: c'_def c0_def comp_def if_distrib cong: if_cong)
    have lv: "live (map_erase k (tc_cache c)) (tc_timed c1)"
      using live_mono [OF lv0] j(5) by (simp add: c0_def)
    have "live (tc_cache c') (tc_timed c1)"
      unfolding live_def
    proof (intro conjI allI impI)
      show "distinct (map fst (tc_cache c'))" unfolding keys by (rule ok(3))
      fix l n assume "map_of (tc_cache c') l = Some n"
      then have "l = k \<and> n = j \<or> l \<noteq> k \<and> map_of (map_erase k (tc_cache c)) l = Some n"
        using Some j(10) by (simp add: c'_def c0_def map_of_replace map_of_erase split: if_splits)
      then show "\<exists>item. (n, item) \<in> set (tc_timed c1) \<and> it_key item = l"
        using live_entry [OF lv, of l n] j(2,3) it(2) by blast
    qed
    then have "tc_ok c'" using j(7-9) by (simp add: tc_ok_live c'_def)
    moreover have "TimedCache_expired now k ts c = (Inr True, c')"
      using Some mi False j(1) by (simp add: TimedCache_expired_def c0_def c'_def)
    moreover have "TimedCache_exists k c = True" using Some by (simp add: TimedCache_exists_def)
    moreover have "map snd (tc_timed c') = map snd (tc_timed c)" using same by (simp add: c'_def)
    moreover have "fst ` set (tc_cache c') = fst ` set (tc_cache c)" using keys by (metis set_map)
    ultimately show ?thesis using that [of c'] by metis
  qed
qed

section \<open>Reachable states\<close>

inductive tc_reach :: "('k::linorder, 'v) timed \<Rightarrow> bool" where
  new: "tc_reach (new_TimedCache mx el st)"
| set: "tc_reach c \<Longrightarrow> TimedCache_set now k v expired c = (r, c') \<Longrightarrow> tc_reach c'"
| get: "tc_reach c \<Longrightarrow> TimedCache_get k c = (r, c') \<Longrightarrow> tc_reach c'"
| del: "tc_reach c \<Longrightarrow> TimedCache_del k c = (r, c') \<Longrightarrow> tc_reach c'"
| expired: "tc_reach c \<Longrightarrow> TimedCache_expired now k ts c = (r, c') \<Longrightarrow> tc_reach c'"
| timeout: "tc_reach c \<Longrightarrow> TimedCache_checkTimeout ts c = (r, c') \<Longrightarrow> tc_reach c'"
| clear: "tc_reach c \<Longrightarrow> tc_reach (TimedCache_clear c)"
| max_size: "tc_reach c \<Longrightarrow> tc_reach (TimedCache_setMaxSize n c)"
| elasticity: "tc_reach c \<Longrightarrow> tc_reach (TimedCache_setElasticity n c)"
| callback: "tc_reach c \<Longrightarrow> tc_reach (TimedCache_setPruneCallback c)"
| status: "tc_reach c \<Longrightarrow> tc_reach (TimedCache_setStatus st c)"

text \<open>The entry that \<^verbatim>\<open>set\<close> leaves, if pruning did not remove it again.\<close>

definition entered :: "'k \<Rightarrow> 'v \<Rightarrow> u64 \<Rightarrow> ('k::linorder, 'v) timed \<Rightarrow> ('k, 'v) timed \<Rightarrow> bool" where
  "entered k v deadline c c' \<longleftrightarrow> (\<forall>i. map_of (tc_cache c') k = Some i \<longrightarrow> (\<exists>item. map_of (tc_timed c') i = Some item \<and>
     it_key item = k \<and> it_ts item = deadline \<and> ((deadline, k) \<notin> node_order ` set (tc_timed c) \<longrightarrow> it_val item = v)))"

lemma TimedCache_set_returns:
  assumes "tc_ok c"
  obtains calls c' where "TimedCache_set now k v expired c = (Inr calls, c')" "tc_ok c'" "entered k v (expired + now) c c'"
    "tc_maxSize c = 0 \<longrightarrow> TimedCache_exists k c'" "tc_within c c'"
proof -
  obtain c1 i item where c1: "tc_ok c1" "map_of (tc_cache c1) k = Some i" "(i, item) \<in> set (tc_timed c1)"
    "it_key item = k" "it_ts item = expired + now" "(expired + now, k) \<notin> node_order ` set (tc_timed c) \<longrightarrow> it_val item = v"
    "tc_maxSize c1 = tc_maxSize c" "tc_elasticity c1 = tc_elasticity c"
    "TimedCache_set now k v expired c =
       (case TimedCache_prune c1 of (Inl e, c') \<Rightarrow> (Inl e, c') | (Inr (n, calls), c') \<Rightarrow> (Inr calls, c'))"
    by (rule TimedCache_set_ok [OF assms, of k expired now v]) blast
  obtain n calls c' where p: "TimedCache_prune c1 = (Inr (n, calls), c')" "tc_ok c'"
    "tc_maxSize c1 = 0 \<longrightarrow> c' = c1" "set (tc_timed c') \<subseteq> set (tc_timed c1)"
    "\<forall>k i. map_of (tc_cache c') k = Some i \<longrightarrow> map_of (tc_cache c1) k = Some i" "tc_within c1 c'"
    by (rule TimedCache_prune_ok [OF c1(1)])
  have "map_of (tc_timed c') j = Some item" if j: "map_of (tc_cache c') k = Some j" for j
  proof -
    have ji: "j = i" using j p(5) c1(2) by simp
    obtain item' where it: "map_of (tc_timed c') j = Some item'" "(j, item') \<in> set (tc_timed c')" using tc_entry [OF p(2) j] by metis
    have "distinct (map fst (tc_timed c1))" using c1(1) by (simp add: tc_ok_def)
    then have "item' = item" using it(2) p(4) c1(3) ji by (metis eq_key_imp_eq_value subsetD)
    then show ?thesis using it(1) by simp
  qed
  then have "entered k v (expired + now) c c'" using c1(4-6) by (simp add: entered_def)
  moreover have "tc_maxSize c = 0 \<longrightarrow> TimedCache_exists k c'" using p(3) c1(2,7) by (simp add: TimedCache_exists_def)
  moreover have "tc_within c c'" using p(6) c1(7,8) by (simp add: tc_within_def)
  moreover have "TimedCache_set now k v expired c = (Inr calls, c')" using c1(9) p(1) by simp
  ultimately show ?thesis using p(2) by (intro that)
qed

lemma tc_reach_ok: "tc_reach c \<Longrightarrow> tc_ok c"
proof (induction rule: tc_reach.induct)
  case (new mx el st)
  then show ?case by (simp add: tc_ok_def new_TimedCache_def)
next
  case (set c now k v expired r c')
  show ?case by (rule TimedCache_set_returns [OF set(3), of now k v expired]) (use set(2) in simp)
next
  case (get c k r c')
  then show ?case using TimedCache_get_ok [OF get(3), of k] by auto
next
  case (del c k r c')
  then show ?case using TimedCache_del_ok [OF del(3), of k] by simp
next
  case (expired c now k ts r c')
  show ?case by (rule TimedCache_expired_ok [OF expired(3), of now k ts]) (use expired(2) in simp)
next
  case (timeout c ts r c')
  show ?case by (rule TimedCache_checkTimeout_ok [OF timeout(3), of ts]) (use timeout(2) in simp)
qed (simp_all add: tc_ok_def TimedCache_clear_def TimedCache_setMaxSize_def TimedCache_setElasticity_def
    TimedCache_setPruneCallback_def TimedCache_setStatus_def)

section \<open>Properties\<close>

text \<open>
  (C27) \<^verbatim>\<open>TimedCache\<close> is memory-safe and coherent. In every state that operations can lead to (changed limits, deletions and timeouts among them)
  the set is ordered by deadline and key without duplicates, and each entry of the map is a live node of its own key. So \<^verbatim>\<open>get\<close> follows no dead iterator
  and returns the value of a node of that key, or nothing exactly if the key is not entered; \<^verbatim>\<open>expired\<close> returns whether it is; \<^verbatim>\<open>set\<close> returns, pruning
  never reads an empty set, the size is then within the limits, and the entry of the key, if pruning has not removed it, has the new deadline, and the new value
  unless the key had that very deadline before.
\<close>

theorem timed_cache_safe:
  assumes "tc_reach c"
  shows "oset node_order (tc_timed c) \<and> distinct (map fst (tc_timed c)) \<and> distinct (map fst (tc_cache c)) \<and>
    (\<forall>k i. map_of (tc_cache c) k = Some i \<longrightarrow> (\<exists>item. map_of (tc_timed c) i = Some item \<and> it_key item = k)) \<and>
    (\<exists>r c'. TimedCache_get k c = (Inr r, c') \<and> tc_cache c' = tc_cache c \<and> tc_timed c' = tc_timed c \<and>
       r = (case map_of (tc_cache c) k of None \<Rightarrow> None | Some i \<Rightarrow> map_option it_val (map_of (tc_timed c) i))) \<and>
    (\<exists>c'. TimedCache_expired now k ts c = (Inr (TimedCache_exists k c), c')) \<and>
    (\<exists>calls c'. TimedCache_set now k v expired c = (Inr calls, c') \<and> (tc_maxSize c = 0 \<longrightarrow> TimedCache_exists k c') \<and>
       tc_within c c' \<and> entered k v (expired + now) c c')"
proof -
  note ok = tc_reach_ok [OF assms]
  have E: "\<exists>item. map_of (tc_timed c) i = Some item \<and> it_key item = k" if "map_of (tc_cache c) k = Some i" for k i
    using tc_entry [OF ok that] by metis
  have X: "\<exists>c'. TimedCache_expired now k ts c = (Inr (TimedCache_exists k c), c')"
    by (rule TimedCache_expired_ok [OF ok, of now k ts]) (rule exI)
  have S: "\<exists>calls c'. TimedCache_set now k v expired c = (Inr calls, c') \<and> (tc_maxSize c = 0 \<longrightarrow> TimedCache_exists k c') \<and>
       tc_within c c' \<and> entered k v (expired + now) c c'"
    by (rule TimedCache_set_returns [OF ok, of now k v expired]) (intro exI conjI)
  have G: "\<exists>r c'. TimedCache_get k c = (Inr r, c') \<and> tc_cache c' = tc_cache c \<and> tc_timed c' = tc_timed c \<and>
       r = (case map_of (tc_cache c) k of None \<Rightarrow> None | Some i \<Rightarrow> map_option it_val (map_of (tc_timed c) i))"
    using TimedCache_get_ok [OF ok, of k] by metis
  have O: "oset node_order (tc_timed c)" "distinct (map fst (tc_timed c))" "distinct (map fst (tc_cache c))" using ok by (simp_all add: tc_ok_def)
  show ?thesis by (intro conjI allI impI O G X S) (erule E)
qed

theorem timed_cache_safe_witness:
  "\<exists>c c' calls. TimedCache_set 5 7 CHR ''a'' 10 (new_TimedCache 0 0 None :: (nat, char) timed) = (Inr calls, c) \<and>
    TimedCache_get 7 c = (Inr (Some CHR ''a''), c') \<and> map_of (tc_cache c) 7 \<noteq> None"
proof -
  let ?n = "new_TimedCache 0 0 None :: (nat, char) timed"
  have n: "tc_reach ?n" "tc_maxSize ?n = 0" "tc_timed ?n = []" by (simp_all add: tc_reach.new, simp_all add: new_TimedCache_def)
  note N = timed_cache_safe [OF n(1), where now = 5 and k = 7 and v = "CHR ''a''" and expired = 10 and ts = 0]
  obtain calls c where s: "TimedCache_set 5 7 CHR ''a'' 10 ?n = (Inr calls, c)" "tc_maxSize ?n = 0 \<longrightarrow> TimedCache_exists 7 c"
    "entered 7 CHR ''a'' (10 + 5) ?n c" using N by (elim conjE exE) (rule that)
  have c: "tc_reach c" by (rule tc_reach.set [OF n(1) s(1)])
  obtain i where i: "map_of (tc_cache c) 7 = Some i" using s(2) n(2) by (auto simp: TimedCache_exists_def)
  then obtain item where item: "map_of (tc_timed c) i = Some item" "it_val item = CHR ''a''" using s(3) n(3) by (auto simp: entered_def)
  note C = timed_cache_safe [OF c, where now = 5 and k = 7 and v = "CHR ''a''" and expired = 10 and ts = 0]
  obtain r c' where g: "TimedCache_get 7 c = (Inr r, c')"
    "r = (case map_of (tc_cache c) 7 of None \<Rightarrow> None | Some i \<Rightarrow> map_option it_val (map_of (tc_timed c) i))"
    using C by (elim conjE exE) (rule that)
  then have "TimedCache_get 7 c = (Inr (Some CHR ''a''), c')" using i item by simp
  then show ?thesis using s(1) i by (intro exI [of _ c] exI [of _ c'] exI [of _ calls]) simp
qed

text \<open>
  \<^verbatim>\<open>checkTimeout(ts)\<close> removes exactly the nodes whose deadline is at most \<open>ts\<close>, nearest deadline first, returns
  their number, and afterwards \<^verbatim>\<open>get\<close> finds only keys with a later deadline; a key none of whose nodes has run
  out is found as before.
\<close>

theorem checkTimeout_correct:
  assumes "tc_ok c"
  shows "\<exists>c' calls. TimedCache_checkTimeout ts c = ((length (filter (\<lambda>n. it_ts (snd n) \<le> ts) (tc_timed c)), calls), c') \<and>
    tc_ok c' \<and> tc_timed c' = filter (\<lambda>n. ts < it_ts (snd n)) (tc_timed c) \<and>
    (\<forall>k. (\<forall>n \<in> set (tc_timed c). it_key (snd n) = k \<longrightarrow> ts < it_ts (snd n)) \<longrightarrow>
       fst (TimedCache_get k c') = fst (TimedCache_get k c))"
proof -
  obtain c' where c': "TimedCache_checkTimeout ts c =
      ((length (filter (\<lambda>n. it_ts (snd n) \<le> ts) (tc_timed c)),
        if tc_cb c then map (\<lambda>n. (it_key (snd n), it_val (snd n))) (filter (\<lambda>n. it_ts (snd n) \<le> ts) (tc_timed c)) else []), c')"
    "tc_ok c'" "tc_timed c' = filter (\<lambda>n. \<not> it_ts (snd n) \<le> ts) (tc_timed c)"
    "\<And>k. map_of (tc_cache c') k = (if \<exists>n \<in> set (tc_timed c). it_key (snd n) = k \<and> it_ts (snd n) \<le> ts then None else map_of (tc_cache c) k)"
    by (rule TimedCache_checkTimeout_ok [OF assms, of ts]) blast
  have "fst (TimedCache_get k c') = fst (TimedCache_get k c)"
    if k: "\<forall>n \<in> set (tc_timed c). it_key (snd n) = k \<longrightarrow> ts < it_ts (snd n)" for k
  proof (cases "map_of (tc_cache c) k")
    case None
    then show ?thesis using c'(4) [of k] by (simp add: TimedCache_get_def)
  next
    case (Some i)
    obtain item where it: "(i, item) \<in> set (tc_timed c)" "it_key item = k" "map_of (tc_timed c) i = Some item"
      using tc_entry [OF assms Some] by metis
    have ki: "map_of (tc_cache c') k = Some i" using c'(4) [of k] k Some by (auto simp: not_le)
    have "(i, item) \<in> set (tc_timed c')" using it k c'(3) by (force simp: not_le)
    then have "map_of (tc_timed c') i = Some item" using c'(2) by (auto simp: tc_ok_def)
    then show ?thesis using Some ki it(3) by (simp add: TimedCache_get_def)
  qed
  then show ?thesis using c'(1-3) by (auto simp: not_le)
qed

theorem checkTimeout_correct_witness:
  "\<exists>c' calls. TimedCache_checkTimeout 5 \<lparr>tc_cache = [(1 :: nat, 0)], tc_timed = [(0, \<lparr>it_key = 1, it_val = ''a'', it_ts = 4\<rparr>)],
     tc_fresh = 1, tc_maxSize = 0, tc_elasticity = 0, tc_cb = False, tc_status = new_status\<rparr> = ((1, calls), c') \<and> tc_timed c' = []"
proof -
  let ?c = "\<lparr>tc_cache = [(1 :: nat, 0)], tc_timed = [(0, \<lparr>it_key = 1, it_val = ''a'', it_ts = 4\<rparr>)],
     tc_fresh = 1, tc_maxSize = 0, tc_elasticity = 0, tc_cb = False, tc_status = new_status\<rparr>"
  have ok: "tc_ok ?c" by (simp add: tc_ok_def)
  have "(4 :: u64) \<le> 5" "\<not> (5 :: u64) < 4" by (simp_all add: word_le_nat_alt word_less_nat_alt)
  then show ?thesis using checkTimeout_correct [OF ok, of 5] by auto
qed

text \<open>A \<^verbatim>\<open>set\<close> without a size limit: what holds before pruning holds afterwards.\<close>

lemma TimedCache_set_unlimited:
  assumes "tc_ok c" "tc_maxSize c = 0"
  obtains c1 i item where "TimedCache_set now k v expired c = (Inr [], c1)" "tc_ok c1" "tc_maxSize c1 = 0"
    "map_of (tc_cache c1) k = Some i" "(i, item) \<in> set (tc_timed c1)" "it_key item = k" "it_ts item = expired + now"
    "set (tc_timed c) \<subseteq> set (tc_timed c1)"
    "(expired + now, k) \<notin> node_order ` set (tc_timed c) \<longrightarrow> it_val item = v"
proof -
  obtain c1 i item where c1: "tc_ok c1" "map_of (tc_cache c1) k = Some i" "(i, item) \<in> set (tc_timed c1)"
    "it_key item = k" "it_ts item = expired + now" "set (tc_timed c) \<subseteq> set (tc_timed c1)"
    "(expired + now, k) \<notin> node_order ` set (tc_timed c) \<longrightarrow> it_val item = v"
    "tc_maxSize c1 = tc_maxSize c"
    "TimedCache_set now k v expired c =
       (case TimedCache_prune c1 of (Inl e, c') \<Rightarrow> (Inl e, c') | (Inr (n, calls), c') \<Rightarrow> (Inr calls, c'))"
    by (rule TimedCache_set_ok [OF assms(1), of k expired now v]) blast
  have "TimedCache_prune c1 = (Inr (0, []), c1)" using c1(8) assms(2) by (simp add: TimedCache_prune_def)
  then have "TimedCache_set now k v expired c = (Inr [], c1)" unfolding c1(9) by simp
  then show ?thesis using that c1(1-8) assms(2) by metis
qed

text \<open>
  \<^verbatim>\<open>TimedCache::set\<close> does not renew a deadline: after two calls for the same key, a \<^verbatim>\<open>checkTimeout\<close> at the
  deadline of the first drops the key, however late the deadline of the second is, because the node of the first
  call is still in the set.
\<close>

theorem set_keeps_stale_deadline:
  assumes "tc_ok c" "tc_maxSize c = 0" "expired1 + now1 \<le> ts"
  shows "\<exists>c1 c2 c3 r. TimedCache_set now1 k v1 expired1 c = (Inr [], c1) \<and>
    TimedCache_set now2 k v2 expired2 c1 = (Inr [], c2) \<and> TimedCache_exists k c2 \<and>
    TimedCache_checkTimeout ts c2 = (r, c3) \<and> \<not> TimedCache_exists k c3"
proof -
  obtain c1 i1 it1 where 1: "TimedCache_set now1 k v1 expired1 c = (Inr [], c1)" "tc_ok c1" "tc_maxSize c1 = 0"
    "(i1, it1) \<in> set (tc_timed c1)" "it_key it1 = k" "it_ts it1 = expired1 + now1"
    by (rule TimedCache_set_unlimited [OF assms(1,2), of now1 k v1 expired1]) blast
  obtain c2 i2 where 2: "TimedCache_set now2 k v2 expired2 c1 = (Inr [], c2)" "tc_ok c2"
    "map_of (tc_cache c2) k = Some i2" "set (tc_timed c1) \<subseteq> set (tc_timed c2)"
    by (rule TimedCache_set_unlimited [OF 1(2,3), of now2 k v2 expired2]) blast
  obtain r c3 where 3: "TimedCache_checkTimeout ts c2 = (r, c3)"
    "\<And>k. map_of (tc_cache c3) k = (if \<exists>n \<in> set (tc_timed c2). it_key (snd n) = k \<and> it_ts (snd n) \<le> ts then None else map_of (tc_cache c2) k)"
    by (rule TimedCache_checkTimeout_ok [OF 2(2), of ts]) blast
  have "(i1, it1) \<in> set (tc_timed c2)" using 1(4) 2(4) by blast
  moreover have "it_key (snd (i1, it1)) = k" "it_ts (snd (i1, it1)) \<le> ts" using 1(5,6) assms(3) by simp_all
  ultimately have "map_of (tc_cache c3) k = None" using 3(2) [of k] by metis
  then show ?thesis using 1(1) 2(1,3) 3(1) by (auto simp: TimedCache_exists_def)
qed

lemma new_TimedCache_ok: "tc_ok (new_TimedCache mx el st)" "tc_maxSize (new_TimedCache mx el st) = mx"
  by (simp_all add: tc_ok_def new_TimedCache_def)

theorem set_keeps_stale_deadline_witness:
  "\<exists>c1 c2 c3 r. TimedCache_set 0 7 CHR ''a'' 10 (new_TimedCache 0 0 None :: (nat, char) timed) = (Inr [], c1) \<and>
    TimedCache_set 1 7 CHR ''b'' 1000 c1 = (Inr [], c2) \<and> TimedCache_exists 7 c2 \<and>
    TimedCache_checkTimeout 10 c2 = (r, c3) \<and> \<not> TimedCache_exists 7 c3"
  by (rule set_keeps_stale_deadline [OF new_TimedCache_ok]) simp

text \<open>
  \<^verbatim>\<open>TimedCache::set\<close> can keep the old value: when the same key is set twice with the same deadline (two calls
  in one millisecond), the set already holds an equivalent node, the new one is not inserted and \<^verbatim>\<open>get\<close> still
  returns the first value.
\<close>

theorem set_keeps_old_value:
  assumes "tc_ok c" "tc_maxSize c = 0" "(expired + now, k) \<notin> node_order ` set (tc_timed c)"
  shows "\<exists>c1 c2 c3. TimedCache_set now k v1 expired c = (Inr [], c1) \<and>
    TimedCache_set now k v2 expired c1 = (Inr [], c2) \<and> TimedCache_get k c2 = (Inr (Some v1), c3)"
proof -
  obtain c1 i1 it1 where 1: "TimedCache_set now k v1 expired c = (Inr [], c1)" "tc_ok c1" "tc_maxSize c1 = 0"
    "(i1, it1) \<in> set (tc_timed c1)" "it_key it1 = k" "it_ts it1 = expired + now"
    "(expired + now, k) \<notin> node_order ` set (tc_timed c) \<longrightarrow> it_val it1 = v1"
    by (rule TimedCache_set_unlimited [OF assms(1,2), of now k v1 expired]) blast
  obtain c2 i2 it2 where 2: "TimedCache_set now k v2 expired c1 = (Inr [], c2)" "tc_ok c2"
    "map_of (tc_cache c2) k = Some i2" "(i2, it2) \<in> set (tc_timed c2)" "it_key it2 = k" "it_ts it2 = expired + now"
    "set (tc_timed c1) \<subseteq> set (tc_timed c2)"
    by (rule TimedCache_set_unlimited [OF 1(2,3), of now k v2 expired]) blast
  have os: "oset node_order (tc_timed c2)" "distinct (map fst (tc_timed c2))" using 2(2) by (simp_all add: tc_ok_def)
  have "(i1, it1) = (i2, it2)"
    by (rule oset_inj [OF os(1)]) (use 1(4-6) 2(4-7) in \<open>auto simp: item_order_def\<close>)
  then have "map_of (tc_timed c2) i2 = Some it2" "it_val it2 = v1" using os(2) 2(4) 1(7) assms(3) by auto
  then show ?thesis using 1(1) 2(1,3) by (simp add: TimedCache_get_def)
qed

theorem set_keeps_old_value_witness:
  "\<exists>c1 c2 c3. TimedCache_set 5 7 CHR ''a'' 10 (new_TimedCache 0 0 None :: (nat, char) timed) = (Inr [], c1) \<and>
    TimedCache_set 5 7 CHR ''b'' 10 c1 = (Inr [], c2) \<and> TimedCache_get 7 c2 = (Inr (Some CHR ''a''), c3)"
  by (rule set_keeps_old_value [OF new_TimedCache_ok]) (simp add: new_TimedCache_def)

text \<open>
  \<^verbatim>\<open>TimedCache::expired\<close> is meant to give a key a new deadline but leaves every item, deadlines included, as
  it was: what it puts back is a copy of what it took out.
\<close>

theorem expired_changes_nothing:
  assumes "tc_ok c"
  shows "\<exists>c'. TimedCache_expired now k ts c = (Inr (TimedCache_exists k c), c') \<and>
    map snd (tc_timed c') = map snd (tc_timed c) \<and> fst ` set (tc_cache c') = fst ` set (tc_cache c)"
  by (rule TimedCache_expired_ok [OF assms, of now k ts]) blast

theorem expired_changes_nothing_witness:
  "\<exists>c1 c2. TimedCache_set 5 7 CHR ''a'' 10 (new_TimedCache 0 0 None :: (nat, char) timed) = (Inr [], c1) \<and>
    TimedCache_expired 5 7 100 c1 = (Inr True, c2) \<and> map snd (tc_timed c2) = map snd (tc_timed c1)"
proof -
  obtain c1 i where "TimedCache_set 5 7 CHR ''a'' 10 (new_TimedCache 0 0 None :: (nat, char) timed) = (Inr [], c1)" "tc_ok c1"
      "map_of (tc_cache c1) 7 = Some i"
    by (rule TimedCache_set_unlimited [OF new_TimedCache_ok, where now = 5 and k = 7 and v = "CHR ''a''" and expired = 10]) blast
  then show ?thesis using expired_changes_nothing [of c1 5 7 100] by (auto simp: TimedCache_exists_def)
qed

end
