(* ===== verification/TimedLruCache.thy ===== *)
theory TimedLruCache
  imports LruCache TimedCache
begin

text \<open>
  \<^verbatim>\<open>TimedLruCache\<close> of \<^verbatim>\<open>sylar/ds/timed_lru_cache.h\<close>: the items are nodes of a list, the most recently used first;
  a map leads from keys to list iterators and a set orders the iterators by the deadline and key of the items
  they point to. Comparing iterators follows them, so a set that holds a dead iterator is undefined to search.
\<close>

record ('k, 'v) tlru =
  tl_cache :: "('k \<times> nat) list"
  tl_keys :: "('k, 'v) titem nodes"
  tl_timed :: "nat list"
  tl_fresh :: nat
  tl_maxSize :: nat
  tl_elasticity :: nat
  tl_cb :: bool
  tl_status :: cache_status

section \<open>Operations\<close>

definition new_TimedLruCache :: "nat \<Rightarrow> nat \<Rightarrow> cache_status option \<Rightarrow> ('k, 'v) tlru" where
  "new_TimedLruCache mx el status =
     \<lparr>tl_cache = [], tl_keys = [], tl_timed = [], tl_fresh = 0, tl_maxSize = mx, tl_elasticity = el, tl_cb = False,
      tl_status = (case status of None \<Rightarrow> new_status | Some s \<Rightarrow> s)\<rparr>"

text \<open>\<^verbatim>\<open>ItemTimeOp\<close>, and the set's \<^verbatim>\<open>erase\<close> and \<^verbatim>\<open>insert\<close> of an iterator.\<close>

definition deref :: "('k, 'v) titem nodes \<Rightarrow> nat \<Rightarrow> u64 \<times> 'k" where
  "deref ns i = item_order (the (map_of ns i))"

definition alive :: "('k, 'v) titem nodes \<Rightarrow> nat list \<Rightarrow> bool" where
  "alive ns is \<longleftrightarrow> list_all (\<lambda>i. map_of ns i \<noteq> None) is"

definition iter_erase :: "('k::linorder, 'v) titem nodes \<Rightarrow> nat \<Rightarrow> nat list \<Rightarrow> failure + nat list" where
  "iter_erase ns i timed = (if alive ns (i # timed) then Inr (oset_erase (deref ns) i timed) else Inl Undefined)"

definition iter_insert :: "('k::linorder, 'v) titem nodes \<Rightarrow> nat \<Rightarrow> nat list \<Rightarrow> failure + nat list" where
  "iter_insert ns i timed = (if alive ns (i # timed) then Inr (oset_insert (deref ns) i timed) else Inl Undefined)"

definition callback_args :: "('k, 'v) titem \<Rightarrow> 'k \<times> 'v" where
  "callback_args item = (it_key item, it_val item)"

function tlru_prune_loop :: "nat \<Rightarrow> ('k::linorder \<times> nat) list \<Rightarrow> ('k, 'v) titem nodes \<Rightarrow> nat list \<Rightarrow> ('k \<times> 'v) list \<Rightarrow>
    failure + (('k \<times> nat) list \<times> ('k, 'v) titem nodes \<times> nat list \<times> ('k \<times> 'v) list)" where
  "tlru_prune_loop mx cache keys timed gone =
     (if length cache \<le> mx then Inr (cache, keys, timed, gone)
      else if keys = [] then Inl Undefined
      else let back = last keys in
        case iter_erase keys (fst back) timed of Inl e \<Rightarrow> Inl e
        | Inr timed' \<Rightarrow> tlru_prune_loop mx (map_erase (it_key (snd back)) cache) (butlast keys) timed'
            (gone @ [callback_args (snd back)]))"
  by pat_completeness auto
termination by (relation "measure (\<lambda>(mx, cache, keys, timed, gone). length keys)") auto

declare tlru_prune_loop.simps [simp del]

definition TimedLruCache_prune :: "(('k::linorder, 'v) tlru, nat \<times> ('k \<times> 'v) list) action" where
  "TimedLruCache_prune c =
     (if tl_maxSize c = 0 \<or> length (tl_cache c) < max_allowed (tl_maxSize c) (tl_elasticity c)
      then (Inr (0, []), c)
      else case tlru_prune_loop (tl_maxSize c) (tl_cache c) (tl_keys c) (tl_timed c) [] of
        Inl e \<Rightarrow> (Inl e, c)
      | Inr (cache, keys, timed, gone) \<Rightarrow>
          (Inr (length gone, if tl_cb c then gone else []),
           c\<lparr>tl_cache := cache, tl_keys := keys, tl_timed := timed,
             tl_status := incPrune (length gone) (tl_status c)\<rparr>))"

definition TimedLruCache_set :: "u64 \<Rightarrow> 'k::linorder \<Rightarrow> 'v \<Rightarrow> u64 \<Rightarrow> (('k, 'v) tlru, ('k \<times> 'v) list) action" where
  "TimedLruCache_set now k v expired c =
     (let c = c\<lparr>tl_status := incSet (tl_status c)\<rparr> in
      case map_of (tl_cache c) k of
        Some i \<Rightarrow>
          (case map_of (tl_keys c) i of None \<Rightarrow> (Inl Undefined, c)
           | Some _ \<Rightarrow>
               let keys = splice_front i (tl_keys c) in
               case iter_erase keys i (tl_timed c) of Inl e \<Rightarrow> (Inl e, c)
               | Inr timed \<Rightarrow>
                   let keys = node_assign i (\<lambda>item. item\<lparr>it_val := v, it_ts := expired + now\<rparr>) keys in
                   (case iter_insert keys i timed of Inl e \<Rightarrow> (Inl e, c)
                    | Inr timed \<Rightarrow> (Inr [], c\<lparr>tl_keys := keys, tl_timed := timed\<rparr>)))
      | None \<Rightarrow>
          let i = tl_fresh c;
              keys = (i, \<lparr>it_key = k, it_val = v, it_ts = expired + now\<rparr>) # tl_keys c;
              cache = map_insert k i (tl_cache c)
          in case iter_insert keys i (tl_timed c) of Inl e \<Rightarrow> (Inl e, c)
             | Inr timed \<Rightarrow>
                 (case TimedLruCache_prune (c\<lparr>tl_keys := keys, tl_fresh := i + 1, tl_cache := cache, tl_timed := timed\<rparr>) of
                    (Inl e, c') \<Rightarrow> (Inl e, c') | (Inr (n, calls), c') \<Rightarrow> (Inr calls, c')))"

definition TimedLruCache_get :: "'k \<Rightarrow> (('k, 'v) tlru, 'v option) action" where
  "TimedLruCache_get k c =
     (let c = c\<lparr>tl_status := incGet (tl_status c)\<rparr> in
      case map_of (tl_cache c) k of
        None \<Rightarrow> (Inr None, c)
      | Some i \<Rightarrow>
          (case map_of (tl_keys c) i of None \<Rightarrow> (Inl Undefined, c)
           | Some item \<Rightarrow> (Inr (Some (it_val item)),
               c\<lparr>tl_keys := splice_front i (tl_keys c), tl_status := incHit (tl_status c)\<rparr>)))"

definition TimedLruCache_del :: "'k::linorder \<Rightarrow> (('k, 'v) tlru, bool) action" where
  "TimedLruCache_del k c =
     (let c = c\<lparr>tl_status := incDel (tl_status c)\<rparr> in
      case map_of (tl_cache c) k of
        None \<Rightarrow> (Inr False, c)
      | Some i \<Rightarrow>
          (case iter_erase (tl_keys c) i (tl_timed c) of Inl e \<Rightarrow> (Inl e, c)
           | Inr timed \<Rightarrow> (Inr True, c\<lparr>tl_timed := timed, tl_keys := list_erase i (tl_keys c),
                                     tl_cache := map_erase k (tl_cache c)\<rparr>)))"

definition TimedLruCache_exists :: "'k \<Rightarrow> ('k, 'v) tlru \<Rightarrow> bool" where
  "TimedLruCache_exists k c = (map_of (tl_cache c) k \<noteq> None)"

definition TimedLruCache_size :: "('k, 'v) tlru \<Rightarrow> nat" where
  "TimedLruCache_size c = length (tl_cache c)"

definition TimedLruCache_empty :: "('k, 'v) tlru \<Rightarrow> bool" where
  "TimedLruCache_empty c = (tl_cache c = [])"

definition TimedLruCache_clear :: "('k, 'v) tlru \<Rightarrow> ('k, 'v) tlru" where
  "TimedLruCache_clear c = c\<lparr>tl_cache := [], tl_keys := [], tl_timed := []\<rparr>"

definition TimedLruCache_setMaxSize :: "nat \<Rightarrow> ('k, 'v) tlru \<Rightarrow> ('k, 'v) tlru" where
  "TimedLruCache_setMaxSize n c = c\<lparr>tl_maxSize := n\<rparr>"

definition TimedLruCache_setElasticity :: "nat \<Rightarrow> ('k, 'v) tlru \<Rightarrow> ('k, 'v) tlru" where
  "TimedLruCache_setElasticity n c = c\<lparr>tl_elasticity := n\<rparr>"

definition TimedLruCache_setPruneCallback :: "('k, 'v) tlru \<Rightarrow> ('k, 'v) tlru" where
  "TimedLruCache_setPruneCallback c = c\<lparr>tl_cb := True\<rparr>"

definition TimedLruCache_setStatus :: "cache_status option \<Rightarrow> ('k, 'v) tlru \<Rightarrow> ('k, 'v) tlru" where
  "TimedLruCache_setStatus st c = c\<lparr>tl_status := (case st of None \<Rightarrow> new_status | Some s \<Rightarrow> s)\<rparr>"

fun tlru_timeout_loop :: "u64 \<Rightarrow> ('k \<times> nat) list \<Rightarrow> ('k, 'v) titem nodes \<Rightarrow> nat list \<Rightarrow> ('k \<times> 'v) list \<Rightarrow>
    failure + (('k \<times> nat) list \<times> ('k, 'v) titem nodes \<times> nat list \<times> ('k \<times> 'v) list)" where
  "tlru_timeout_loop ts cache keys [] gone = Inr (cache, keys, [], gone)"
| "tlru_timeout_loop ts cache keys (i # timed) gone =
     (case map_of keys i of None \<Rightarrow> Inl Undefined
      | Some item \<Rightarrow>
          if it_ts item \<le> ts
          then tlru_timeout_loop ts (map_erase (it_key item) cache) (list_erase i keys) timed (gone @ [callback_args item])
          else Inr (cache, keys, i # timed, gone))"

definition TimedLruCache_checkTimeout :: "u64 \<Rightarrow> (('k, 'v) tlru, nat \<times> ('k \<times> 'v) list) action" where
  "TimedLruCache_checkTimeout ts c =
     (case tlru_timeout_loop ts (tl_cache c) (tl_keys c) (tl_timed c) [] of Inl e \<Rightarrow> (Inl e, c)
      | Inr (cache, keys, timed, gone) \<Rightarrow>
          (Inr (length gone, if tl_cb c then gone else []), c\<lparr>tl_cache := cache, tl_keys := keys, tl_timed := timed\<rparr>))"

section \<open>Invariant\<close>

abbreviation tindex :: "('k, 'v) titem nodes \<Rightarrow> (nat \<times> 'k) list" where
  "tindex ns \<equiv> map (\<lambda>n. (fst n, it_key (snd n))) ns"

definition tl_inv :: "('k::linorder \<times> nat) list \<Rightarrow> ('k, 'v) titem nodes \<Rightarrow> nat list \<Rightarrow> bool" where
  "tl_inv cache keys timed \<longleftrightarrow> index_ok cache (tindex keys) \<and> oset (deref keys) timed \<and> set timed = fst ` set keys"

definition tl_ok :: "('k::linorder, 'v) tlru \<Rightarrow> bool" where
  "tl_ok c \<longleftrightarrow> tl_inv (tl_cache c) (tl_keys c) (tl_timed c) \<and> (\<forall>n \<in> set (tl_keys c). fst n < tl_fresh c)"

text \<open>The items by recency, with their deadlines.\<close>

definition node_entry :: "nat \<times> ('k, 'v) titem \<Rightarrow> 'k \<times> 'v \<times> u64" where
  "node_entry n = (it_key (snd n), it_val (snd n), it_ts (snd n))"

definition tl_items :: "('k, 'v) tlru \<Rightarrow> ('k \<times> 'v \<times> u64) list" where
  "tl_items c = map node_entry (tl_keys c)"

section \<open>Steps on map, list and set\<close>

lemma tl_invD:
  assumes "tl_inv cache keys timed"
  shows "index_ok cache (tindex keys)" "oset (deref keys) timed" "set timed = fst ` set keys"
    "distinct (map fst keys)" "distinct (map (\<lambda>n. it_key (snd n)) keys)" "alive keys timed"
proof -
  show i: "index_ok cache (tindex keys)" "oset (deref keys) timed" "set timed = fst ` set keys"
    using assms unfolding tl_inv_def by blast+
  show "distinct (map fst keys)" "distinct (map (\<lambda>n. it_key (snd n)) keys)"
    using index_okD(2,3) [OF i(1)] by (simp_all add: comp_def)
  show "alive keys timed"
    using i(3) by (auto simp: alive_def list_all_iff map_of_eq_None_iff)
qed

lemma deref_eq:
  assumes "distinct (map fst keys)" "(i, item) \<in> set keys"
  shows "deref keys i = (it_ts item, it_key item)"
  using assms by (simp add: deref_def item_order_def)

lemma deref_inj:
  assumes "tl_inv cache keys timed" "(i, item) \<in> set keys" "j \<in> set timed"
  shows "deref keys j = deref keys i \<longleftrightarrow> j = i"
proof
  note d = tl_invD [OF assms(1)]
  assume e: "deref keys j = deref keys i"
  obtain it where it: "(j, it) \<in> set keys" using assms(3) d(3) by force
  have "it_key it = it_key item" using e deref_eq [OF d(4) it] deref_eq [OF d(4) assms(2)] by simp
  then have "(j, it) = (i, item)"
    using d(5) it assms(2) unfolding distinct_map inj_on_def by (metis snd_conv)
  then show "j = i" by simp
qed simp

lemma iter_erase_eq:
  assumes "tl_inv cache keys timed" "(i, item) \<in> set keys"
  shows "iter_erase keys i timed = Inr (filter (\<lambda>j. j \<noteq> i) timed)"
proof -
  note d = tl_invD [OF assms(1)]
  have "map_of keys i \<noteq> None" using assms(2) by (auto simp: map_of_eq_None_iff rev_image_eqI)
  moreover have "oset_erase (deref keys) i timed = filter (\<lambda>j. j \<noteq> i) timed"
    unfolding oset_erase_def neq_iff [symmetric, where 'a = "u64 \<times> 'a"] using deref_inj [OF assms]
    by (intro filter_cong) auto
  ultimately show ?thesis using d(6) by (simp add: iter_erase_def alive_def)
qed

text \<open>Changing the order of the list changes nothing else.\<close>

lemma tl_inv_perm:
  assumes "tl_inv cache keys timed" "mset keys' = mset keys"
  shows "tl_inv cache keys' timed"
proof -
  note d = tl_invD [OF assms(1)]
  have s: "set keys' = set keys" using assms(2) by (metis set_mset_mset)
  have d': "distinct (map fst keys')" using d(4) assms(2) by (metis mset_eq_imp_distinct_iff mset_map)
  have "deref keys' j = deref keys j" if j: "j \<in> set timed" for j
  proof -
    obtain it where "(j, it) \<in> set keys" using j d(3) by force
    then show ?thesis using deref_eq [OF d(4)] deref_eq [OF d'] s by metis
  qed
  then have "oset (deref keys') timed" using d(2) oset_cong by metis
  moreover have "index_ok cache (tindex keys')" using index_perm [OF d(1)] assms(2) by simp
  ultimately show ?thesis using d(3) s by (simp add: tl_inv_def)
qed

text \<open>Removing a node from all three.\<close>

lemma tl_inv_drop:
  assumes "tl_inv cache (xs @ (i, item) # ys) timed"
  shows "tl_inv (map_erase (it_key item) cache) (xs @ ys) (filter (\<lambda>j. j \<noteq> i) timed)"
proof -
  let ?keys = "xs @ (i, item) # ys"
  note d = tl_invD [OF assms]
  have "index_ok (map_erase (it_key item) cache) (tindex (xs @ ys))"
    using index_drop [of cache "tindex xs" i "it_key item" "tindex ys"] d(1) by simp
  moreover have ids: "set (filter (\<lambda>j. j \<noteq> i) timed) = fst ` set (xs @ ys)" using d(3,4) by auto
  moreover have d': "distinct (map fst (xs @ ys))" using d(4) by simp
  moreover have "deref (xs @ ys) j = deref ?keys j" if j: "j \<in> set (filter (\<lambda>j. j \<noteq> i) timed)" for j
  proof -
    have "j \<in> fst ` set (xs @ ys)" using j ids by (simp only:)
    then obtain it where "(j, it) \<in> set (xs @ ys)" by (metis imageE prod.collapse)
    then show ?thesis using deref_eq [OF d', of j it] deref_eq [OF d(4), of j it] by auto
  qed
  then have "oset (deref (xs @ ys)) (filter (\<lambda>j. j \<noteq> i) timed)"
    using oset_filter [OF d(2)] oset_cong by metis
  ultimately show ?thesis by (simp add: tl_inv_def)
qed

text \<open>Adding a node to all three.\<close>

lemma tl_inv_push:
  assumes "tl_inv cache keys timed" "map_of cache (it_key item) = None" "i \<notin> fst ` set keys"
  shows "\<exists>timed'. iter_insert ((i, item) # keys) i timed = Inr timed' \<and>
    tl_inv (map_insert (it_key item) i cache) ((i, item) # keys) timed'"
proof -
  let ?keys = "(i, item) # keys" and ?t = "oset_insert (deref ((i, item) # keys)) i timed"
  note d = tl_invD [OF assms(1)]
  have d': "distinct (map fst ?keys)" using d(4) assms(3) by simp
  have di: "deref ?keys i = (it_ts item, it_key item)" using deref_eq [OF d', of i item] by simp
  have dj: "deref ?keys j = deref keys j \<and> snd (deref ?keys j) \<noteq> it_key item" if j: "j \<in> set timed" for j
  proof -
    obtain it where it: "(j, it) \<in> set keys" using j d(3) by force
    have "it_key it \<noteq> it_key item"
      using index_None [OF d(1), of "it_key item"] assms(2) it by (force simp: image_iff)
    then show ?thesis using deref_eq [OF d(4) it] deref_eq [OF d', of j it] it by simp
  qed
  have os: "oset (deref ?keys) timed" using d(2) dj oset_cong by metis
  have "deref ?keys i \<notin> deref ?keys ` set timed" using dj di by (metis (no_types, lifting) imageE snd_conv)
  then have s: "set ?t = insert i (set timed)" by (rule oset_insert_new [OF os])
  have "index_ok (map_insert (it_key item) i cache) (tindex ?keys)"
    using index_push [OF d(1) assms(2), of i] assms(3) by (simp add: image_image)
  then have "tl_inv (map_insert (it_key item) i cache) ?keys ?t"
    using oset_insert_oset [OF os] s d(3) by (simp add: tl_inv_def)
  moreover have "alive ?keys (i # timed)" using d(6) by (auto simp: alive_def list_all_iff)
  ultimately show ?thesis by (simp add: iter_insert_def)
qed

section \<open>Simulation by the recency list\<close>

lemma tl_okD:
  assumes "tl_ok c"
  shows "tl_inv (tl_cache c) (tl_keys c) (tl_timed c)" "\<forall>n \<in> set (tl_keys c). fst n < tl_fresh c"
    "distinct (map fst (tl_items c))" "length (tl_cache c) = length (tl_items c)"
proof -
  show i: "tl_inv (tl_cache c) (tl_keys c) (tl_timed c)" "\<forall>n \<in> set (tl_keys c). fst n < tl_fresh c"
    using assms by (simp_all add: tl_ok_def)
  show "distinct (map fst (tl_items c))"
    using tl_invD(5) [OF i(1)] by (simp add: tl_items_def node_entry_def comp_def)
  show "length (tl_cache c) = length (tl_items c)"
    using index_length [OF tl_invD(1) [OF i(1)]] by (simp add: tl_items_def)
qed

lemma tl_found:
  assumes "tl_ok c" "map_of (tl_cache c) k = Some i"
  obtains xs item ys where "tl_keys c = xs @ (i, item) # ys" "it_key item = k" "map_of (tl_keys c) i = Some item"
    "map_of (tl_items c) k = Some (it_val item, it_ts item)"
    "without k (tl_items c) = map node_entry (xs @ ys)" "k \<in> fst ` set (tl_items c)"
    "splice_front i (tl_keys c) = (i, item) # xs @ ys" "list_erase i (tl_keys c) = xs @ ys"
proof -
  note d = tl_okD [OF assms(1)]
  have "(i, k) \<in> set (tindex (tl_keys c))" using index_okD(4) [OF tl_invD(1) [OF d(1)]] assms(2) by blast
  then obtain item where mem: "(i, item) \<in> set (tl_keys c)" "it_key item = k" by auto
  then obtain xs ys where l: "tl_keys c = xs @ (i, item) # ys" by (meson split_list)
  have no: "k \<notin> fst ` set (map node_entry xs)" "k \<notin> fst ` set (map node_entry ys)"
    using d(3) mem(2) by (simp_all add: l tl_items_def node_entry_def image_image)
  have "without k (map node_entry zs) = map node_entry zs" if "k \<notin> fst ` set (map node_entry zs)"
    for zs :: "('a, 'b) titem nodes"
    using that unfolding without_def by (intro filter_True) auto
  moreover have "without k (map node_entry (xs @ (i, item) # ys)) =
      without k (map node_entry xs) @ without k (map node_entry ys)"
    using mem(2) by (simp add: without_def node_entry_def)
  ultimately have w: "without k (tl_items c) = map node_entry (xs @ ys)"
    using no by (simp add: l tl_items_def)
  have "(k, it_val item, it_ts item) \<in> set (tl_items c)"
    using mem by (force simp: tl_items_def node_entry_def)
  then have f: "map_of (tl_items c) k = Some (it_val item, it_ts item)" "k \<in> fst ` set (tl_items c)"
    using d(3) by (auto simp: rev_image_eqI)
  have "distinct (map fst (xs @ (i, item) # ys))" using tl_invD(4) [OF d(1)] l by simp
  note n = node_ops_split [OF this]
  show ?thesis
    by (rule that [OF l mem(2) _ f(1) w f(2)]) (simp_all only: l n)
qed

lemma tl_missing:
  assumes "tl_ok c" "map_of (tl_cache c) k = None"
  shows "map_of (tl_items c) k = None" "k \<notin> fst ` set (tl_items c)"
proof -
  have "k \<notin> snd ` set (tindex (tl_keys c))"
    using index_None [OF tl_invD(1) [OF tl_okD(1) [OF assms(1)]], of k] assms(2) by simp
  then show "k \<notin> fst ` set (tl_items c)" by (simp add: tl_items_def node_entry_def image_image)
  then show "map_of (tl_items c) k = None" by (simp add: map_of_eq_None_iff)
qed

definition same_bounds :: "('k, 'v) tlru \<Rightarrow> ('k, 'v) tlru \<Rightarrow> bool" where
  "same_bounds c c' \<longleftrightarrow> tl_maxSize c' = tl_maxSize c \<and> tl_elasticity c' = tl_elasticity c \<and> tl_cb c' = tl_cb c"

lemma TimedLruCache_get_correct:
  assumes "tl_ok c"
  shows "\<exists>c'. TimedLruCache_get k c = (Inr (map_option fst (map_of (tl_items c) k)), c') \<and> tl_ok c' \<and> same_bounds c c' \<and>
    tl_items c' = (case map_of (tl_items c) k of None \<Rightarrow> tl_items c | Some v \<Rightarrow> (k, v) # without k (tl_items c))"
proof (cases "map_of (tl_cache c) k")
  case None
  then show ?thesis using tl_missing [OF assms None] assms
    by (simp add: TimedLruCache_get_def tl_ok_def tl_items_def same_bounds_def)
next
  case (Some i)
  obtain xs item ys where f: "tl_keys c = xs @ (i, item) # ys" "it_key item = k" "map_of (tl_keys c) i = Some item"
    "map_of (tl_items c) k = Some (it_val item, it_ts item)"
    "without k (tl_items c) = map node_entry (xs @ ys)" "k \<in> fst ` set (tl_items c)"
    "splice_front i (tl_keys c) = (i, item) # xs @ ys" "list_erase i (tl_keys c) = xs @ ys"
    by (rule tl_found [OF assms Some])
  have "tl_inv (tl_cache c) ((i, item) # xs @ ys) (tl_timed c)"
    by (rule tl_inv_perm [OF tl_okD(1) [OF assms]]) (simp add: f(1))
  moreover have "\<forall>n \<in> set ((i, item) # xs @ ys). fst n < tl_fresh c" using tl_okD(2) [OF assms] by (auto simp: f(1))
  ultimately show ?thesis using Some f(2-5,7)
    by (simp add: TimedLruCache_get_def tl_items_def same_bounds_def tl_ok_def node_entry_def)
qed

lemma TimedLruCache_del_correct:
  assumes "tl_ok c"
  shows "\<exists>c'. TimedLruCache_del k c = (Inr (k \<in> fst ` set (tl_items c)), c') \<and> tl_ok c' \<and> same_bounds c c' \<and>
    tl_items c' = without k (tl_items c)"
proof (cases "map_of (tl_cache c) k")
  case None
  have "without k (tl_items c) = tl_items c"
    unfolding without_def using tl_missing(2) [OF assms None] by (intro filter_True) auto
  then show ?thesis using tl_missing [OF assms None] assms None
    by (simp add: TimedLruCache_del_def tl_ok_def tl_items_def same_bounds_def)
next
  case (Some i)
  obtain xs item ys where f: "tl_keys c = xs @ (i, item) # ys" "it_key item = k" "map_of (tl_keys c) i = Some item"
    "map_of (tl_items c) k = Some (it_val item, it_ts item)"
    "without k (tl_items c) = map node_entry (xs @ ys)" "k \<in> fst ` set (tl_items c)"
    "splice_front i (tl_keys c) = (i, item) # xs @ ys" "list_erase i (tl_keys c) = xs @ ys"
    by (rule tl_found [OF assms Some])
  have e: "iter_erase (tl_keys c) i (tl_timed c) = Inr (filter (\<lambda>j. j \<noteq> i) (tl_timed c))"
    by (rule iter_erase_eq [OF tl_okD(1) [OF assms], of i item]) (simp add: f(1))
  have "tl_inv (map_erase k (tl_cache c)) (xs @ ys) (filter (\<lambda>j. j \<noteq> i) (tl_timed c))"
    using tl_inv_drop [of "tl_cache c" xs i item ys "tl_timed c"] tl_okD(1) [OF assms] f(1,2) by simp
  moreover have "\<forall>n \<in> set (xs @ ys). fst n < tl_fresh c" using tl_okD(2) [OF assms] by (auto simp: f(1))
  ultimately show ?thesis using Some f(5,6,8) e
    by (simp add: TimedLruCache_del_def tl_items_def same_bounds_def tl_ok_def)
qed

lemma tlru_prune_loop_correct:
  assumes "tl_inv cache keys timed"
  shows "\<exists>cache' timed'. tlru_prune_loop mx cache keys timed gone =
      Inr (cache', take mx keys, timed', gone @ rev (map (callback_args \<circ> snd) (drop mx keys))) \<and>
    tl_inv cache' (take mx keys) timed'"
  using assms
proof (induction mx cache keys timed gone rule: tlru_prune_loop.induct)
  case (1 mx cache keys timed gone)
  have len: "length cache = length keys" using index_length [OF tl_invD(1) [OF "1.prems"]] by simp
  show ?case
  proof (cases "length cache \<le> mx")
    case True
    then show ?thesis using len "1.prems" by (simp add: tlru_prune_loop.simps)
  next
    case False
    then have ne: "keys \<noteq> []" using len by auto
    obtain i item where l: "last keys = (i, item)" by fastforce
    have keys: "keys = butlast keys @ [(i, item)]" using ne l by (metis append_butlast_last_id)
    let ?timed = "filter (\<lambda>j. j \<noteq> i) timed"
    have inv: "tl_inv (map_erase (it_key item) cache) (butlast keys) ?timed"
      using tl_inv_drop [of cache "butlast keys" i item "[]" timed] "1.prems" keys by simp
    have e: "iter_erase keys i timed = Inr ?timed"
      by (rule iter_erase_eq [OF "1.prems", of i item]) (metis keys in_set_conv_decomp)
    obtain cache' timed' where c': "tlru_prune_loop mx (map_erase (it_key item) cache) (butlast keys) ?timed (gone @ [callback_args item]) =
        Inr (cache', take mx (butlast keys), timed', (gone @ [callback_args item]) @ rev (map (callback_args \<circ> snd) (drop mx (butlast keys))))"
        "tl_inv cache' (take mx (butlast keys)) timed'"
      using "1.IH" [OF False ne refl, of ?timed] e l inv by auto
    have mx: "mx \<le> length (butlast keys)" using False len by simp
    have "take mx keys = take mx (butlast keys)" using arg_cong [OF keys, of "take mx"] mx by simp
    moreover have "drop mx keys = drop mx (butlast keys) @ [(i, item)]" using arg_cong [OF keys, of "drop mx"] mx by simp
    ultimately show ?thesis using c' False ne l e by (subst tlru_prune_loop.simps) simp
  qed
qed

definition strip :: "'k \<times> 'v \<times> u64 \<Rightarrow> 'k \<times> 'v" where
  "strip x = (fst x, fst (snd x))"

lemma strip_entry: "strip (node_entry n) = callback_args (snd n)"
  by (simp add: strip_def node_entry_def callback_args_def)

lemma TimedLruCache_prune_correct:
  assumes "tl_ok c"
  shows "\<exists>c' n. TimedLruCache_prune c =
      (Inr (n, map strip (fst (cut_items (tl_cb c) (tl_maxSize c) (tl_elasticity c) (tl_items c)))), c') \<and>
    tl_ok c' \<and> same_bounds c c' \<and> tl_items c' = snd (cut_items (tl_cb c) (tl_maxSize c) (tl_elasticity c) (tl_items c))"
proof (cases "tl_maxSize c = 0 \<or> length (tl_items c) < max_allowed (tl_maxSize c) (tl_elasticity c)")
  case True
  then show ?thesis using assms tl_okD(4) [OF assms] by (auto simp: TimedLruCache_prune_def same_bounds_def cut_items_def)
next
  case False
  let ?mx = "tl_maxSize c"
  obtain cache' timed' where c': "tlru_prune_loop ?mx (tl_cache c) (tl_keys c) (tl_timed c) [] =
      Inr (cache', take ?mx (tl_keys c), timed', rev (map (callback_args \<circ> snd) (drop ?mx (tl_keys c))))"
      "tl_inv cache' (take ?mx (tl_keys c)) timed'"
    using tlru_prune_loop_correct [OF tl_okD(1) [OF assms], of ?mx "[]"] by auto
  have "\<forall>n \<in> set (take ?mx (tl_keys c)). fst n < tl_fresh c"
    using tl_okD(2) [OF assms] by (meson in_set_takeD)
  moreover have "map strip (rev (drop ?mx (tl_items c))) = rev (map (callback_args \<circ> snd) (drop ?mx (tl_keys c)))"
    by (simp add: tl_items_def drop_map rev_map strip_entry comp_def)
  ultimately show ?thesis using False c' tl_okD(4) [OF assms]
    by (auto simp: TimedLruCache_prune_def same_bounds_def tl_ok_def tl_items_def take_map cut_items_def)
qed

lemma TimedLruCache_set_correct:
  assumes "tl_ok c"
  shows "\<exists>c' gone. TimedLruCache_set now k v expired c = (Inr (map strip gone), c') \<and> tl_ok c' \<and> same_bounds c c' \<and>
    (Evicted gone, tl_items c') =
      recency (tl_cb c) (tl_maxSize c) (tl_elasticity c) (Set k (v, expired + now)) (tl_items c)"
proof (cases "map_of (tl_cache c) k")
  case None
  let ?item = "\<lparr>it_key = k, it_val = v, it_ts = expired + now\<rparr>"
  have fr: "tl_fresh c \<notin> fst ` set (tl_keys c)" using tl_okD(2) [OF assms] by (force simp: image_iff)
  obtain timed' where t: "iter_insert ((tl_fresh c, ?item) # tl_keys c) (tl_fresh c) (tl_timed c) = Inr timed'"
      "tl_inv (map_insert k (tl_fresh c) (tl_cache c)) ((tl_fresh c, ?item) # tl_keys c) timed'"
    using tl_inv_push [OF tl_okD(1) [OF assms], of ?item "tl_fresh c"] None fr by auto
  define c1 where "c1 = c\<lparr>tl_status := incSet (tl_status c), tl_keys := (tl_fresh c, ?item) # tl_keys c,
      tl_fresh := tl_fresh c + 1, tl_cache := map_insert k (tl_fresh c) (tl_cache c), tl_timed := timed'\<rparr>"
  have ok1: "tl_ok c1" using t(2) tl_okD(2) [OF assms] by (auto simp: tl_ok_def c1_def less_SucI)
  have c1: "tl_items c1 = (k, v, expired + now) # tl_items c" "same_bounds c c1"
    by (simp_all add: c1_def tl_items_def node_entry_def same_bounds_def)
  obtain c' n where p: "TimedLruCache_prune c1 =
      (Inr (n, map strip (fst (cut_items (tl_cb c1) (tl_maxSize c1) (tl_elasticity c1) (tl_items c1)))), c')"
    "tl_ok c'" "same_bounds c1 c'" "tl_items c' = snd (cut_items (tl_cb c1) (tl_maxSize c1) (tl_elasticity c1) (tl_items c1))"
    using TimedLruCache_prune_correct [OF ok1] by blast
  have "TimedLruCache_set now k v expired c =
      (case TimedLruCache_prune c1 of (Inl e, c') \<Rightarrow> (Inl e, c') | (Inr (n, calls), c') \<Rightarrow> (Inr calls, c'))"
    using None t(1) by (simp add: TimedLruCache_set_def Let_def c1_def)
  then show ?thesis
    using p c1 tl_missing(2) [OF assms None] by (simp add: same_bounds_def case_prod_beta)
next
  case (Some i)
  obtain xs item ys where f: "tl_keys c = xs @ (i, item) # ys" "it_key item = k" "map_of (tl_keys c) i = Some item"
    "map_of (tl_items c) k = Some (it_val item, it_ts item)"
    "without k (tl_items c) = map node_entry (xs @ ys)" "k \<in> fst ` set (tl_items c)"
    "splice_front i (tl_keys c) = (i, item) # xs @ ys" "list_erase i (tl_keys c) = xs @ ys"
    by (rule tl_found [OF assms Some])
  let ?item = "item\<lparr>it_val := v, it_ts := expired + now\<rparr>" and ?timed = "filter (\<lambda>j. j \<noteq> i) (tl_timed c)"
  note inv = tl_okD(1) [OF assms]
  have inv1: "tl_inv (tl_cache c) ((i, item) # xs @ ys) (tl_timed c)"
    by (rule tl_inv_perm [OF inv]) (simp add: f(1))
  have e: "iter_erase ((i, item) # xs @ ys) i (tl_timed c) = Inr ?timed"
    by (rule iter_erase_eq [OF inv1, of i item]) simp
  have inv2: "tl_inv (map_erase k (tl_cache c)) (xs @ ys) ?timed"
    using tl_inv_drop [of "tl_cache c" "[]" i item "xs @ ys" "tl_timed c"] inv1 f(2) by simp
  have "distinct (map fst ((i, item) # xs @ ys))" using tl_invD(4) [OF inv1] .
  then have i: "i \<notin> fst ` set (xs @ ys)" by (simp add: image_Un)
  have asg: "node_assign i (\<lambda>item. item\<lparr>it_val := v, it_ts := expired + now\<rparr>) ((i, item) # xs @ ys) = (i, ?item) # xs @ ys"
    using node_ops_split(3) [of "[]" i item "xs @ ys"] tl_invD(4) [OF inv1] by simp
  obtain timed' where t: "iter_insert ((i, ?item) # xs @ ys) i ?timed = Inr timed'"
      "tl_inv (map_insert k i (map_erase k (tl_cache c))) ((i, ?item) # xs @ ys) timed'"
    using tl_inv_push [OF inv2, of ?item i] f(2) i by (auto simp: cache_simps)
  have "tl_inv (tl_cache c) ((i, ?item) # xs @ ys) timed'"
    unfolding tl_inv_def using tl_invD(1) [OF inv1] tl_invD(2,3) [OF t(2)] by simp
  moreover have "\<forall>n \<in> set ((i, ?item) # xs @ ys). fst n < tl_fresh c" using tl_okD(2) [OF assms] by (auto simp: f(1))
  moreover have "TimedLruCache_set now k v expired c =
      (Inr [], c\<lparr>tl_status := incSet (tl_status c), tl_keys := (i, ?item) # xs @ ys, tl_timed := timed'\<rparr>)"
    using Some f(3) e t(1) by (simp add: TimedLruCache_set_def Let_def f(7) asg)
  ultimately show ?thesis using f(2,5,6)
    by (simp add: tl_items_def same_bounds_def tl_ok_def node_entry_def)
qed

lemma oset_sort: "distinct (map f xs) \<Longrightarrow> oset f (sort_key f xs)"
proof -
  assume "distinct (map f xs)"
  then have "distinct (map f (sort_key f xs))" by (metis mset_eq_imp_distinct_iff mset_map mset_sort)
  then have "sorted_wrt (<) (map f (sort_key f xs))" by (simp add: strict_sorted_iff)
  then show ?thesis by (simp add: oset_def sorted_wrt_map)
qed

lemma sort_key_first:
  assumes "distinct (map f (xs @ a # ys))" "\<forall>x \<in> set (xs @ ys). f a < f x"
  shows "sort_key f (xs @ a # ys) = a # sort_key f (xs @ ys)"
proof (rule oset_unique [of f])
  show "oset f (sort_key f (xs @ a # ys))" using assms(1) by (rule oset_sort)
  have "oset f (sort_key f (xs @ ys))" using assms(1) by (intro oset_sort) simp
  then show "oset f (a # sort_key f (xs @ ys))" using assms(2) by simp
qed simp

lemma tlru_timeout_loop_correct:
  assumes "tl_inv cache keys timed"
  shows "\<exists>cache' timed'. tlru_timeout_loop ts cache keys timed gone =
      Inr (cache', filter (\<lambda>n. ts < it_ts (snd n)) keys, timed',
        gone @ map (callback_args \<circ> snd) (sort_key node_order (filter (\<lambda>n. it_ts (snd n) \<le> ts) keys))) \<and>
    tl_inv cache' (filter (\<lambda>n. ts < it_ts (snd n)) keys) timed'"
  using assms
proof (induction timed arbitrary: cache keys gone)
  case Nil
  then have "keys = []" using tl_invD(3) [OF Nil] by simp
  then show ?case using Nil by simp
next
  case (Cons i timed)
  note d = tl_invD [OF Cons.prems]
  have "i \<in> fst ` set keys" using d(3) by auto
  then obtain item where mem: "(i, item) \<in> set keys" by (metis imageE prod.collapse)
  then obtain xs ys where keys: "keys = xs @ (i, item) # ys" by (meson split_list)
  have mi: "map_of keys i = Some item" using d(4) mem by simp
  have ni: "i \<notin> set timed" using d(2) by auto
  have first: "node_order (i, item) < node_order n" if n: "n \<in> set (xs @ ys)" for n
  proof -
    have "fst n \<in> fst ` set keys" "fst n \<noteq> i" using n d(4) by (auto simp: keys)
    then have "fst n \<in> set timed" using d(3) by auto
    then have "deref keys i < deref keys (fst n)" using d(2) by simp
    moreover have "(fst n, snd n) \<in> set keys" using n by (auto simp: keys)
    ultimately show ?thesis using deref_eq [OF d(4) mem] deref_eq [OF d(4), of "fst n" "snd n"]
      by (simp add: item_order_def)
  qed
  show ?case
  proof (cases "it_ts item \<le> ts")
    case True
    have inv: "tl_inv (map_erase (it_key item) cache) (xs @ ys) timed"
    proof -
      have "filter (\<lambda>j. j \<noteq> i) (i # timed) = timed" using ni by (simp add: filter_id_conv) blast
      then show ?thesis using tl_inv_drop [of cache xs i item ys "i # timed"] Cons.prems by (simp only: keys)
    qed
    obtain cache' timed' where c': "tlru_timeout_loop ts (map_erase (it_key item) cache) (xs @ ys) timed (gone @ [callback_args item]) =
        Inr (cache', filter (\<lambda>n. ts < it_ts (snd n)) (xs @ ys), timed', (gone @ [callback_args item]) @
          map (callback_args \<circ> snd) (sort_key node_order (filter (\<lambda>n. it_ts (snd n) \<le> ts) (xs @ ys))))"
        "tl_inv cache' (filter (\<lambda>n. ts < it_ts (snd n)) (xs @ ys)) timed'"
      using Cons.IH [OF inv] by blast
    have "distinct (map node_order keys)"
      using distinct_map [of "\<lambda>n. it_key (snd n)" keys] d(5)
      unfolding distinct_map inj_on_def item_order_def by simp
    then have "distinct (map node_order (filter (\<lambda>n. it_ts (snd n) \<le> ts) keys))" by (rule distinct_map_filter)
    moreover have fk: "filter (\<lambda>n. it_ts (snd n) \<le> ts) keys =
        filter (\<lambda>n. it_ts (snd n) \<le> ts) xs @ (i, item) # filter (\<lambda>n. it_ts (snd n) \<le> ts) ys"
      using True by (simp add: keys)
    moreover have "\<forall>x \<in> set (filter (\<lambda>n. it_ts (snd n) \<le> ts) xs @ filter (\<lambda>n. it_ts (snd n) \<le> ts) ys).
        node_order (i, item) < node_order x" using first by auto
    ultimately have "sort_key node_order (filter (\<lambda>n. it_ts (snd n) \<le> ts) keys) =
        (i, item) # sort_key node_order (filter (\<lambda>n. it_ts (snd n) \<le> ts) (xs @ ys))"
      unfolding fk filter_append by (intro sort_key_first)
    moreover have "filter (\<lambda>n. ts < it_ts (snd n)) keys = filter (\<lambda>n. ts < it_ts (snd n)) (xs @ ys)"
      using True by (simp add: keys not_less)
    moreover have "list_erase i keys = xs @ ys" using node_ops_split(2) [of xs i item ys] d(4) by (simp add: keys)
    ultimately show ?thesis using c' mi True by simp
  next
    case False
    have "ts < it_ts (snd n)" if n: "n \<in> set keys" for n
    proof (cases "n = (i, item)")
      case True
      then show ?thesis using False by (simp add: not_le)
    next
      case ne: False
      then have "n \<in> set (xs @ ys)" using n by (auto simp: keys)
      then have "it_ts item \<le> it_ts (snd n)" using first [of n] by (auto simp: item_order_def)
      then show ?thesis using False by (metis less_le_trans not_le)
    qed
    then have "filter (\<lambda>n. ts < it_ts (snd n)) keys = keys" "filter (\<lambda>n. it_ts (snd n) \<le> ts) keys = []"
      by (auto simp: filter_empty_conv not_le)
    then show ?thesis using False mi Cons.prems by simp
  qed
qed

lemma sort_key_map: "sort_key f (map g xs) = map g (sort_key (\<lambda>x. f (g x)) xs)"
proof (induction xs)
  case (Cons x xs)
  have "insort_key f (g x) (map g ys) = map g (insort_key (\<lambda>x. f (g x)) x ys)" for ys
    by (induction ys) simp_all
  then show ?case using Cons by simp
qed simp

definition entry_order :: "'k \<times> 'v \<times> u64 \<Rightarrow> u64 \<times> 'k" where
  "entry_order x = (snd (snd x), fst x)"

lemma TimedLruCache_checkTimeout_correct:
  assumes "tl_ok c"
  shows "\<exists>c'. TimedLruCache_checkTimeout ts c =
      (Inr (length (filter (\<lambda>x. snd (snd x) \<le> ts) (tl_items c)),
        if tl_cb c then map strip (sort_key entry_order (filter (\<lambda>x. snd (snd x) \<le> ts) (tl_items c))) else []), c') \<and>
    tl_ok c' \<and> same_bounds c c' \<and> tl_items c' = filter (\<lambda>x. ts < snd (snd x)) (tl_items c)"
proof -
  let ?late = "filter (\<lambda>n. ts < it_ts (snd n)) (tl_keys c)"
  let ?gone = "map (callback_args \<circ> snd) (sort_key node_order (filter (\<lambda>n. it_ts (snd n) \<le> ts) (tl_keys c)))"
  obtain cache' timed' where l: "tlru_timeout_loop ts (tl_cache c) (tl_keys c) (tl_timed c) [] = Inr (cache', ?late, timed', ?gone)"
      "tl_inv cache' ?late timed'"
    using tlru_timeout_loop_correct [OF tl_okD(1) [OF assms], of ts "[]"] by auto
  have f: "filter (\<lambda>x. snd (snd x) \<le> ts) (tl_items c) = map node_entry (filter (\<lambda>n. it_ts (snd n) \<le> ts) (tl_keys c))"
      "filter (\<lambda>x. ts < snd (snd x)) (tl_items c) = map node_entry ?late"
    by (simp_all add: tl_items_def filter_map node_entry_def comp_def)
  have g: "map strip (sort_key entry_order (filter (\<lambda>x. snd (snd x) \<le> ts) (tl_items c))) = ?gone"
    unfolding f(1) sort_key_map map_map comp_def strip_entry by (simp add: entry_order_def node_entry_def item_order_def)
  have n: "length ?gone = length (filter (\<lambda>x. snd (snd x) \<le> ts) (tl_items c))" by (simp add: f(1))
  let ?c' = "c\<lparr>tl_cache := cache', tl_keys := ?late, tl_timed := timed'\<rparr>"
  have "tl_ok ?c'" using l(2) tl_okD(2) [OF assms] by (auto simp: tl_ok_def)
  moreover have "TimedLruCache_checkTimeout ts c = (Inr (length ?gone, if tl_cb c then ?gone else []), ?c')"
    by (simp add: TimedLruCache_checkTimeout_def l(1))
  ultimately show ?thesis unfolding g n [symmetric] by (simp add: same_bounds_def tl_items_def f(2) [unfolded tl_items_def])
qed

section \<open>Properties\<close>

datatype ('k, 'v) timed_op = TSet u64 'k 'v u64 | TGet 'k | TDel 'k | TTimeout u64

datatype ('k, 'v) timed_result = TEvicted "('k \<times> 'v) list" | TFound "'v option" | TDeleted bool
  | TExpired nat "('k \<times> 'v) list"

text \<open>The specification: the recency list of the untimed cache with deadlines, and \<^verbatim>\<open>checkTimeout\<close> removes what has
  run out.\<close>

fun timed_result_of :: "('k, 'v \<times> u64) cache_result \<Rightarrow> ('k, 'v) timed_result" where
  "timed_result_of (Evicted g) = TEvicted (map strip g)"
| "timed_result_of (Found r) = TFound (map_option fst r)"
| "timed_result_of (Deleted b) = TDeleted b"

fun timed_recency :: "bool \<Rightarrow> nat \<Rightarrow> nat \<Rightarrow> ('k::linorder, 'v) timed_op \<Rightarrow> ('k \<times> 'v \<times> u64) list \<Rightarrow>
    ('k, 'v) timed_result \<times> ('k \<times> 'v \<times> u64) list" where
  "timed_recency cb mx el (TSet now k v expired) l = apfst timed_result_of (recency cb mx el (Set k (v, expired + now)) l)"
| "timed_recency cb mx el (TGet k) l = apfst timed_result_of (recency cb mx el (Get k) l)"
| "timed_recency cb mx el (TDel k) l = apfst timed_result_of (recency cb mx el (Del k) l)"
| "timed_recency cb mx el (TTimeout ts) l =
     (let out = filter (\<lambda>x. snd (snd x) \<le> ts) l
      in (TExpired (length out) (if cb then map strip (sort_key entry_order out) else []), filter (\<lambda>x. ts < snd (snd x)) l))"

fun tlru_exec :: "('k::linorder, 'v) timed_op \<Rightarrow> ('k, 'v) tlru \<Rightarrow> (failure + ('k, 'v) timed_result) \<times> ('k, 'v) tlru" where
  "tlru_exec (TSet now k v expired) c = apfst (map_sum id TEvicted) (TimedLruCache_set now k v expired c)"
| "tlru_exec (TGet k) c = apfst (map_sum id TFound) (TimedLruCache_get k c)"
| "tlru_exec (TDel k) c = apfst (map_sum id TDeleted) (TimedLruCache_del k c)"
| "tlru_exec (TTimeout ts) c = apfst (map_sum id (\<lambda>(n, calls). TExpired n calls)) (TimedLruCache_checkTimeout ts c)"

lemma tlru_exec_correct:
  assumes "tl_ok c"
  shows "\<exists>c'. tlru_exec a c = (Inr (fst (timed_recency (tl_cb c) (tl_maxSize c) (tl_elasticity c) a (tl_items c))), c') \<and>
    tl_ok c' \<and> same_bounds c c' \<and>
    tl_items c' = snd (timed_recency (tl_cb c) (tl_maxSize c) (tl_elasticity c) a (tl_items c))"
proof (cases a)
  case (TSet now k v expired)
  obtain c' gone where "TimedLruCache_set now k v expired c = (Inr (map strip gone), c')" "tl_ok c'" "same_bounds c c'"
    "(Evicted gone, tl_items c') =
      recency (tl_cb c) (tl_maxSize c) (tl_elasticity c) (Set k (v, expired + now)) (tl_items c)"
    using TimedLruCache_set_correct [OF assms] by blast
  then show ?thesis unfolding TSet timed_recency.simps by (metis apfst_conv fst_conv snd_conv map_sum.simps(2) timed_result_of.simps(1) tlru_exec.simps(1))
next
  case (TGet k)
  then show ?thesis using TimedLruCache_get_correct [OF assms, of k] by (auto split: option.splits)
next
  case (TDel k)
  then show ?thesis using TimedLruCache_del_correct [OF assms, of k] by auto
next
  case (TTimeout ts)
  then show ?thesis using TimedLruCache_checkTimeout_correct [OF assms, of ts] by (auto simp: Let_def)
qed

lemma tlru_run:
  assumes "tl_ok c"
  shows "\<exists>c'. run_cache tlru_exec ops c =
      (map Inr (fst (run_cache (timed_recency (tl_cb c) (tl_maxSize c) (tl_elasticity c)) ops (tl_items c))), c') \<and>
    tl_ok c' \<and> same_bounds c c' \<and>
    tl_items c' = snd (run_cache (timed_recency (tl_cb c) (tl_maxSize c) (tl_elasticity c)) ops (tl_items c))"
  using assms
proof (induction ops arbitrary: c)
  case Nil
  then show ?case by (simp add: same_bounds_def)
next
  case (Cons a ops)
  obtain c1 where 1: "tlru_exec a c = (Inr (fst (timed_recency (tl_cb c) (tl_maxSize c) (tl_elasticity c) a (tl_items c))), c1)"
      "tl_ok c1" "same_bounds c c1" "tl_items c1 = snd (timed_recency (tl_cb c) (tl_maxSize c) (tl_elasticity c) a (tl_items c))"
    using tlru_exec_correct [OF Cons.prems, of a] by blast
  then show ?case using Cons.IH [OF 1(2)] by (auto simp: same_bounds_def split: prod.splits)
qed

text \<open>
  (C14) \<^verbatim>\<open>TimedLruCache\<close> on a new cache: a run of \<^verbatim>\<open>set\<close>, \<^verbatim>\<open>get\<close>, \<^verbatim>\<open>del\<close> and \<^verbatim>\<open>checkTimeout\<close> never follows a dead
  iterator, in the map or in the set of deadlines, and returns what the recency list with deadlines returns:
  \<^verbatim>\<open>set\<close> renews both place and deadline, eviction takes the least recently used, \<^verbatim>\<open>checkTimeout\<close> removes exactly the
  items that have run out and calls back for them in the order of their deadlines.
\<close>

theorem timed_lru_refines_recency:
  "\<exists>c'. run_cache tlru_exec ops (TimedLruCache_setPruneCallback (new_TimedLruCache mx el st)) =
      (map Inr (fst (run_cache (timed_recency True mx el) ops [])), c') \<and> tl_ok c' \<and>
    tl_items c' = snd (run_cache (timed_recency True mx el) ops []) \<and> TimedLruCache_size c' = length (tl_items c')"
proof -
  let ?c = "TimedLruCache_setPruneCallback (new_TimedLruCache mx el st)"
  have p: "tl_cb ?c = True" "tl_maxSize ?c = mx" "tl_elasticity ?c = el" "tl_items ?c = []"
    by (simp_all add: TimedLruCache_setPruneCallback_def new_TimedLruCache_def tl_items_def)
  have "tl_ok ?c"
    by (simp add: TimedLruCache_setPruneCallback_def new_TimedLruCache_def tl_ok_def tl_inv_def)
  from tlru_run [OF this, of ops] tl_okD(4) show ?thesis unfolding p by (auto simp: TimedLruCache_size_def)
qed

end
