(* ===== verification/HashCache.thy ===== *)
theory HashCache
  imports TimedLruCache
begin

text \<open>
  \<^verbatim>\<open>HashLruCache\<close>, \<^verbatim>\<open>HashTimedCache\<close> and \<^verbatim>\<open>HashTimedLruCache\<close>: an array of caches, the bucket of a key chosen by
  its hash, with one \<^verbatim>\<open>CacheStatus\<close> that all buckets point to. The three classes have the same text up to the
  class of the buckets; the common part is written once, for any bucket type \<open>'c\<close>. The locale
  \<open>cache_contract\<close> states what a client of any of the caches may rely on.
\<close>

record 'c hashed =
  hc_datas :: "'c list"
  hc_maxSize :: nat
  hc_bucket :: nat
  hc_elasticity :: nat
  hc_status :: cache_status

section \<open>The common part\<close>

text \<open>\<^verbatim>\<open>std::ceil(n * 1.0 / bucket)\<close>: exact in \<^verbatim>\<open>double\<close> for sizes below \<open>2 ^ 53\<close>, to which the model is restricted.\<close>

definition per_bucket :: "nat \<Rightarrow> nat \<Rightarrow> nat" where
  "per_bucket n bucket = (n + bucket - 1) div bucket"

definition new_hashed :: "(nat \<Rightarrow> nat \<Rightarrow> cache_status option \<Rightarrow> 'c) \<Rightarrow> nat \<Rightarrow> nat \<Rightarrow> nat \<Rightarrow> failure + 'c hashed" where
  "new_hashed newc bucket mx el =
     (if bucket = 0 then Inl Undefined
      else Inr \<lparr>hc_datas = replicate bucket (newc (per_bucket mx bucket) (per_bucket el bucket) (Some new_status)),
                hc_maxSize = per_bucket mx bucket * bucket, hc_bucket = bucket,
                hc_elasticity = per_bucket el bucket * bucket, hc_status = new_status\<rparr>)"

text \<open>A call of an operation of the bucket of a key. The bucket's status pointer is the address of
  \<^verbatim>\<open>m_status\<close>: the bucket works on the shared counters.\<close>

definition on_bucket :: "('c \<Rightarrow> cache_status) \<Rightarrow> (cache_status \<Rightarrow> 'c \<Rightarrow> 'c) \<Rightarrow> ('k \<Rightarrow> nat) \<Rightarrow> 'k \<Rightarrow>
    ('c, 'a) action \<Rightarrow> ('c hashed, 'a) action" where
  "on_bucket status with_status hash k f h =
     (if hc_bucket h = 0 then (Inl DivByZero, h)
      else let i = hash k mod hc_bucket h in
        if length (hc_datas h) \<le> i then (Inl BadIndex, h)
        else let (r, c) = f (with_status (hc_status h) (hc_datas h ! i))
             in (r, h\<lparr>hc_datas := (hc_datas h)[i := c], hc_status := status c\<rparr>))"

definition hashed_size :: "('c \<Rightarrow> nat) \<Rightarrow> 'c hashed \<Rightarrow> nat" where
  "hashed_size sizef h = fold (\<lambda>c n. n + sizef c) (hc_datas h) 0"

definition hashed_all :: "('c \<Rightarrow> 'c) \<Rightarrow> 'c hashed \<Rightarrow> 'c hashed" where
  "hashed_all f h = h\<lparr>hc_datas := map f (hc_datas h)\<rparr>"

definition hashed_setMaxSize :: "(nat \<Rightarrow> 'c \<Rightarrow> 'c) \<Rightarrow> nat \<Rightarrow> 'c hashed \<Rightarrow> failure + 'c hashed" where
  "hashed_setMaxSize setter n h =
     (if hc_bucket h = 0 then Inl Undefined
      else let per = per_bucket n (hc_bucket h)
           in Inr (hashed_all (setter per) (h\<lparr>hc_maxSize := per * hc_bucket h\<rparr>)))"

definition hashed_setElasticity :: "(nat \<Rightarrow> 'c \<Rightarrow> 'c) \<Rightarrow> nat \<Rightarrow> 'c hashed \<Rightarrow> failure + 'c hashed" where
  "hashed_setElasticity setter n h =
     (if hc_bucket h = 0 then Inl Undefined
      else let per = per_bucket n (hc_bucket h)
           in Inr (hashed_all (setter per) (h\<lparr>hc_elasticity := per * hc_bucket h\<rparr>)))"

section \<open>HashLruCache\<close>

abbreviation on_lru :: "('k \<Rightarrow> nat) \<Rightarrow> 'k \<Rightarrow> (('k, 'v) lru, 'a) action \<Rightarrow> (('k, 'v) lru hashed, 'a) action" where
  "on_lru \<equiv> on_bucket lc_status (\<lambda>s c. c\<lparr>lc_status := s\<rparr>)"

definition new_HashLruCache :: "nat \<Rightarrow> nat \<Rightarrow> nat \<Rightarrow> failure + ('k, 'v) lru hashed" where
  "new_HashLruCache = new_hashed new_LruCache"

definition HashLruCache_set :: "('k \<Rightarrow> nat) \<Rightarrow> 'k \<Rightarrow> 'v \<Rightarrow> (('k, 'v) lru hashed, ('k \<times> 'v) list) action" where
  "HashLruCache_set hash k v = on_lru hash k (LruCache_set k v)"

definition HashLruCache_get :: "('k \<Rightarrow> nat) \<Rightarrow> 'k \<Rightarrow> (('k, 'v) lru hashed, 'v option) action" where
  "HashLruCache_get hash k = on_lru hash k (LruCache_get k)"

definition HashLruCache_del :: "('k \<Rightarrow> nat) \<Rightarrow> 'k \<Rightarrow> (('k, 'v) lru hashed, bool) action" where
  "HashLruCache_del hash k = on_lru hash k (LruCache_del k)"

definition HashLruCache_exists :: "('k \<Rightarrow> nat) \<Rightarrow> 'k \<Rightarrow> (('k, 'v) lru hashed, bool) action" where
  "HashLruCache_exists hash k = on_lru hash k (\<lambda>c. (Inr (LruCache_exists k c), c))"

definition HashLruCache_size :: "('k, 'v) lru hashed \<Rightarrow> nat" where
  "HashLruCache_size = hashed_size LruCache_size"

definition HashLruCache_empty :: "('k, 'v) lru hashed \<Rightarrow> bool" where
  "HashLruCache_empty h = list_all LruCache_empty (hc_datas h)"

definition HashLruCache_clear :: "('k, 'v) lru hashed \<Rightarrow> ('k, 'v) lru hashed" where
  "HashLruCache_clear = hashed_all LruCache_clear"

definition HashLruCache_setMaxSize :: "nat \<Rightarrow> ('k, 'v) lru hashed \<Rightarrow> failure + ('k, 'v) lru hashed" where
  "HashLruCache_setMaxSize = hashed_setMaxSize LruCache_setMaxSize"

definition HashLruCache_setElasticity :: "nat \<Rightarrow> ('k, 'v) lru hashed \<Rightarrow> failure + ('k, 'v) lru hashed" where
  "HashLruCache_setElasticity = hashed_setElasticity LruCache_setElasticity"

definition HashLruCache_setPruneCallback :: "('k, 'v) lru hashed \<Rightarrow> ('k, 'v) lru hashed" where
  "HashLruCache_setPruneCallback = hashed_all LruCache_setPruneCallback"

section \<open>HashTimedCache\<close>

abbreviation on_timed :: "('k \<Rightarrow> nat) \<Rightarrow> 'k \<Rightarrow> (('k, 'v) timed, 'a) action \<Rightarrow> (('k, 'v) timed hashed, 'a) action" where
  "on_timed \<equiv> on_bucket tc_status (\<lambda>s c. c\<lparr>tc_status := s\<rparr>)"

definition new_HashTimedCache :: "nat \<Rightarrow> nat \<Rightarrow> nat \<Rightarrow> failure + ('k, 'v) timed hashed" where
  "new_HashTimedCache = new_hashed new_TimedCache"

definition HashTimedCache_set :: "('k \<Rightarrow> nat) \<Rightarrow> u64 \<Rightarrow> 'k::linorder \<Rightarrow> 'v \<Rightarrow> u64 \<Rightarrow> (('k, 'v) timed hashed, ('k \<times> 'v) list) action" where
  "HashTimedCache_set hash now k v expired = on_timed hash k (TimedCache_set now k v expired)"

definition HashTimedCache_expired :: "('k \<Rightarrow> nat) \<Rightarrow> u64 \<Rightarrow> 'k::linorder \<Rightarrow> u64 \<Rightarrow> (('k, 'v) timed hashed, bool) action" where
  "HashTimedCache_expired hash now k ts = on_timed hash k (TimedCache_expired now k ts)"

definition HashTimedCache_get :: "('k \<Rightarrow> nat) \<Rightarrow> 'k \<Rightarrow> (('k, 'v) timed hashed, 'v option) action" where
  "HashTimedCache_get hash k = on_timed hash k (TimedCache_get k)"

definition HashTimedCache_del :: "('k \<Rightarrow> nat) \<Rightarrow> 'k \<Rightarrow> (('k, 'v) timed hashed, bool) action" where
  "HashTimedCache_del hash k = on_timed hash k (TimedCache_del k)"

definition HashTimedCache_exists :: "('k \<Rightarrow> nat) \<Rightarrow> 'k \<Rightarrow> (('k, 'v) timed hashed, bool) action" where
  "HashTimedCache_exists hash k = on_timed hash k (\<lambda>c. (Inr (TimedCache_exists k c), c))"

definition HashTimedCache_size :: "('k, 'v) timed hashed \<Rightarrow> nat" where
  "HashTimedCache_size = hashed_size TimedCache_size"

definition HashTimedCache_empty :: "('k, 'v) timed hashed \<Rightarrow> bool" where
  "HashTimedCache_empty h = list_all TimedCache_empty (hc_datas h)"

definition HashTimedCache_clear :: "('k, 'v) timed hashed \<Rightarrow> ('k, 'v) timed hashed" where
  "HashTimedCache_clear = hashed_all TimedCache_clear"

definition HashTimedCache_setMaxSize :: "nat \<Rightarrow> ('k, 'v) timed hashed \<Rightarrow> failure + ('k, 'v) timed hashed" where
  "HashTimedCache_setMaxSize = hashed_setMaxSize TimedCache_setMaxSize"

definition HashTimedCache_setElasticity :: "nat \<Rightarrow> ('k, 'v) timed hashed \<Rightarrow> failure + ('k, 'v) timed hashed" where
  "HashTimedCache_setElasticity = hashed_setElasticity TimedCache_setElasticity"

definition HashTimedCache_setPruneCallback :: "('k, 'v) timed hashed \<Rightarrow> ('k, 'v) timed hashed" where
  "HashTimedCache_setPruneCallback = hashed_all TimedCache_setPruneCallback"

definition HashTimedCache_checkTimeout :: "u64 \<Rightarrow> ('k, 'v) timed hashed \<Rightarrow> nat \<times> ('k, 'v) timed hashed" where
  "HashTimedCache_checkTimeout ts h =
     (let rs = map (TimedCache_checkTimeout ts) (hc_datas h)
      in (sum_list (map (fst \<circ> fst) rs), h\<lparr>hc_datas := map snd rs\<rparr>))"

section \<open>HashTimedLruCache\<close>

abbreviation on_tlru :: "('k \<Rightarrow> nat) \<Rightarrow> 'k \<Rightarrow> (('k, 'v) tlru, 'a) action \<Rightarrow> (('k, 'v) tlru hashed, 'a) action" where
  "on_tlru \<equiv> on_bucket tl_status (\<lambda>s c. c\<lparr>tl_status := s\<rparr>)"

definition new_HashTimedLruCache :: "nat \<Rightarrow> nat \<Rightarrow> nat \<Rightarrow> failure + ('k, 'v) tlru hashed" where
  "new_HashTimedLruCache = new_hashed new_TimedLruCache"

definition HashTimedLruCache_set :: "('k \<Rightarrow> nat) \<Rightarrow> u64 \<Rightarrow> 'k::linorder \<Rightarrow> 'v \<Rightarrow> u64 \<Rightarrow> (('k, 'v) tlru hashed, ('k \<times> 'v) list) action" where
  "HashTimedLruCache_set hash now k v expired = on_tlru hash k (TimedLruCache_set now k v expired)"

definition HashTimedLruCache_get :: "('k \<Rightarrow> nat) \<Rightarrow> 'k \<Rightarrow> (('k, 'v) tlru hashed, 'v option) action" where
  "HashTimedLruCache_get hash k = on_tlru hash k (TimedLruCache_get k)"

definition HashTimedLruCache_del :: "('k \<Rightarrow> nat) \<Rightarrow> 'k::linorder \<Rightarrow> (('k, 'v) tlru hashed, bool) action" where
  "HashTimedLruCache_del hash k = on_tlru hash k (TimedLruCache_del k)"

definition HashTimedLruCache_exists :: "('k \<Rightarrow> nat) \<Rightarrow> 'k \<Rightarrow> (('k, 'v) tlru hashed, bool) action" where
  "HashTimedLruCache_exists hash k = on_tlru hash k (\<lambda>c. (Inr (TimedLruCache_exists k c), c))"

definition HashTimedLruCache_size :: "('k, 'v) tlru hashed \<Rightarrow> nat" where
  "HashTimedLruCache_size = hashed_size TimedLruCache_size"

definition HashTimedLruCache_empty :: "('k, 'v) tlru hashed \<Rightarrow> bool" where
  "HashTimedLruCache_empty h = list_all TimedLruCache_empty (hc_datas h)"

definition HashTimedLruCache_clear :: "('k, 'v) tlru hashed \<Rightarrow> ('k, 'v) tlru hashed" where
  "HashTimedLruCache_clear = hashed_all TimedLruCache_clear"

definition HashTimedLruCache_setMaxSize :: "nat \<Rightarrow> ('k, 'v) tlru hashed \<Rightarrow> failure + ('k, 'v) tlru hashed" where
  "HashTimedLruCache_setMaxSize = hashed_setMaxSize TimedLruCache_setMaxSize"

definition HashTimedLruCache_setElasticity :: "nat \<Rightarrow> ('k, 'v) tlru hashed \<Rightarrow> failure + ('k, 'v) tlru hashed" where
  "HashTimedLruCache_setElasticity = hashed_setElasticity TimedLruCache_setElasticity"

definition HashTimedLruCache_setPruneCallback :: "('k, 'v) tlru hashed \<Rightarrow> ('k, 'v) tlru hashed" where
  "HashTimedLruCache_setPruneCallback = hashed_all TimedLruCache_setPruneCallback"

primrec tlru_timeouts :: "u64 \<Rightarrow> ('k, 'v) tlru list \<Rightarrow> nat \<Rightarrow> (failure + nat) \<times> ('k, 'v) tlru list" where
  "tlru_timeouts ts [] n = (Inr n, [])"
| "tlru_timeouts ts (c # cs) n =
     (case TimedLruCache_checkTimeout ts c of (Inl e, c') \<Rightarrow> (Inl e, c' # cs)
      | (Inr (m, calls), c') \<Rightarrow> (let (r, cs') = tlru_timeouts ts cs (n + m) in (r, c' # cs')))"

definition HashTimedLruCache_checkTimeout :: "u64 \<Rightarrow> (('k, 'v) tlru hashed, nat) action" where
  "HashTimedLruCache_checkTimeout ts h =
     (let (r, cs) = tlru_timeouts ts (hc_datas h) 0 in (r, h\<lparr>hc_datas := cs\<rparr>))"

section \<open>The contract of a cache\<close>

text \<open>A cache may forget, but never invents: \<open>view\<close> is what it would find. \<open>'w\<close> is what \<^verbatim>\<open>set\<close> takes for a key
  (the value and, for a timed cache, the times), \<open>val\<close> the value in it.\<close>

datatype ('k, 'w) client_op = Put 'k 'w | Ask 'k | Remove 'k

fun intended :: "('w \<Rightarrow> 'v) \<Rightarrow> ('k, 'w) client_op \<Rightarrow> ('k \<rightharpoonup> 'v) \<Rightarrow> ('k \<rightharpoonup> 'v)" where
  "intended val (Put k w) m = m(k \<mapsto> val w)"
| "intended val (Ask k) m = m"
| "intended val (Remove k) m = m(k := None)"

datatype 'v answer = Done | Answer "'v option" | Crash failure

fun client_exec :: "('k \<Rightarrow> ('s, 'v option) action) \<Rightarrow> ('k \<Rightarrow> 'w \<Rightarrow> ('s, 'e) action) \<Rightarrow> ('k \<Rightarrow> ('s, bool) action) \<Rightarrow>
    ('k, 'w) client_op \<Rightarrow> 's \<Rightarrow> 'v answer \<times> 's" where
  "client_exec getf setf delf (Put k w) s = (case setf k w s of (Inl e, s') \<Rightarrow> (Crash e, s') | (Inr _, s') \<Rightarrow> (Done, s'))"
| "client_exec getf setf delf (Ask k) s = (case getf k s of (Inl e, s') \<Rightarrow> (Crash e, s') | (Inr r, s') \<Rightarrow> (Answer r, s'))"
| "client_exec getf setf delf (Remove k) s = (case delf k s of (Inl e, s') \<Rightarrow> (Crash e, s') | (Inr _, s') \<Rightarrow> (Done, s'))"

text \<open>An answer is right if it is no answer or the value last stored.\<close>

fun answer_ok :: "('k, 'w) client_op \<Rightarrow> ('k \<rightharpoonup> 'v) \<Rightarrow> 'v answer \<Rightarrow> bool" where
  "answer_ok (Ask k) m a \<longleftrightarrow> a = Answer None \<or> a = Answer (m k)"
| "answer_ok _ m a \<longleftrightarrow> a = Done"

fun answers_ok :: "('w \<Rightarrow> 'v) \<Rightarrow> ('k, 'w) client_op list \<Rightarrow> ('k \<rightharpoonup> 'v) \<Rightarrow> 'v answer list \<Rightarrow> bool" where
  "answers_ok val [] m as \<longleftrightarrow> as = []"
| "answers_ok val (p # ps) m (a # as) \<longleftrightarrow> answer_ok p m a \<and> answers_ok val ps (intended val p m) as"
| "answers_ok val (p # ps) m [] \<longleftrightarrow> False"

locale cache_contract =
  fixes getf :: "'k \<Rightarrow> ('s, 'v option) action"
    and setf :: "'k \<Rightarrow> 'w \<Rightarrow> ('s, 'e) action"
    and delf :: "'k \<Rightarrow> ('s, bool) action"
    and inv :: "'s \<Rightarrow> bool"
    and view :: "'s \<Rightarrow> 'k \<rightharpoonup> 'v"
    and val :: "'w \<Rightarrow> 'v"
  assumes get_law: "inv s \<Longrightarrow> \<exists>s'. getf k s = (Inr (view s k), s') \<and> inv s' \<and> view s' = view s"
    and set_law: "inv s \<Longrightarrow> \<exists>e s'. setf k w s = (Inr e, s') \<and> inv s' \<and> view s' k = Some (val w) \<and>
      view s' \<subseteq>\<^sub>m (view s)(k \<mapsto> val w)"
    and del_law: "inv s \<Longrightarrow> \<exists>s'. delf k s = (Inr (view s k \<noteq> None), s') \<and> inv s' \<and> view s' = (view s)(k := None)"
begin

lemma step_coherent:
  assumes "inv s" "view s \<subseteq>\<^sub>m m"
  shows "\<exists>a s'. client_exec getf setf delf p s = (a, s') \<and> inv s' \<and> answer_ok p m a \<and> view s' \<subseteq>\<^sub>m intended val p m"
proof (cases p)
  case (Put k w)
  obtain e s' where "setf k w s = (Inr e, s')" "inv s'" "view s' \<subseteq>\<^sub>m (view s)(k \<mapsto> val w)"
    using set_law [OF assms(1)] by blast
  moreover have "(view s)(k \<mapsto> val w) \<subseteq>\<^sub>m m(k \<mapsto> val w)" using assms(2) by (simp add: map_le_upd)
  ultimately show ?thesis using Put by (auto intro: map_le_trans)
next
  case (Ask k)
  have "view s k = None \<or> view s k = m k" using assms(2) by (auto simp: map_le_def dom_def)
  then show ?thesis using Ask get_law [OF assms(1), of k] assms(2) by auto
next
  case (Remove k)
  have "(view s)(k := None) \<subseteq>\<^sub>m m(k := None)" using assms(2) by (auto simp: map_le_def)
  then show ?thesis using Remove del_law [OF assms(1), of k] by auto
qed

lemma run_coherent:
  assumes "inv s" "view s \<subseteq>\<^sub>m m"
  shows "answers_ok val ps m (fst (run_cache (client_exec getf setf delf) ps s)) \<and>
    inv (snd (run_cache (client_exec getf setf delf) ps s))"
  using assms
proof (induction ps arbitrary: s m)
  case (Cons p ps)
  obtain a s' where "client_exec getf setf delf p s = (a, s')" "inv s'" "answer_ok p m a" "view s' \<subseteq>\<^sub>m intended val p m"
    using step_coherent [OF Cons.prems] by blast
  then show ?case using Cons.IH [of s' "intended val p m"] by (auto split: prod.splits)
qed simp

lemma stored_is_found:
  assumes "inv s"
  shows "\<exists>e s' s''. setf k w s = (Inr e, s') \<and> getf k s' = (Inr (Some (val w)), s'')"
  using set_law [OF assms, of k w] get_law by metis

end

section \<open>Buckets with a shared status\<close>

text \<open>A cache whose counters can be exchanged without changing what it holds can be a bucket; the array of
  buckets then fulfils the contract too.\<close>

definition hashed_inv :: "('s \<Rightarrow> bool) \<Rightarrow> 's hashed \<Rightarrow> bool" where
  "hashed_inv P h \<longleftrightarrow> 0 < hc_bucket h \<and> length (hc_datas h) = hc_bucket h \<and> list_all P (hc_datas h)"

definition hashed_view :: "('s \<Rightarrow> 'k \<rightharpoonup> 'v) \<Rightarrow> ('k \<Rightarrow> nat) \<Rightarrow> 's hashed \<Rightarrow> 'k \<rightharpoonup> 'v" where
  "hashed_view view hash h k = view (hc_datas h ! (hash k mod hc_bucket h)) k"

locale bucket_contract = cache_contract getf setf delf inv view val
  for getf :: "'k \<Rightarrow> ('s, 'v option) action"
    and setf :: "'k \<Rightarrow> 'w \<Rightarrow> ('s, 'e) action"
    and delf :: "'k \<Rightarrow> ('s, bool) action"
    and inv :: "'s \<Rightarrow> bool"
    and view :: "'s \<Rightarrow> 'k \<rightharpoonup> 'v"
    and val :: "'w \<Rightarrow> 'v" +
  fixes status :: "'s \<Rightarrow> cache_status"
    and with_status :: "cache_status \<Rightarrow> 's \<Rightarrow> 's"
  assumes status_law: "inv s \<Longrightarrow> inv (with_status st s) \<and> view (with_status st s) = view s"
begin

text \<open>What a call on the bucket of a key does to the whole.\<close>

lemma on_bucket_step:
  assumes h: "hashed_inv inv h"
    and f: "\<And>c. inv c \<Longrightarrow> \<exists>r c'. f c = (Inr r, c') \<and> inv c' \<and> Q (view c) r (view c')"
  shows "\<exists>r h'. on_bucket status with_status hash k f h = (Inr r, h') \<and> hashed_inv inv h' \<and>
    (\<exists>m'. Q (view (hc_datas h ! (hash k mod hc_bucket h))) r m' \<and>
      hashed_view view hash h' = (\<lambda>j. if hash j mod hc_bucket h = hash k mod hc_bucket h then m' j else hashed_view view hash h j))"
proof -
  let ?i = "hash k mod hc_bucket h"
  have i: "?i < length (hc_datas h)" and inv_i: "inv (hc_datas h ! ?i)"
    using h by (auto simp: hashed_inv_def list_all_length)
  let ?c = "with_status (hc_status h) (hc_datas h ! ?i)"
  have c: "inv ?c" "view ?c = view (hc_datas h ! ?i)" using status_law [OF inv_i] by auto
  obtain r c' where r: "f ?c = (Inr r, c')" "inv c'" "Q (view ?c) r (view c')" using f [OF c(1)] by blast
  let ?h' = "h\<lparr>hc_datas := (hc_datas h)[?i := c'], hc_status := status c'\<rparr>"
  have "on_bucket status with_status hash k f h = (Inr r, ?h')"
    using h r(1) i mod_less_divisor [of "hc_bucket h" "hash k"] by (simp add: on_bucket_def hashed_inv_def Let_def not_le)
  moreover have "hashed_inv inv ?h'"
    using h r(2) by (auto simp: hashed_inv_def list_all_iff dest!: set_update_subset_insert [THEN subsetD])
  moreover have "hashed_view view hash ?h' = (\<lambda>j. if hash j mod hc_bucket h = ?i then view c' j else hashed_view view hash h j)"
    using i by (auto simp: hashed_view_def fun_eq_iff)
  moreover have "Q (view (hc_datas h ! ?i)) r (view c')" using r(3) c(2) by simp
  ultimately show ?thesis by (intro exI conjI) assumption+
qed

lemma hashed_contract:
  "cache_contract (\<lambda>k. on_bucket status with_status hash k (getf k)) (\<lambda>k w. on_bucket status with_status hash k (setf k w))
     (\<lambda>k. on_bucket status with_status hash k (delf k)) (hashed_inv inv) (hashed_view view hash) val"
proof
  fix h k w assume h: "hashed_inv inv h"
  let ?m = "view (hc_datas h ! (hash k mod hc_bucket h))"
  have k: "hashed_view view hash h k = ?m k" by (simp add: hashed_view_def)
  have same: "hash j mod hc_bucket h = hash k mod hc_bucket h \<Longrightarrow> hashed_view view hash h j = ?m j" for j
    by (simp add: hashed_view_def)
  from on_bucket_step [OF h, of "getf k" "\<lambda>m r m'. r = m k \<and> m' = m" hash k] get_law
  show "\<exists>s'. on_bucket status with_status hash k (getf k) h = (Inr (hashed_view view hash h k), s') \<and> hashed_inv inv s' \<and>
      hashed_view view hash s' = hashed_view view hash h"
    using k same by (force simp: fun_eq_iff)
  from on_bucket_step [OF h, of "delf k" "\<lambda>m r m'. r = (m k \<noteq> None) \<and> m' = m(k := None)" hash k] del_law
  show "\<exists>s'. on_bucket status with_status hash k (delf k) h = (Inr (hashed_view view hash h k \<noteq> None), s') \<and> hashed_inv inv s' \<and>
      hashed_view view hash s' = (hashed_view view hash h)(k := None)"
    using k same by (force simp: fun_eq_iff)
  from on_bucket_step [OF h, of "setf k w" "\<lambda>m r m'. m' k = Some (val w) \<and> m' \<subseteq>\<^sub>m m(k \<mapsto> val w)" hash k] set_law
  show "\<exists>e s'. on_bucket status with_status hash k (setf k w) h = (Inr e, s') \<and> hashed_inv inv s' \<and>
      hashed_view view hash s' k = Some (val w) \<and> hashed_view view hash s' \<subseteq>\<^sub>m (hashed_view view hash h)(k \<mapsto> val w)"
    using same by (force simp: map_le_def dom_def)
qed

end

section \<open>The caches fulfil the contract\<close>

lemma map_of_without: "map_of (without k l) j = (if j = k then None else map_of l j)"
  by (induction l) (auto simp: without_def)

text \<open>What a step of the recency list does to the finite map it stands for.\<close>

lemma map_of_get: "map_of (case map_of l k of None \<Rightarrow> l | Some v \<Rightarrow> (k, v) # without k l) = map_of l"
  by (auto simp: fun_eq_iff map_of_without split: option.splits)

lemma map_of_take_le: "map_of (take n l) \<subseteq>\<^sub>m map_of l"
proof -
  have "map_of l = map_of (drop n l) ++ map_of (take n l)" by (metis append_take_drop_id map_of_append)
  then show ?thesis by simp
qed

lemma recency_set_view:
  assumes "(Evicted gone, l') = recency cb mx el (Set k v) l"
  shows "map_of l' k = Some v" "map_of l' \<subseteq>\<^sub>m (map_of l)(k \<mapsto> v)"
proof -
  consider "l' = (k, v) # without k l" | "l' = (k, v) # l" | "l' = take mx ((k, v) # l)" "0 < mx"
    using assms by (auto simp: cut_items_def split: if_splits)
  then have "map_of l' k = Some v \<and> map_of l' \<subseteq>\<^sub>m (map_of l)(k \<mapsto> v)"
  proof cases
    case 3
    moreover have "map_of (take mx ((k, v) # l)) k = Some v" using 3(2) by (cases mx) auto
    ultimately show ?thesis using map_of_take_le [of mx "(k, v) # l"] by simp
  qed (auto simp: map_le_def map_of_without)
  then show "map_of l' k = Some v" "map_of l' \<subseteq>\<^sub>m (map_of l)(k \<mapsto> v)" by auto
qed

definition lru_view :: "('k, 'v) lru \<Rightarrow> 'k \<rightharpoonup> 'v" where
  "lru_view c = map_of (lru_items c)"

definition tlru_view :: "('k, 'v) tlru \<Rightarrow> 'k \<rightharpoonup> 'v" where
  "tlru_view c k = map_option fst (map_of (tl_items c) k)"

interpretation lru_bucket: bucket_contract LruCache_get LruCache_set LruCache_del lru_ok lru_view "\<lambda>v. v" lc_status
    "\<lambda>s c. c\<lparr>lc_status := s\<rparr>"
proof
  fix c :: "('k, 'v) lru" and k v st assume ok: "lru_ok c"
  show "\<exists>c'. LruCache_get k c = (Inr (lru_view c k), c') \<and> lru_ok c' \<and> lru_view c' = lru_view c"
    using LruCache_get_correct [OF ok, of k] by (auto simp: lru_view_def map_of_get)
  show "\<exists>e c'. LruCache_set k v c = (Inr e, c') \<and> lru_ok c' \<and> lru_view c' k = Some v \<and> lru_view c' \<subseteq>\<^sub>m (lru_view c)(k \<mapsto> v)"
    using LruCache_set_correct [OF ok, of k v] recency_set_view unfolding lru_view_def by metis
  show "\<exists>c'. LruCache_del k c = (Inr (lru_view c k \<noteq> None), c') \<and> lru_ok c' \<and> lru_view c' = (lru_view c)(k := None)"
    using LruCache_del_correct [OF ok, of k] by (auto simp: lru_view_def map_of_without fun_eq_iff map_of_eq_None_iff)
  show "lru_ok (c\<lparr>lc_status := st\<rparr>) \<and> lru_view (c\<lparr>lc_status := st\<rparr>) = lru_view c"
    using ok by (simp add: lru_ok_def lru_view_def lru_items_def)
qed

abbreviation tlru_set :: "'k::linorder \<Rightarrow> 'v \<times> u64 \<times> u64 \<Rightarrow> (('k, 'v) tlru, ('k \<times> 'v) list) action" where
  "tlru_set k \<equiv> \<lambda>(v, expired, now). TimedLruCache_set now k v expired"

interpretation tlru_bucket: bucket_contract TimedLruCache_get tlru_set TimedLruCache_del tl_ok tlru_view fst tl_status
    "\<lambda>s c. c\<lparr>tl_status := s\<rparr>"
proof
  fix c :: "('k::linorder, 'v) tlru" and k and w :: "'v \<times> u64 \<times> u64" and st assume ok: "tl_ok c"
  show "\<exists>c'. TimedLruCache_get k c = (Inr (tlru_view c k), c') \<and> tl_ok c' \<and> tlru_view c' = tlru_view c"
    using TimedLruCache_get_correct [OF ok, of k] by (auto simp: tlru_view_def map_of_get fun_eq_iff)
  obtain v expired now where w: "w = (v, expired, now)" by (cases w)
  obtain c' gone where s: "TimedLruCache_set now k v expired c = (Inr (map strip gone), c')" "tl_ok c'"
      "map_of (tl_items c') k = Some (v, expired + now)" "map_of (tl_items c') \<subseteq>\<^sub>m (map_of (tl_items c))(k \<mapsto> (v, expired + now))"
    using TimedLruCache_set_correct [OF ok, of now k v expired] recency_set_view by metis
  have "tlru_view c' \<subseteq>\<^sub>m (tlru_view c)(k \<mapsto> v)" using s(4) by (force simp: tlru_view_def map_le_def dom_def)
  then show "\<exists>e c'. tlru_set k w c = (Inr e, c') \<and> tl_ok c' \<and> tlru_view c' k = Some (fst w) \<and>
      tlru_view c' \<subseteq>\<^sub>m (tlru_view c)(k \<mapsto> fst w)"
    using s(1-3) by (simp add: w tlru_view_def)
  show "\<exists>c'. TimedLruCache_del k c = (Inr (tlru_view c k \<noteq> None), c') \<and> tl_ok c' \<and> tlru_view c' = (tlru_view c)(k := None)"
    using TimedLruCache_del_correct [OF ok, of k] by (auto simp: tlru_view_def map_of_without fun_eq_iff map_of_eq_None_iff)
  show "tl_ok (c\<lparr>tl_status := st\<rparr>) \<and> tlru_view (c\<lparr>tl_status := st\<rparr>) = tlru_view c"
    using ok by (simp add: tl_ok_def tlru_view_def tl_items_def fun_eq_iff)
qed

definition htlru_set :: "('k \<Rightarrow> nat) \<Rightarrow> 'k::linorder \<Rightarrow> 'v \<times> u64 \<times> u64 \<Rightarrow> (('k, 'v) tlru hashed, ('k \<times> 'v) list) action" where
  "htlru_set hash k w = (case w of (v, expired, now) \<Rightarrow> HashTimedLruCache_set hash now k v expired)"

lemma htlru_set_eq: "htlru_set hash = (\<lambda>k w. on_tlru hash k (tlru_set k w))"
  by (auto simp: fun_eq_iff htlru_set_def HashTimedLruCache_set_def)

interpretation hash_lru: cache_contract "HashLruCache_get hash" "HashLruCache_set hash" "HashLruCache_del hash"
    "hashed_inv lru_ok" "hashed_view lru_view hash" "\<lambda>v. v" for hash
  using lru_bucket.hashed_contract [of hash]
  by (simp add: HashLruCache_get_def [abs_def] HashLruCache_set_def [abs_def] HashLruCache_del_def [abs_def])

interpretation hash_tlru: cache_contract "HashTimedLruCache_get hash" "htlru_set hash" "HashTimedLruCache_del hash"
    "hashed_inv tl_ok" "hashed_view tlru_view hash" fst for hash
  using tlru_bucket.hashed_contract [of hash]
  by (simp add: HashTimedLruCache_get_def [abs_def] HashTimedLruCache_del_def [abs_def] htlru_set_eq)

lemma LruCache_bucket_start: "lru_ok (new_LruCache mx el st)" "lru_view (new_LruCache mx el st) = Map.empty"
  by (simp_all add: new_LruCache_def lru_ok_def lru_view_def lru_items_def)

lemma TimedLruCache_bucket_start:
  "tl_ok (new_TimedLruCache mx el st)" "tlru_view (new_TimedLruCache mx el st) = Map.empty"
  by (simp_all add: new_TimedLruCache_def tl_ok_def tl_inv_def tlru_view_def tl_items_def fun_eq_iff)

lemma new_hashed_start:
  assumes "0 < bucket" "P (newc (per_bucket mx bucket) (per_bucket el bucket) (Some new_status))"
    "view (newc (per_bucket mx bucket) (per_bucket el bucket) (Some new_status)) = Map.empty"
  obtains h where "new_hashed newc bucket mx el = Inr h" "hashed_inv P h" "hashed_view view hash h = Map.empty"
  using assms by (simp add: new_hashed_def hashed_inv_def hashed_view_def fun_eq_iff list_all_iff)

text \<open>
  (C15) A new \<^verbatim>\<open>HashLruCache\<close>, for any number of buckets and any hash function, is coherent: over any sequence of \<^verbatim>\<open>set\<close>,
  \<^verbatim>\<open>get\<close> and \<^verbatim>\<open>del\<close> no call crashes, and every \<^verbatim>\<open>get\<close> finds nothing or the value of the last \<^verbatim>\<open>set\<close> of that key
  since which it has not been deleted: never another key's value, never a stale one; and after the run a \<^verbatim>\<open>get\<close> of a
  key just stored finds its value.
\<close>

theorem hash_lru_coherent:
  assumes "0 < bucket"
  shows "\<exists>h. new_HashLruCache bucket mx el = Inr h \<and>
    (let (as, h') = run_cache (client_exec (HashLruCache_get hash) (HashLruCache_set hash) (HashLruCache_del hash)) ops h
     in answers_ok (\<lambda>v. v) ops Map.empty as \<and>
        (\<forall>k v. \<exists>e h1 h2. HashLruCache_set hash k v h' = (Inr e, h1) \<and> HashLruCache_get hash k h1 = (Inr (Some (v)), h2)))"
proof -
  obtain h :: "('a, 'b) lru hashed" where h: "new_HashLruCache bucket mx el = Inr h" "hashed_inv lru_ok h" "hashed_view lru_view hash h = Map.empty"
    by (rule new_hashed_start [where P = lru_ok and view = lru_view and hash = hash and newc = new_LruCache, OF assms])
      (auto simp: LruCache_bucket_start new_HashLruCache_def)
  from hash_lru.run_coherent [OF h(2), of hash Map.empty ops] h(1,3) show ?thesis
    using hash_lru.stored_is_found [of _ hash] by (auto simp: Let_def split: prod.splits)
qed

theorem hash_lru_coherent_witness:
  "\<exists>h. new_HashLruCache 2 2 0 = Inr h \<and>
    answers_ok (\<lambda>v. v) [Put (1 :: nat) CHR ''a'', Ask 1, Put 3 CHR ''b'', Ask 1, Remove 3, Ask 3] Map.empty
     (fst (run_cache (client_exec (HashLruCache_get id) (HashLruCache_set id) (HashLruCache_del id))
        [Put (1 :: nat) CHR ''a'', Ask 1, Put 3 CHR ''b'', Ask 1, Remove 3, Ask 3] h))"
  using hash_lru_coherent [of 2 2 0 id "[Put (1 :: nat) CHR ''a'', Ask 1, Put 3 CHR ''b'', Ask 1, Remove 3, Ask 3]"]
  by (auto simp: Let_def case_prod_beta)

text \<open>
  The same of \<^verbatim>\<open>HashTimedLruCache\<close>, whose \<^verbatim>\<open>set\<close> takes a time to live and reads the clock: whatever these times are.
\<close>

theorem hash_timed_lru_coherent:
  assumes "0 < bucket"
  shows "\<exists>h. new_HashTimedLruCache bucket mx el = Inr h \<and>
    (let (as, h') = run_cache (client_exec (HashTimedLruCache_get hash) (htlru_set hash) (HashTimedLruCache_del hash)) ops h
     in answers_ok fst ops Map.empty as \<and>
        (\<forall>k v. \<exists>e h1 h2. htlru_set hash k v h' = (Inr e, h1) \<and> HashTimedLruCache_get hash k h1 = (Inr (Some (fst v)), h2)))"
proof -
  obtain h :: "('a, 'b) tlru hashed" where h: "new_HashTimedLruCache bucket mx el = Inr h" "hashed_inv tl_ok h" "hashed_view tlru_view hash h = Map.empty"
    by (rule new_hashed_start [where P = tl_ok and view = tlru_view and hash = hash and newc = new_TimedLruCache, OF assms])
      (auto simp: TimedLruCache_bucket_start new_HashTimedLruCache_def)
  from hash_tlru.run_coherent [OF h(2), of hash Map.empty ops] h(1,3) show ?thesis
    using hash_tlru.stored_is_found [of _ hash] by (auto simp: Let_def split: prod.splits)
qed

theorem hash_timed_lru_coherent_witness:
  "\<exists>h. new_HashTimedLruCache 2 2 0 = Inr h \<and>
    answers_ok fst [Put (1 :: nat) (CHR ''a'', 5, 100), Ask 1, Put 3 (CHR ''b'', 1, 101), Ask 1, Ask 3] Map.empty
     (fst (run_cache (client_exec (HashTimedLruCache_get id) (htlru_set id) (HashTimedLruCache_del id))
        [Put (1 :: nat) (CHR ''a'', 5, 100), Ask 1, Put 3 (CHR ''b'', 1, 101), Ask 1, Ask 3] h))"
  using hash_timed_lru_coherent [of 2 2 0 id "[Put (1 :: nat) (CHR ''a'', 5, 100), Ask 1, Put 3 (CHR ''b'', 1, 101), Ask 1, Ask 3]"]
  by (auto simp: Let_def case_prod_beta)

end
