(* ===== verification/Timer.thy ===== *)
theory Timer
  imports OrderedSet
begin

text \<open>
  \<^verbatim>\<open>sylar/timer.h\<close> and \<^verbatim>\<open>timer.cc\<close>: timers and the manager that keeps them in a \<^verbatim>\<open>std::set\<close> ordered by deadline, then
  by address. Timers are shared objects: the manager's set holds addresses, and the fields are in \<open>tm_heap\<close>. A
  timer that has been cancelled or has run has no callback any more. The clock is an argument of the operations
  that read it, the address of a new timer an argument of \<^verbatim>\<open>addTimer\<close>. A call of \<^verbatim>\<open>onTimerInsertedAtFront\<close> is part
  of the result. Each operation holds the manager's lock, so that runs are sequences of whole operations.
\<close>

section \<open>Timers\<close>

text \<open>What is stored in \<^verbatim>\<open>m_cb\<close>: a function, or \<^verbatim>\<open>OnTimer\<close> bound to a weak pointer and a (possibly empty) function.\<close>

datatype ('w, 'f) callback = Call 'f | OnTimer 'w "'f option"

text \<open>Calling it: the functions that run; calling an empty \<^verbatim>\<open>std::function\<close> throws.\<close>

fun run_callback :: "('w \<Rightarrow> bool) \<Rightarrow> ('w, 'f) callback \<Rightarrow> failure + 'f list" where
  "run_callback alive (Call f) = Inr [f]"
| "run_callback alive (OnTimer w cb) =
     (if alive w then (case cb of None \<Rightarrow> Inl InvalidArgument | Some f \<Rightarrow> Inr [f]) else Inr [])"

record ('w, 'f) timer =
  t_recurring :: bool
  t_ms :: u64
  t_next :: u64
  t_cb :: "('w, 'f) callback option"

record ('w, 'f) timer_manager =
  tm_timers :: "nat list"
  tm_tickled :: bool
  tm_previous :: u64
  tm_heap :: "nat \<Rightarrow> ('w, 'f) timer"

text \<open>\<^verbatim>\<open>Timer::Comparator\<close> on pointers, null included.\<close>

fun timer_less :: "(nat \<Rightarrow> ('w, 'f) timer) \<Rightarrow> nat option \<Rightarrow> nat option \<Rightarrow> bool" where
  "timer_less heap None None = False"
| "timer_less heap None (Some _) = True"
| "timer_less heap (Some _) None = False"
| "timer_less heap (Some l) (Some r) =
     (if t_next (heap l) < t_next (heap r) then True
      else if t_next (heap r) < t_next (heap l) then False
      else l < r)"

text \<open>The order it induces on timers.\<close>

definition timer_key :: "(nat \<Rightarrow> ('w, 'f) timer) \<Rightarrow> nat \<Rightarrow> u64 \<times> nat" where
  "timer_key heap a = (t_next (heap a), a)"

definition new_Timer :: "u64 \<Rightarrow> u64 \<Rightarrow> ('w, 'f) callback option \<Rightarrow> bool \<Rightarrow> ('w, 'f) timer" where
  "new_Timer now ms cb recurring = \<lparr>t_recurring = recurring, t_ms = ms, t_next = now + ms, t_cb = cb\<rparr>"

section \<open>Operations\<close>

definition new_TimerManager :: "u64 \<Rightarrow> (nat \<Rightarrow> ('w, 'f) timer) \<Rightarrow> ('w, 'f) timer_manager" where
  "new_TimerManager now heap = \<lparr>tm_timers = [], tm_tickled = False, tm_previous = now, tm_heap = heap\<rparr>"

abbreviation set_timer :: "nat \<Rightarrow> ('w, 'f) timer \<Rightarrow> ('w, 'f) timer_manager \<Rightarrow> ('w, 'f) timer_manager" where
  "set_timer a t m \<equiv> m\<lparr>tm_heap := (tm_heap m)(a := t)\<rparr>"

definition timers_find :: "nat \<Rightarrow> ('w, 'f) timer_manager \<Rightarrow> nat option" where
  "timers_find a m = oset_find (timer_key (tm_heap m)) a (tm_timers m)"

definition timers_insert :: "nat \<Rightarrow> ('w, 'f) timer_manager \<Rightarrow> ('w, 'f) timer_manager" where
  "timers_insert a m = m\<lparr>tm_timers := oset_insert (timer_key (tm_heap m)) a (tm_timers m)\<rparr>"

text \<open>\<^verbatim>\<open>m_timers.erase(it)\<close> with the iterator that \<^verbatim>\<open>find\<close> gave; the end iterator must not be erased.\<close>

definition timers_erase :: "nat option \<Rightarrow> (('w, 'f) timer_manager, unit) action" where
  "timers_erase it m = (case it of None \<Rightarrow> (Inl Undefined, m)
     | Some b \<Rightarrow> (Inr (), m\<lparr>tm_timers := filter (\<lambda>x. x \<noteq> b) (tm_timers m)\<rparr>))"

text \<open>The protected \<^verbatim>\<open>addTimer(val, lock)\<close>; the result tells whether \<^verbatim>\<open>onTimerInsertedAtFront\<close> was called.\<close>

definition TimerManager_insert :: "nat \<Rightarrow> ('w, 'f) timer_manager \<Rightarrow> bool \<times> ('w, 'f) timer_manager" where
  "TimerManager_insert a m =
     (let m = timers_insert a m;
          at_front = (timers_find a m = Some (hd (tm_timers m)) \<and> \<not> tm_tickled m)
      in (at_front, if at_front then m\<lparr>tm_tickled := True\<rparr> else m))"

definition TimerManager_addTimer :: "u64 \<Rightarrow> nat \<Rightarrow> u64 \<Rightarrow> ('w, 'f) callback option \<Rightarrow> bool \<Rightarrow>
    ('w, 'f) timer_manager \<Rightarrow> bool \<times> ('w, 'f) timer_manager" where
  "TimerManager_addTimer now a ms cb recurring m = TimerManager_insert a (set_timer a (new_Timer now ms cb recurring) m)"

definition TimerManager_addConditionTimer :: "u64 \<Rightarrow> nat \<Rightarrow> u64 \<Rightarrow> 'f option \<Rightarrow> 'w \<Rightarrow> bool \<Rightarrow>
    ('w, 'f) timer_manager \<Rightarrow> bool \<times> ('w, 'f) timer_manager" where
  "TimerManager_addConditionTimer now a ms cb weak_cond recurring =
     TimerManager_addTimer now a ms (Some (OnTimer weak_cond cb)) recurring"

definition Timer_cancel :: "nat \<Rightarrow> (('w, 'f) timer_manager, bool) action" where
  "Timer_cancel a m =
     (let t = tm_heap m a in
      if t_cb t \<noteq> None
      then let m = set_timer a (t\<lparr>t_cb := None\<rparr>) m
           in bindE (timers_erase (timers_find a m)) (\<lambda>_. returnE True) m
      else (Inr False, m))"

definition Timer_refresh :: "u64 \<Rightarrow> nat \<Rightarrow> (('w, 'f) timer_manager, bool) action" where
  "Timer_refresh now a m =
     (let t = tm_heap m a in
      if t_cb t = None then (Inr False, m)
      else case timers_find a m of None \<Rightarrow> (Inr False, m)
        | Some it \<Rightarrow> bindE (timers_erase (Some it))
            (\<lambda>_ m. (Inr True, timers_insert a (set_timer a (t\<lparr>t_next := now + t_ms t\<rparr>) m))) m)"

text \<open>\<^verbatim>\<open>reset\<close>; the first result tells whether \<^verbatim>\<open>onTimerInsertedAtFront\<close> was called.\<close>

definition Timer_reset :: "u64 \<Rightarrow> nat \<Rightarrow> u64 \<Rightarrow> bool \<Rightarrow> (('w, 'f) timer_manager, bool \<times> bool) action" where
  "Timer_reset now a ms from_now m =
     (let t = tm_heap m a in
      if ms = t_ms t \<and> \<not> from_now then (Inr (False, True), m)
      else if t_cb t = None then (Inr (False, False), m)
      else case timers_find a m of None \<Rightarrow> (Inr (False, False), m)
        | Some it \<Rightarrow> bindE (timers_erase (Some it))
            (\<lambda>_ m. let start = (if from_now then now else t_next t - t_ms t);
                       (front, m) = TimerManager_insert a (set_timer a (t\<lparr>t_ms := ms, t_next := start + ms\<rparr>) m)
                   in (Inr (front, True), m)) m)"

definition TimerManager_getNextTimer :: "u64 \<Rightarrow> ('w, 'f) timer_manager \<Rightarrow> u64 \<times> ('w, 'f) timer_manager" where
  "TimerManager_getNextTimer now m =
     (let m = m\<lparr>tm_tickled := False\<rparr> in
      case tm_timers m of [] \<Rightarrow> (NOT 0, m)
      | a # _ \<Rightarrow> (if t_next (tm_heap m a) \<le> now then 0 else t_next (tm_heap m a) - now, m))"

definition detectClockRollover :: "u64 \<Rightarrow> ('w, 'f) timer_manager \<Rightarrow> bool \<times> ('w, 'f) timer_manager" where
  "detectClockRollover now m =
     (now < tm_previous m \<and> now < tm_previous m - 60 * 60 * 1000, m\<lparr>tm_previous := now\<rparr>)"

text \<open>The loop of \<^verbatim>\<open>listExpiredCb\<close> over the expired timers.\<close>

primrec expire_loop :: "u64 \<Rightarrow> nat list \<Rightarrow> ('w, 'f) callback option list \<Rightarrow> ('w, 'f) timer_manager \<Rightarrow>
    ('w, 'f) callback option list \<times> ('w, 'f) timer_manager" where
  "expire_loop now [] cbs m = (cbs, m)"
| "expire_loop now (a # as) cbs m =
     (let t = tm_heap m a; cbs = cbs @ [t_cb t] in
      if t_recurring t then expire_loop now as cbs (timers_insert a (set_timer a (t\<lparr>t_next := now + t_ms t\<rparr>) m))
      else expire_loop now as cbs (set_timer a (t\<lparr>t_cb := None\<rparr>) m))"

text \<open>\<^verbatim>\<open>listExpiredCb\<close>. \<open>na\<close> is the address of the temporary timer that \<^verbatim>\<open>lower_bound\<close> is called with.\<close>

definition TimerManager_listExpiredCb :: "u64 \<Rightarrow> nat \<Rightarrow> ('w, 'f) callback option list \<Rightarrow> ('w, 'f) timer_manager \<Rightarrow>
    ('w, 'f) callback option list \<times> ('w, 'f) timer_manager" where
  "TimerManager_listExpiredCb now na cbs m =
     (if tm_timers m = [] then (cbs, m)
      else let (rollover, m) = detectClockRollover now m; ts = tm_timers m; heap = tm_heap m in
        if \<not> rollover \<and> now < t_next (heap (hd ts)) then (cbs, m)
        else let it = (if rollover then length ts else length (takeWhile (\<lambda>x. timer_key heap x < (now, na)) ts));
                 it = it + length (takeWhile (\<lambda>x. t_next (heap x) = now) (drop it ts))
             in expire_loop now (take it ts) cbs (m\<lparr>tm_timers := drop it ts\<rparr>))"

definition TimerManager_hasTimer :: "('w, 'f) timer_manager \<Rightarrow> bool" where
  "TimerManager_hasTimer m = (tm_timers m \<noteq> [])"

section \<open>Invariant\<close>

text \<open>The set is ordered, and a timer with a callback is in it.\<close>

definition timers_ok :: "('w, 'f) timer_manager \<Rightarrow> bool" where
  "timers_ok m \<longleftrightarrow> oset (timer_key (tm_heap m)) (tm_timers m) \<and>
     (\<forall>a. t_cb (tm_heap m a) \<noteq> None \<longrightarrow> a \<in> set (tm_timers m))"

lemma timer_less_key: "timer_less heap (Some l) (Some r) \<longleftrightarrow> timer_key heap l < timer_key heap r"
  by (auto simp: timer_key_def less_prod_def)

lemma timer_key_eq [simp]: "timer_key heap a = timer_key heap b \<longleftrightarrow> a = b"
  by (auto simp: timer_key_def)

lemma timer_key_image [simp]: "timer_key heap a \<in> timer_key heap ` A \<longleftrightarrow> a \<in> A"
  by (auto simp: image_iff)

lemma timer_key_other [simp]: "timer_key (heap(a := t)) b = (if a = b then (t_next t, a) else timer_key heap b)"
  by (simp add: timer_key_def)

lemma timers_okD:
  assumes "timers_ok m"
  shows "oset (timer_key (tm_heap m)) (tm_timers m)" "t_cb (tm_heap m a) \<noteq> None \<Longrightarrow> a \<in> set (tm_timers m)"
    "distinct (tm_timers m)"
proof -
  show o: "oset (timer_key (tm_heap m)) (tm_timers m)" using assms by (simp add: timers_ok_def)
  show "t_cb (tm_heap m a) \<noteq> None \<Longrightarrow> a \<in> set (tm_timers m)" using assms unfolding timers_ok_def by blast
  show "distinct (tm_timers m)" using oset_distinct [OF o] by (simp add: distinct_map)
qed

lemma timers_find_eq:
  assumes "oset (timer_key (tm_heap m)) (tm_timers m)"
  shows "timers_find a m = (if a \<in> set (tm_timers m) then Some a else None)"
  unfolding timers_find_def using oset_find_eq [OF assms, of a a] oset_find_None [of "timer_key (tm_heap m)" a "tm_timers m"]
  by auto

text \<open>A change of a timer that is not in the set leaves the set ordered.\<close>

lemma oset_heap_other:
  "a \<notin> set ts \<Longrightarrow> oset (timer_key (heap(a := t))) ts = oset (timer_key heap) ts"
  by (rule oset_cong) auto

lemma oset_heap_same_next:
  "t_next t = t_next (heap a) \<Longrightarrow> oset (timer_key (heap(a := t))) ts = oset (timer_key heap) ts"
  by (rule oset_cong) (auto simp: timer_key_def)

lemma timers_insert_ok:
  assumes "oset (timer_key (tm_heap m)) (tm_timers m)" "a \<notin> set (tm_timers m)"
    "\<And>b. b \<noteq> a \<Longrightarrow> t_cb (tm_heap m b) \<noteq> None \<Longrightarrow> b \<in> set (tm_timers m)"
  shows "timers_ok (timers_insert a m)" "set (tm_timers (timers_insert a m)) = insert a (set (tm_timers m))"
    "tm_heap (timers_insert a m) = tm_heap m" "tm_tickled (timers_insert a m) = tm_tickled m"
proof -
  note o = oset_insert_oset [OF assms(1), of a]
  show s: "set (tm_timers (timers_insert a m)) = insert a (set (tm_timers m))"
    unfolding timers_insert_def using oset_insert_new(1) [OF assms(1), of a] assms(2) by simp
  show "timers_ok (timers_insert a m)" using o s assms(3) by (auto simp: timers_ok_def timers_insert_def)
qed (simp_all add: timers_insert_def)

lemma TimerManager_insert_ok:
  assumes "oset (timer_key (tm_heap m)) (tm_timers m)" "a \<notin> set (tm_timers m)"
    "\<And>b. b \<noteq> a \<Longrightarrow> t_cb (tm_heap m b) \<noteq> None \<Longrightarrow> b \<in> set (tm_timers m)"
  obtains front m' where "TimerManager_insert a m = (front, m')" "timers_ok m'" "tm_heap m' = tm_heap m"
    "set (tm_timers m') = insert a (set (tm_timers m))" "tm_tickled m' = (tm_tickled m \<or> front)"
    "front \<longleftrightarrow> hd (tm_timers m') = a \<and> \<not> tm_tickled m"
proof -
  let ?m = "timers_insert a m"
  note i = timers_insert_ok [OF assms(1,2,3)]
  have "timers_find a ?m = Some a" using timers_find_eq [of ?m a] timers_okD(1) [OF i(1)] i(2) by simp
  then show thesis using i
    by (intro that [of "hd (tm_timers ?m) = a \<and> \<not> tm_tickled m"
          "if hd (tm_timers ?m) = a \<and> \<not> tm_tickled m then ?m\<lparr>tm_tickled := True\<rparr> else ?m"])
      (auto simp: TimerManager_insert_def Let_def timers_ok_def)
qed

text \<open>Taking a timer out of the set, after which its deadline may change.\<close>

lemma timers_without:
  assumes "timers_ok m"
  shows "oset (timer_key ((tm_heap m)(a := t))) (filter (\<lambda>x. x \<noteq> a) (tm_timers m))"
    "b \<noteq> a \<Longrightarrow> t_cb (tm_heap m b) \<noteq> None \<Longrightarrow> b \<in> set (filter (\<lambda>x. x \<noteq> a) (tm_timers m))"
  using timers_okD(2) [OF assms, of b] oset_filter [OF timers_okD(1) [OF assms], of "\<lambda>x. x \<noteq> a"]
  by (auto simp: oset_heap_other)

lemma Timer_cancel_ok:
  assumes "timers_ok m"
  obtains m' where "Timer_cancel a m = (Inr (t_cb (tm_heap m a) \<noteq> None), m')" "timers_ok m'"
    "tm_heap m' = (tm_heap m)(a := (tm_heap m a)\<lparr>t_cb := None\<rparr>)"
    "tm_timers m' = (if t_cb (tm_heap m a) = None then tm_timers m else filter (\<lambda>x. x \<noteq> a) (tm_timers m))"
    "tm_tickled m' = tm_tickled m"
proof (cases "t_cb (tm_heap m a) = None")
  case True
  then have "(tm_heap m)(a := (tm_heap m a)\<lparr>t_cb := None\<rparr>) = tm_heap m" by (auto simp: fun_eq_iff)
  then show thesis using True assms that [of m] by (simp add: Timer_cancel_def)
next
  case False
  let ?t = "(tm_heap m a)\<lparr>t_cb := None\<rparr>" and ?h = "(tm_heap m)(a := (tm_heap m a)\<lparr>t_cb := None\<rparr>)"
  let ?m = "m\<lparr>tm_heap := ?h\<rparr>"
  have "timers_find a ?m = Some a"
    using timers_find_eq [of ?m a] timers_okD [OF assms] False by (simp add: oset_heap_same_next)
  moreover have "timers_ok (?m\<lparr>tm_timers := filter (\<lambda>x. x \<noteq> a) (tm_timers m)\<rparr>)"
    using timers_without [OF assms] by (auto simp: timers_ok_def)
  ultimately show thesis using False
    by (intro that [of "?m\<lparr>tm_timers := filter (\<lambda>x. x \<noteq> a) (tm_timers m)\<rparr>"]) (auto simp: Timer_cancel_def Let_def timers_erase_def bindE_def returnE_def)
qed

lemma Timer_refresh_ok:
  assumes "timers_ok m"
  obtains m' where "Timer_refresh now a m = (Inr (t_cb (tm_heap m a) \<noteq> None), m')" "timers_ok m'"
    "tm_heap m' = (if t_cb (tm_heap m a) = None then tm_heap m
       else (tm_heap m)(a := (tm_heap m a)\<lparr>t_next := now + t_ms (tm_heap m a)\<rparr>))"
    "set (tm_timers m') = set (tm_timers m)" "tm_tickled m' = tm_tickled m"
proof (cases "t_cb (tm_heap m a) = None")
  case True
  then show thesis using assms that [of m] by (simp add: Timer_refresh_def)
next
  case False
  note a = timers_okD(2) [OF assms False]
  let ?t = "(tm_heap m a)\<lparr>t_next := now + t_ms (tm_heap m a)\<rparr>"
  let ?m = "m\<lparr>tm_timers := filter (\<lambda>x. x \<noteq> a) (tm_timers m), tm_heap := (tm_heap m)(a := ?t)\<rparr>"
  have "timers_find a m = Some a" using timers_find_eq [of m a] timers_okD(1) [OF assms] a by simp
  moreover have "timers_ok (timers_insert a ?m)" "set (tm_timers (timers_insert a ?m)) = insert a (set (tm_timers ?m))"
      "tm_heap (timers_insert a ?m) = tm_heap ?m" "tm_tickled (timers_insert a ?m) = tm_tickled ?m"
    using timers_without [OF assms] by (intro timers_insert_ok; simp)+
  ultimately show thesis using False a
    by (intro that [of "timers_insert a ?m"]) (auto simp: Timer_refresh_def Let_def timers_erase_def bindE_def)
qed

lemma Timer_reset_ok:
  assumes "timers_ok m"
  obtains front r m' where "Timer_reset now a ms from_now m = (Inr (front, r), m')" "timers_ok m'"
    "r \<longleftrightarrow> (ms = t_ms (tm_heap m a) \<and> \<not> from_now) \<or> t_cb (tm_heap m a) \<noteq> None"
    "tm_heap m' = (if t_cb (tm_heap m a) = None \<or> ms = t_ms (tm_heap m a) \<and> \<not> from_now then tm_heap m
       else (tm_heap m)(a := (tm_heap m a)\<lparr>t_ms := ms,
          t_next := (if from_now then now else t_next (tm_heap m a) - t_ms (tm_heap m a)) + ms\<rparr>))"
    "set (tm_timers m') = set (tm_timers m)" "tm_tickled m' = (tm_tickled m \<or> front)"
    "m' = m \<or> a \<in> set (tm_timers m) \<and> (front \<longleftrightarrow> hd (tm_timers m') = a \<and> \<not> tm_tickled m)"
proof (cases "t_cb (tm_heap m a) = None \<or> ms = t_ms (tm_heap m a) \<and> \<not> from_now")
  case True
  then show thesis using assms that [of False "ms = t_ms (tm_heap m a) \<and> \<not> from_now \<or> t_cb (tm_heap m a) \<noteq> None" m]
    by (auto simp: Timer_reset_def Let_def)
next
  case False
  then have cb: "t_cb (tm_heap m a) \<noteq> None" by auto
  note a = timers_okD(2) [OF assms cb]
  define t where "t = (tm_heap m a)\<lparr>t_ms := ms,
      t_next := (if from_now then now else t_next (tm_heap m a) - t_ms (tm_heap m a)) + ms\<rparr>"
  let ?m = "m\<lparr>tm_timers := filter (\<lambda>x. x \<noteq> a) (tm_timers m), tm_heap := (tm_heap m)(a := t)\<rparr>"
  have f: "timers_find a m = Some a" using timers_find_eq [of m a] timers_okD(1) [OF assms] a by simp
  obtain front m' where i: "TimerManager_insert a ?m = (front, m')" "timers_ok m'" "tm_heap m' = tm_heap ?m"
      "set (tm_timers m') = insert a (set (tm_timers ?m))" "tm_tickled m' = (tm_tickled ?m \<or> front)"
      "front \<longleftrightarrow> hd (tm_timers m') = a \<and> \<not> tm_tickled ?m"
    by (rule TimerManager_insert_ok [of ?m a]) (use timers_without [OF assms] in auto)
  have r: "Timer_reset now a ms from_now m = (Inr (front, True), m')"
    using False cb f i(1) unfolding t_def by (simp add: Timer_reset_def Let_def timers_erase_def bindE_def) blast
  have s: "set (tm_timers m') = set (tm_timers m)" using i(4) a by auto
  have h: "tm_heap m' = (if t_cb (tm_heap m a) = None \<or> ms = t_ms (tm_heap m a) \<and> \<not> from_now then tm_heap m
       else (tm_heap m)(a := t))"
    unfolding if_not_P [OF False] using i(3) by simp
  show thesis
    by (rule that [OF r i(2) _ h [unfolded t_def] s]) (use cb a i(5,6) in auto)
qed

section \<open>Expiry\<close>

definition expired_timer :: "u64 \<Rightarrow> ('w, 'f) timer \<Rightarrow> ('w, 'f) timer" where
  "expired_timer now t = (if t_recurring t then t\<lparr>t_next := now + t_ms t\<rparr> else t\<lparr>t_cb := None\<rparr>)"

lemma set_timers_insert:
  assumes "oset (timer_key (tm_heap m)) (tm_timers m)" "a \<notin> set (tm_timers m)"
  shows "set (oset_insert (timer_key (tm_heap m)) a (tm_timers m)) = insert a (set (tm_timers m))"
  using oset_insert_new(1) [OF assms(1), of a] assms(2) by simp

lemma expire_loop_ok:
  assumes "oset (timer_key (tm_heap m)) (tm_timers m)" "distinct as" "set as \<inter> set (tm_timers m) = {}"
    "\<And>b. t_cb (tm_heap m b) \<noteq> None \<Longrightarrow> b \<in> set as \<union> set (tm_timers m)"
  shows "\<exists>m'. expire_loop now as cbs m = (cbs @ map (\<lambda>a. t_cb (tm_heap m a)) as, m') \<and> timers_ok m' \<and>
    tm_heap m' = (\<lambda>a. if a \<in> set as then expired_timer now (tm_heap m a) else tm_heap m a) \<and>
    set (tm_timers m') = {a \<in> set as. t_recurring (tm_heap m a)} \<union> set (tm_timers m) \<and> tm_tickled m' = tm_tickled m"
  using assms
proof (induction as arbitrary: m cbs)
  case Nil
  then show ?case by (auto simp: timers_ok_def)
next
  case (Cons a as)
  define m1 where "m1 = set_timer a (expired_timer now (tm_heap m a)) m"
  define m2 where "m2 = (if t_recurring (tm_heap m a) then timers_insert a m1 else m1)"
  have o1: "oset (timer_key (tm_heap m1)) (tm_timers m1)" and a1: "a \<notin> set (tm_timers m1)" and t1: "tm_timers m1 = tm_timers m"
    using Cons.prems(1,3) by (auto simp: m1_def oset_heap_other)
  have m2: "oset (timer_key (tm_heap m2)) (tm_timers m2)" "tm_heap m2 = tm_heap m1" "tm_tickled m2 = tm_tickled m"
    "set (tm_timers m2) = (if t_recurring (tm_heap m a) then insert a (set (tm_timers m)) else set (tm_timers m))"
    using o1 oset_insert_oset [OF o1, of a] set_timers_insert [OF o1 a1] t1
    by (auto simp: m2_def timers_insert_def m1_def)
  have h: "tm_heap m2 b = (if b = a then expired_timer now (tm_heap m a) else tm_heap m b)" for b
    by (simp add: m2(2) m1_def)
  have step: "expire_loop now (a # as) cbs m = expire_loop now as (cbs @ [t_cb (tm_heap m a)]) m2"
    by (simp add: Let_def m2_def m1_def expired_timer_def)
  have "set as \<inter> set (tm_timers m2) = {}" using Cons.prems(2,3) m2(4) by auto
  moreover have "b \<in> set as \<union> set (tm_timers m2)" if "t_cb (tm_heap m2 b) \<noteq> None" for b
    using that Cons.prems(4) [of b] by (auto simp: h m2(4) expired_timer_def split: if_splits)
  moreover have "distinct as" using Cons.prems(2) by simp
  ultimately obtain m' where m': "expire_loop now as (cbs @ [t_cb (tm_heap m a)]) m2 =
        ((cbs @ [t_cb (tm_heap m a)]) @ map (\<lambda>a. t_cb (tm_heap m2 a)) as, m')" "timers_ok m'"
      "tm_heap m' = (\<lambda>a. if a \<in> set as then expired_timer now (tm_heap m2 a) else tm_heap m2 a)"
      "set (tm_timers m') = {a \<in> set as. t_recurring (tm_heap m2 a)} \<union> set (tm_timers m2)" "tm_tickled m' = tm_tickled m2"
    using Cons.IH [OF m2(1)] by blast
  have "a \<notin> set as" using Cons.prems(2) by simp
  then have *: "map (\<lambda>a. t_cb (tm_heap m2 a)) as = map (\<lambda>a. t_cb (tm_heap m a)) as"
    "tm_heap m' = (\<lambda>b. if b \<in> set (a # as) then expired_timer now (tm_heap m b) else tm_heap m b)"
    "set (tm_timers m') = {b \<in> set (a # as). t_recurring (tm_heap m b)} \<union> set (tm_timers m)"
    unfolding m'(3,4) m2(4) by (auto simp: h fun_eq_iff)
  then show ?case unfolding step m'(1) using m'(2,5) m2(3) by simp
qed

text \<open>\<^verbatim>\<open>lower_bound\<close> followed by the loop over equal deadlines: the timers whose deadline is not after \<open>now\<close>, whatever the
  address of the temporary timer.\<close>

lemma due_prefix:
  assumes "oset (timer_key heap) ts"
  shows "takeWhile (\<lambda>x. timer_key heap x < (now, na)) ts @
      takeWhile (\<lambda>x. t_next (heap x) = now) (dropWhile (\<lambda>x. timer_key heap x < (now, na)) ts) =
    takeWhile (\<lambda>x. t_next (heap x) \<le> now) ts"
  using assms
proof (induction ts)
  case (Cons x ts)
  show ?case
  proof (cases "timer_key heap x < (now, na)")
    case True
    then have "t_next (heap x) \<le> now" by (auto simp: timer_key_def less_prod_def)
    then show ?thesis using True Cons by simp
  next
    case False
    then have x: "now \<le> t_next (heap x)" by (auto simp: timer_key_def less_prod_def not_less)
    have "now \<le> t_next (heap y)" if "y \<in> set (x # ts)" for y
      using that x Cons.prems by (auto simp: timer_key_def less_prod_def)
    then have "takeWhile (\<lambda>x. t_next (heap x) = now) (x # ts) = takeWhile (\<lambda>x. t_next (heap x) \<le> now) (x # ts)"
      by (intro takeWhile_cong) (auto intro: antisym)
    then show ?thesis using False by simp
  qed
qed simp

lemma due_filter:
  "oset (timer_key heap) ts \<Longrightarrow> takeWhile (\<lambda>x. t_next (heap x) \<le> now) ts = filter (\<lambda>x. t_next (heap x) \<le> now) ts"
  by (rule oset_takeWhile [THEN conjunct1]) (auto simp: timer_key_def less_prod_def)

definition due :: "u64 \<Rightarrow> ('w, 'f) timer_manager \<Rightarrow> nat list" where
  "due now m = filter (\<lambda>a. fst (detectClockRollover now m) \<or> t_next (tm_heap m a) \<le> now) (tm_timers m)"

lemma listExpired_split:
  assumes o: "oset (timer_key heap) ts"
    and it: "it = (if roll then length ts else length (takeWhile (\<lambda>x. timer_key heap x < (now, na)) ts))"
  shows "take (it + length (takeWhile (\<lambda>x. t_next (heap x) = now) (drop it ts))) ts =
    filter (\<lambda>a. roll \<or> t_next (heap a) \<le> now) ts"
proof (cases roll)
  case False
  let ?P = "\<lambda>x. timer_key heap x < (now, na)" and ?Q = "\<lambda>x. t_next (heap x) = now"
  have d: "drop it ts = dropWhile ?P ts" unfolding it if_not_P [OF False] by (simp add: dropWhile_eq_drop)
  let ?A = "takeWhile ?P ts @ takeWhile ?Q (dropWhile ?P ts)"
  have "?A @ dropWhile ?Q (dropWhile ?P ts) = ts" by simp
  then have "take (length ?A) ts = ?A" by (metis append_eq_conv_conj)
  moreover have "it + length (takeWhile ?Q (drop it ts)) = length (takeWhile ?P ts @ takeWhile ?Q (dropWhile ?P ts))"
    unfolding d using False it by simp
  ultimately have "take (it + length (takeWhile ?Q (drop it ts))) ts = takeWhile (\<lambda>x. t_next (heap x) \<le> now) ts"
    using due_prefix [OF o, of now na] by (simp only:)
  then show ?thesis using False due_filter [OF o, of now] by simp
qed (use it in simp)

lemma listExpiredCb_ok:
  assumes ok: "timers_ok m"
  shows "\<exists>m'. TimerManager_listExpiredCb now na cbs m = (cbs @ map (\<lambda>a. t_cb (tm_heap m a)) (due now m), m') \<and>
    timers_ok m' \<and> tm_heap m' = (\<lambda>a. if a \<in> set (due now m) then expired_timer now (tm_heap m a) else tm_heap m a) \<and>
    set (tm_timers m') = {a \<in> set (tm_timers m). a \<in> set (due now m) \<longrightarrow> t_recurring (tm_heap m a)} \<and>
    tm_tickled m' = tm_tickled m"
proof -
  let ?ts = "tm_timers m" and ?h = "tm_heap m"
  note o = timers_okD(1) [OF ok]
  define roll where "roll = fst (detectClockRollover now m)"
  have det: "detectClockRollover now m = (roll, m\<lparr>tm_previous := now\<rparr>)" by (simp add: roll_def detectClockRollover_def)
  show ?thesis
  proof (cases "?ts = [] \<or> \<not> roll \<and> now < t_next (?h (hd ?ts))")
    case True
    have "due now m = []"
    proof (cases "?ts = []")
      case False
      with True have r: "\<not> roll" "now < t_next (?h (hd ?ts))" by auto
      have "takeWhile (\<lambda>x. t_next (?h x) \<le> now) ?ts = []" using r(2) by (cases ?ts) auto
      then show ?thesis using r(1) due_filter [OF o, of now] by (simp add: due_def roll_def)
    qed (simp add: due_def)
    then show ?thesis using True ok det by (auto simp: TimerManager_listExpiredCb_def timers_ok_def Let_def)
  next
    case False
    define it where "it = (if roll then length ?ts else length (takeWhile (\<lambda>x. timer_key ?h x < (now, na)) ?ts))"
    define n where "n = it + length (takeWhile (\<lambda>x. t_next (?h x) = now) (drop it ?ts))"
    let ?m = "m\<lparr>tm_previous := now, tm_timers := drop n ?ts\<rparr>"
    have same: "tm_heap ?m = ?h" "tm_timers ?m = drop n ?ts" "tm_tickled ?m = tm_tickled m" by simp_all
    have d: "take n ?ts = due now m" unfolding n_def due_def roll_def [symmetric] by (rule listExpired_split [OF o it_def])
    have split: "?ts = take n ?ts @ drop n ?ts" by simp
    have run: "TimerManager_listExpiredCb now na cbs m = expire_loop now (take n ?ts) cbs ?m"
      using False unfolding n_def it_def by (simp add: TimerManager_listExpiredCb_def det Let_def) blast
    have os: "oset (timer_key ?h) (drop n ?ts)" using o split by (metis oset_append)
    have dis: "distinct (take n ?ts)" "set (take n ?ts) \<inter> set (drop n ?ts) = {}"
      using timers_okD(3) [OF ok] split by (metis distinct_append)+
    have "\<exists>m'. expire_loop now (take n ?ts) cbs ?m = (cbs @ map (\<lambda>a. t_cb (tm_heap ?m a)) (take n ?ts), m') \<and> timers_ok m' \<and>
        tm_heap m' = (\<lambda>a. if a \<in> set (take n ?ts) then expired_timer now (tm_heap ?m a) else tm_heap ?m a) \<and>
        set (tm_timers m') = {a \<in> set (take n ?ts). t_recurring (tm_heap ?m a)} \<union> set (tm_timers ?m) \<and> tm_tickled m' = tm_tickled ?m"
    proof (rule expire_loop_ok)
      fix b assume "t_cb (tm_heap ?m b) \<noteq> None"
      then have "b \<in> set ?ts" using timers_okD(2) [OF ok, of b] by simp
      then have "b \<in> set (take n ?ts @ drop n ?ts)" by simp
      then show "b \<in> set (take n ?ts) \<union> set (tm_timers ?m)" unfolding set_append by simp
    qed (use os dis in auto)
    then obtain m' where m': "expire_loop now (take n ?ts) cbs ?m = (cbs @ map (\<lambda>a. t_cb (?h a)) (take n ?ts), m')"
        "timers_ok m'" "tm_heap m' = (\<lambda>a. if a \<in> set (take n ?ts) then expired_timer now (?h a) else ?h a)"
        "set (tm_timers m') = {a \<in> set (take n ?ts). t_recurring (?h a)} \<union> set (drop n ?ts)" "tm_tickled m' = tm_tickled m"
      unfolding same by blast
    have "set ?ts = set (take n ?ts) \<union> set (drop n ?ts)" by (metis append_take_drop_id set_append)
    then have "set (tm_timers m') = {a \<in> set ?ts. a \<in> set (take n ?ts) \<longrightarrow> t_recurring (?h a)}"
      unfolding m'(4) using dis(2) by blast
    then show ?thesis unfolding run d [symmetric] using m'(1,2,3,5) by blast
  qed
qed

section \<open>Runs\<close>

text \<open>An event is a call, with the time it reads off the clock and the address of the object it allocates. Its output:
  whether \<^verbatim>\<open>onTimerInsertedAtFront\<close> was called, and the callbacks handed out.\<close>

datatype ('w, 'f) timer_event =
    AddTimer u64 nat u64 "('w, 'f) callback option" bool
  | AddConditionTimer u64 nat u64 "'f option" 'w bool
  | Cancel nat
  | Refresh u64 nat
  | Reset u64 nat u64 bool
  | GetNextTimer u64
  | ListExpired u64 nat

type_synonym ('w, 'f) timer_out = "bool \<times> ('w, 'f) callback option list"

definition quiet :: "(failure + 'a) \<times> 'm \<Rightarrow> (failure + ('w, 'f) timer_out) \<times> 'm" where
  "quiet rm = apfst (map_sum id (\<lambda>_. (False, []))) rm"

fun timer_exec :: "('w, 'f) timer_event \<Rightarrow> (('w, 'f) timer_manager, ('w, 'f) timer_out) action" where
  "timer_exec (AddTimer now a ms cb recurring) m =
     (let (front, m') = TimerManager_addTimer now a ms cb recurring m in (Inr (front, []), m'))"
| "timer_exec (AddConditionTimer now a ms cb w recurring) m =
     (let (front, m') = TimerManager_addConditionTimer now a ms cb w recurring m in (Inr (front, []), m'))"
| "timer_exec (Cancel a) m = quiet (Timer_cancel a m)"
| "timer_exec (Refresh now a) m = quiet (Timer_refresh now a m)"
| "timer_exec (Reset now a ms from_now) m = apfst (map_sum id (\<lambda>r. (fst r, []))) (Timer_reset now a ms from_now m)"
| "timer_exec (GetNextTimer now) m = (Inr (False, []), snd (TimerManager_getNextTimer now m))"
| "timer_exec (ListExpired now na) m = (let (cbs, m') = TimerManager_listExpiredCb now na [] m in (Inr (False, cbs), m'))"

text \<open>A new timer is not allocated where a timer of the set lives.\<close>

fun adds :: "nat \<Rightarrow> ('w, 'f) timer_event \<Rightarrow> bool" where
  "adds a (AddTimer now b ms cb recurring) = (a = b)"
| "adds a (AddConditionTimer now b ms cb w recurring) = (a = b)"
| "adds a _ = False"

definition fresh_event :: "('w, 'f) timer_event \<Rightarrow> ('w, 'f) timer_manager \<Rightarrow> bool" where
  "fresh_event e m = (\<forall>a \<in> set (tm_timers m). \<not> adds a e)"

inductive timer_run :: "('w, 'f) timer_manager \<Rightarrow> (('w, 'f) timer_event \<times> ('w, 'f) timer_out) list \<Rightarrow> ('w, 'f) timer_manager \<Rightarrow> bool" where
  start: "timer_run m [] m"
| call: "timer_run m tr m' \<Longrightarrow> fresh_event e m' \<Longrightarrow> timer_exec e m' = (Inr out, m'') \<Longrightarrow> timer_run m (tr @ [(e, out)]) m''"

lemma addTimer_ok:
  assumes ok: "timers_ok m" and a: "a \<notin> set (tm_timers m)"
  obtains front m' where "TimerManager_addTimer now a ms cb recurring m = (front, m')" "timers_ok m'"
    "tm_heap m' = (tm_heap m)(a := new_Timer now ms cb recurring)" "set (tm_timers m') = insert a (set (tm_timers m))"
    "tm_tickled m' = (tm_tickled m \<or> front)" "front \<longleftrightarrow> hd (tm_timers m') = a \<and> \<not> tm_tickled m"
proof -
  let ?m = "set_timer a (new_Timer now ms cb recurring) m"
  have "oset (timer_key (tm_heap ?m)) (tm_timers ?m)" using timers_okD(1) [OF ok] a by (simp add: oset_heap_other)
  moreover have "b \<noteq> a \<Longrightarrow> t_cb (tm_heap ?m b) \<noteq> None \<Longrightarrow> b \<in> set (tm_timers ?m)" for b
    using timers_okD(2) [OF ok, of b] by simp
  ultimately show thesis
    using a that by (elim TimerManager_insert_ok [of ?m a]) (auto simp: TimerManager_addTimer_def)
qed

lemma timer_exec_ok:
  assumes "timers_ok m" "fresh_event e m"
  shows "\<exists>out m'. timer_exec e m = (Inr out, m') \<and> timers_ok m'"
proof (cases e)
  case (AddTimer now a ms cb recurring)
  then have "a \<notin> set (tm_timers m)" using assms(2) by (auto simp: fresh_event_def)
  then show ?thesis using AddTimer by (elim addTimer_ok [OF assms(1), of a now ms cb recurring]) auto
next
  case (AddConditionTimer now a ms cb w recurring)
  then have "a \<notin> set (tm_timers m)" using assms(2) by (auto simp: fresh_event_def)
  then show ?thesis using AddConditionTimer
    by (elim addTimer_ok [OF assms(1), of a now ms "Some (OnTimer w cb)" recurring]) (auto simp: TimerManager_addConditionTimer_def)
next
  case (Cancel a)
  show ?thesis by (rule Timer_cancel_ok [OF assms(1), of a]) (rule exI [of _ "(False, [])"], simp add: quiet_def Cancel)
next
  case (Refresh now a)
  show ?thesis by (rule Timer_refresh_ok [OF assms(1), of now a]) (rule exI [of _ "(False, [])"], simp add: quiet_def Refresh)
next
  case (Reset now a ms from_now)
  show ?thesis by (rule Timer_reset_ok [OF assms(1), of now a ms from_now]) (simp add: Reset)
next
  case (GetNextTimer now)
  then show ?thesis using assms(1) by (auto simp: TimerManager_getNextTimer_def timers_ok_def Let_def split: list.splits)
next
  case (ListExpired now na)
  then show ?thesis using listExpiredCb_ok [OF assms(1), of now na "[]"] by auto
qed

lemma timer_run_ok: "timer_run m tr m' \<Longrightarrow> timers_ok m \<Longrightarrow> timers_ok m'"
proof (induction rule: timer_run.induct)
  case (call m tr m' e out m'')
  then show ?case using timer_exec_ok [of m' e] by auto
qed simp

lemma new_TimerManager_ok: "(\<And>a. t_cb (heap a) = None) \<Longrightarrow> timers_ok (new_TimerManager now heap)"
  by (simp add: timers_ok_def new_TimerManager_def)

section \<open>Properties\<close>

text \<open>
  (C28) In every state a new manager reaches, whatever the clock shows, the set is ordered and every timer that still has
  a callback is in it; so \<^verbatim>\<open>cancel\<close>, which erases what \<^verbatim>\<open>find\<close> returns without a test, never erases the end iterator,
  and no other call fails.
\<close>

theorem timer_calls_safe:
  assumes "timer_run (new_TimerManager t0 heap) tr m" "\<forall>a. t_cb (heap a) = None"
  shows "timers_ok m \<and> (\<forall>e. fresh_event e m \<longrightarrow> (\<exists>out m'. timer_exec e m = (Inr out, m')))"
  using timer_run_ok [OF assms(1) new_TimerManager_ok] assms(2) timer_exec_ok [of m] by blast

definition idle_timer :: "('w, 'f) timer" where
  "idle_timer = \<lparr>t_recurring = False, t_ms = 0, t_next = 0, t_cb = None\<rparr>"

lemma run_one:
  "fresh_event e m \<Longrightarrow> timer_exec e m = (Inr out, m') \<Longrightarrow> timer_run m [(e, out)] m'"
  using timer_run.call [OF timer_run.start] by fastforce

lemma witness_add:
  "timer_run (new_TimerManager 0 (\<lambda>_. idle_timer)) [(AddTimer 10 3 5 (Some (Call ''f'')) False, (True, []))]
     \<lparr>tm_timers = [3], tm_tickled = True, tm_previous = 0,
      tm_heap = (\<lambda>_. idle_timer)(3 := \<lparr>t_recurring = False, t_ms = 5, t_next = 15, t_cb = Some (Call ''f'')\<rparr>)\<rparr>"
  by (rule run_one) (simp_all add: fresh_event_def new_TimerManager_def TimerManager_addTimer_def TimerManager_insert_def
      timers_insert_def timers_find_def oset_find_def new_Timer_def Let_def)

theorem timer_calls_safe_witness:
  "\<exists>m :: (nat, string) timer_manager. tm_timers m = [3] \<and> (\<exists>out m'. timer_exec (Cancel 3) m = (Inr out, m'))"
proof -
  obtain m :: "(nat, string) timer_manager" where m: "timer_run (new_TimerManager 0 (\<lambda>_. idle_timer))
      [(AddTimer 10 3 5 (Some (Call ''f'')) False, (True, []))] m" "tm_timers m = [3]"
    using witness_add by fastforce
  have "fresh_event (Cancel 3) m" by (simp add: fresh_event_def)
  then show ?thesis using timer_calls_safe [OF m(1)] m(2) by (auto simp: idle_timer_def simp del: timer_exec.simps)
qed

text \<open>
  (C29) \<^verbatim>\<open>listExpiredCb\<close> hands out the callbacks of exactly the timers whose deadline is not after the time it read, in the
  order of deadline, or of all timers if the clock was set back by more than an hour; where the temporary timer was
  allocated does not matter. It reschedules the recurring ones from that time on and disarms the others.
\<close>

theorem listExpiredCb_correct:
  assumes "timer_run (new_TimerManager t0 heap) tr m" "\<forall>a. t_cb (heap a) = None"
  shows "\<exists>m'. TimerManager_listExpiredCb now na cbs m = (cbs @ map (\<lambda>a. t_cb (tm_heap m a)) (due now m), m') \<and>
    sorted (map (\<lambda>a. t_next (tm_heap m a)) (due now m)) \<and>
    (\<forall>a. tm_heap m' a = (if a \<in> set (due now m) then expired_timer now (tm_heap m a) else tm_heap m a)) \<and>
    set (tm_timers m') = {a \<in> set (tm_timers m). a \<in> set (due now m) \<longrightarrow> t_recurring (tm_heap m a)}"
proof -
  have ok: "timers_ok m" using timer_run_ok [OF assms(1) new_TimerManager_ok] assms(2) by blast
  have "oset (timer_key (tm_heap m)) (due now m)" unfolding due_def by (rule oset_filter [OF timers_okD(1) [OF ok]])
  then have "sorted (map (\<lambda>a. t_next (tm_heap m a)) (due now m))"
    unfolding oset_def sorted_map by (rule sorted_wrt_mono_rel [rotated]) (auto simp: timer_key_def less_prod_def)
  then show ?thesis using listExpiredCb_ok [OF ok, of now na cbs] by auto
qed

theorem listExpiredCb_correct_witness:
  "\<exists>(m :: (nat, string) timer_manager) m'. tm_timers m = [3] \<and>
     TimerManager_listExpiredCb 15 0 [] m = ([Some (Call ''f'')], m') \<and> tm_timers m' = []"
proof -
  obtain m :: "(nat, string) timer_manager" where m: "timer_run (new_TimerManager 0 (\<lambda>_. idle_timer))
      [(AddTimer 10 3 5 (Some (Call ''f'')) False, (True, []))] m" "tm_timers m = [3]" "due 15 m = [3]"
      "t_cb (tm_heap m 3) = Some (Call ''f'')" "\<not> t_recurring (tm_heap m 3)"
    using witness_add by (fastforce simp: due_def)
  then show ?thesis using listExpiredCb_correct [OF m(1), of 15 0 "[]"] by (force simp: idle_timer_def)
qed

lemma first_deadline:
  assumes "timers_ok m" "tm_timers m = a # ts" "b \<in> set (tm_timers m)"
  shows "t_next (tm_heap m a) \<le> t_next (tm_heap m b)"
  using timers_okD(1) [OF assms(1)] assms(2,3) by (fastforce simp: timer_key_def less_prod_def)

text \<open>A timer without callback outside the set stays so until it is allocated again.\<close>

lemma exec_keeps_dead:
  assumes ok: "timers_ok m" and e: "fresh_event e m" "\<not> adds a e" "timer_exec e m = (Inr out, m')"
    and a: "a \<notin> set (tm_timers m)" "t_cb (tm_heap m a) = None"
  shows "a \<notin> set (tm_timers m') \<and> t_cb (tm_heap m' a) = None"
proof (cases e)
  case (AddTimer now b ms cb recurring)
  then have "b \<notin> set (tm_timers m)" "b \<noteq> a" using e(1,2) by (auto simp: fresh_event_def)
  then show ?thesis using AddTimer e(3) a by (elim addTimer_ok [OF ok, of b now ms cb recurring]) auto
next
  case (AddConditionTimer now b ms cb w recurring)
  then have "b \<notin> set (tm_timers m)" "b \<noteq> a" using e(1,2) by (auto simp: fresh_event_def)
  then show ?thesis using AddConditionTimer e(3) a
    by (elim addTimer_ok [OF ok, of b now ms "Some (OnTimer w cb)" recurring]) (auto simp: TimerManager_addConditionTimer_def)
next
  case (Cancel b)
  show ?thesis by (rule Timer_cancel_ok [OF ok, of b]) (use Cancel e(3) a in \<open>auto simp: quiet_def split: if_splits\<close>)
next
  case (Refresh now b)
  show ?thesis by (rule Timer_refresh_ok [OF ok, of now b]) (use Refresh e(3) a in \<open>auto simp: quiet_def\<close>)
next
  case (Reset now b ms from_now)
  show ?thesis by (rule Timer_reset_ok [OF ok, of now b ms from_now]) (use Reset e(3) a in auto)
next
  case (GetNextTimer now)
  then show ?thesis using e(3) a by (auto simp: TimerManager_getNextTimer_def Let_def split: list.splits)
next
  case (ListExpired now na)
  obtain m1 where "TimerManager_listExpiredCb now na [] m = (map (\<lambda>a. t_cb (tm_heap m a)) (due now m), m1)"
    "tm_heap m1 = (\<lambda>a. if a \<in> set (due now m) then expired_timer now (tm_heap m a) else tm_heap m a)"
    "set (tm_timers m1) = {a \<in> set (tm_timers m). a \<in> set (due now m) \<longrightarrow> t_recurring (tm_heap m a)}"
    using listExpiredCb_ok [OF ok, of now na "[]"] by auto
  then show ?thesis using ListExpired e(3) a by (auto simp: due_def)
qed

lemma run_keeps_dead:
  assumes "timer_run m tr m'" "timers_ok m" "a \<notin> set (tm_timers m)" "t_cb (tm_heap m a) = None"
    "\<forall>(e, out) \<in> set tr. \<not> adds a e"
  shows "a \<notin> set (tm_timers m') \<and> t_cb (tm_heap m' a) = None"
  using assms
proof (induction rule: timer_run.induct)
  case (call m tr m' e out m'')
  then show ?case using exec_keeps_dead [OF timer_run_ok [OF call(1)] call(2) _ call(3), of a] by simp
qed simp



text \<open>
  (C32) \<^verbatim>\<open>getNextTimer\<close> tells how long the caller may sleep: all ones without timers, otherwise the time to the earliest
  deadline, zero if it has passed.
\<close>

theorem getNextTimer_correct:
  assumes "timer_run (new_TimerManager t0 heap) tr m" "\<forall>a. t_cb (heap a) = None"
    "TimerManager_getNextTimer now m = (d, m')"
  shows "if tm_timers m = [] then d = NOT 0
    else let first = Min ((\<lambda>a. t_next (tm_heap m a)) ` set (tm_timers m))
         in if first \<le> now then d = 0 else 0 < d \<and> now + d = first"
proof (cases "tm_timers m")
  case Nil
  then show ?thesis using assms(3) by (simp add: TimerManager_getNextTimer_def Let_def)
next
  case (Cons a ts)
  have ok: "timers_ok m" using timer_run_ok [OF assms(1) new_TimerManager_ok] assms(2) by blast
  have "Min ((\<lambda>a. t_next (tm_heap m a)) ` set (tm_timers m)) = t_next (tm_heap m a)"
    using first_deadline [OF ok Cons] by (intro Min_eqI) (auto simp: Cons)
  then show ?thesis using assms(3) Cons
    by (auto simp: TimerManager_getNextTimer_def Let_def not_le word_gt_0 split: if_splits)
qed

theorem getNextTimer_correct_witness:
  "\<exists>(m :: (nat, string) timer_manager) m'. TimerManager_getNextTimer 12 m = (3, m') \<and> tm_timers m = [3]"
proof -
  let ?m = "\<lparr>tm_timers = [3], tm_tickled = True, tm_previous = 0,
      tm_heap = (\<lambda>_. idle_timer)(3 := \<lparr>t_recurring = False, t_ms = 5, t_next = 15, t_cb = Some (Call ''f'')\<rparr>)\<rparr>
      :: (nat, string) timer_manager"
  obtain d m' where d: "TimerManager_getNextTimer 12 ?m = (d, m')" by (metis surj_pair)
  have "\<forall>a. t_cb (idle_timer :: (nat, string) timer) = None" by (simp add: idle_timer_def)
  from getNextTimer_correct [OF witness_add this d] have "12 + d = 15" by (simp add: Let_def)
  then have "d = 3" by (simp add: add.commute eq_diff_eq [symmetric])
  then show ?thesis using d by fastforce
qed

section \<open>Wake-ups\<close>

text \<open>\<open>not_before D\<close>: no timer has a deadline before \<open>D\<close>, the earliest one when the caller went to sleep (or none at all).\<close>

definition not_before :: "u64 option \<Rightarrow> ('w, 'f) timer_manager \<Rightarrow> bool" where
  "not_before D m = (\<forall>a \<in> set (tm_timers m). \<exists>d. D = Some d \<and> d \<le> t_next (tm_heap m a))"

text \<open>The calls after which the thread's earliest deadline is kept or \<^verbatim>\<open>onTimerInsertedAtFront\<close> is called: not \<^verbatim>\<open>refresh\<close>, which puts the
  timer back without a word, and not \<^verbatim>\<open>listExpiredCb\<close>, which does so with the recurring ones.\<close>

fun wakes :: "('w, 'f) timer_event \<Rightarrow> bool" where
  "wakes (AddTimer now a ms cb recurring) = True"
| "wakes (AddConditionTimer now a ms cb w recurring) = True"
| "wakes (Cancel a) = True"
| "wakes (Reset now a ms from_now) = True"
| "wakes (GetNextTimer now) = True"
| "wakes _ = False"

lemma not_before_insert:
  assumes "timers_ok m'" "set (tm_timers m') = insert a S" "hd (tm_timers m') \<noteq> a"
    "\<And>b. b \<in> S \<Longrightarrow> b \<noteq> a \<Longrightarrow> \<exists>d. D = Some d \<and> d \<le> t_next (tm_heap m' b)"
  shows "not_before D m'"
proof -
  obtain h ts where ts: "tm_timers m' = h # ts" using assms(2) by (cases "tm_timers m'") auto
  then have h: "h \<noteq> a" "h \<in> S" "a \<in> set ts" using assms(2,3) by auto
  obtain d where d: "D = Some d" "d \<le> t_next (tm_heap m' h)" using assms(4) h by blast
  have "d \<le> t_next (tm_heap m' b)" if "b \<in> set (tm_timers m')" for b
    using first_deadline [OF assms(1) ts that] d(2) by simp
  then show ?thesis using d(1) by (auto simp: not_before_def)
qed

lemma exec_not_before:
  assumes ok: "timers_ok m" and e: "fresh_event e m" "wakes e" "timer_exec e m = (Inr (False, cbs), m')"
    and q: "not_before D m" "\<not> tm_tickled m"
  shows "not_before D m' \<and> \<not> tm_tickled m'"
proof -
  have old: "\<exists>d. D = Some d \<and> d \<le> t_next (tm_heap m b)" if "b \<in> set (tm_timers m)" for b
    using q(1) that by (auto simp: not_before_def)
  have add: "not_before D m' \<and> \<not> tm_tickled m'"
    if r: "TimerManager_addTimer now a ms cb recurring m = (False, m')" and a: "a \<notin> set (tm_timers m)" for now a ms cb recurring
  proof -
    have "timers_ok m' \<and> tm_heap m' = (tm_heap m)(a := new_Timer now ms cb recurring) \<and>
      set (tm_timers m') = insert a (set (tm_timers m)) \<and> \<not> tm_tickled m' \<and> hd (tm_timers m') \<noteq> a"
      by (rule addTimer_ok [OF ok a, of now ms cb recurring]) (use q(2) r in simp)
    then have p: "timers_ok m'" "tm_heap m' = (tm_heap m)(a := new_Timer now ms cb recurring)"
      "set (tm_timers m') = insert a (set (tm_timers m))" "\<not> tm_tickled m'" "hd (tm_timers m') \<noteq> a"
      by blast+
    have "not_before D m'" by (rule not_before_insert [OF p(1,3,5)]) (use old p(2) in auto)
    then show ?thesis using p(4) by blast
  qed
  show ?thesis
  proof (cases e)
    case (AddTimer now a ms cb recurring)
    then show ?thesis using e(1,3) by (intro add [of now a ms cb recurring]) (auto simp: fresh_event_def split: prod.splits)
  next
    case (AddConditionTimer now a ms cb w recurring)
    then show ?thesis using e(1,3)
      by (intro add [of now a ms "Some (OnTimer w cb)" recurring])
        (auto simp: fresh_event_def TimerManager_addConditionTimer_def split: prod.splits)
  next
    case (Cancel a)
    show ?thesis by (rule Timer_cancel_ok [OF ok, of a])
        (use Cancel e(3) q in \<open>auto simp: quiet_def not_before_def split: if_splits\<close>)
  next
    case (Reset now a ms from_now)
    show ?thesis
    proof (rule Timer_reset_ok [OF ok, of now a ms from_now], goal_cases)
      case (1 front r m1)
      then have m1: "m1 = m'" "\<not> front" using Reset e(3) by auto
      show ?case
      proof (cases "m' = m")
        case False
        then have "not_before D m'" using 1 m1 q old by (intro not_before_insert [of m' a "set (tm_timers m)"]) (auto split: if_splits)
        then show ?thesis using 1(6) m1 q(2) by simp
      qed (use q in simp)
    qed
  next
    case (GetNextTimer now)
    then show ?thesis using e(3) q by (auto simp: TimerManager_getNextTimer_def Let_def not_before_def split: list.splits)
  qed (use e(2) in simp_all)
qed

lemma run_not_before:
  assumes "timer_run m tr m'" "timers_ok m" "not_before D m" "\<not> tm_tickled m" "\<forall>(e, out) \<in> set tr. wakes e \<and> \<not> fst out"
  shows "not_before D m' \<and> \<not> tm_tickled m'"
  using assms
proof (induction rule: timer_run.induct)
  case (call m tr m' e out m'')
  then show ?case
    using exec_not_before [OF timer_run_ok [OF call(1)] call(2), of "snd out" m'' D] by (cases out) auto
qed simp



text \<open>Why \<^verbatim>\<open>refresh\<close> is excluded: with the clock set back it moves a deadline before all that the thread saw, and nobody is woken.\<close>

lemma refresh_wakes_nobody:
  "\<exists>(m :: (nat, string) timer_manager) m1 m2. TimerManager_getNextTimer 10 m = (5, m1) \<and> tm_timers m = [3] \<and>
     timer_run m1 [(Refresh 1 3, (False, []))] m2 \<and> tm_timers m2 = [3] \<and> t_next (tm_heap m2 3) < t_next (tm_heap m 3)"
proof -
  define m :: "(nat, string) timer_manager" where "m = \<lparr>tm_timers = [3], tm_tickled = False, tm_previous = 0,
      tm_heap = (\<lambda>_. idle_timer)(3 := \<lparr>t_recurring = False, t_ms = 5, t_next = 15, t_cb = Some (Call ''f'')\<rparr>)\<rparr>"
  define m2 where "m2 = m\<lparr>tm_heap := (\<lambda>_. idle_timer)(3 := \<lparr>t_recurring = False, t_ms = 5, t_next = 6, t_cb = Some (Call ''f'')\<rparr>)\<rparr>"
  have "timer_exec (Refresh 1 3) m = (Inr (False, []), m2)"
    by (simp add: m_def m2_def quiet_def Timer_refresh_def timers_find_def oset_find_def timers_erase_def timers_insert_def bindE_def Let_def)
  then have "timer_run m ([] @ [(Refresh 1 3, (False, []))]) m2" by (intro timer_run.call [OF timer_run.start]) (simp_all add: fresh_event_def)
  then show ?thesis by (intro exI [of _ m] exI [of _ m] exI [of _ m2]) (simp add: m_def m2_def TimerManager_getNextTimer_def)
qed

end
