(* ===== verification/Bitmap.thy ===== *)
theory Bitmap
  imports ByteArray_Codec
begin

text \<open>
  \<^verbatim>\<open>sylar/ds/bitmap.h\<close> and \<^verbatim>\<open>bitmap.cc\<close>, with the default \<^verbatim>\<open>base_type\<close> \<^verbatim>\<open>uint16_t\<close>: a bitmap keeps 14 bits in each
  word. In a compressed bitmap the two upper bits of a word say that it is a run (and of which bit), whose length
  is in the lower 14 bits, lower digits first if it takes several words. \<open>bm_data\<close> is the allocation behind \<^verbatim>\<open>m_data\<close>,
  which can be longer than \<^verbatim>\<open>m_dataSize\<close>; \<open>bm_null\<close> says that the pointer is null. Positions are \<^verbatim>\<open>uint32_t\<close>.
\<close>

record bitmap =
  bm_compress :: bool
  bm_size :: nat
  bm_dataSize :: nat
  bm_data :: "u16 list"
  bm_null :: bool

section \<open>Words\<close>

definition VALUE_SIZE :: nat where "VALUE_SIZE = 14"
definition COMPRESS_MASK :: u16 where "COMPRESS_MASK = push_bit 15 1"
definition VALUE_MASK :: u16 where "VALUE_MASK = push_bit 14 1"
definition COUNT_MASK :: u16 where "COUNT_MASK = push_bit 14 1 - 1"
definition U64_DIV_BASE :: nat where "U64_DIV_BASE = 4"
definition U64_VALUE_SIZE :: nat where "U64_VALUE_SIZE = VALUE_SIZE * U64_DIV_BASE"

text \<open>The tables filled by \<^verbatim>\<open>init\<close>.\<close>

definition POS :: "nat \<Rightarrow> u16" where "POS i = push_bit i 1"
definition NPOS :: "nat \<Rightarrow> u16" where "NPOS i = NOT (POS i)"
definition MASK :: "nat \<Rightarrow> u16" where "MASK i = POS i - 1"

text \<open>\<^verbatim>\<open>((uint64_t*)m_data)[i]\<close>: four words at once.\<close>

definition join4 :: "u16 \<Rightarrow> u16 \<Rightarrow> u16 \<Rightarrow> u16 \<Rightarrow> u64" where
  "join4 a b c d = ucast a OR push_bit 16 (ucast b) OR push_bit 32 (ucast c) OR push_bit 48 (ucast d)"

definition split4 :: "u64 \<Rightarrow> u16 list" where
  "split4 w = [ucast w, ucast (drop_bit 16 w), ucast (drop_bit 32 w), ucast (drop_bit 48 w)]"

definition add32 :: "nat \<Rightarrow> nat \<Rightarrow> nat" where
  "add32 a b = (a + b) mod 2 ^ 32"

definition words_for :: "nat \<Rightarrow> nat" where
  "words_for sz = (sz + VALUE_SIZE - 1) div VALUE_SIZE"

section \<open>Construction and single bits\<close>

text \<open>\<^verbatim>\<open>Bitmap(size, def)\<close>: \<^verbatim>\<open>memset\<close> puts the byte \<open>def\<close> in both halves of each word.\<close>

definition new_Bitmap :: "nat \<Rightarrow> u8 \<Rightarrow> bitmap" where
  "new_Bitmap sz def =
     \<lparr>bm_compress = False, bm_size = sz, bm_dataSize = words_for sz,
      bm_data = replicate (words_for sz) (ucast def OR push_bit 8 (ucast def)), bm_null = (words_for sz = 0)\<rparr>"

definition Bitmap_copy :: "bitmap \<Rightarrow> bitmap" where
  "Bitmap_copy b = b\<lparr>bm_data := take (bm_dataSize b) (bm_data b), bm_null := False\<rparr>"

definition Bitmap_get :: "nat \<Rightarrow> bitmap \<Rightarrow> failure + bool" where
  "Bitmap_get idx b =
     (let cur = idx div VALUE_SIZE; pos = idx mod VALUE_SIZE in
      if length (bm_data b) \<le> cur then Inl BadIndex else Inr (bm_data b ! cur AND POS pos \<noteq> 0))"

definition Bitmap_set :: "nat \<Rightarrow> bool \<Rightarrow> (bitmap, unit) action" where
  "Bitmap_set idx v b =
     (let cur = idx div VALUE_SIZE; pos = idx mod VALUE_SIZE in
      if length (bm_data b) \<le> cur then (Inl BadIndex, b)
      else let w = bm_data b ! cur
           in (Inr (), b\<lparr>bm_data := (bm_data b)[cur := if v then w OR POS pos else w AND NPOS pos]\<rparr>))"

text \<open>The overloads for a range: whole words only.\<close>

primrec fill_words :: "nat \<Rightarrow> nat \<Rightarrow> u16 \<Rightarrow> u16 list \<Rightarrow> failure + u16 list" where
  "fill_words i 0 w ws = Inr ws"
| "fill_words i (Suc n) w ws = (if length ws \<le> i then Inl BadIndex else fill_words (Suc i) n w (ws[i := w]))"

definition set_words :: "nat \<Rightarrow> nat \<Rightarrow> bool \<Rightarrow> u16 list \<Rightarrow> failure + u16 list" where
  "set_words from sz v ws =
     (if sz = 0 then Inr ws
      else let cur_from = from div VALUE_SIZE; pos_from = from mod VALUE_SIZE;
               cur_to = add32 from sz div VALUE_SIZE; pos_to = add32 from sz mod VALUE_SIZE in
        if pos_from \<noteq> 0 \<or> pos_to \<noteq> 0 then Inl AssertFail
        else fill_words cur_from (cur_to - cur_from) (if v then COUNT_MASK else 0) ws)"

definition Bitmap_setRange :: "nat \<Rightarrow> nat \<Rightarrow> bool \<Rightarrow> (bitmap, unit) action" where
  "Bitmap_setRange from sz v b =
     (case set_words from sz v (bm_data b) of Inl e \<Rightarrow> (Inl e, b) | Inr ws \<Rightarrow> (Inr (), b\<lparr>bm_data := ws\<rparr>))"

primrec any_word :: "nat \<Rightarrow> nat \<Rightarrow> bool \<Rightarrow> u16 list \<Rightarrow> failure + bool" where
  "any_word i 0 v ws = Inr False"
| "any_word i (Suc n) v ws =
     (if length ws \<le> i then Inl BadIndex
      else if (ws ! i AND COUNT_MASK \<noteq> 0) = v then Inr True
      else any_word (Suc i) n v ws)"

definition get_words :: "nat \<Rightarrow> nat \<Rightarrow> bool \<Rightarrow> u16 list \<Rightarrow> failure + bool" where
  "get_words from sz v ws =
     (if sz = 0 then Inr False
      else let cur_from = from div VALUE_SIZE; pos_from = from mod VALUE_SIZE;
               cur_to = add32 from sz div VALUE_SIZE; pos_to = add32 from sz mod VALUE_SIZE in
        if pos_from \<noteq> 0 \<or> pos_to \<noteq> 0 then Inl AssertFail
        else any_word cur_from (cur_to - cur_from) v ws)"

definition Bitmap_getRange :: "nat \<Rightarrow> nat \<Rightarrow> bool \<Rightarrow> bitmap \<Rightarrow> failure + bool" where
  "Bitmap_getRange from sz v b = get_words from sz v (bm_data b)"

section \<open>Compression\<close>

text \<open>\<^verbatim>\<open>data[dst_cur_pos++] = w\<close> into the buffer of \<^verbatim>\<open>m_dataSize\<close> words.\<close>

definition put_word :: "nat \<Rightarrow> u16 \<Rightarrow> u16 list \<Rightarrow> failure + u16 list" where
  "put_word cap w out = (if length out < cap then Inr (out @ [w]) else Inl BadIndex)"

function put_run :: "nat \<Rightarrow> bool \<Rightarrow> nat \<Rightarrow> u16 list \<Rightarrow> failure + u16 list" where
  "put_run cap v cnt out =
     (if cnt = 0 then Inr out
      else let digit = of_nat cnt AND COUNT_MASK
           in case put_word cap (if v then COMPRESS_MASK OR VALUE_MASK OR digit else COMPRESS_MASK OR digit) out of
                Inl e \<Rightarrow> Inl e | Inr out \<Rightarrow> put_run cap v (cnt div 2 ^ VALUE_SIZE) out)"
  by pat_completeness auto
termination
  by (relation "measure (\<lambda>(cap, v, cnt, out). cnt)") (auto simp: VALUE_SIZE_def)

declare put_run.simps [simp del]

text \<open>Writing the run that has been counted.\<close>

definition flush_run :: "nat \<Rightarrow> bool \<Rightarrow> nat \<Rightarrow> u16 list \<Rightarrow> failure + u16 list" where
  "flush_run cap v cnt out =
     (if 1 < cnt div VALUE_SIZE
      then put_run cap v cnt out
      else if cnt \<noteq> 0 then put_word cap (if v then COUNT_MASK else 0) out
      else Inr out)"

definition count_bits16 :: "u16 \<Rightarrow> nat" where
  "count_bits16 w = length (filter (bit w) [0..<16])"

primrec compress_loop :: "nat \<Rightarrow> u16 list \<Rightarrow> bool \<Rightarrow> nat \<Rightarrow> u16 list \<Rightarrow> failure + u16 list" where
  "compress_loop cap [] v cnt out = (if 0 < cnt then flush_run cap v cnt out else Inr out)"
| "compress_loop cap (cur # ws) v cnt out =
     (let c = count_bits16 (cur AND COUNT_MASK) in
      if c = 0 \<and> \<not> v \<or> c = VALUE_SIZE \<and> v then compress_loop cap ws v (cnt + VALUE_SIZE) out
      else if 1 < cnt div VALUE_SIZE \<and> cnt mod VALUE_SIZE \<noteq> 0 then Inl AssertFail
      else case flush_run cap v cnt out of Inl e \<Rightarrow> Inl e
        | Inr out \<Rightarrow>
            if c = 0 \<or> c = VALUE_SIZE then compress_loop cap ws (c = VALUE_SIZE) VALUE_SIZE out
            else case put_word cap cur out of Inl e \<Rightarrow> Inl e | Inr out \<Rightarrow> compress_loop cap ws v 0 out)"

definition Bitmap_compress :: "bitmap \<Rightarrow> failure + bitmap" where
  "Bitmap_compress b =
     (if bm_compress b then Inr (Bitmap_copy b)
      else case compress_loop (bm_dataSize b) (take (bm_dataSize b) (bm_data b)) False 0 [] of Inl e \<Rightarrow> Inl e
        | Inr ws \<Rightarrow> Inr \<lparr>bm_compress = True, bm_size = bm_size b, bm_dataSize = length ws, bm_data = ws, bm_null = False\<rparr>)"

text \<open>Reading a run: further words of the same kind are higher digits of its length. A shift by the width of
  \<^verbatim>\<open>uint32_t\<close> or more is undefined.\<close>

fun run_more :: "bool \<Rightarrow> nat \<Rightarrow> u32 \<Rightarrow> u16 list \<Rightarrow> failure + (u32 \<times> u16 list)" where
  "run_more v k cnt [] = Inr (cnt, [])"
| "run_more v k cnt (w # ws) =
     (if w AND COMPRESS_MASK \<noteq> 0 \<and> v = (w AND VALUE_MASK \<noteq> 0)
      then if 32 \<le> VALUE_SIZE * k then Inl Undefined
           else run_more v (Suc k) (push_bit (VALUE_SIZE * k) (ucast (w AND COUNT_MASK)) OR cnt) ws
      else Inr (cnt, w # ws))"

lemma run_more_length: "run_more v k cnt ws = Inr (cnt', ws') \<Longrightarrow> length ws' \<le> length ws"
  by (induction v k cnt ws rule: run_more.induct) (auto split: if_splits)

text \<open>The loop that the five operations on compressed bitmaps share: for each run \<open>on_run\<close> with its position, length
  and bit, for each other word \<open>on_word\<close> with its position and its 14 bits. \<open>Inl (Inr r)\<close> leaves the loop.\<close>

function runs_loop :: "(nat \<Rightarrow> nat \<Rightarrow> bool \<Rightarrow> 's \<Rightarrow> (failure + 'r) + 's) \<Rightarrow> (nat \<Rightarrow> u16 \<Rightarrow> 's \<Rightarrow> (failure + 'r) + 's) \<Rightarrow>
    u16 list \<Rightarrow> nat \<Rightarrow> 's \<Rightarrow> (failure + 'r) + 's" where
  "runs_loop on_run on_word [] cur_pos s = Inr s"
| "runs_loop on_run on_word (cur # ws) cur_pos s =
     (if cur AND COMPRESS_MASK \<noteq> 0
      then let v = (cur AND VALUE_MASK \<noteq> 0) in
        case run_more v 1 (ucast (cur AND COUNT_MASK)) ws of Inl e \<Rightarrow> Inl (Inl e)
        | Inr (cnt, ws') \<Rightarrow>
            (case on_run cur_pos (unat cnt) v s of Inl r \<Rightarrow> Inl r
             | Inr s \<Rightarrow> runs_loop on_run on_word ws' (add32 cur_pos (unat cnt)) s)
      else case on_word cur_pos (cur AND COUNT_MASK) s of Inl r \<Rightarrow> Inl r
        | Inr s \<Rightarrow> runs_loop on_run on_word ws (add32 cur_pos VALUE_SIZE) s)"
  by pat_completeness auto
termination
  by (relation "measure (\<lambda>(on_run, on_word, ws, cur_pos, s). length ws)") (auto dest!: run_more_length simp: less_Suc_eq_le)

definition fails :: "failure + 's \<Rightarrow> (failure + 'r) + 's" where
  "fails x = (case x of Inl e \<Rightarrow> Inl (Inl e) | Inr s \<Rightarrow> Inr s)"

definition update_word :: "nat \<Rightarrow> (u16 \<Rightarrow> u16) \<Rightarrow> u16 list \<Rightarrow> failure + u16 list" where
  "update_word i f ws = (if length ws \<le> i then Inl BadIndex else Inr (ws[i := f (ws ! i)]))"

definition Bitmap_uncompress :: "bitmap \<Rightarrow> failure + bitmap" where
  "Bitmap_uncompress b =
     (if \<not> bm_compress b then Inr (Bitmap_copy b)
      else let n = new_Bitmap (bm_size b) 0 in
        case runs_loop (\<lambda>pos cnt v ws. fails (set_words pos cnt v ws))
               (\<lambda>pos w ws. fails (update_word (pos div VALUE_SIZE) (\<lambda>_. w) ws))
               (take (bm_dataSize b) (bm_data b)) 0 (bm_data n) of
          Inl (Inl e) \<Rightarrow> Inl e
        | Inl (Inr ws) \<Rightarrow> Inr (n\<lparr>bm_data := ws\<rparr>)
        | Inr ws \<Rightarrow> Inr (n\<lparr>bm_data := ws\<rparr>))"

section \<open>Set operations\<close>

text \<open>The two loops over uncompressed bitmaps: \<open>n\<close> times four words at once, then the other words one by one, up to
  \<^verbatim>\<open>m_dataSize\<close> of the left one. Reading past the right one is out of range.\<close>

fun bitop_loop :: "(u64 \<Rightarrow> u64 \<Rightarrow> u64) \<Rightarrow> (u16 \<Rightarrow> u16 \<Rightarrow> u16) \<Rightarrow> nat \<Rightarrow> u16 list \<Rightarrow> u16 list \<Rightarrow> failure + u16 list" where
  "bitop_loop fq fw (Suc n) (a # b # c # d # xs) (a' # b' # c' # d' # ys) =
     map_sum id (\<lambda>r. split4 (fq (join4 a b c d) (join4 a' b' c' d')) @ r) (bitop_loop fq fw n xs ys)"
| "bitop_loop fq fw (Suc n) _ _ = Inl BadIndex"
| "bitop_loop fq fw 0 (x # xs) (y # ys) = map_sum id (\<lambda>r. fw x y # r) (bitop_loop fq fw 0 xs ys)"
| "bitop_loop fq fw 0 (x # xs) [] = Inl BadIndex"
| "bitop_loop fq fw 0 [] ys = Inr []"

definition Bitmap_bitop :: "(u64 \<Rightarrow> u64 \<Rightarrow> u64) \<Rightarrow> (u16 \<Rightarrow> u16 \<Rightarrow> u16) \<Rightarrow> bool \<Rightarrow> bitmap \<Rightarrow> (bitmap, unit) action" where
  "Bitmap_bitop fq fw fill b a =
     (if bm_size a \<noteq> bm_size b then (Inl LogicError, a)
      else if \<not> bm_compress a \<and> \<not> bm_compress b
      then case bitop_loop fq fw (bm_size a div U64_VALUE_SIZE) (take (bm_dataSize a) (bm_data a)) (bm_data b) of
             Inl e \<Rightarrow> (Inl e, a) | Inr ws \<Rightarrow> (Inr (), a\<lparr>bm_data := ws @ drop (bm_dataSize a) (bm_data a)\<rparr>)
      else if bm_compress a \<noteq> bm_compress b
      then if bm_compress a then (Inl LogicError, a)
           else case runs_loop (\<lambda>pos cnt v ws. if v = fill then fails (set_words pos cnt v ws) else Inr ws)
                       (\<lambda>pos w ws. fails (update_word (pos div VALUE_SIZE) (\<lambda>x. fw x w) ws))
                       (take (bm_dataSize b) (bm_data b)) 0 (bm_data a) of
                  Inl (Inl e) \<Rightarrow> (Inl e, a) | Inl (Inr ws) \<Rightarrow> (Inr (), a\<lparr>bm_data := ws\<rparr>) | Inr ws \<Rightarrow> (Inr (), a\<lparr>bm_data := ws\<rparr>)
      else (Inl LogicError, a))"

text \<open>\<^verbatim>\<open>operator&=\<close> and \<^verbatim>\<open>operator|=\<close> have the same text up to the operator and the bit of the runs that are written.\<close>

definition Bitmap_and_eq :: "bitmap \<Rightarrow> (bitmap, unit) action" where
  "Bitmap_and_eq = Bitmap_bitop (\<lambda>x y. x AND y) (\<lambda>x y. x AND y) False"

definition Bitmap_or_eq :: "bitmap \<Rightarrow> (bitmap, unit) action" where
  "Bitmap_or_eq = Bitmap_bitop (\<lambda>x y. x OR y) (\<lambda>x y. x OR y) True"

definition Bitmap_and :: "bitmap \<Rightarrow> bitmap \<Rightarrow> failure + bitmap" where
  "Bitmap_and a b = (case Bitmap_and_eq b (Bitmap_copy a) of (Inl e, _) \<Rightarrow> Inl e | (Inr _, t) \<Rightarrow> Inr t)"

definition Bitmap_or :: "bitmap \<Rightarrow> bitmap \<Rightarrow> failure + bitmap" where
  "Bitmap_or a b = (case Bitmap_or_eq b (Bitmap_copy a) of (Inl e, _) \<Rightarrow> Inl e | (Inr _, t) \<Rightarrow> Inr t)"

fun not_loop :: "nat \<Rightarrow> u16 list \<Rightarrow> failure + u16 list" where
  "not_loop (Suc n) (a # b # c # d # xs) = map_sum id (\<lambda>r. split4 (NOT (join4 a b c d)) @ r) (not_loop n xs)"
| "not_loop (Suc n) _ = Inl BadIndex"
| "not_loop 0 xs = Inr (map (\<lambda>x. NOT x) xs)"

definition not_compressed :: "u16 \<Rightarrow> u16" where
  "not_compressed cur =
     (if cur AND COMPRESS_MASK \<noteq> 0
      then if cur AND VALUE_MASK \<noteq> 0 then cur AND NOT VALUE_MASK else cur OR VALUE_MASK
      else NOT cur AND COUNT_MASK)"

definition Bitmap_not :: "(bitmap, unit) action" where
  "Bitmap_not a =
     (if \<not> bm_compress a
      then case not_loop (bm_size a div U64_VALUE_SIZE) (take (bm_dataSize a) (bm_data a)) of
             Inl e \<Rightarrow> (Inl e, a) | Inr ws \<Rightarrow> (Inr (), a\<lparr>bm_data := ws @ drop (bm_dataSize a) (bm_data a)\<rparr>)
      else (Inr (), a\<lparr>bm_data := map not_compressed (take (bm_dataSize a) (bm_data a)) @ drop (bm_dataSize a) (bm_data a)\<rparr>))"

text \<open>\<^verbatim>\<open>operator==\<close> of two objects.\<close>

definition Bitmap_eq :: "bitmap \<Rightarrow> bitmap \<Rightarrow> failure + bool" where
  "Bitmap_eq a b =
     (if bm_compress a \<noteq> bm_compress b \<or> bm_size a \<noteq> bm_size b \<or> bm_dataSize a \<noteq> bm_dataSize b then Inr False
      else if take (bm_dataSize a) (bm_data a) \<noteq> take (bm_dataSize b) (bm_data b) then Inr False
      else if bm_size a mod VALUE_SIZE \<noteq> 0
      then if bm_dataSize a = 0 then Inl BadIndex
           else Inr (bm_data a ! (bm_dataSize a - 1) AND MASK (bm_size a mod VALUE_SIZE) =
                     bm_data b ! (bm_dataSize b - 1) AND MASK (bm_size a mod VALUE_SIZE))
      else Inr True)"

definition Bitmap_any :: "bitmap \<Rightarrow> failure + bool" where
  "Bitmap_any b =
     (if bm_null b then Inr False
      else if \<not> bm_compress b
      then if bm_dataSize b = 0 \<or> length (bm_data b) < bm_dataSize b then Inl BadIndex
           else Inr (list_ex (\<lambda>w. w \<noteq> 0) (take (bm_dataSize b - 1) (bm_data b)) \<or>
                     bm_data b ! (bm_dataSize b - 1) AND MASK (bm_size b mod VALUE_SIZE) \<noteq> 0)
      else Inr (list_ex (\<lambda>w. let cur = ucast (ucast w :: u8) :: u16
                            in if cur AND COMPRESS_MASK \<noteq> 0 then cur AND VALUE_MASK \<noteq> 0 else cur \<noteq> 0)
                  (take (bm_dataSize b) (bm_data b))))"

definition Bitmap_resize :: "nat \<Rightarrow> bool \<Rightarrow> (bitmap, unit) action" where
  "Bitmap_resize sz v b =
     (if bm_compress b then (Inl LogicError, b)
      else let len = words_for sz in
        if bm_dataSize b < len
        then if bm_dataSize b = 0 then (Inl BadIndex, b)
             else let new_data = take (bm_dataSize b) (bm_data b) @ replicate (len - bm_dataSize b) (if v then NOT 0 else 0);
                      left = bm_size b mod VALUE_SIZE;
                      last = new_data ! (bm_dataSize b - 1);
                      new_data = new_data[bm_dataSize b - 1 := if v then last OR MASK left else last AND MASK left]
                  in (Inr (), b\<lparr>bm_data := new_data, bm_null := False, bm_size := sz, bm_dataSize := len\<rparr>)
        else (Inr (), b\<lparr>bm_size := sz, bm_dataSize := len\<rparr>))"

text \<open>\<^verbatim>\<open>cross\<close>.\<close>

fun normalCross :: "nat \<Rightarrow> u16 list \<Rightarrow> u16 list \<Rightarrow> failure + bool" where
  "normalCross (Suc n) (a # b # c # d # xs) (a' # b' # c' # d' # ys) =
     (if join4 a b c d \<noteq> 0 \<and> join4 a b c d AND join4 a' b' c' d' \<noteq> 0 then Inr True else normalCross n xs ys)"
| "normalCross (Suc n) _ _ = Inl BadIndex"
| "normalCross 0 (x # xs) (y # ys) = (if x AND y \<noteq> 0 then Inr True else normalCross 0 xs ys)"
| "normalCross 0 (x # xs) [] = Inl BadIndex"
| "normalCross 0 [] ys = Inr False"

definition compressCross :: "bitmap \<Rightarrow> bitmap \<Rightarrow> failure + bool" where
  "compressCross a b =
     (case runs_loop (\<lambda>pos cnt v _. if v then case get_words pos cnt True (bm_data a) of Inl e \<Rightarrow> Inl (Inl e)
                                        | Inr True \<Rightarrow> Inl (Inr ()) | Inr False \<Rightarrow> Inr ()
                                     else Inr ())
             (\<lambda>pos w _. let i = pos div VALUE_SIZE in
                if length (bm_data a) \<le> i then Inl (Inl BadIndex)
                else if bm_data a ! i AND w \<noteq> 0 then Inl (Inr ()) else Inr ())
             (take (bm_dataSize b) (bm_data b)) 0 () of
        Inl (Inl e) \<Rightarrow> Inl e | Inl (Inr _) \<Rightarrow> Inr True | Inr _ \<Rightarrow> Inr False)"

definition Bitmap_cross :: "bitmap \<Rightarrow> bitmap \<Rightarrow> failure + bool" where
  "Bitmap_cross a b =
     (if \<not> bm_compress a \<and> bm_compress b then compressCross a b
      else if \<not> bm_compress a \<and> \<not> bm_compress b
      then normalCross (bm_size a div U64_VALUE_SIZE) (take (bm_dataSize a) (bm_data a)) (bm_data b)
      else Inr False)"

section \<open>Enumeration\<close>

text \<open>The inner loop \<^verbatim>\<open>for(n = 0; n < VALUE_SIZE && cur_pos < m_size; ++n, ++cur_pos)\<close> over the bits of a word,
  from bit \<open>n\<close> on with \<open>k\<close> to go. The callback works on a state and says whether to go on.\<close>

primrec scan_bits :: "(nat \<Rightarrow> 's \<Rightarrow> bool \<times> 's) \<Rightarrow> nat \<Rightarrow> u16 \<Rightarrow> nat \<Rightarrow> nat \<Rightarrow> nat \<Rightarrow> 's \<Rightarrow> bool \<times> nat \<times> 's" where
  "scan_bits cb sz tmp n 0 cur_pos s = (True, cur_pos, s)"
| "scan_bits cb sz tmp n (Suc k) cur_pos s =
     (if sz \<le> cur_pos then (True, cur_pos, s)
      else if tmp AND POS n \<noteq> 0
      then case cb cur_pos s of (False, s) \<Rightarrow> (False, cur_pos, s)
           | (True, s) \<Rightarrow> scan_bits cb sz tmp (Suc n) k (Suc cur_pos) s
      else scan_bits cb sz tmp (Suc n) k (Suc cur_pos) s)"

text \<open>Some words one after the other, without and with the test whether the word is zero.\<close>

primrec scan_words :: "(nat \<Rightarrow> 's \<Rightarrow> bool \<times> 's) \<Rightarrow> nat \<Rightarrow> bool \<Rightarrow> u16 list \<Rightarrow> nat \<Rightarrow> 's \<Rightarrow> bool \<times> nat \<times> 's" where
  "scan_words cb sz skip [] cur_pos s = (True, cur_pos, s)"
| "scan_words cb sz skip (tmp # ws) cur_pos s =
     (if skip \<and> tmp = 0 then scan_words cb sz skip ws (add32 cur_pos VALUE_SIZE) s
      else case scan_bits cb sz tmp 0 VALUE_SIZE cur_pos s of
             (False, cur_pos, s) \<Rightarrow> (False, cur_pos, s)
           | (True, cur_pos, s) \<Rightarrow> scan_words cb sz skip ws cur_pos s)"

fun foreach_loop :: "(nat \<Rightarrow> 's \<Rightarrow> bool \<times> 's) \<Rightarrow> nat \<Rightarrow> nat \<Rightarrow> u16 list \<Rightarrow> nat \<Rightarrow> 's \<Rightarrow> failure + 's" where
  "foreach_loop cb sz (Suc n) (a # b # c # d # ws) cur_pos s =
     (if join4 a b c d = 0 then foreach_loop cb sz n ws (add32 cur_pos U64_VALUE_SIZE) s
      else case scan_words cb sz False [a, b, c, d] cur_pos s of
             (False, _, s) \<Rightarrow> Inr s
           | (True, cur_pos, s) \<Rightarrow> foreach_loop cb sz n ws cur_pos s)"
| "foreach_loop cb sz (Suc n) _ cur_pos s = Inl BadIndex"
| "foreach_loop cb sz 0 ws cur_pos s = Inr (snd (snd (scan_words cb sz True ws cur_pos s)))"

definition Bitmap_foreach :: "(nat \<Rightarrow> 's \<Rightarrow> bool \<times> 's) \<Rightarrow> bitmap \<Rightarrow> 's \<Rightarrow> failure + 's" where
  "Bitmap_foreach cb b s =
     foreach_loop cb (bm_size b) (bm_size b div U64_VALUE_SIZE) (take (bm_dataSize b) (bm_data b)) 0 s"

text \<open>\<^verbatim>\<open>listPosAsc\<close> has the loops of \<^verbatim>\<open>foreach\<close> with \<^verbatim>\<open>push_back\<close> in the place of the callback.\<close>

definition Bitmap_listPosAsc :: "bitmap \<Rightarrow> nat list \<Rightarrow> failure + nat list" where
  "Bitmap_listPosAsc = Bitmap_foreach (\<lambda>p pos. (True, pos @ [p]))"

text \<open>\<^verbatim>\<open>rforeach\<close>: the loops go down, \<open>k\<close> bits of a word, and \<open>cur_pos\<close> with them, below zero at the end (it wraps, but
  is not used any more).\<close>

primrec rscan_bits :: "(nat \<Rightarrow> 's \<Rightarrow> bool \<times> 's) \<Rightarrow> u16 \<Rightarrow> nat \<Rightarrow> int \<Rightarrow> 's \<Rightarrow> bool \<times> int \<times> 's" where
  "rscan_bits cb tmp 0 cur_pos s = (True, cur_pos, s)"
| "rscan_bits cb tmp (Suc k) cur_pos s =
     (if tmp AND POS k \<noteq> 0
      then case cb (nat (cur_pos mod 2 ^ 32)) s of (False, s) \<Rightarrow> (False, cur_pos, s)
           | (True, s) \<Rightarrow> rscan_bits cb tmp k (cur_pos - 1) s
      else rscan_bits cb tmp k (cur_pos - 1) s)"

primrec rscan_words :: "(nat \<Rightarrow> 's \<Rightarrow> bool \<times> 's) \<Rightarrow> bool \<Rightarrow> u16 list \<Rightarrow> int \<Rightarrow> 's \<Rightarrow> bool \<times> int \<times> 's" where
  "rscan_words cb skip [] cur_pos s = (True, cur_pos, s)"
| "rscan_words cb skip (tmp # ws) cur_pos s =
     (if skip \<and> tmp = 0 then rscan_words cb skip ws (cur_pos - int VALUE_SIZE) s
      else case rscan_bits cb tmp VALUE_SIZE cur_pos s of
             (False, cur_pos, s) \<Rightarrow> (False, cur_pos, s)
           | (True, cur_pos, s) \<Rightarrow> rscan_words cb skip ws cur_pos s)"

text \<open>The last word (\<^verbatim>\<open>i == start\<close>), which need not be full: bit \<^verbatim>\<open>m_size % VALUE_SIZE\<close> is looked at too.\<close>

definition rscan_last :: "(nat \<Rightarrow> 's \<Rightarrow> bool \<times> 's) \<Rightarrow> nat \<Rightarrow> u16 \<Rightarrow> int \<Rightarrow> 's \<Rightarrow> bool \<times> int \<times> 's" where
  "rscan_last cb sz tmp cur_pos s =
     (let left = sz mod VALUE_SIZE in
      if tmp = 0 then (True, cur_pos - int (if left = 0 then VALUE_SIZE else left), s)
      else if left = 0 then rscan_bits cb tmp VALUE_SIZE cur_pos s
      else rscan_bits cb tmp (Suc left) (cur_pos + 1) s)"

fun rforeach_loop :: "(nat \<Rightarrow> 's \<Rightarrow> bool \<times> 's) \<Rightarrow> u16 list \<Rightarrow> int \<Rightarrow> 's \<Rightarrow> 's" where
  "rforeach_loop cb (d # c # b # a # ws) cur_pos s =
     (if join4 a b c d = 0 then rforeach_loop cb ws (cur_pos - int U64_VALUE_SIZE) s
      else case rscan_words cb False [d, c, b, a] cur_pos s of
             (False, _, s) \<Rightarrow> s
           | (True, cur_pos, s) \<Rightarrow> rforeach_loop cb ws cur_pos s)"
| "rforeach_loop cb _ cur_pos s = s"

definition Bitmap_rforeach :: "(nat \<Rightarrow> 's \<Rightarrow> bool \<times> 's) \<Rightarrow> bitmap \<Rightarrow> 's \<Rightarrow> failure + 's" where
  "Bitmap_rforeach cb b s =
     (let full = bm_size b div U64_VALUE_SIZE * U64_DIV_BASE;
          ws = take (bm_dataSize b) (bm_data b);
          tail = (if bm_size b mod U64_VALUE_SIZE \<noteq> 0 then rev (drop full ws) else []) in
      if length ws < full then Inl BadIndex
      else case (case tail of [] \<Rightarrow> (True, int (bm_size b) - 1, s)
                 | w # rest \<Rightarrow>
                     (case rscan_last cb (bm_size b) w (int (bm_size b) - 1) s of
                        (False, p, s) \<Rightarrow> (False, p, s) | (True, p, s) \<Rightarrow> rscan_words cb True rest p s)) of
             (False, _, s) \<Rightarrow> Inr s
           | (True, cur_pos, s) \<Rightarrow> Inr (rforeach_loop cb (rev (take full ws)) cur_pos s))"

section \<open>Iterators\<close>

text \<open>An iterator is its position \<^verbatim>\<open>m_pos\<close>; the other fields are copies of the bitmap's. \<^verbatim>\<open>operator!\<close> says whether it is
  at a position.\<close>

definition iter_valid :: "bitmap \<Rightarrow> int \<Rightarrow> bool" where
  "iter_valid b pos = (\<not> (int (bm_size b) \<le> pos \<or> pos < 0))"

primrec iter_bits :: "nat \<Rightarrow> u16 \<Rightarrow> nat \<Rightarrow> nat \<Rightarrow> nat \<Rightarrow> bool \<times> nat" where
  "iter_bits sz v n 0 pos = (False, pos)"
| "iter_bits sz v n (Suc k) pos =
     (if sz \<le> pos then (False, pos)
      else if v AND POS n \<noteq> 0 then (True, pos)
      else iter_bits sz v (Suc n) k (Suc pos))"

primrec iter_words :: "nat \<Rightarrow> u16 list \<Rightarrow> nat \<Rightarrow> nat" where
  "iter_words sz [] pos = pos"
| "iter_words sz (v # ws) pos =
     (if sz \<le> pos then pos
      else if v = 0 then iter_words sz ws (pos + VALUE_SIZE)
      else case iter_bits sz v 0 VALUE_SIZE pos of (True, pos) \<Rightarrow> pos | (False, pos) \<Rightarrow> iter_words sz ws pos)"

definition iterator_next :: "bitmap \<Rightarrow> int \<Rightarrow> failure + int" where
  "iterator_next b m_pos =
     (let pos = nat (m_pos + 1); left = pos mod VALUE_SIZE; ws = take (bm_dataSize b) (bm_data b) in
      if left \<noteq> 0
      then if length (bm_data b) \<le> pos div VALUE_SIZE then Inl BadIndex
           else case iter_bits (bm_size b) (bm_data b ! (pos div VALUE_SIZE)) left (VALUE_SIZE - left) pos of
                  (True, pos) \<Rightarrow> Inr (int pos)
                | (False, pos) \<Rightarrow> Inr (int (iter_words (bm_size b) (drop (pos div VALUE_SIZE) ws) pos))
      else Inr (int (iter_words (bm_size b) (drop (pos div VALUE_SIZE) ws) pos)))"

definition new_iterator :: "bitmap \<Rightarrow> failure + int" where
  "new_iterator b = iterator_next b (- 1)"

primrec riter_bits :: "u16 \<Rightarrow> nat \<Rightarrow> int \<Rightarrow> bool \<times> int" where
  "riter_bits v 0 pos = (False, pos)"
| "riter_bits v (Suc k) pos =
     (if pos < 0 then (False, pos)
      else if v AND POS k \<noteq> 0 then (True, pos)
      else riter_bits v k (pos - 1))"

primrec riter_words :: "u16 list \<Rightarrow> int \<Rightarrow> int" where
  "riter_words [] pos = pos"
| "riter_words (v # ws) pos =
     (if pos < 0 then pos
      else if v = 0 then riter_words ws (pos - int VALUE_SIZE)
      else case riter_bits v VALUE_SIZE pos of (True, pos) \<Rightarrow> pos | (False, pos) \<Rightarrow> riter_words ws pos)"

definition iterator_reverse_next :: "bitmap \<Rightarrow> int \<Rightarrow> failure + int" where
  "iterator_reverse_next b m_pos =
     (if m_pos \<le> 0 then Inr (- 1)
      else let p = nat (m_pos - 1); left = p mod VALUE_SIZE; pos = p div VALUE_SIZE in
        if length (bm_data b) \<le> pos then Inl BadIndex
        else if left \<noteq> VALUE_SIZE - 1
        then case riter_bits (bm_data b ! pos) (Suc left) (m_pos - 1) of
               (True, q) \<Rightarrow> Inr q
             | (False, q) \<Rightarrow> Inr (riter_words (rev (take pos (bm_data b))) q)
        else Inr (riter_words (rev (take (Suc pos) (bm_data b))) (m_pos - 1)))"

definition new_iterator_reverse :: "bitmap \<Rightarrow> failure + int" where
  "new_iterator_reverse b = iterator_reverse_next b (int (bm_size b))"

section \<open>Counting\<close>

text \<open>\<^verbatim>\<open>count_bits\<close> of a \<^verbatim>\<open>uint64_t\<close>: the two halves.\<close>

definition popcount :: "u32 \<Rightarrow> nat" where
  "popcount w = length (filter (bit w) [0..<32])"

definition count_bits64 :: "u64 \<Rightarrow> nat" where
  "count_bits64 w = popcount (ucast (w AND 0xFFFFFFFF)) + popcount (ucast (drop_bit 32 w))"

primrec count_tail :: "nat \<Rightarrow> u16 list \<Rightarrow> nat \<Rightarrow> nat \<Rightarrow> nat" where
  "count_tail sz [] cur_pos cnt = cnt"
| "count_tail sz (tmp # ws) cur_pos cnt =
     (if tmp \<noteq> 0
      then let (_, cur_pos, cnt) = scan_bits (\<lambda>_ n. (True, Suc n)) sz tmp 0 VALUE_SIZE cur_pos cnt
           in count_tail sz ws cur_pos cnt
      else count_tail sz ws (add32 cur_pos VALUE_SIZE) cnt)"

fun count_loop :: "nat \<Rightarrow> u16 list \<Rightarrow> nat \<Rightarrow> nat \<Rightarrow> nat" where
  "count_loop sz (a # b # c # d # ws) cur_pos cnt =
     count_loop sz ws (add32 cur_pos U64_VALUE_SIZE) (add32 cnt (count_bits64 (join4 a b c d)))"
| "count_loop sz ws cur_pos cnt = count_tail sz ws cur_pos cnt"

definition Bitmap_getCount :: "bitmap \<Rightarrow> nat" where
  "Bitmap_getCount b =
     (if \<not> bm_compress b then count_loop (bm_size b) (take (bm_dataSize b) (bm_data b)) 0 0
      else fold (\<lambda>tmp cnt. if tmp AND COMPRESS_MASK \<noteq> 0
                            then if tmp AND VALUE_MASK \<noteq> 0 then add32 cnt (unat (tmp AND COUNT_MASK)) else cnt
                            else add32 cnt (count_bits16 tmp)) (take (bm_dataSize b) (bm_data b)) 0)"

section \<open>Serialisation\<close>

definition words_mem :: "byte_order \<Rightarrow> u16 list \<Rightarrow> bytes" where
  "words_mem host ws = concat (map (mem host 2) ws)"

definition Bitmap_writeTo :: "byte_order \<Rightarrow> bitmap \<Rightarrow> (bytearray, unit) action" where
  "Bitmap_writeTo host b =
     bindE (writeFuint8 (if bm_compress b then 1 else 0)) (\<lambda>_.
     bindE (writeFuint32 host (of_nat (bm_size b))) (\<lambda>_.
     bindE (writeFuint32 host (of_nat (bm_dataSize b))) (\<lambda>_.
     write_bytes (words_mem host (take (bm_dataSize b) (bm_data b))))))"

fun mem_words :: "byte_order \<Rightarrow> bytes \<Rightarrow> u16 list" where
  "mem_words host (x # y # bs) = of_mem host [x, y] # mem_words host bs"
| "mem_words host _ = []"

text \<open>\<^verbatim>\<open>readFrom\<close> catches exceptions, after which the fields already read stay; \<open>garbage\<close> is the content of fresh memory.\<close>

definition caught :: "failure \<Rightarrow> bitmap \<Rightarrow> (bytearray, bool \<times> bitmap) action" where
  "caught e b ba = (if e = OutOfRange then (Inr (False, b), ba) else (Inl e, ba))"

definition Bitmap_readFrom :: "byte_order \<Rightarrow> (nat \<Rightarrow> u16) \<Rightarrow> bitmap \<Rightarrow> (bytearray, bool \<times> bitmap) action" where
  "Bitmap_readFrom host garbage b ba =
     (case readFuint8 ba of (Inl e, ba) \<Rightarrow> caught e b ba
      | (Inr c, ba) \<Rightarrow> let b = b\<lparr>bm_compress := c \<noteq> 0\<rparr> in
          case readFuint32 host ba of (Inl e, ba) \<Rightarrow> caught e b ba
          | (Inr sz, ba) \<Rightarrow> let b = b\<lparr>bm_size := unat sz\<rparr> in
              case readFuint32 host ba of (Inl e, ba) \<Rightarrow> caught e b ba
              | (Inr n, ba) \<Rightarrow>
                  let b = b\<lparr>bm_dataSize := unat n, bm_data := map garbage [0..<unat n], bm_null := False\<rparr> in
                  case read_bytes (unat n * 2) ba of (Inl e, ba) \<Rightarrow> caught e b ba
                  | (Inr bs, ba) \<Rightarrow> (Inr (True, b\<lparr>bm_data := mem_words host bs\<rparr>), ba))"

section \<open>Bits of words\<close>

named_theorems bitmap_bits "the bits of the constants and of joined words"

lemma bit_COUNT_MASK [bitmap_bits]: "bit COUNT_MASK n \<longleftrightarrow> n < 14"
proof -
  have m: "COUNT_MASK = mask 14" by (simp add: COUNT_MASK_def mask_eq_decr_exp)
  show ?thesis unfolding m by (auto simp: bit_mask_iff)
qed

lemma bit_one_shift: "bit (push_bit k 1 :: u16) n \<longleftrightarrow> n = k \<and> k < 16"
  by (auto simp: bit_simps)

lemma bit_COMPRESS_MASK [bitmap_bits]: "bit COMPRESS_MASK n \<longleftrightarrow> n = 15"
  unfolding COMPRESS_MASK_def bit_one_shift by simp

lemma bit_VALUE_MASK [bitmap_bits]: "bit VALUE_MASK n \<longleftrightarrow> n = 14"
  unfolding VALUE_MASK_def bit_one_shift by simp

lemma bit_POS [bitmap_bits]: "bit (POS k) n \<longleftrightarrow> n = k \<and> k < 16"
  unfolding POS_def bit_one_shift by simp

lemma bit_NPOS [bitmap_bits]: "bit (NPOS k) n \<longleftrightarrow> n < 16 \<and> n \<noteq> k"
  unfolding NPOS_def by (auto simp: bit_simps bit_POS)

lemma bit_MASK [bitmap_bits]: "k < 16 \<Longrightarrow> bit (MASK k) n \<longleftrightarrow> n < k"
proof -
  assume "k < 16"
  moreover have "MASK k = mask k" by (simp add: MASK_def POS_def mask_eq_decr_exp)
  ultimately show ?thesis by (auto simp: bit_mask_iff)
qed

lemma and_bit_test:
  fixes w m :: u16
  assumes "\<And>n. bit m n \<longleftrightarrow> n = k"
  shows "w AND m \<noteq> 0 \<longleftrightarrow> bit w k"
proof -
  have "w AND m = 0 \<longleftrightarrow> (\<forall>n. \<not> bit (w AND m) n)"
    by (metis bit_word_eqI bit_0_eq bot_apply bot_bool_def zero_and_eq)
  then show ?thesis by (simp add: bit_and_iff assms)
qed

lemma test_COMPRESS: "w AND COMPRESS_MASK \<noteq> 0 \<longleftrightarrow> bit w 15"
  by (rule and_bit_test) (simp add: bit_COMPRESS_MASK)

lemma test_VALUE: "w AND VALUE_MASK \<noteq> 0 \<longleftrightarrow> bit w 14"
  by (rule and_bit_test) (simp add: bit_VALUE_MASK)

lemma test_POS: "k < 16 \<Longrightarrow> w AND POS k \<noteq> 0 \<longleftrightarrow> bit w k"
  by (rule and_bit_test) (auto simp: bit_POS)

lemmas mask_tests = test_COMPRESS test_VALUE test_POS

lemma word16_eqI: "(\<And>n. n < 16 \<Longrightarrow> bit v n = bit w n) \<Longrightarrow> v = (w :: u16)"
  by (rule bit_word_eqI) auto

text \<open>Four words in one of 64 bits.\<close>

lemma bit_join4:
  "bit (join4 a b c d) n \<longleftrightarrow> (if n < 16 then bit a n else if n < 32 then bit b (n - 16)
     else if n < 48 then bit c (n - 32) else n < 64 \<and> bit d (n - 48))"
  unfolding join4_def by (auto simp: bit_simps not_less dest: bit_imp_le_length)

lemma split4_join4 [simp]: "split4 (join4 a b c d) = [a, b, c, d]"
  unfolding split4_def by (auto intro!: word16_eqI simp: bit_join4 bit_simps)

lemma join4_and: "join4 a b c d AND join4 a' b' c' d' = join4 (a AND a') (b AND b') (c AND c') (d AND d')"
  by (rule bit_word_eqI) (auto simp: bit_join4 bit_simps)

lemma join4_or: "join4 a b c d OR join4 a' b' c' d' = join4 (a OR a') (b OR b') (c OR c') (d OR d')"
  by (rule bit_word_eqI) (auto simp: bit_join4 bit_simps)

lemma join4_not: "NOT (join4 a b c d) = join4 (NOT a) (NOT b) (NOT c) (NOT d)"
  by (rule bit_word_eqI) (auto simp: bit_join4 bit_simps)

lemma join4_0: "join4 a b c d = 0 \<longleftrightarrow> a = 0 \<and> b = 0 \<and> c = 0 \<and> d = 0"
proof
  assume "join4 a b c d = 0"
  then have "[a, b, c, d] = split4 0" by (metis split4_join4)
  then show "a = 0 \<and> b = 0 \<and> c = 0 \<and> d = 0" by (simp add: split4_def)
next
  assume "a = 0 \<and> b = 0 \<and> c = 0 \<and> d = 0"
  then show "join4 a b c d = 0" by (simp add: join4_def)
qed

lemma count_bits64_join4: "count_bits64 (join4 a b c d) = count_bits16 a + count_bits16 b + count_bits16 c + count_bits16 d"
proof -
  have u: "[0..<32] = [0..<16] @ map (\<lambda>n. n + 16) [0..<16]" by (simp add: upt_rec)
  have lo: "popcount (ucast (join4 a b c d AND 0xFFFFFFFF)) = count_bits16 a + count_bits16 b"
  proof -
    have m: "(0xFFFFFFFF :: u64) = mask 32" by (simp add: mask_eq_decr_exp)
    have "filter (bit (ucast (join4 a b c d AND 0xFFFFFFFF) :: u32)) [0..<16] = filter (bit a) [0..<16]"
      unfolding m by (intro filter_cong) (auto simp: bit_simps bit_join4)
    moreover have "filter (\<lambda>n. bit (ucast (join4 a b c d AND 0xFFFFFFFF) :: u32) (n + 16)) [0..<16] = filter (bit b) [0..<16]"
      unfolding m by (intro filter_cong) (auto simp: bit_simps bit_join4)
    ultimately show ?thesis unfolding popcount_def count_bits16_def u by (simp add: filter_map comp_def)
  qed
  have hi: "popcount (ucast (drop_bit 32 (join4 a b c d))) = count_bits16 c + count_bits16 d"
  proof -
    have "filter (bit (ucast (drop_bit 32 (join4 a b c d)) :: u32)) [0..<16] = filter (bit c) [0..<16]"
      by (intro filter_cong) (auto simp: bit_simps bit_join4)
    moreover have "filter (\<lambda>n. bit (ucast (drop_bit 32 (join4 a b c d)) :: u32) (n + 16)) [0..<16] = filter (bit d) [0..<16]"
      by (intro filter_cong) (auto simp: bit_simps bit_join4)
    ultimately show ?thesis unfolding popcount_def count_bits16_def u by (simp add: filter_map comp_def)
  qed
  show ?thesis unfolding count_bits64_def lo hi by simp
qed

section \<open>The set of positions\<close>

definition bit_at :: "u16 list \<Rightarrow> nat \<Rightarrow> bool" where
  "bit_at ws i = bit (ws ! (i div 14)) (i mod 14)"

definition bm_words :: "bitmap \<Rightarrow> u16 list" where
  "bm_words b = take (bm_dataSize b) (bm_data b)"

definition bm_set :: "bitmap \<Rightarrow> nat set" where
  "bm_set b = {i. i < bm_size b \<and> bit_at (bm_words b) i}"

text \<open>An uncompressed bitmap is tidy if its words have no flags and nothing is set beyond its size, which is at most 14 below \<^verbatim>\<open>2^32\<close>.
  Bitmaps made by \<^verbatim>\<open>Bitmap(n, 0)\<close> are, and \<^verbatim>\<open>set(idx, v)\<close>, \<^verbatim>\<open>&=\<close> and \<^verbatim>\<open>|=\<close> keep it; those made by \<^verbatim>\<open>operator~\<close> or filled with ones by
  \<^verbatim>\<open>Bitmap(n, 0xFF)\<close> are not, since these set the flag bits and the bits beyond the size too.\<close>

definition tidy_words :: "nat \<Rightarrow> u16 list \<Rightarrow> bool" where
  "tidy_words sz ws \<longleftrightarrow> (\<forall>j < length ws. \<forall>n. bit (ws ! j) n \<longrightarrow> n < 14 \<and> 14 * j + n < sz)"

definition bm_tidy :: "bitmap \<Rightarrow> bool" where
  "bm_tidy b \<longleftrightarrow> \<not> bm_compress b \<and> bm_dataSize b = words_for (bm_size b) \<and> bm_dataSize b \<le> length (bm_data b) \<and>
     bm_size b + 14 \<le> 2 ^ 32 \<and> tidy_words (bm_size b) (bm_words b)"

lemma VALUE_SIZE [simp]: "VALUE_SIZE = 14" "U64_VALUE_SIZE = 56" "U64_DIV_BASE = 4"
  by (simp_all add: VALUE_SIZE_def U64_VALUE_SIZE_def U64_DIV_BASE_def)

lemma add32_id [simp]: "a + b < 2 ^ 32 \<Longrightarrow> add32 a b = a + b"
  by (simp add: add32_def)

lemma words_for_bounds: "sz \<le> 14 * words_for sz" "14 * words_for sz < sz + 14"
  unfolding words_for_def VALUE_SIZE by presburger+

lemma bm_tidyD:
  assumes "bm_tidy b"
  shows "\<not> bm_compress b" "bm_dataSize b = words_for (bm_size b)" "length (bm_words b) = bm_dataSize b"
    "bm_size b + 14 \<le> 2 ^ 32" "tidy_words (bm_size b) (bm_words b)" "bm_dataSize b \<le> length (bm_data b)"
  using assms unfolding bm_tidy_def by (auto simp: bm_words_def)

section \<open>Visiting positions\<close>

fun visit :: "(nat \<Rightarrow> 's \<Rightarrow> bool \<times> 's) \<Rightarrow> nat list \<Rightarrow> 's \<Rightarrow> bool \<times> 's" where
  "visit cb [] s = (True, s)"
| "visit cb (p # ps) s = (case cb p s of (False, s) \<Rightarrow> (False, s) | (True, s) \<Rightarrow> visit cb ps s)"

lemma visit_append:
  "visit cb (ps @ qs) s = (case visit cb ps s of (False, s) \<Rightarrow> (False, s) | (True, s) \<Rightarrow> visit cb qs s)"
  by (induction ps arbitrary: s) (auto split: prod.splits bool.splits)

lemma visit_append_to: "visit (\<lambda>p pos. (True, pos @ [p])) ps pos = (True, pos @ ps)"
  by (induction ps arbitrary: pos) auto

lemma visit_count: "visit (\<lambda>_ n. (True, Suc n)) ps n = (True, n + length ps)"
  by (induction ps arbitrary: n) auto

lemma upt_split: "i \<le> j \<Longrightarrow> j \<le> k \<Longrightarrow> [i..<k] = [i..<j] @ [j..<k]"
  using upt_add_eq_append [of i j "k - j"] by simp

text \<open>The positions that some words hold, the first of them being word \<open>i\<close> of the bitmap.\<close>

definition positions :: "nat \<Rightarrow> nat \<Rightarrow> u16 list \<Rightarrow> nat list" where
  "positions sz i ws = filter (\<lambda>p. bit (ws ! (p div 14 - i)) (p mod 14)) [14 * i..<min sz (14 * (i + length ws))]"

lemma positions_Nil [simp]: "positions sz i [] = []"
  by (simp add: positions_def)

lemma positions_append:
  assumes "14 * (i + length xs) \<le> sz \<or> ys = []"
  shows "positions sz i (xs @ ys) = positions sz i xs @ positions sz (i + length xs) ys"
proof (cases "ys = []")
  case False
  let ?P = "\<lambda>zs j p. bit ((zs :: u16 list) ! (p div 14 - j)) (p mod 14)"
  let ?m = "14 * (i + length xs)" and ?e = "min sz (14 * (i + length xs + length ys))"
  have m: "?m \<le> sz" using assms False by simp
  then have e: "[14 * i..<?e] = [14 * i..<?m] @ [?m..<?e]" by (intro upt_split) auto
  have "filter (?P (xs @ ys) i) [14 * i..<?m] = filter (?P xs i) [14 * i..<?m]"
    by (intro filter_cong) (auto simp: nth_append)
  moreover have "filter (?P (xs @ ys) i) [?m..<?e] = filter (?P ys (i + length xs)) [?m..<?e]"
    by (intro filter_cong) (auto simp: nth_append diff_diff_add)
  ultimately show ?thesis unfolding positions_def using m e by (simp add: add.assoc min_absorb2)
qed simp

lemma positions_Cons:
  assumes "14 * Suc i \<le> sz \<or> ws = []"
  shows "positions sz i (w # ws) = positions sz i [w] @ positions sz (Suc i) ws"
  using positions_append [of i "[w]" sz ws] assms by simp

lemma positions_one: "positions sz i [w] = filter (\<lambda>p. bit w (p - 14 * i)) [14 * i..<min sz (14 * i + 14)]"
proof -
  have e: "14 * (i + length [w]) = 14 * i + 14" by simp
  show ?thesis unfolding positions_def e
  proof (rule filter_cong [OF refl])
    fix p assume "p \<in> set [14 * i..<min sz (14 * i + 14)]"
    then have "14 * i \<le> p" "p < 14 * i + 14" by auto
    then have d: "p div 14 = i" by (intro div_nat_eqI) auto
    then have "p mod 14 = p - 14 * i" by (metis minus_mult_div_eq_mod)
    with d show "bit ([w] ! (p div 14 - i)) (p mod 14) = bit w (p - 14 * i)" by (simp only: diff_self_eq_0 nth_Cons_0)
  qed
qed

lemma positions_zero [simp]: "positions sz i [0] = []"
  by (simp add: positions_one)

lemma hits_Suc:
  assumes "pos < sz"
  shows "filter (\<lambda>p. bit (tmp :: u16) (n + (p - pos))) [pos..<min sz (pos + Suc k)] =
    (if bit tmp n then [pos] else []) @ filter (\<lambda>p. bit tmp (Suc n + (p - Suc pos))) [Suc pos..<min sz (Suc pos + k)]"
proof -
  have "[pos..<min sz (pos + Suc k)] = pos # [Suc pos..<min sz (Suc pos + k)]" using assms by (simp add: upt_rec)
  moreover have "filter (\<lambda>p. bit tmp (n + (p - pos))) [Suc pos..<min sz (Suc pos + k)] =
      filter (\<lambda>p. bit tmp (Suc n + (p - Suc pos))) [Suc pos..<min sz (Suc pos + k)]"
  proof (rule filter_cong [OF refl])
    fix x assume "x \<in> set [Suc pos..<min sz (Suc pos + k)]"
    then have "n + (x - pos) = Suc n + (x - Suc pos)" by auto
    then show "bit tmp (n + (x - pos)) = bit tmp (Suc n + (x - Suc pos))" by (simp only:)
  qed
  ultimately show ?thesis by simp
qed

lemma scan_bits_visit:
  assumes "n + k \<le> 16" "scan_bits cb sz tmp n k pos s = (c, q, s')"
  shows "visit cb (filter (\<lambda>p. bit tmp (n + (p - pos))) [pos..<min sz (pos + k)]) s = (c, s') \<and>
    (c \<longrightarrow> q = (if sz \<le> pos then pos else min sz (pos + k)))"
  using assms
proof (induction k arbitrary: n pos s)
  case (Suc k)
  show ?case
  proof (cases "sz \<le> pos")
    case False
    have q: "(if sz \<le> Suc pos then Suc pos else min sz (Suc pos + k)) = min sz (pos + Suc k)" using False by auto
    have n: "tmp AND POS n \<noteq> 0 \<longleftrightarrow> bit tmp n" using Suc.prems(1) by (intro test_POS) simp
    have IH: "visit cb (filter (\<lambda>p. bit tmp (Suc n + (p - Suc pos))) [Suc pos..<min sz (Suc pos + k)]) s1 = (c, s') \<and>
        (c \<longrightarrow> q = min sz (pos + Suc k))"
      if "scan_bits cb sz tmp (Suc n) k (Suc pos) s1 = (c, q, s')" for s1
      using Suc.IH [OF _ that] Suc.prems(1) unfolding q by simp
    have p: "pos < sz" using False by simp
    obtain d s1 where cb: "cb pos s = (d, s1)" by (cases "cb pos s")
    show ?thesis
    proof (cases "bit tmp n \<and> \<not> d")
      case True
      then show ?thesis using Suc.prems(2) False n cb unfolding hits_Suc [OF p] by auto
    next
      case False
      with Suc.prems(2) p n cb have "scan_bits cb sz tmp (Suc n) k (Suc pos) (if bit tmp n then s1 else s) = (c, q, s')"
        by auto
      from IH [OF this] show ?thesis using False p cb unfolding hits_Suc [OF p] visit_append by auto
    qed
  qed (use Suc.prems in simp)
qed simp

lemma scan_word_visit:
  assumes "14 * i < sz" "scan_bits cb sz w 0 14 (14 * i) s = (c, q, s')"
  shows "visit cb (positions sz i [w]) s = (c, s')" "c \<Longrightarrow> q = min sz (14 * Suc i)"
  using scan_bits_visit [OF _ assms(2)] assms(1) by (auto simp: positions_one)

lemma scan_words_visit:
  assumes "14 * (i + length ws) < sz + 14" "sz + 14 \<le> 2 ^ 32" "scan_words cb sz skip ws (14 * i) s = (c, q, s')"
  shows "visit cb (positions sz i ws) s = (c, s') \<and> (c \<longrightarrow> 14 * (i + length ws) < sz \<longrightarrow> q = 14 * (i + length ws))"
  using assms
proof (induction ws arbitrary: i s)
  case (Cons w ws)
  have i: "14 * i < sz" and next_i: "14 * Suc i < sz \<or> ws = []" using Cons.prems(1) by (cases ws, auto)+
  have split: "positions sz i (w # ws) = positions sz i [w] @ positions sz (Suc i) ws"
    using next_i by (intro positions_Cons) auto
  have IH: "visit cb (positions sz (Suc i) ws) s1 = (c, s') \<and> (c \<longrightarrow> 14 * (i + length (w # ws)) < sz \<longrightarrow> q = 14 * (i + length (w # ws)))"
    if "scan_words cb sz skip ws (14 * Suc i) s1 = (c, q, s')" for s1
    using Cons.IH [OF _ Cons.prems(2) that] Cons.prems(1) by simp
  obtain d p s1 where b: "scan_bits cb sz w 0 14 (14 * i) s = (d, p, s1)" by (cases "scan_bits cb sz w 0 14 (14 * i) s")
  note v = scan_word_visit [OF i b]
  have add: "add32 (14 * i) 14 = 14 * Suc i" using i Cons.prems(2) by (subst add32_id) auto
  consider (skip) "skip" "w = 0" | (stop) "\<not> (skip \<and> w = 0)" "\<not> d" | (go) "\<not> (skip \<and> w = 0)" "d" by blast
  then show ?case
  proof cases
    case skip
    then have "scan_words cb sz skip ws (14 * Suc i) s = (c, q, s')" using Cons.prems(3) add by simp
    from IH [OF this] show ?thesis using split skip(2) by simp
  next
    case stop
    then show ?thesis using Cons.prems(3) b v(1) split by (auto simp: visit_append)
  next
    case go
    then have run: "scan_words cb sz skip ws p s1 = (c, q, s')" using Cons.prems(3) b by auto
    show ?thesis
    proof (cases "ws = []")
      case True
      then show ?thesis using run go(2) v by (auto simp: min_def)
    next
      case False
      then have "p = 14 * Suc i" using v(2) [OF go(2)] next_i by simp
      then show ?thesis using IH [of s1] run go(2) v(1) split by (simp add: visit_append)
    qed
  qed
qed simp

lemma four_words: "4 \<le> length ws \<Longrightarrow> \<exists>a b c d rest. ws = [a, b, c, d] @ rest"
  by (auto simp: numeral_eq_Suc Suc_le_length_iff)

lemma foreach_loop_visit:
  assumes "14 * (i + length ws) < sz + 14" "sz + 14 \<le> 2 ^ 32" "4 * n \<le> length ws" "56 * n + 14 * i \<le> sz"
  shows "foreach_loop cb sz n ws (14 * i) s = Inr (snd (visit cb (positions sz i ws) s))"
  using assms
proof (induction n arbitrary: i ws s)
  case 0
  obtain k p s1 where w: "scan_words cb sz True ws (14 * i) s = (k, p, s1)" by (cases "scan_words cb sz True ws (14 * i) s")
  then show ?case using scan_words_visit [OF "0.prems"(1,2) w] by simp
next
  case (Suc n)
  obtain a b c d rest where ws: "ws = [a, b, c, d] @ rest" using four_words [of ws] Suc.prems(3) by auto
  let ?q = "[a, b, c, d]"
  have e: "56 * n + 14 * (i + 4) \<le> sz" "14 * (i + 4 + length rest) < sz + 14" "4 * n \<le> length rest"
    using Suc.prems by (simp_all add: ws)
  have split: "positions sz i ws = positions sz i ?q @ positions sz (i + 4) rest"
    unfolding ws using positions_append [of i ?q sz rest] e by (simp add: numeral_eq_Suc)
  note IH = Suc.IH [OF e(2) Suc.prems(2) e(3,1)]
  show ?case
  proof (cases "join4 a b c d = 0")
    case True
    then have z: "a = 0" "b = 0" "c = 0" "d = 0" by (simp_all add: join4_0)
    have "positions sz i ?q = []" using positions_Cons [of i sz] positions_Cons [of "Suc i" sz] positions_Cons [of "Suc (Suc i)" sz] e
      by (simp add: z)
    moreover have "add32 (14 * i) 56 = 14 * (i + 4)" using e Suc.prems(2) by (subst add32_id) auto
    ultimately show ?thesis using IH [of s] True split by (simp add: ws)
  next
    case False
    obtain k p s1 where w: "scan_words cb sz False ?q (14 * i) s = (k, p, s1)" by (cases "scan_words cb sz False ?q (14 * i) s")
    have v: "visit cb (positions sz i ?q) s = (k, s1)" "k \<Longrightarrow> 14 * (i + 4) < sz \<Longrightarrow> p = 14 * (i + 4)"
      using scan_words_visit [OF _ Suc.prems(2) w] e by auto
    have run: "foreach_loop cb sz (Suc n) ws (14 * i) s = (if k then foreach_loop cb sz n rest p s1 else Inr s1)"
      unfolding ws using False w by (auto simp del: scan_words.simps split: bool.splits)
    consider "k" "14 * (i + 4) < sz" | "\<not> k" | "k" "rest = []" "n = 0" using e(2,3) by (cases rest) auto
    then show ?thesis
    proof cases
      case 1
      then show ?thesis using run v split IH [of s1] by (simp add: visit_append)
    next
      case 2
      then show ?thesis using run v split by (simp add: visit_append)
    next
      case 3
      then show ?thesis using run v split by (simp add: visit_append)
    qed
  qed
qed

lemma bit_at_words:
  assumes "bm_tidy b"
  shows "positions (bm_size b) 0 (bm_words b) = filter (bit_at (bm_words b)) [0..<bm_size b]"
proof -
  have "min (bm_size b) (14 * length (bm_words b)) = bm_size b"
    using bm_tidyD(2,3) [OF assms] words_for_bounds(1) [of "bm_size b"] by simp
  then show ?thesis by (simp add: positions_def bit_at_def [abs_def])
qed

lemma filter_bm_set: "filter (bit_at (bm_words b)) [0..<bm_size b] = sorted_list_of_set (bm_set b)"
proof -
  have "sorted (filter (bit_at (bm_words b)) [0..<bm_size b])" "distinct (filter (bit_at (bm_words b)) [0..<bm_size b])"
    by (auto intro: sorted_wrt_filter)
  moreover have "set (filter (bit_at (bm_words b)) [0..<bm_size b]) = bm_set b" by (auto simp: bm_set_def)
  ultimately show ?thesis by (metis sorted_distinct_set_unique finite_set sorted_list_of_set(1,3) sorted_sorted_list_of_set distinct_sorted_list_of_set set_sorted_list_of_set)
qed

lemma finite_bm_set [simp]: "finite (bm_set b)"
  by (simp add: bm_set_def)

lemma Bitmap_foreach_correct:
  assumes "bm_tidy b"
  shows "Bitmap_foreach cb b s = Inr (snd (visit cb (sorted_list_of_set (bm_set b)) s))"
proof -
  note t = bm_tidyD(2-4) [OF assms] and w = words_for_bounds [of "bm_size b"]
  have "4 * (bm_size b div 56) \<le> length (bm_words b)" "56 * (bm_size b div 56) + 14 * 0 \<le> bm_size b"
    using t w by auto
  then show ?thesis
    using foreach_loop_visit [of 0 "bm_words b" "bm_size b" "bm_size b div 56" cb s] t w bit_at_words [OF assms] filter_bm_set [of b]
    by (simp add: Bitmap_foreach_def bm_words_def)
qed

section \<open>Counting\<close>

lemma count_tail_eq:
  assumes "14 * (i + length ws) < sz + 14" "sz + 14 \<le> 2 ^ 32"
  shows "count_tail sz ws (14 * i) cnt = cnt + length (positions sz i ws)"
  using assms(1)
proof (induction ws arbitrary: i cnt)
  case (Cons w ws)
  have i: "14 * i < sz" and next_i: "14 * Suc i < sz \<or> ws = []" using Cons.prems by (cases ws, auto)+
  have split: "positions sz i (w # ws) = positions sz i [w] @ positions sz (Suc i) ws"
    using next_i by (intro positions_Cons) auto
  note IH = Cons.IH [of "Suc i"]
  show ?case
  proof (cases "w = 0")
    case True
    have "add32 (14 * i) 14 = 14 * Suc i" using i assms(2) by (subst add32_id) auto
    then show ?thesis using True IH Cons.prems split by simp
  next
    case False
    obtain d p n where b: "scan_bits (\<lambda>_ n. (True, Suc n)) sz w 0 14 (14 * i) cnt = (d, p, n)"
      by (cases "scan_bits (\<lambda>_ n. (True, Suc n)) sz w 0 14 (14 * i) cnt")
    have v: "d" "n = cnt + length (positions sz i [w])" "p = min sz (14 * Suc i)"
      using scan_word_visit [OF i b] by (auto simp: visit_count)
    have "count_tail sz ws p n = n + length (positions sz (Suc i) ws)"
      using next_i IH [of n] Cons.prems v(3) by (cases "ws = []") auto
    then show ?thesis using False b v(2) split by simp
  qed
qed simp

lemma tidy_words_append: "tidy_words sz (xs @ ys) \<Longrightarrow> tidy_words sz xs"
  unfolding tidy_words_def by (metis length_append nth_append trans_less_add1)

text \<open>A tidy word holds as many positions as it has bits.\<close>

lemma tidy_word_count:
  assumes "\<And>n. bit w n \<Longrightarrow> n < 14 \<and> 14 * i + n < sz"
  shows "length (positions sz i [w]) = count_bits16 w"
proof -
  let ?S = "{n. n < 16 \<and> bit w n}"
  have "set (positions sz i [w]) = (\<lambda>n. 14 * i + n) ` ?S"
  proof (rule set_eqI, rule iffI)
    fix p assume "p \<in> set (positions sz i [w])"
    then have "14 * i \<le> p" "p < 14 * i + 14" "bit w (p - 14 * i)" by (auto simp: positions_one)
    then show "p \<in> (\<lambda>n. 14 * i + n) ` ?S" by (intro image_eqI [of _ _ "p - 14 * i"]) auto
  next
    fix p assume "p \<in> (\<lambda>n. 14 * i + n) ` ?S"
    then obtain n where "p = 14 * i + n" "bit w n" by auto
    then show "p \<in> set (positions sz i [w])" using assms [of n] by (simp add: positions_one)
  qed
  moreover have "distinct (positions sz i [w])" by (simp add: positions_one)
  ultimately have "length (positions sz i [w]) = card ((\<lambda>n. 14 * i + n) ` ?S)" by (metis distinct_card)
  also have "\<dots> = card ?S" by (rule card_image) (simp add: inj_on_def)
  also have "\<dots> = count_bits16 w"
  proof -
    have "set (filter (bit w) [0..<16]) = ?S" by auto
    moreover have "distinct (filter (bit w) [0..<16])" by (rule distinct_filter) (rule distinct_upt)
    ultimately show ?thesis unfolding count_bits16_def by (metis distinct_card)
  qed
  finally show ?thesis .
qed

definition tidy_from :: "nat \<Rightarrow> nat \<Rightarrow> u16 list \<Rightarrow> bool" where
  "tidy_from sz i ws \<longleftrightarrow> (\<forall>j < length ws. \<forall>n. bit (ws ! j) n \<longrightarrow> n < 14 \<and> 14 * (i + j) + n < sz)"

lemma tidy_from_Cons [simp]:
  "tidy_from sz i (w # ws) \<longleftrightarrow> (\<forall>n. bit w n \<longrightarrow> n < 14 \<and> 14 * i + n < sz) \<and> tidy_from sz (Suc i) ws"
  unfolding tidy_from_def by (simp add: All_less_Suc2 ac_simps)

lemma tidy_from_append: "tidy_from sz i (xs @ ys) \<Longrightarrow> tidy_from sz (i + length xs) ys"
  by (induction xs arbitrary: i) (simp, metis add_Suc_shift append_Cons length_Cons tidy_from_Cons)

lemma count_loop_eq:
  assumes "tidy_from sz i ws" "14 * (i + length ws) < sz + 14" "sz + 14 \<le> 2 ^ 32" "cnt + length (positions sz i ws) < 2 ^ 32"
  shows "count_loop sz ws (14 * i) cnt = cnt + length (positions sz i ws)"
  using assms
proof (induction "length ws" arbitrary: i ws cnt rule: less_induct)
  case less
  show ?case
  proof (cases "4 \<le> length ws")
    case False
    then have "count_loop sz ws (14 * i) cnt = count_tail sz ws (14 * i) cnt"
      by (cases "(sz, ws, 14 * i, cnt)" rule: count_loop.cases) auto
    then show ?thesis using count_tail_eq [OF less.prems(2,3)] by simp
  next
    case True
    then obtain a b c d rest where ws: "ws = [a, b, c, d] @ rest" using four_words by blast
    have e: "14 * (i + 4 + length rest) < sz + 14" using less.prems(2) by (simp add: ws)
    then have r: "14 * (i + 4) \<le> sz \<or> rest = []" by (cases rest) auto
    have i3: "14 * Suc (Suc (Suc i)) < sz" using e by simp
    have split: "positions sz i ws = positions sz i [a, b, c, d] @ positions sz (i + 4) rest"
      unfolding ws using positions_append [of i "[a, b, c, d]" sz rest] r by (simp add: numeral_eq_Suc)
    have q: "positions sz i [a, b, c, d] = positions sz i [a] @ positions sz (Suc i) [b] @ positions sz (Suc (Suc i)) [c] @
        positions sz (Suc (Suc (Suc i))) [d]"
      using i3 positions_Cons [of i sz "[b, c, d]" a] positions_Cons [of "Suc i" sz "[c, d]" b]
        positions_Cons [of "Suc (Suc i)" sz "[d]" c] by simp
    have n: "count_bits64 (join4 a b c d) = length (positions sz i [a, b, c, d])"
      unfolding count_bits64_join4 q using less.prems(1) by (simp add: ws tidy_word_count)
    have tf: "tidy_from sz (i + 4) rest"
      using tidy_from_append [OF less.prems(1) [unfolded ws]] by (simp add: numeral_eq_Suc)
    have "add32 (14 * i) 56 = 14 * (i + 4)" using e less.prems(3) by (subst add32_id) auto
    moreover have "add32 cnt (count_bits64 (join4 a b c d)) = cnt + length (positions sz i [a, b, c, d])"
      unfolding n using less.prems(4) split by (intro add32_id) simp
    moreover have "count_loop sz rest (14 * (i + 4)) (cnt + length (positions sz i [a, b, c, d])) =
        cnt + length (positions sz i [a, b, c, d]) + length (positions sz (i + 4) rest)"
      using less.prems(3,4) tf split e by (intro less.hyps) (auto simp: ws)
    ultimately show ?thesis using split by (simp add: ws)
  qed
qed

lemma length_positions: "length (positions sz i ws) \<le> sz"
proof -
  have "length (positions sz i ws) \<le> length [14 * i..<min sz (14 * (i + length ws))]"
    unfolding positions_def by (rule length_filter_le)
  then show ?thesis by simp
qed

lemma Bitmap_getCount_correct:
  assumes "bm_tidy b"
  shows "Bitmap_getCount b = card (bm_set b)"
proof -
  note t = bm_tidyD [OF assms] and w = words_for_bounds [of "bm_size b"]
  have "tidy_from (bm_size b) 0 (bm_words b)" using t(5) by (simp add: tidy_words_def tidy_from_def)
  then have "count_loop (bm_size b) (bm_words b) (14 * 0) 0 = 0 + length (positions (bm_size b) 0 (bm_words b))"
    using t(2-4) w length_positions [of "bm_size b" 0 "bm_words b"] by (intro count_loop_eq) auto
  then show ?thesis using t(1) by (simp add: Bitmap_getCount_def bit_at_words [OF assms] filter_bm_set bm_words_def [symmetric])
qed

section \<open>Operations on uncompressed bitmaps\<close>

lemma word_index: "i < sz \<Longrightarrow> i div 14 < words_for sz"
  using words_for_bounds(1) [of sz] by (simp add: div_less_iff_less_mult)

lemma bm_setI:
  assumes "bm_size b = sz" "\<And>i. i < sz \<Longrightarrow> bit_at (bm_words b) i \<longleftrightarrow> i \<in> S" "\<And>i. i \<in> S \<Longrightarrow> i < sz"
  shows "bm_set b = S"
  using assms by (auto simp: bm_set_def)

lemma Bitmap_get_correct:
  assumes "bm_tidy b" "i < bm_size b"
  shows "Bitmap_get i b = Inr (i \<in> bm_set b)"
proof -
  have w: "i div 14 < bm_dataSize b" using word_index [OF assms(2)] bm_tidyD(2) [OF assms(1)] by simp
  then have "bm_words b ! (i div 14) = bm_data b ! (i div 14)" by (simp add: bm_words_def)
  then show ?thesis using w bm_tidyD(6) [OF assms(1)] assms(2)
    by (simp add: Bitmap_get_def Let_def test_POS bm_set_def bit_at_def)
qed

lemma pos_eq_iff: "(i :: nat) div 14 = j div 14 \<and> i mod 14 = j mod 14 \<longleftrightarrow> i = j"
  by (metis div_mult_mod_eq)

lemma Bitmap_set_correct:
  assumes "bm_tidy b" "idx < bm_size b"
  obtains b' where "Bitmap_set idx v b = (Inr (), b')" "bm_tidy b'" "bm_size b' = bm_size b"
    "bm_set b' = (if v then insert idx (bm_set b) else bm_set b - {idx})"
proof -
  note t = bm_tidyD [OF assms(1)]
  let ?c = "idx div 14" and ?p = "idx mod 14"
  let ?w = "if v then bm_data b ! ?c OR POS ?p else bm_data b ! ?c AND NPOS ?p"
  let ?b = "b\<lparr>bm_data := (bm_data b)[?c := ?w]\<rparr>"
  have c: "?c < bm_dataSize b" using word_index [OF assms(2)] t(2) by simp
  have words: "bm_words ?b = (bm_words b)[?c := ?w]" by (simp add: bm_words_def take_update_swap)
  have old: "bm_words b ! j = bm_data b ! j" if "j < bm_dataSize b" for j using that by (simp add: bm_words_def)
  have bits: "bit (bm_words ?b ! j) n \<longleftrightarrow> (if j = ?c \<and> n = ?p then v else bit (bm_words b ! j) n)" if "j < bm_dataSize b" for j n
    unfolding words using c t(3) that old [OF c] by (auto simp: nth_list_update bit_simps bit_POS bit_NPOS dest: bit_imp_le_length)
  have run: "Bitmap_set idx v b = (Inr (), ?b)" using c t(6) by (simp add: Bitmap_set_def Let_def)
  have "14 * ?c + ?p < bm_size b" using assms(2) by simp
  then have "tidy_words (bm_size b) (bm_words ?b)"
    using t(3,5) bits unfolding tidy_words_def by (auto simp: words split: if_splits)
  then have tidy: "bm_tidy ?b" using t(1,2,4,6) by (simp add: bm_tidy_def)
  have "bm_set ?b = (if v then insert idx (bm_set b) else bm_set b - {idx})"
  proof (rule bm_setI [of _ "bm_size b"])
    fix i assume i: "i < bm_size b"
    have j: "i div 14 < bm_dataSize b" using word_index [OF i] t(2) by simp
    have "bit_at (bm_words ?b) i \<longleftrightarrow> (if i = idx then v else bit_at (bm_words b) i)"
      unfolding bit_at_def bits [OF j] pos_eq_iff ..
    then show "bit_at (bm_words ?b) i \<longleftrightarrow> i \<in> (if v then insert idx (bm_set b) else bm_set b - {idx})"
      using i by (auto simp: bm_set_def)
  qed (use assms(2) in \<open>auto simp: bm_set_def split: if_splits\<close>)
  then show thesis using that [OF run tidy] by simp
qed

lemma bitop_loop_eq:
  assumes "\<And>a b c d a' b' c' d'. fq (join4 a b c d) (join4 a' b' c' d') = join4 (fw a a') (fw b b') (fw c c') (fw d d')"
    "4 * n \<le> length xs" "length xs \<le> length ys"
  shows "bitop_loop fq fw n xs ys = Inr (map2 fw xs ys)"
  using assms(2,3)
proof (induction n arbitrary: xs ys)
  case 0
  then show ?case by (induction xs arbitrary: ys) (auto simp: Suc_le_length_iff)
next
  case (Suc n)
  obtain a b c d xs' where x: "xs = [a, b, c, d] @ xs'" using four_words [of xs] Suc.prems by auto
  obtain a' b' c' d' ys' where y: "ys = [a', b', c', d'] @ ys'" using four_words [of ys] Suc.prems by auto
  show ?case using Suc.IH [of xs' ys'] Suc.prems assms(1) by (simp add: x y)
qed

lemma normalCross_eq:
  assumes "4 * n \<le> length xs" "length xs \<le> length ys"
  shows "normalCross n xs ys = Inr (\<exists>j < length xs. xs ! j AND ys ! j \<noteq> 0)"
  using assms
proof (induction n arbitrary: xs ys)
  case 0
  then show ?case by (induction xs arbitrary: ys) (auto simp: Suc_le_length_iff Ex_less_Suc2)
next
  case (Suc n)
  obtain a b c d xs' where x: "xs = [a, b, c, d] @ xs'" using four_words [of xs] Suc.prems by auto
  obtain a' b' c' d' ys' where y: "ys = [a', b', c', d'] @ ys'" using four_words [of ys] Suc.prems by auto
  have "join4 a b c d \<noteq> 0 \<and> join4 a b c d AND join4 a' b' c' d' \<noteq> 0 \<longleftrightarrow>
      a AND a' \<noteq> 0 \<or> b AND b' \<noteq> 0 \<or> c AND c' \<noteq> 0 \<or> d AND d' \<noteq> 0"
    unfolding join4_and join4_0 by auto
  then show ?case using Suc.IH [of xs' ys'] Suc.prems by (simp add: x y Ex_less_Suc2) blast
qed

text \<open>Both bitmaps have the same size: word by word.\<close>

lemma bitop_correct:
  assumes a: "bm_tidy a" and b: "bm_tidy b" and sz: "bm_size a = bm_size b"
    and f: "\<And>a b c d a' b' c' d'. fq (join4 a b c d) (join4 a' b' c' d') = join4 (fw a a') (fw b b') (fw c c') (fw d d')"
    and g: "\<And>x y n. bit (fw x y) n \<longleftrightarrow> g (bit x n) (bit y n)" "\<not> g False False"
  obtains c where "Bitmap_bitop fq fw fill b a = (Inr (), c)" "bm_tidy c" "bm_size c = bm_size a"
    "bm_set c = {i. g (i \<in> bm_set a) (i \<in> bm_set b)}"
proof -
  note ta = bm_tidyD [OF a] and tb = bm_tidyD [OF b]
  let ?ws = "map2 fw (bm_words a) (bm_words b)"
  let ?c = "a\<lparr>bm_data := ?ws @ drop (bm_dataSize a) (bm_data a)\<rparr>"
  have n: "bm_dataSize a = bm_dataSize b" using ta(2) tb(2) sz by simp
  have "4 * (bm_size a div 56) \<le> length (bm_words a)" using ta(2,3) words_for_bounds(1) [of "bm_size a"] by auto
  then have "bitop_loop fq fw (bm_size a div 56) (bm_words a) (bm_data b) = Inr (map2 fw (bm_words a) (bm_data b))"
    using ta(3) tb(6) n by (intro bitop_loop_eq f) auto
  also have "map2 fw (bm_words a) (bm_data b) = ?ws"
    using ta(3) n by (auto simp: bm_words_def list_eq_iff_nth_eq)
  finally have run: "Bitmap_bitop fq fw fill b a = (Inr (), ?c)"
    using ta(1) tb(1) sz by (simp add: Bitmap_bitop_def bm_words_def [symmetric])
  have words: "bm_words ?c = ?ws" using ta(3) tb(3) n by (simp add: bm_words_def)
  have bits: "bit (bm_words ?c ! j) k \<longleftrightarrow> g (bit (bm_words a ! j) k) (bit (bm_words b ! j) k)" if "j < bm_dataSize a" for j k
    unfolding words using that ta(3) tb(3) n by (simp add: g)
  have "tidy_words (bm_size a) (bm_words ?c)"
    unfolding tidy_words_def
  proof (intro allI impI)
    fix j k assume j: "j < length (bm_words ?c)" "bit (bm_words ?c ! j) k"
    have j': "j < bm_dataSize a" using j(1) ta(3) tb(3) n unfolding words by simp
    then have "bit (bm_words a ! j) k \<or> bit (bm_words b ! j) k" using j(2) bits [OF j', of k] g(2) by metis
    then show "k < 14 \<and> 14 * j + k < bm_size a"
      using ta(3,5) tb(3,5) n sz j' unfolding tidy_words_def by auto
  qed
  then have tidy: "bm_tidy ?c" using ta(1,2,3,4,6) tb(3) n by (simp add: bm_tidy_def)
  have "bm_set ?c = {i. g (i \<in> bm_set a) (i \<in> bm_set b)}"
  proof (rule bm_setI [of _ "bm_size a"])
    fix i assume i: "i < bm_size a"
    then have "i div 14 < bm_dataSize a" using word_index ta(2) by simp
    then show "bit_at (bm_words ?c) i \<longleftrightarrow> i \<in> {i. g (i \<in> bm_set a) (i \<in> bm_set b)}"
      using i sz by (simp add: bit_at_def bits bm_set_def)
  next
    fix i assume "i \<in> {i. g (i \<in> bm_set a) (i \<in> bm_set b)}"
    then have "i \<in> bm_set a \<or> i \<in> bm_set b" using g(2) by (cases "i \<in> bm_set a"; cases "i \<in> bm_set b") auto
    then show "i < bm_size a" using sz by (auto simp: bm_set_def)
  qed simp
  then show thesis using that [OF run tidy] by simp
qed

lemma cross_correct:
  assumes a: "bm_tidy a" and b: "bm_tidy b" and sz: "bm_size a = bm_size b"
  shows "Bitmap_cross a b = Inr (bm_set a \<inter> bm_set b \<noteq> {})"
proof -
  note ta = bm_tidyD [OF a] and tb = bm_tidyD [OF b]
  have n: "bm_dataSize a = bm_dataSize b" using ta(2) tb(2) sz by simp
  have "4 * (bm_size a div 56) \<le> length (bm_words a)" using ta(2,3) words_for_bounds(1) [of "bm_size a"] by auto
  then have "normalCross (bm_size a div 56) (bm_words a) (bm_data b) = Inr (\<exists>j < bm_dataSize a. bm_words a ! j AND bm_data b ! j \<noteq> 0)"
    using normalCross_eq [of "bm_size a div 56" "bm_words a" "bm_data b"] ta(3) tb(6) n by simp
  then have run: "Bitmap_cross a b = Inr (\<exists>j < bm_dataSize a. bm_words a ! j AND bm_data b ! j \<noteq> 0)"
    using ta(1) tb(1) by (simp add: Bitmap_cross_def bm_words_def [symmetric])
  have "(\<exists>j < bm_dataSize a. bm_words a ! j AND bm_data b ! j \<noteq> 0) \<longleftrightarrow> bm_set a \<inter> bm_set b \<noteq> {}"
  proof
    assume "\<exists>j < bm_dataSize a. bm_words a ! j AND bm_data b ! j \<noteq> 0"
    then obtain j k where j: "j < bm_dataSize a" "bit (bm_words a ! j AND bm_data b ! j) k"
      by (metis bit_word_eqI bit_0_eq bot_apply bot_bool_def)
    then have jk: "bit (bm_words a ! j) k" "bit (bm_words b ! j) k" using n by (auto simp: bit_and_iff bm_words_def)
    have k: "k < 14" "14 * j + k < bm_size a" using ta(3,5) j(1) jk(1) unfolding tidy_words_def by auto
    then have "(14 * j + k) div 14 = j" "(14 * j + k) mod 14 = k" by auto
    then have "14 * j + k \<in> bm_set a \<inter> bm_set b" using jk k sz by (simp add: bm_set_def bit_at_def)
    then show "bm_set a \<inter> bm_set b \<noteq> {}" by blast
  next
    assume "bm_set a \<inter> bm_set b \<noteq> {}"
    then obtain i where i: "i < bm_size a" "bit_at (bm_words a) i" "bit_at (bm_words b) i" by (auto simp: bm_set_def)
    have j: "i div 14 < bm_dataSize a" using word_index [OF i(1)] ta(2) by simp
    then have "bit (bm_words a ! (i div 14) AND bm_data b ! (i div 14)) (i mod 14)"
      using i(2,3) n by (simp add: bit_at_def bit_and_iff bm_words_def)
    then show "\<exists>j < bm_dataSize a. bm_words a ! j AND bm_data b ! j \<noteq> 0" using j by (intro exI [of _ "i div 14"]) auto
  qed
  then show ?thesis using run by simp
qed

section \<open>Properties of uncompressed bitmaps\<close>

lemma new_Bitmap_tidy:
  assumes "sz + 14 \<le> 2 ^ 32"
  shows "bm_tidy (new_Bitmap sz 0)" "bm_set (new_Bitmap sz 0) = {}" "bm_size (new_Bitmap sz 0) = sz"
proof -
  have w: "bm_words (new_Bitmap sz 0) = replicate (words_for sz) 0" by (simp add: bm_words_def new_Bitmap_def)
  show "bm_size (new_Bitmap sz 0) = sz" by (simp add: new_Bitmap_def)
  show "bm_tidy (new_Bitmap sz 0)" using assms w by (simp add: bm_tidy_def tidy_words_def new_Bitmap_def)
  have "\<not> bit_at (replicate (words_for sz) 0) i" if "i < sz" for i
    using word_index [OF that] by (simp add: bit_at_def)
  moreover have "bm_size (new_Bitmap sz 0) = sz" by (simp add: new_Bitmap_def)
  ultimately show "bm_set (new_Bitmap sz 0) = {}" unfolding bm_set_def w by auto
qed

text \<open>
  Setting and getting bits of an uncompressed bitmap without stray bits: \<^verbatim>\<open>set(idx, v)\<close> changes exactly the membership
  of \<^verbatim>\<open>idx\<close>, leaves no stray bits, and \<^verbatim>\<open>get\<close> tells membership.
\<close>

theorem bitmap_set_get:
  assumes "bm_tidy b" "idx < bm_size b" "i < bm_size b"
  shows "\<exists>b'. Bitmap_set idx v b = (Inr (), b') \<and> bm_tidy b' \<and>
    bm_set b' = (if v then insert idx (bm_set b) else bm_set b - {idx}) \<and>
    Bitmap_get i b' = Inr (if i = idx then v else i \<in> bm_set b)"
proof -
  obtain b' where b': "Bitmap_set idx v b = (Inr (), b')" "bm_tidy b'" "bm_size b' = bm_size b"
    "bm_set b' = (if v then insert idx (bm_set b) else bm_set b - {idx})"
    by (rule Bitmap_set_correct [OF assms(1,2)])
  then show ?thesis using Bitmap_get_correct [OF b'(2), of i] assms(3) by auto
qed

theorem bitmap_set_get_witness:
  "\<exists>b'. Bitmap_set 20 True (new_Bitmap 30 0) = (Inr (), b') \<and> Bitmap_get 20 b' = Inr True"
  using bitmap_set_get [of "new_Bitmap 30 0" 20 20 True] new_Bitmap_tidy [of 30] by auto





end
