(* ===== verification/Bitmap_Compress.thy ===== *)
theory Bitmap_Compress
  imports Bitmap
begin

text \<open>
  The compressed form of a bitmap as a sequence of tokens, literal words and runs: what \<^verbatim>\<open>compress\<close> writes, what the
  loops of \<^verbatim>\<open>uncompress\<close>, \<^verbatim>\<open>operator&=\<close>, \<^verbatim>\<open>operator|=\<close> and \<^verbatim>\<open>compressCross\<close> read, and that they agree.
\<close>

section \<open>Tokens\<close>

datatype token = Lit u16 | Run bool nat

definition filler :: "bool \<Rightarrow> u16" where
  "filler v = (if v then COUNT_MASK else 0)"

text \<open>The digits of a run of \<open>c\<close> bits.\<close>

definition digit :: "bool \<Rightarrow> nat \<Rightarrow> u16" where
  "digit v c = (if v then COMPRESS_MASK OR VALUE_MASK OR (of_nat c AND COUNT_MASK) else COMPRESS_MASK OR (of_nat c AND COUNT_MASK))"

function digits :: "bool \<Rightarrow> nat \<Rightarrow> u16 list" where
  "digits v c = (if c = 0 then [] else digit v c # digits v (c div 2 ^ 14))"
  by pat_completeness auto
termination
  by (relation "measure (\<lambda>(v, c). c)") auto

declare digits.simps [simp del]

primrec enc_token :: "token \<Rightarrow> u16 list" where
  "enc_token (Lit w) = [w]"
| "enc_token (Run v k) = digits v (14 * k)"

primrec dec_token :: "token \<Rightarrow> u16 list" where
  "dec_token (Lit w) = [w]"
| "dec_token (Run v k) = replicate k (filler v)"

abbreviation encs :: "token list \<Rightarrow> u16 list" where "encs ts \<equiv> concat (map enc_token ts)"
abbreviation decs :: "token list \<Rightarrow> u16 list" where "decs ts \<equiv> concat (map dec_token ts)"

text \<open>Literals have no flags, runs are not empty, and neighbouring runs are of different bits.\<close>

fun tokens_ok :: "token list \<Rightarrow> bool" where
  "tokens_ok [] = True"
| "tokens_ok (Lit w # ts) = ((\<forall>n. bit w n \<longrightarrow> n < 14) \<and> tokens_ok ts)"
| "tokens_ok (Run v k # ts) = (0 < k \<and> (case ts of Run v' _ # _ \<Rightarrow> v' \<noteq> v | _ \<Rightarrow> True) \<and> tokens_ok ts)"

section \<open>Digits\<close>

lemma bit_nat_word [simp]: "bit (of_nat c :: 'a::len word) n \<longleftrightarrow> n < LENGTH('a) \<and> bit c n"
  by transfer (simp add: bit_of_nat_iff)

lemma bit_digit: "bit (digit v c) n \<longleftrightarrow> n = 15 \<or> n = 14 \<and> v \<or> n < 14 \<and> bit c n"
  unfolding digit_def by (auto simp: bit_simps bit_COMPRESS_MASK bit_VALUE_MASK bit_COUNT_MASK)

lemma digit_tests: "digit v c AND COMPRESS_MASK \<noteq> 0" "digit v c AND VALUE_MASK \<noteq> 0 \<longleftrightarrow> v"
  unfolding test_COMPRESS test_VALUE bit_digit by auto

lemma bit_digit_value: "bit (ucast (digit v c AND COUNT_MASK) :: u32) n \<longleftrightarrow> n < 14 \<and> bit c n"
  by (auto simp: bit_simps bit_digit bit_COUNT_MASK)

lemma bit_div14: "bit (c div 16384) n = bit (c :: nat) (n + 14)"
proof -
  have "c div 16384 = drop_bit 14 c" by (simp add: drop_bit_eq_div)
  then show ?thesis by (simp add: bit_drop_bit_eq add.commute)
qed

text \<open>No word of the same kind follows: where \<^verbatim>\<open>run_more\<close> stops.\<close>

definition run_ends :: "bool \<Rightarrow> u16 list \<Rightarrow> bool" where
  "run_ends v ws = (case ws of [] \<Rightarrow> True | w # _ \<Rightarrow> \<not> (bit w 15 \<and> bit w 14 = v))"

lemma run_more_ends:
  assumes "run_ends v rest"
  shows "run_more v j acc rest = Inr (acc, rest)"
proof (cases rest)
  case (Cons w ws)
  have "\<not> (w AND COMPRESS_MASK \<noteq> 0 \<and> v = (w AND VALUE_MASK \<noteq> 0))"
    using assms unfolding test_COMPRESS test_VALUE by (auto simp: run_ends_def Cons)
  then show ?thesis unfolding Cons run_more.simps by (rule if_not_P)
qed simp

lemma run_more_digits:
  assumes "c * 2 ^ (14 * j) < 2 ^ 32" "run_ends v rest"
  shows "run_more v j acc (digits v c @ rest) = Inr (push_bit (14 * j) (of_nat c) OR acc, rest)"
  using assms(1)
proof (induction c arbitrary: j acc rule: less_induct)
  case (less c)
  show ?case
  proof (cases "c = 0")
    case True
    then show ?thesis using run_more_ends [OF assms(2)] by (simp add: digits.simps)
  next
    case False
    have "2 ^ (14 * j) \<le> c * 2 ^ (14 * j)" using False by simp
    then have "2 ^ (14 * j) < (2 :: nat) ^ 32" using less.prems by linarith
    then have j: "14 * j < 32" by (rule power_less_imp_less_exp [rotated]) simp
    have "c div 2 ^ 14 * 2 ^ (14 * Suc j) \<le> c * 2 ^ (14 * j)"
      by (simp add: power_add mult.assoc [symmetric])
    then have le: "c div 2 ^ 14 * 2 ^ (14 * Suc j) < 2 ^ 32" using less.prems by linarith
    have "push_bit (14 * Suc j) (of_nat (c div 2 ^ 14)) OR (push_bit (14 * j) (ucast (digit v c AND COUNT_MASK)) OR acc) =
        push_bit (14 * j) (of_nat c) OR (acc :: u32)"
    proof (rule bit_word_eqI)
      fix n assume n: "n < LENGTH(32)"
      show "bit (push_bit (14 * Suc j) (of_nat (c div 2 ^ 14)) OR (push_bit (14 * j) (ucast (digit v c AND COUNT_MASK)) OR acc)) n =
          bit (push_bit (14 * j) (of_nat c) OR acc) n"
      proof (cases "14 * Suc j \<le> n")
        case True
        then have "n - 14 * Suc j + 14 = n - 14 * j" "\<not> n - 14 * j < 14" "14 * j \<le> n" "n - 14 * Suc j < 32" "n - 14 * j < 32"
          using n by auto
        then show ?thesis using True n by (simp add: bit_push_bit_iff bit_or_iff bit_digit_value bit_div14)
      qed (use n in \<open>auto simp: bit_push_bit_iff bit_or_iff bit_digit_value\<close>)
    qed
    then show ?thesis
      using less.IH [OF _ le] False j digit_tests [of v c] by (subst digits.simps) simp
  qed
qed

lemma run_value:
  assumes "c < 2 ^ 32" "run_ends v rest" "0 < c"
  shows "run_more v 1 (ucast (digit v c AND COUNT_MASK)) (digits v (c div 2 ^ 14) @ rest) = Inr (of_nat c, rest)"
proof -
  have "c div 2 ^ 14 * 2 ^ (14 * 1) < 2 ^ 32" using assms(1) by (rule le_less_trans [rotated]) simp
  moreover have "push_bit (14 * 1) (of_nat (c div 2 ^ 14)) OR ucast (digit v c AND COUNT_MASK) = (of_nat c :: u32)"
    by (rule bit_word_eqI) (auto simp: bit_push_bit_iff bit_or_iff bit_digit_value bit_div14 not_le)
  ultimately show ?thesis using run_more_digits [OF _ assms(2), of "c div 2 ^ 14" 1] by simp
qed

section \<open>Writing tokens\<close>

lemma put_run_digits:
  "length out + length (digits v c) \<le> cap \<Longrightarrow> put_run cap v c out = Inr (out @ digits v c)"
proof (induction c arbitrary: out rule: less_induct)
  case (less c)
  show ?case
  proof (cases "c = 0")
    case False
    have d: "digits v c = digit v c # digits v (c div 2 ^ 14)" using False by (subst digits.simps) simp
    then have "put_word cap (digit v c) out = Inr (out @ [digit v c])" using less.prems by (simp add: put_word_def)
    moreover have "put_run cap v (c div 2 ^ 14) (out @ [digit v c]) = Inr ((out @ [digit v c]) @ digits v (c div 2 ^ 14))"
      using less.prems False d by (intro less.IH) auto
    ultimately show ?thesis using False d by (subst put_run.simps) (simp add: digit_def Let_def)
  qed (simp add: put_run.simps digits.simps)
qed

lemma length_digits: "c \<le> 14 * k \<Longrightarrow> 0 < k \<Longrightarrow> length (digits v c) \<le> k"
proof (induction k arbitrary: c)
  case (Suc k)
  show ?case
  proof (cases "c div 2 ^ 14 = 0")
    case True
    then show ?thesis by (simp add: digits.simps [of v c] digits.simps [of v 0])
  next
    case False
    then have "16384 \<le> c" by (simp add: div_eq_0_iff)
    then have "0 < k" "c div 16384 \<le> 14 * k" using Suc.prems by auto
    then have "length (digits v (c div 16384)) \<le> k" by (intro Suc.IH)
    then show ?thesis by (simp add: digits.simps [of v c])
  qed
qed simp

text \<open>The token for \<open>k\<close> full or empty words.\<close>

definition run_token :: "bool \<Rightarrow> nat \<Rightarrow> token list" where
  "run_token v k = (if 1 < k then [Run v k] else if k = 1 then [Lit (filler v)] else [])"

lemma decs_run_token [simp]: "decs (run_token v k) = replicate k (filler v)"
  by (auto simp: run_token_def)

lemma length_encs: "tokens_ok ts \<Longrightarrow> length (encs ts) \<le> length (decs ts)"
proof (induction ts rule: tokens_ok.induct)
  case (3 v k ts)
  then show ?case using length_digits [of "14 * k" k v] by simp
qed auto

lemma tokens_ok_run_token: "tokens_ok (run_token v k)"
  by (auto simp: run_token_def filler_def bit_COUNT_MASK)

lemma flush_run_token:
  assumes "length out + k \<le> cap"
  shows "flush_run cap v (14 * k) out = Inr (out @ encs (run_token v k))"
proof -
  have "length (encs (run_token v k)) \<le> k" using length_encs [OF tokens_ok_run_token, of v k] by simp
  then show ?thesis using assms
    by (auto simp: flush_run_def run_token_def filler_def put_word_def put_run_digits)
qed

text \<open>The first token, if it is a run, is not of bit \<open>v\<close>.\<close>

definition starts_other :: "bool \<Rightarrow> token list \<Rightarrow> bool" where
  "starts_other v ts = (case ts of Run v' _ # _ \<Rightarrow> v' \<noteq> v | _ \<Rightarrow> True)"

lemma tokens_ok_append_run:
  "tokens_ok ts \<Longrightarrow> 0 < k \<Longrightarrow> starts_other v ts \<Longrightarrow> tokens_ok (run_token v k @ ts)"
  by (auto simp: run_token_def starts_other_def filler_def bit_COUNT_MASK split: list.splits token.splits)

lemma count_bits_mask:
  assumes "\<And>n. bit w n \<Longrightarrow> n < 14"
  shows "w AND COUNT_MASK = w" "count_bits16 w = 0 \<longleftrightarrow> w = 0" "count_bits16 w = 14 \<longleftrightarrow> w = COUNT_MASK"
proof -
  show "w AND COUNT_MASK = w" by (rule word16_eqI) (use assms in \<open>auto simp: bit_and_iff bit_COUNT_MASK\<close>)
  have f: "filter (bit w) [0..<16] = filter (bit w) [0..<14]"
  proof -
    have "[0..<16] = [0..<14] @ [14..<16 :: nat]" by (rule upt_split) auto
    moreover have "filter (bit w) [14..<16] = []" using assms by (fastforce simp: filter_empty_conv)
    ultimately show ?thesis by (simp only: filter_append append_Nil2)
  qed
  show "count_bits16 w = 0 \<longleftrightarrow> w = 0"
  proof
    assume "count_bits16 w = 0"
    then have "\<not> bit w n" if "n < 16" for n using that by (auto simp: count_bits16_def filter_empty_conv)
    then show "w = 0" by (intro word16_eqI) auto
  qed (simp add: count_bits16_def)
  show "count_bits16 w = 14 \<longleftrightarrow> w = COUNT_MASK"
  proof
    assume "count_bits16 w = 14"
    then have "length (filter (bit w) [0..<14]) = length [0..<14 :: nat]" by (simp add: count_bits16_def f)
    then have "\<forall>n \<in> set [0..<14]. bit w n" by (metis length_filter_less nat_neq_iff)
    then show "w = COUNT_MASK" using assms by (intro word16_eqI) (auto simp: bit_COUNT_MASK)
  next
    assume "w = COUNT_MASK"
    then have "filter (bit w) [0..<14] = [0..<14]" by (intro filter_True) (auto simp: bit_COUNT_MASK)
    then show "count_bits16 w = 14" by (simp add: count_bits16_def f)
  qed
qed

lemma compress_loop_tokens:
  assumes "\<And>w n. w \<in> set ws \<Longrightarrow> bit w n \<Longrightarrow> n < 14" "length out + k + length ws \<le> cap"
  shows "\<exists>ts. compress_loop cap ws v (14 * k) out = Inr (out @ encs ts) \<and> tokens_ok ts \<and>
    decs ts = replicate k (filler v) @ ws \<and> (0 < k \<longrightarrow> starts_other (\<not> v) ts)"
  using assms
proof (induction ws arbitrary: v k out)
  case Nil
  have "flush_run cap v (14 * k) out = Inr (out @ encs (run_token v k))" using Nil.prems(2) by (intro flush_run_token) simp
  then have "compress_loop cap [] v (14 * k) out = Inr (out @ encs (run_token v k))" by (auto simp: run_token_def)
  moreover have "starts_other (\<not> v) (run_token v k)" by (simp add: run_token_def starts_other_def)
  ultimately show ?case using tokens_ok_run_token [of v k] decs_run_token [of v k] by (metis append_Nil2)
next
  case (Cons w ws)
  have w: "w AND COUNT_MASK = w" "count_bits16 w = 0 \<longleftrightarrow> w = 0" "count_bits16 w = 14 \<longleftrightarrow> w = COUNT_MASK"
    using count_bits_mask [of w] Cons.prems(1) [of w] by auto
  have ne: "COUNT_MASK \<noteq> 0" by (metis bit_0_eq bit_COUNT_MASK bot_apply bot_bool_def zero_less_numeral)
  have rest: "\<And>u n. u \<in> set ws \<Longrightarrow> bit u n \<Longrightarrow> n < 14" by (rule Cons.prems(1)) auto
  have IH: "\<exists>ts. compress_loop cap ws v' (14 * k') out' = Inr (out' @ encs ts) \<and> tokens_ok ts \<and>
      decs ts = replicate k' (filler v') @ ws \<and> (0 < k' \<longrightarrow> starts_other (\<not> v') ts)"
    if "length out' + k' + length ws \<le> cap" for out' k' v'
    using rest that by (rule Cons.IH)
  have fl: "flush_run cap v (14 * k) out = Inr (out @ encs (run_token v k))" using Cons.prems(2) by (intro flush_run_token) simp
  let ?out = "out @ encs (run_token v k)"
  have len: "length ?out \<le> length out + k" using length_encs [OF tokens_ok_run_token, of v k] by simp
  consider (same) "w = filler v" | (other) "w = filler (\<not> v)" | (lit) "w \<noteq> 0" "w \<noteq> COUNT_MASK"
    by (cases v) (auto simp: filler_def)
  then show ?case
  proof cases
    case same
    then have "compress_loop cap (w # ws) v (14 * k) out = compress_loop cap ws v (14 * Suc k) out"
      using w by (auto simp: Let_def filler_def add.commute)
    moreover obtain ts where "compress_loop cap ws v (14 * Suc k) out = Inr (out @ encs ts)" "tokens_ok ts"
        "decs ts = replicate (Suc k) (filler v) @ ws" "starts_other (\<not> v) ts"
      using IH [of out "Suc k" v] Cons.prems(2) by auto
    moreover have "replicate (Suc k) (filler v) @ ws = replicate k (filler v) @ w # ws"
      using same by (simp add: replicate_app_Cons_same)
    ultimately show ?thesis by (intro exI [of _ ts]) (simp del: compress_loop.simps)
  next
    case other
    then have "compress_loop cap (w # ws) v (14 * k) out = compress_loop cap ws (\<not> v) (14 * 1) ?out"
      using w ne fl by (auto simp: Let_def filler_def)
    moreover obtain ts where ts: "compress_loop cap ws (\<not> v) (14 * 1) ?out = Inr (?out @ encs ts)" "tokens_ok ts"
        "decs ts = replicate 1 (filler (\<not> v)) @ ws" "starts_other v ts"
      using IH [of ?out 1 "\<not> v"] Cons.prems(2) len by auto
    moreover have "tokens_ok (run_token v k @ ts)" using ts(2,4) tokens_ok_append_run [of ts k v] by (cases "k = 0") (auto simp: run_token_def)
    ultimately show ?thesis using other
      by (intro exI [of _ "run_token v k @ ts"]) (auto simp: run_token_def starts_other_def)
  next
    case lit
    have "length ?out < cap" using Cons.prems(2) len by simp
    then have "compress_loop cap (w # ws) v (14 * k) out = compress_loop cap ws v (14 * 0) (?out @ [w])"
      using w lit fl by (auto simp: Let_def put_word_def)
    moreover obtain ts where ts: "compress_loop cap ws v (14 * 0) (?out @ [w]) = Inr ((?out @ [w]) @ encs ts)" "tokens_ok ts" "decs ts = ws"
      using IH [of "?out @ [w]" 0 v] Cons.prems(2) len by auto
    moreover have l: "tokens_ok (Lit w # ts)" using ts(2) Cons.prems(1) [of w] by simp
    moreover have "tokens_ok (run_token v k @ Lit w # ts)"
      using l tokens_ok_append_run [of "Lit w # ts" k v] by (cases "k = 0") (auto simp: run_token_def starts_other_def)
    ultimately show ?thesis
      by (intro exI [of _ "run_token v k @ Lit w # ts"]) (auto simp: run_token_def starts_other_def)
  qed
qed

section \<open>Reading tokens\<close>

fun token_loop :: "(nat \<Rightarrow> nat \<Rightarrow> bool \<Rightarrow> 's \<Rightarrow> (failure + 'r) + 's) \<Rightarrow> (nat \<Rightarrow> u16 \<Rightarrow> 's \<Rightarrow> (failure + 'r) + 's) \<Rightarrow>
    token list \<Rightarrow> nat \<Rightarrow> 's \<Rightarrow> (failure + 'r) + 's" where
  "token_loop on_run on_word [] i s = Inr s"
| "token_loop on_run on_word (Lit w # ts) i s =
     (case on_word (14 * i) w s of Inl r \<Rightarrow> Inl r | Inr s \<Rightarrow> token_loop on_run on_word ts (Suc i) s)"
| "token_loop on_run on_word (Run v k # ts) i s =
     (case on_run (14 * i) (14 * k) v s of Inl r \<Rightarrow> Inl r | Inr s \<Rightarrow> token_loop on_run on_word ts (i + k) s)"

lemma run_ends_encs:
  assumes "tokens_ok (Run v k # ts)"
  shows "run_ends v (encs ts)"
proof (cases ts)
  case (Cons t rest)
  show ?thesis
  proof (cases t)
    case (Lit w)
    then have "\<not> bit w 15" using assms Cons by auto
    then show ?thesis using Cons Lit by (simp add: run_ends_def)
  next
    case (Run v' k')
    then have "0 < k'" "v' \<noteq> v" using assms Cons by auto
    moreover have "digits v' (14 * k') = digit v' (14 * k') # digits v' (14 * k' div 2 ^ 14)"
      using \<open>0 < k'\<close> by (subst digits.simps) simp
    ultimately show ?thesis using Cons Run by (auto simp: run_ends_def bit_digit)
  qed
qed (simp add: run_ends_def)

lemma runs_loop_tokens:
  assumes "tokens_ok ts" "14 * (i + length (decs ts)) < 2 ^ 32"
  shows "runs_loop on_run on_word (encs ts) (14 * i) s = token_loop on_run on_word ts i s"
  using assms
proof (induction on_run on_word ts i s rule: token_loop.induct)
  case (2 on_run on_word w ts i s)
  have w: "\<not> bit w 15" "w AND COUNT_MASK = w" using "2.prems"(1) count_bits_mask(1) [of w] by auto
  have "add32 (14 * i) 14 = 14 + 14 * i" using "2.prems"(2) by (subst add32_id) auto
  then show ?case using w "2.IH" "2.prems" test_COMPRESS [of w] by (auto simp: add.commute split: sum.splits)
next
  case (3 on_run on_word v k ts i s)
  let ?c = "14 * k"
  have k: "0 < ?c" "?c < 2 ^ 32" using "3.prems" by auto
  have d: "digits v ?c = digit v ?c # digits v (?c div 2 ^ 14)" using k by (subst digits.simps) simp
  have r: "run_more v 1 (ucast (digit v ?c AND COUNT_MASK)) (digits v (?c div 2 ^ 14) @ encs ts) = Inr (of_nat ?c, encs ts)"
    using k run_ends_encs [OF "3.prems"(1)] by (intro run_value) auto
  have u: "unat (of_nat ?c :: u32) = ?c" using k(2) by (simp only: unat_of_nat) simp
  have a: "add32 (14 * i) ?c = 14 * (i + k)" using "3.prems"(2) by (subst add32_id) (auto simp: algebra_simps)
  have "runs_loop on_run on_word (encs (Run v k # ts)) (14 * i) s =
      (case on_run (14 * i) ?c v s of Inl r \<Rightarrow> Inl r | Inr s \<Rightarrow> runs_loop on_run on_word (encs ts) (14 * (i + k)) s)"
    using digit_tests [of v ?c] r u a by (simp add: d split: sum.splits)
  then show ?case using "3.IH" "3.prems" by (auto simp: add.assoc split: sum.splits)
qed simp

lemma fill_words_eq: "i + n \<le> length ws \<Longrightarrow> fill_words i n w ws = Inr (take i ws @ replicate n w @ drop (i + n) ws)"
proof (induction n arbitrary: i ws)
  case (Suc n)
  have "fill_words i (Suc n) w ws = Inr (take (Suc i) (ws[i := w]) @ replicate n w @ drop (Suc i + n) (ws[i := w]))"
    using Suc.IH [of "Suc i" "ws[i := w]"] Suc.prems by simp
  then show ?case using Suc.prems by (simp add: take_Suc_conv_app_nth replicate_app_Cons_same)
qed simp

lemma range_words:
  assumes "14 * (i + k) < 2 ^ 32" "0 < k"
  shows "add32 (14 * i) (14 * k) div 14 = i + k" "add32 (14 * i) (14 * k) mod 14 = 0"
proof -
  have "add32 (14 * i) (14 * k) = 14 * (i + k)" using assms(1) by (subst add32_id) (auto simp: algebra_simps)
  then show "add32 (14 * i) (14 * k) div 14 = i + k" "add32 (14 * i) (14 * k) mod 14 = 0" by simp_all
qed

lemma set_words_eq:
  assumes "14 * (i + k) < 2 ^ 32" "0 < k" "i + k \<le> length ws"
  shows "set_words (14 * i) (14 * k) v ws = Inr (take i ws @ replicate k (filler v) @ drop (i + k) ws)"
  using range_words [OF assms(1,2)] assms(2,3) by (simp add: set_words_def Let_def fill_words_eq filler_def)

lemma any_word_eq:
  "i + n \<le> length ws \<Longrightarrow> any_word i n v ws = Inr (\<exists>j < n. (ws ! (i + j) AND COUNT_MASK \<noteq> 0) = v)"
proof (induction n arbitrary: i)
  case (Suc n)
  then show ?case using Suc.IH [of "Suc i"] by (simp add: Ex_less_Suc2)
qed simp

lemma get_words_eq:
  assumes "14 * (i + k) < 2 ^ 32" "0 < k" "i + k \<le> length ws"
  shows "get_words (14 * i) (14 * k) v ws = Inr (\<exists>j < k. (ws ! (i + j) AND COUNT_MASK \<noteq> 0) = v)"
  using range_words [OF assms(1,2)] assms(2,3) by (simp add: get_words_def Let_def any_word_eq)

text \<open>What \<^verbatim>\<open>uncompress\<close>, \<^verbatim>\<open>&=\<close> and \<^verbatim>\<open>|=\<close> do to the words of the uncompressed bitmap.\<close>

lemma uncompress_tokens:
  assumes "tokens_ok ts" "14 * (i + length (decs ts)) < 2 ^ 32" "i + length (decs ts) \<le> length ws"
  shows "token_loop (\<lambda>pos cnt v ws. fails (set_words pos cnt v ws)) (\<lambda>pos w ws. fails (update_word (pos div 14) (\<lambda>_. w) ws)) ts i ws =
    Inr (take i ws @ decs ts @ drop (i + length (decs ts)) ws)"
  using assms
proof (induction ts arbitrary: i ws rule: tokens_ok.induct)
  case (2 w ts)
  have "take (Suc i) (ws[i := w]) = take i ws @ [w]" using "2.prems"(3) by (simp add: take_Suc_conv_app_nth)
  then show ?case using "2.IH" [of "Suc i" "ws[i := w]"] "2.prems" by (simp add: update_word_def fails_def)
next
  case (3 v k ts)
  let ?ws = "take i ws @ replicate k (filler v) @ drop (i + k) ws"
  have s: "set_words (14 * i) (14 * k) v ws = Inr ?ws" using "3.prems" by (intro set_words_eq) auto
  have t: "take (i + k) ?ws = take i ws @ replicate k (filler v)" "drop (i + (k + length (decs ts))) ?ws = drop (i + (k + length (decs ts))) ws"
    "length ?ws = length ws" using "3.prems"(3) by (auto simp: ac_simps)
  have "14 * (i + k + length (decs ts)) < 2 ^ 32" "i + k + length (decs ts) \<le> length ?ws" using "3.prems" t(3) by auto
  then show ?case using "3.IH" [of "i + k" ?ws] "3.prems"(1) s t(1,2) by (simp add: fails_def add.assoc del: drop_append take_append)
qed simp

lemma bitop_tokens:
  assumes "tokens_ok ts" "14 * (i + length (decs ts)) < 2 ^ 32" "i + length (decs ts) \<le> length ws"
    "\<And>j. i \<le> j \<Longrightarrow> j < i + length (decs ts) \<Longrightarrow> ws ! j AND COUNT_MASK = ws ! j"
    and f: "\<And>x. x AND COUNT_MASK = x \<Longrightarrow> fw x (filler fill) = filler fill" "\<And>x. x AND COUNT_MASK = x \<Longrightarrow> fw x (filler (\<not> fill)) = x"
  shows "token_loop (\<lambda>pos cnt v ws. if v = fill then fails (set_words pos cnt v ws) else Inr ws)
      (\<lambda>pos w ws. fails (update_word (pos div 14) (\<lambda>x. fw x w) ws)) ts i ws =
    (Inr :: u16 list \<Rightarrow> (failure + 'r) + u16 list) (take i ws @ map2 fw (take (length (decs ts)) (drop i ws)) (decs ts) @ drop (i + length (decs ts)) ws)"
  using assms(1-4)
proof (induction ts arbitrary: i ws rule: tokens_ok.induct)
  case (2 w ts)
  have i: "i < length ws" using "2.prems"(3) by simp
  have t: "take (Suc i) (ws[i := fw (ws ! i) w]) = take i ws @ [fw (ws ! i) w]" "drop i ws = ws ! i # drop (Suc i) ws"
    using i by (simp_all add: take_Suc_conv_app_nth Cons_nth_drop_Suc)
  show ?case using "2.IH" [of "Suc i" "ws[i := fw (ws ! i) w]"] "2.prems" i t by (simp add: update_word_def fails_def)
next
  case (3 v k ts)
  let ?n = "length (decs ts)"
  let ?ws = "take i ws @ replicate k (filler v) @ drop (i + k) ws"
  have run: "(if v = fill then fails (set_words (14 * i) (14 * k) v ws) else Inr ws) =
      (Inr :: u16 list \<Rightarrow> (failure + 'r) + u16 list) (if v = fill then ?ws else ws)"
    using "3.prems" set_words_eq [of i k ws v] by (cases "v = fill") (auto simp: fails_def)
  have m: "map2 fw (take k (drop i ws)) (replicate k (filler v)) = (if v = fill then replicate k (filler v) else take k (drop i ws))"
  proof (rule nth_equalityI)
    fix j assume "j < length (map2 fw (take k (drop i ws)) (replicate k (filler v)))"
    then have j: "j < k" "i + j < length ws" by auto
    then have "ws ! (i + j) AND COUNT_MASK = ws ! (i + j)" using "3.prems"(4) [of "i + j"] by simp
    then show "map2 fw (take k (drop i ws)) (replicate k (filler v)) ! j = (if v = fill then replicate k (filler v) else take k (drop i ws)) ! j"
      using j f by (cases "v = fill") (auto simp: not_iff)
  qed (use "3.prems"(3) in auto)
  have split: "take (k + ?n) (drop i ws) = take k (drop i ws) @ take ?n (drop (i + k) ws)"
    by (simp add: take_add add.commute)
  have z: "map2 fw (take (k + ?n) (drop i ws)) (replicate k (filler v) @ decs ts) =
      map2 fw (take k (drop i ws)) (replicate k (filler v)) @ map2 fw (take ?n (drop (i + k) ws)) (decs ts)"
    unfolding split using "3.prems"(3) by (simp add: zip_append)
  have ih: "token_loop (\<lambda>pos cnt v ws. if v = fill then fails (set_words pos cnt v ws) else Inr ws)
      (\<lambda>pos w ws. fails (update_word (pos div 14) (\<lambda>x. fw x w) ws)) ts (i + k) us =
      (Inr :: u16 list \<Rightarrow> (failure + 'r) + u16 list) (take (i + k) us @ map2 fw (take ?n (drop (i + k) ws)) (decs ts) @ drop (i + k + ?n) ws)"
    if "length us = length ws" "drop (i + k) us = drop (i + k) ws" for us
  proof -
    have "us ! j = ws ! j" if "i + k \<le> j" for j
      using that \<open>drop (i + k) us = drop (i + k) ws\<close> \<open>length us = length ws\<close> "3.prems"(3) nth_drop [of "i + k" us "j - (i + k)"] nth_drop [of "i + k" ws "j - (i + k)"] by simp
    moreover have "drop (i + k + ?n) us = drop (i + k + ?n) ws" using that(2) by (metis add.commute drop_drop)
    ultimately show ?thesis using "3.IH" [of "i + k" us] "3.prems" that by (simp add: add.assoc)
  qed
  show ?case
  proof (cases "v = fill")
    case True
    then show ?thesis using ih [of ?ws] run z m "3.prems"(3) by (simp add: add.assoc)
  next
    case False
    have "take (i + k) ws = take i ws @ take k (drop i ws)" by (simp add: take_add)
    then show ?thesis using False ih [of ws] run z m by (simp add: add.assoc)
  qed
qed simp

section \<open>Compressed bitmaps\<close>

definition token_bitmap :: "nat \<Rightarrow> token list \<Rightarrow> bitmap" where
  "token_bitmap sz ts = \<lparr>bm_compress = True, bm_size = sz, bm_dataSize = length (encs ts), bm_data = encs ts, bm_null = False\<rparr>"

lemma Bitmap_compress_tokens:
  assumes "bm_tidy b"
  obtains ts where "Bitmap_compress b = Inr (token_bitmap (bm_size b) ts)" "tokens_ok ts" "decs ts = bm_words b"
proof -
  note t = bm_tidyD [OF assms]
  have "\<exists>ts. compress_loop (bm_dataSize b) (bm_words b) False (14 * 0) [] = Inr ([] @ encs ts) \<and> tokens_ok ts \<and>
      decs ts = replicate 0 (filler False) @ bm_words b \<and> (0 < (0 :: nat) \<longrightarrow> starts_other (\<not> False) ts)"
  proof (rule compress_loop_tokens)
    fix w n assume "w \<in> set (bm_words b)" "bit w n"
    then show "n < 14" using t(5) unfolding tidy_words_def by (metis in_set_conv_nth)
  qed (use t(3) in simp)
  then show thesis using that t(1) by (auto simp: Bitmap_compress_def token_bitmap_def bm_words_def)
qed

lemma tidy_tokens:
  assumes "bm_tidy b" "decs ts = bm_words b"
  shows "14 * (0 + length (decs ts)) < 2 ^ 32" "length (decs ts) = words_for (bm_size b)"
  using bm_tidyD(2-4) [OF assms(1)] words_for_bounds(2) [of "bm_size b"] assms(2) by auto

lemma Bitmap_uncompress_tokens:
  assumes "bm_tidy b" "tokens_ok ts" "decs ts = bm_words b"
  shows "Bitmap_uncompress (token_bitmap (bm_size b) ts) = Inr ((new_Bitmap (bm_size b) 0)\<lparr>bm_data := bm_words b\<rparr>)"
proof -
  note l = tidy_tokens [OF assms(1,3)]
  let ?ws = "replicate (words_for (bm_size b)) 0 :: u16 list"
  have "runs_loop (\<lambda>pos cnt v ws. fails (set_words pos cnt v ws)) (\<lambda>pos w ws. fails (update_word (pos div 14) (\<lambda>_. w) ws)) (encs ts) (14 * 0) ?ws =
      (Inr (take 0 ?ws @ decs ts @ drop (0 + length (decs ts)) ?ws) :: (failure + u16 list) + u16 list)"
    unfolding runs_loop_tokens [OF assms(2) l(1)] by (rule uncompress_tokens [OF assms(2) l(1)]) (simp add: l(2))
  then show ?thesis using l(2) assms(3)
    by (simp add: Bitmap_uncompress_def token_bitmap_def Let_def new_Bitmap_def)
qed



section \<open>Operations with a compressed bitmap\<close>

lemma tidy_data_mask:
  assumes "bm_tidy a" "j < bm_dataSize a"
  shows "bm_data a ! j AND COUNT_MASK = bm_data a ! j"
proof -
  have "bit (bm_words a ! j) k \<Longrightarrow> k < 14" for k using assms(2) bm_tidyD(3,5) [OF assms(1)] unfolding tidy_words_def by auto
  then show ?thesis using count_bits_mask(1) [of "bm_words a ! j"] assms(2) by (simp add: bm_words_def)
qed

lemma bitop_compressed:
  assumes a: "bm_tidy a" and b: "bm_tidy b" and sz: "bm_size a = bm_size b"
    and ts: "tokens_ok ts" "decs ts = bm_words b"
    and f: "\<And>a b c d a' b' c' d'. fq (join4 a b c d) (join4 a' b' c' d') = join4 (fw a a') (fw b b') (fw c c') (fw d d')"
    and g: "\<And>x. x AND COUNT_MASK = x \<Longrightarrow> fw x (filler fill) = filler fill" "\<And>x. x AND COUNT_MASK = x \<Longrightarrow> fw x (filler (\<not> fill)) = x"
  shows "Bitmap_bitop fq fw fill (token_bitmap (bm_size b) ts) a = Bitmap_bitop fq fw fill b a"
proof -
  note ta = bm_tidyD [OF a] and tb = bm_tidyD [OF b] and l = tidy_tokens [OF b ts(2)]
  let ?ws = "map2 fw (bm_words a) (bm_words b)"
  have n: "bm_dataSize a = bm_dataSize b" "length (decs ts) = bm_dataSize a" using ta(2) tb(2) sz l(2) by simp_all
  have m: "bm_data a ! j AND COUNT_MASK = bm_data a ! j" if "0 \<le> j" "j < 0 + length (decs ts)" for j
    using that n tidy_data_mask [OF a] by simp
  have "4 * (bm_size a div 56) \<le> length (bm_words a)" using ta(2,3) words_for_bounds(1) [of "bm_size a"] by auto
  then have "bitop_loop fq fw (bm_size a div 56) (bm_words a) (bm_data b) = Inr (map2 fw (bm_words a) (bm_data b))"
    using ta(3) tb(6) n by (intro bitop_loop_eq f) auto
  also have "map2 fw (bm_words a) (bm_data b) = ?ws"
    using ta(3) n by (auto simp: bm_words_def list_eq_iff_nth_eq)
  finally have plain: "Bitmap_bitop fq fw fill b a = (Inr (), a\<lparr>bm_data := ?ws @ drop (bm_dataSize a) (bm_data a)\<rparr>)"
    using ta(1) tb(1) sz by (simp add: Bitmap_bitop_def bm_words_def [symmetric])
  have "runs_loop (\<lambda>pos cnt v ws. if v = fill then fails (set_words pos cnt v ws) else Inr ws)
      (\<lambda>pos w ws. fails (update_word (pos div 14) (\<lambda>x. fw x w) ws)) (encs ts) (14 * 0) (bm_data a) =
      (Inr :: u16 list \<Rightarrow> (failure + u16 list) + u16 list)
        (take 0 (bm_data a) @ map2 fw (take (length (decs ts)) (drop 0 (bm_data a))) (decs ts) @ drop (0 + length (decs ts)) (bm_data a))"
    unfolding runs_loop_tokens [OF ts(1) l(1)] using ta(6) n by (intro bitop_tokens [OF ts(1) l(1) _ m g]) auto
  moreover have "take (bm_dataSize b) (bm_data a) = bm_words a" using n(1) by (simp add: bm_words_def)
  ultimately show ?thesis unfolding plain using ta(1) sz n ts(2)
    by (simp add: Bitmap_bitop_def token_bitmap_def)
qed

text \<open>The loop of \<^verbatim>\<open>compressCross\<close>: it leaves at the first word that meets.\<close>

lemma cross_tokens:
  assumes "tokens_ok ts" "14 * (i + length (decs ts)) < 2 ^ 32" "i + length (decs ts) \<le> length ws"
    "\<And>j. i \<le> j \<Longrightarrow> j < i + length (decs ts) \<Longrightarrow> ws ! j AND COUNT_MASK = ws ! j"
  shows "token_loop (\<lambda>pos cnt v _. if v then case get_words pos cnt True ws of Inl e \<Rightarrow> Inl (Inl e)
        | Inr True \<Rightarrow> Inl (Inr ()) | Inr False \<Rightarrow> Inr () else Inr ())
      (\<lambda>pos w _. let i = pos div 14 in if length ws \<le> i then Inl (Inl BadIndex)
        else if ws ! i AND w \<noteq> 0 then Inl (Inr ()) else Inr ()) ts i () =
    (if \<exists>j < length (decs ts). ws ! (i + j) AND decs ts ! j \<noteq> 0 then Inl (Inr ()) else Inr ())"
  using assms
proof (induction ts arbitrary: i rule: tokens_ok.induct)
  case (2 w ts)
  have "i < length ws" using "2.prems"(3) by simp
  then show ?case using "2.IH" [of "Suc i"] "2.prems" by (simp add: Ex_less_Suc2)
next
  case (3 v k ts)
  let ?n = "length (decs ts)"
  have gw: "get_words (14 * i) (14 * k) True ws = Inr (\<exists>j < k. ws ! (i + j) \<noteq> 0)"
    using get_words_eq [of i k ws True] "3.prems" by auto
  have ex: "(\<exists>j < k + ?n. ws ! (i + j) AND (replicate k (filler v) @ decs ts) ! j \<noteq> 0) \<longleftrightarrow>
      (\<exists>j < k. ws ! (i + j) AND filler v \<noteq> 0) \<or> (\<exists>j < ?n. ws ! (i + k + j) AND decs ts ! j \<noteq> 0)" (is "?L \<longleftrightarrow> ?A \<or> ?B")
  proof
    assume ?L
    then obtain j where j: "j < k + ?n" "ws ! (i + j) AND (replicate k (filler v) @ decs ts) ! j \<noteq> 0" by blast
    show "?A \<or> ?B"
    proof (cases "j < k")
      case False
      then have "j - k < ?n" "ws ! (i + k + (j - k)) AND decs ts ! (j - k) \<noteq> 0" using j by (auto simp: nth_append)
      then show ?thesis by blast
    qed (use j in \<open>auto simp: nth_append\<close>)
  next
    assume "?A \<or> ?B"
    then show ?L
    proof
      assume ?B
      then obtain j where "j < ?n" "ws ! (i + k + j) AND decs ts ! j \<noteq> 0" by blast
      then show ?L by (intro exI [of _ "k + j"]) (simp add: nth_append add.assoc)
    qed (auto simp: nth_append)
  qed
  have fil: "(\<exists>j < k. ws ! (i + j) AND filler v \<noteq> 0) \<longleftrightarrow> v \<and> (\<exists>j < k. ws ! (i + j) \<noteq> 0)"
    using "3.prems"(4) by (auto simp: filler_def)
  have ih: "tokens_ok ts" "14 * (i + k + ?n) < 2 ^ 32" "i + k + ?n \<le> length ws"
    "\<And>j. i + k \<le> j \<Longrightarrow> j < i + k + ?n \<Longrightarrow> ws ! j AND COUNT_MASK = ws ! j" using "3.prems" by auto
  show ?case unfolding dec_token.simps list.map concat.simps length_append length_replicate ex fil token_loop.simps
    using "3.IH" [OF ih] gw by (cases v) (auto split: sum.splits bool.splits)
qed simp

lemma cross_compressed:
  assumes a: "bm_tidy a" and b: "bm_tidy b" and sz: "bm_size a = bm_size b" and ts: "tokens_ok ts" "decs ts = bm_words b"
  shows "Bitmap_cross a (token_bitmap (bm_size b) ts) = Bitmap_cross a b"
proof -
  note ta = bm_tidyD [OF a] and tb = bm_tidyD [OF b] and l = tidy_tokens [OF b ts(2)]
  have n: "bm_dataSize a = bm_dataSize b" "length (decs ts) = bm_dataSize a" using ta(2) tb(2) sz l(2) by simp_all
  have m: "bm_data a ! j AND COUNT_MASK = bm_data a ! j" if "0 \<le> j" "j < 0 + length (decs ts)" for j
    using that n tidy_data_mask [OF a] by simp
  have "4 * (bm_size a div 56) \<le> length (bm_words a)" using ta(2,3) words_for_bounds(1) [of "bm_size a"] by auto
  then have "normalCross (bm_size a div 56) (bm_words a) (bm_data b) = Inr (\<exists>j < bm_dataSize a. bm_words a ! j AND bm_data b ! j \<noteq> 0)"
    using normalCross_eq [of "bm_size a div 56" "bm_words a" "bm_data b"] ta(3) tb(6) n by simp
  then have plain: "Bitmap_cross a b = Inr (\<exists>j < bm_dataSize a. bm_data a ! j AND bm_words b ! j \<noteq> 0)"
    using ta(1) tb(1) n by (auto simp: Bitmap_cross_def bm_words_def)
  have "i + length (decs ts) \<le> length (bm_data a)" if "i = 0" for i using that ta(6) n by simp
  note loop = cross_tokens [OF ts(1) l(1) this [OF refl] m, folded runs_loop_tokens [OF ts(1) l(1)], simplified]
  show ?thesis unfolding plain using ta(1) loop n ts(2)
    by (auto simp: Bitmap_cross_def compressCross_def token_bitmap_def split: if_splits)
qed



section \<open>Where the code departs from the set\<close>

definition one_bit :: "nat \<Rightarrow> nat \<Rightarrow> bitmap" where
  "one_bit sz i = snd (Bitmap_set i True (new_Bitmap sz 0))"

lemma any_ignores_last_word: "Bitmap_any (one_bit 14 3) = Inr False" "Bitmap_get 3 (one_bit 14 3) = Inr True"
  by code_simp+

lemma any_compressed_truncates:
  "map_sum id Bitmap_any (Bitmap_compress (new_Bitmap 100 0)) = Inr (Inr True)"
  "map_sum id Bitmap_any (Bitmap_compress (one_bit 20 10)) = Inr (Inr False)"
  by code_simp+

lemma resize_loses_bits: "Bitmap_get 3 (snd (Bitmap_resize 28 False (one_bit 14 3))) = Inr False"
  by code_simp

lemma resize_sets_old_bits: "Bitmap_get 3 (snd (Bitmap_resize 28 True (new_Bitmap 10 0))) = Inr True"
  by code_simp

lemma not_sets_flags: "Bitmap_getCount (snd (Bitmap_not (new_Bitmap 56 0))) = 64"
proof -
  let ?w = "NOT 0 :: u16"
  have new: "new_Bitmap 56 0 = \<lparr>bm_compress = False, bm_size = 56, bm_dataSize = 4, bm_data = [0, 0, 0, 0], bm_null = False\<rparr>"
    by code_simp
  have "not_loop (Suc 0) [0, 0, 0, 0] = Inr [?w, ?w, ?w, ?w]" by (simp only: not_loop.simps join4_not split4_join4) simp
  then have n: "snd (Bitmap_not (new_Bitmap 56 0)) = (new_Bitmap 56 0)\<lparr>bm_data := [?w, ?w, ?w, ?w]\<rparr>"
    by (simp add: Bitmap_not_def new)
  have "count_bits16 ?w = 16" by code_simp
  then show ?thesis unfolding n by (simp add: Bitmap_getCount_def new count_bits64_join4 del: bit.compl_zero)
qed

text \<open>The flag bits of the complement: the literal \<^verbatim>\<open>0xFFFE\<close> is read as a run of 16382 ones.\<close>

lemma not_compress_fails: "\<exists>b c. Bitmap_not (one_bit 28 0) = (Inr (), b) \<and> Bitmap_compress b = Inr c \<and> Bitmap_uncompress c = Inl AssertFail"
proof -
  let ?b = "\<lparr>bm_compress = False, bm_size = 28, bm_dataSize = 2, bm_data = [NOT 1, NOT 0], bm_null = False\<rparr>"
  let ?c = "\<lparr>bm_compress = True, bm_size = 28, bm_dataSize = 2, bm_data = [NOT 1, COUNT_MASK], bm_null = False\<rparr>"
  have "Bitmap_not (one_bit 28 0) = (Inr (), ?b)" "Bitmap_compress ?b = Inr ?c" by code_simp+
  moreover have "Bitmap_uncompress ?c = Inl AssertFail"
  proof -
    define w :: u16 where "w = NOT 1"
    have "ucast (w AND COUNT_MASK) = (16382 :: u32)" "w AND COMPRESS_MASK \<noteq> 0" "w AND VALUE_MASK \<noteq> 0"
      "COUNT_MASK AND COMPRESS_MASK = 0" unfolding w_def by code_simp+
    then show ?thesis unfolding w_def [symmetric]
      by (simp add: Bitmap_uncompress_def set_words_def fails_def Let_def add32_def)
  qed
  ultimately show ?thesis by blast
qed

text \<open>A run of ones that takes two digits: \<^verbatim>\<open>getCount\<close> adds the digits without their weights.\<close>

lemma getCount_adds_digits:
  assumes "bm_compress b" "bm_words b = digits True 16394"
  shows "Bitmap_getCount b = 11"
proof -
  have "digits True 16394 = [digit True 16394, digit True 1]" by (simp add: digits.simps)
  moreover have "digit True 16394 AND COUNT_MASK = 10" "digit True 1 AND COUNT_MASK = 1" by (simp_all add: digit_def) code_simp+
  ultimately show ?thesis using assms digit_tests [of True] by (simp add: Bitmap_getCount_def bm_words_def [symmetric] add32_def)
qed

end
