(* ===== verification/Bitmap_Iterator.thy ===== *)
theory Bitmap_Iterator
  imports Bitmap_Compress
begin

text \<open>
  The iterators of \<^verbatim>\<open>sylar/ds/bitmap.cc\<close> and the descending \<^verbatim>\<open>rforeach\<close>: where they stop, and that they find every
  position of an uncompressed bitmap; and the stored form of a bitmap in a \<^verbatim>\<open>ByteArray\<close>.
\<close>

section \<open>Forwards\<close>

text \<open>\<open>q\<close> is the first position from \<open>pos\<close> on with \<open>P\<close>, or not below \<open>sz\<close>.\<close>

definition first_from :: "(nat \<Rightarrow> bool) \<Rightarrow> nat \<Rightarrow> nat \<Rightarrow> nat \<Rightarrow> bool" where
  "first_from P sz pos q \<longleftrightarrow> pos \<le> q \<and> (q < sz \<longrightarrow> P q) \<and> (\<forall>x. pos \<le> x \<longrightarrow> x < q \<longrightarrow> x < sz \<longrightarrow> \<not> P x)"

lemma first_from_skip:
  "first_from P sz mid q \<Longrightarrow> pos \<le> mid \<Longrightarrow> (\<And>x. pos \<le> x \<Longrightarrow> x < mid \<Longrightarrow> x < sz \<Longrightarrow> \<not> P x) \<Longrightarrow> first_from P sz pos q"
  unfolding first_from_def by (metis le_trans not_le)

lemma iter_bits_first:
  assumes "iter_bits sz v n k pos = (f, q)" "\<And>j. j < k \<Longrightarrow> v AND POS (n + j) \<noteq> 0 \<longleftrightarrow> P (pos + j)" "pos \<le> sz"
  shows "if f then first_from P sz pos q else q = min sz (pos + k) \<and> (\<forall>x. pos \<le> x \<longrightarrow> x < q \<longrightarrow> \<not> P x)"
  using assms
proof (induction k arbitrary: n pos)
  case (Suc k)
  have z: "v AND POS n \<noteq> 0 \<longleftrightarrow> P pos" using Suc.prems(2) [of 0] by simp
  consider "sz \<le> pos" | "pos < sz" "P pos" | "pos < sz" "\<not> P pos" by linarith
  then show ?case
  proof cases
    case 3
    then have "iter_bits sz v (Suc n) k (Suc pos) = (f, q)" using Suc.prems(1) z by simp
    then have "if f then first_from P sz (Suc pos) q else q = min sz (Suc pos + k) \<and> (\<forall>x. Suc pos \<le> x \<longrightarrow> x < q \<longrightarrow> \<not> P x)"
    proof (rule Suc.IH)
      fix j assume "j < k"
      then show "v AND POS (Suc n + j) \<noteq> 0 \<longleftrightarrow> P (Suc pos + j)" using Suc.prems(2) [of "Suc j"] by simp
    qed (use 3(1) in simp)
    moreover have "\<not> P x" if "pos \<le> x" "x < Suc pos" for x using that 3(2) by (metis le_antisym less_Suc_eq_le)
    ultimately show ?thesis
    proof (cases f)
      case True
      then have "first_from P sz (Suc pos) q" using \<open>if f then _ else _\<close> by simp
      then have "first_from P sz pos q" by (rule first_from_skip) (use \<open>\<And>x. pos \<le> x \<Longrightarrow> x < Suc pos \<Longrightarrow> \<not> P x\<close> in auto)
      then show ?thesis using True by simp
    next
      case False
      then have "q = min sz (Suc pos + k)" "\<And>x. Suc pos \<le> x \<Longrightarrow> x < q \<Longrightarrow> \<not> P x" using \<open>if f then _ else _\<close> by auto
      then show ?thesis using False 3(2) by (simp add: Suc_le_eq) (metis le_neq_implies_less)
    qed
  qed (use Suc.prems z in \<open>auto simp: first_from_def\<close>)
qed auto

lemma iter_words_end: "iter_words sz ws sz = sz"
  by (cases ws) auto

lemma iter_words_first:
  assumes "\<And>j n. j < length ws \<Longrightarrow> n < 14 \<Longrightarrow> P (14 * (i + j) + n) \<longleftrightarrow> bit (ws ! j) n" "sz \<le> 14 * (i + length ws)"
  shows "first_from P sz (14 * i) (iter_words sz ws (14 * i))"
  using assms
proof (induction ws arbitrary: i)
  case (Cons v ws)
  have v: "P (14 * i + n) \<longleftrightarrow> bit v n" if "n < 14" for n using Cons.prems(1) [of 0 n] that by simp
  have IH: "first_from P sz (14 * Suc i) (iter_words sz ws (14 * Suc i))"
    using Cons.prems(1) [of "Suc _"] Cons.prems(2) by (intro Cons.IH) auto
  consider "sz \<le> 14 * i" | (zero) "14 * i < sz" "v = 0" | (word) "14 * i < sz" "v \<noteq> 0" by linarith
  then show ?case
  proof cases
    case zero
    have "\<not> P x" if "14 * i \<le> x" "x < 14 * Suc i" for x using v [of "x - 14 * i"] zero(2) that by simp
    then have "first_from P sz (14 * i) (iter_words sz ws (14 * Suc i))" by (intro first_from_skip [OF IH]) auto
    then show ?thesis using zero by (simp add: add.commute)
  next
    case word
    obtain f q where b: "iter_bits sz v 0 14 (14 * i) = (f, q)" by (cases "iter_bits sz v 0 14 (14 * i)")
    have f: "if f then first_from P sz (14 * i) q else q = min sz (14 * i + 14) \<and> (\<forall>x. 14 * i \<le> x \<longrightarrow> x < q \<longrightarrow> \<not> P x)"
      using v word(1) by (intro iter_bits_first [OF b]) (auto simp: test_POS)
    show ?thesis
    proof (cases f)
      case True
      then show ?thesis using word b f by simp
    next
      case False
      then have q: "q = min sz (14 * Suc i)" "\<And>x. 14 * i \<le> x \<Longrightarrow> x < q \<Longrightarrow> \<not> P x" using f by auto
      have r: "iter_words sz (v # ws) (14 * i) = iter_words sz ws q" using word b False by simp
      have "first_from P sz q (iter_words sz ws q)"
        using IH q(1) iter_words_end [of sz ws] by (cases "sz \<le> 14 * Suc i") (auto simp: first_from_def)
      then show ?thesis unfolding r using q word(1) by (auto intro: first_from_skip)
    qed
  qed (auto simp: first_from_def)
qed (simp add: first_from_def)

lemma bm_words_nth: "bm_tidy b \<Longrightarrow> j < bm_dataSize b \<Longrightarrow> bm_data b ! j = bm_words b ! j"
  by (simp add: bm_words_def)

lemma bit_at_word: "n < 14 \<Longrightarrow> bit_at ws (14 * j + n) \<longleftrightarrow> bit (ws ! j) n"
  by (simp add: bit_at_def)

lemma iter_words_drop:
  assumes "bm_tidy b" "14 * i < bm_size b + 14"
  shows "first_from (bit_at (bm_words b)) (bm_size b) (14 * i) (iter_words (bm_size b) (drop i (bm_words b)) (14 * i))"
proof (rule iter_words_first)
  have "i \<le> words_for (bm_size b)" using words_for_bounds(1) [of "bm_size b"] assms(2) by simp
  then show "bm_size b \<le> 14 * (i + length (drop i (bm_words b)))"
    using bm_tidyD(2,3) [OF assms(1)] words_for_bounds(1) [of "bm_size b"] by simp
qed (auto simp only: bit_at_word nth_drop length_drop)

lemma iterator_next_first:
  assumes "bm_tidy b" "- 1 \<le> p" "p < int (bm_size b)"
  shows "\<exists>q. iterator_next b p = Inr (int q) \<and> first_from (bit_at (bm_words b)) (bm_size b) (nat (p + 1)) q"
proof -
  note t = bm_tidyD [OF assms(1)]
  define pos where "pos = nat (p + 1)"
  let ?c = "pos div 14" and ?l = "pos mod 14" and ?sz = "bm_size b" and ?P = "bit_at (bm_words b)"
  have pos: "pos \<le> ?sz" "14 * ?c + ?l = pos" using assms(2,3) by (auto simp: pos_def)
  have up: "\<exists>q. Inr (int (iter_words ?sz (drop i (bm_words b)) (14 * i))) = (Inr (int q) :: failure + int) \<and> first_from ?P ?sz (14 * i) q"
    if "14 * i < ?sz + 14" for i using iter_words_drop [OF assms(1) that] by blast
  show ?thesis
  proof (cases "?l = 0")
    case True
    then show ?thesis using up [of ?c] pos by (auto simp: iterator_next_def pos_def [symmetric] bm_words_def Let_def)
  next
    case False
    have "14 * ?c < ?sz" using pos False by linarith
    then have c: "?c < bm_dataSize b" using word_index [of "14 * ?c" ?sz] t(2) by simp
    let ?w = "bm_data b ! ?c"
    obtain f q where b: "iter_bits ?sz ?w ?l (14 - ?l) pos = (f, q)" by (cases "iter_bits ?sz ?w ?l (14 - ?l) pos")
    have f: "if f then first_from ?P ?sz pos q else q = min ?sz (pos + (14 - ?l)) \<and> (\<forall>x. pos \<le> x \<longrightarrow> x < q \<longrightarrow> \<not> ?P x)"
    proof (rule iter_bits_first [OF b _ pos(1)])
      fix j assume j: "j < 14 - ?l"
      have "pos + j = 14 * ?c + (?l + j)" using pos(2) by simp
      then have "?P (pos + j) \<longleftrightarrow> bit (bm_words b ! ?c) (?l + j)" using j bit_at_word [of "?l + j"] by (metis less_diff_conv add.commute)
      then show "?w AND POS (?l + j) \<noteq> 0 \<longleftrightarrow> ?P (pos + j)" using j c bm_words_nth [OF assms(1)] by (simp add: test_POS)
    qed
    have run: "iterator_next b p = (if f then Inr (int q) else Inr (int (iter_words ?sz (drop (q div 14) (bm_words b)) q)))"
      using False b c t(6) by (simp add: iterator_next_def pos_def [symmetric] bm_words_def Let_def)
    show ?thesis
    proof (cases f)
      case False
      have "pos + (14 - ?l) = 14 * Suc ?c" by presburger
      then have q: "q = min ?sz (14 * Suc ?c)" "\<And>x. pos \<le> x \<Longrightarrow> x < q \<Longrightarrow> \<not> ?P x" using f False by auto
      have "first_from ?P ?sz q (iter_words ?sz (drop (q div 14) (bm_words b)) q)"
      proof (cases "?sz \<le> 14 * Suc ?c")
        case True
        then show ?thesis using q(1) iter_words_end by (simp add: first_from_def)
      next
        case False
        then show ?thesis using iter_words_drop [OF assms(1), of "Suc ?c"] q(1) by simp
      qed
      moreover have "pos \<le> q"
      proof -
        have "pos \<le> 14 * Suc ?c" by presburger
        then show ?thesis using q(1) pos(1) by simp
      qed
      ultimately have "first_from ?P ?sz pos (iter_words ?sz (drop (q div 14) (bm_words b)) q)"
        using q(2) by (rule first_from_skip)
      then show ?thesis using run False by (auto simp: pos_def)
    qed (use f run in \<open>auto simp: pos_def\<close>)
  qed
qed

section \<open>Backwards\<close>

text \<open>\<open>q\<close> is the last position up to \<open>pos\<close> with \<open>P\<close>, or negative.\<close>

definition last_to :: "(nat \<Rightarrow> bool) \<Rightarrow> int \<Rightarrow> int \<Rightarrow> bool" where
  "last_to P pos q \<longleftrightarrow> q \<le> pos \<and> (0 \<le> q \<longrightarrow> P (nat q)) \<and> (\<forall>x. q < int x \<longrightarrow> int x \<le> pos \<longrightarrow> \<not> P x)"

lemma last_to_skip:
  "last_to P mid q \<Longrightarrow> mid \<le> pos \<Longrightarrow> (\<And>x. mid < int x \<Longrightarrow> int x \<le> pos \<Longrightarrow> \<not> P x) \<Longrightarrow> last_to P pos q"
  unfolding last_to_def by (metis le_less_trans less_le_not_le linorder_not_less order.trans)

lemma riter_bits_last:
  assumes "riter_bits v k pos = (f, q)" "\<And>j. j < k \<Longrightarrow> v AND POS j \<noteq> 0 \<longleftrightarrow> P (14 * i + j)" "pos = int (14 * i + k) - 1"
  shows "if f then last_to P pos q else q = int (14 * i) - 1 \<and> (\<forall>x. 14 * i \<le> x \<longrightarrow> int x \<le> pos \<longrightarrow> \<not> P x)"
  using assms
proof (induction k arbitrary: pos)
  case (Suc k)
  have pos: "pos = int (14 * i + k)" "nat pos = 14 * i + k" "\<not> pos < 0" using Suc.prems(3) by auto
  show ?case
  proof (cases "P (14 * i + k)")
    case True
    then show ?thesis using Suc.prems(1) Suc.prems(2) [of k] pos by (auto simp: last_to_def)
  next
    case False
    then have "riter_bits v k (pos - 1) = (f, q)" using Suc.prems(1) Suc.prems(2) [of k] pos by simp
    then have IH: "if f then last_to P (pos - 1) q else q = int (14 * i) - 1 \<and> (\<forall>x. 14 * i \<le> x \<longrightarrow> int x \<le> pos - 1 \<longrightarrow> \<not> P x)"
      using Suc.prems(2) pos(1) by (intro Suc.IH) auto
    have top: "\<not> P x" if "pos - 1 < int x" "int x \<le> pos" for x
    proof -
      have "x = 14 * i + k" using that pos(1) by simp
      then show ?thesis using False by simp
    qed
    show ?thesis
    proof (cases f)
      case True
      then have "last_to P (pos - 1) q" using IH by simp
      then have "last_to P pos q" by (rule last_to_skip) (use top in auto)
      then show ?thesis using True by simp
    next
      case False
      then show ?thesis using IH top by (simp) (metis linorder_not_le zle_diff1_eq)
    qed
  qed
qed auto

lemma riter_words_last:
  assumes "\<And>j n. j < length ws \<Longrightarrow> n < 14 \<Longrightarrow> P (14 * j + n) \<longleftrightarrow> bit (ws ! j) n"
  shows "last_to P (int (14 * length ws) - 1) (riter_words (rev ws) (int (14 * length ws) - 1))"
  using assms
proof (induction ws rule: rev_induct)
  case (snoc v ws)
  let ?i = "length ws" and ?pos = "int (14 * length (ws @ [v])) - 1"
  have v: "P (14 * ?i + n) \<longleftrightarrow> bit v n" if "n < 14" for n using snoc.prems [of ?i n] that by simp
  have IH: "last_to P (int (14 * ?i) - 1) (riter_words (rev ws) (int (14 * ?i) - 1))"
    using snoc.prems by (intro snoc.IH) (metis length_append_singleton less_SucI nth_append)
  have skip: "last_to P ?pos (riter_words (rev ws) (int (14 * ?i) - 1))"
    if none: "\<And>x. 14 * ?i \<le> x \<Longrightarrow> int x \<le> ?pos \<Longrightarrow> \<not> P x"
    by (rule last_to_skip [OF IH]) (use none in auto)
  have pos: "\<not> ?pos < 0" "?pos - 14 = int (14 * ?i) - 1" by auto
  show ?case
  proof (cases "v = 0")
    case True
    have "\<not> P x" if "14 * ?i \<le> x" "int x \<le> ?pos" for x using v [of "x - 14 * ?i"] True that by simp
    from skip [OF this] show ?thesis using True pos by simp
  next
    case False
    obtain f q where b: "riter_bits v 14 ?pos = (f, q)" by (cases "riter_bits v 14 ?pos")
    have f: "if f then last_to P ?pos q else q = int (14 * ?i) - 1 \<and> (\<forall>x. 14 * ?i \<le> x \<longrightarrow> int x \<le> ?pos \<longrightarrow> \<not> P x)"
      using v by (intro riter_bits_last [OF b]) (auto simp: test_POS)
    have r: "riter_words (rev (ws @ [v])) ?pos = (if f then q else riter_words (rev ws) q)"
      using False pos(1) b by (simp add: algebra_simps)
    show ?thesis unfolding r using f skip by (cases f) auto
  qed
qed (simp add: last_to_def)

lemma riter_words_take:
  assumes "bm_tidy b" "i \<le> bm_dataSize b"
  shows "last_to (bit_at (bm_words b)) (int (14 * i) - 1) (riter_words (rev (take i (bm_data b))) (int (14 * i) - 1))"
proof -
  have l: "length (take i (bm_data b)) = i" using assms(2) bm_tidyD(6) [OF assms(1)] by simp
  have "bit_at (bm_words b) (14 * j + n) \<longleftrightarrow> bit (take i (bm_data b) ! j) n" if "j < length (take i (bm_data b))" "n < 14" for j n
    using that assms(2) by (simp only: bit_at_word) (simp add: bm_words_def)
  from riter_words_last [of "take i (bm_data b)", OF this] show ?thesis unfolding l .
qed

lemma iterator_reverse_next_last:
  assumes "bm_tidy b" "0 \<le> p" "p \<le> int (bm_size b)"
  shows "\<exists>q. iterator_reverse_next b p = Inr q \<and> last_to (bit_at (bm_words b)) (p - 1) q"
proof (cases "p \<le> 0")
  case True
  then show ?thesis using assms(2) by (auto simp: iterator_reverse_next_def last_to_def)
next
  case False
  note t = bm_tidyD [OF assms(1)]
  define m where "m = nat (p - 1)"
  let ?c = "m div 14" and ?l = "m mod 14" and ?P = "bit_at (bm_words b)"
  have m: "m < bm_size b" "p - 1 = int m" "m = 14 * ?c + ?l" using False assms(3) by (auto simp: m_def)
  have c: "?c < bm_dataSize b" using word_index [OF m(1)] t(2) by simp
  then have len: "\<not> length (bm_data b) \<le> ?c" using t(6) by simp
  show ?thesis
  proof (cases "?l = 13")
    case True
    have "iterator_reverse_next b p = Inr (riter_words (rev (take (Suc ?c) (bm_data b))) (p - 1))"
      using False True len by (simp add: iterator_reverse_next_def m_def [symmetric] Let_def)
    moreover have "14 * Suc ?c = Suc m" using True by presburger
    then have "p - 1 = int (14 * Suc ?c) - 1" using m(2) by simp
    moreover have "last_to ?P (int (14 * Suc ?c) - 1) (riter_words (rev (take (Suc ?c) (bm_data b))) (int (14 * Suc ?c) - 1))"
      using c by (intro riter_words_take [OF assms(1)]) simp
    ultimately show ?thesis by metis
  next
    case l: False
    let ?w = "bm_data b ! ?c"
    obtain f q where b: "riter_bits ?w (Suc ?l) (p - 1) = (f, q)" by (cases "riter_bits ?w (Suc ?l) (p - 1)")
    have f: "if f then last_to ?P (p - 1) q else q = int (14 * ?c) - 1 \<and> (\<forall>x. 14 * ?c \<le> x \<longrightarrow> int x \<le> p - 1 \<longrightarrow> \<not> ?P x)"
    proof (rule riter_bits_last [OF b])
      fix j assume "j < Suc ?l"
      moreover have "?l < 14" by simp
      ultimately have "j < 14" by linarith
      then show "?w AND POS j \<noteq> 0 \<longleftrightarrow> ?P (14 * ?c + j)" using c by (simp add: test_POS bit_at_word bm_words_def)
    qed (use m in linarith)
    have run: "iterator_reverse_next b p = (if f then Inr q else Inr (riter_words (rev (take ?c (bm_data b))) q))"
      using b l False len by (simp add: iterator_reverse_next_def m_def [symmetric] Let_def)
    show ?thesis
    proof (cases f)
      case False
      have "last_to ?P (p - 1) (riter_words (rev (take ?c (bm_data b))) (int (14 * ?c) - 1))"
      proof (rule last_to_skip)
        show "last_to ?P (int (14 * ?c) - 1) (riter_words (rev (take ?c (bm_data b))) (int (14 * ?c) - 1))"
          using c by (intro riter_words_take [OF assms(1)]) simp
        have "14 * ?c \<le> m" by presburger
        then show "int (14 * ?c) - 1 \<le> p - 1" using m(2) by linarith
        fix x assume "int (14 * ?c) - 1 < int x" "int x \<le> p - 1"
        then show "\<not> ?P x" using f False by (metis zle_diff1_eq not_le of_nat_less_iff)
      qed
      then show ?thesis using run f False by auto
    qed (use f run in auto)
  qed
qed

text \<open>
  The iterators: from a position (or before the first), \<^verbatim>\<open>iterator::next\<close> goes to the next set position, and is at its end,
  \<^verbatim>\<open>operator!\<close>, only if there is none; \<^verbatim>\<open>iterator_reverse::next\<close> likewise goes down. Neither reads out of the words.
\<close>

theorem bitmap_iterators:
  assumes "bm_tidy b" "- 1 \<le> p" "p < int (bm_size b)" "0 \<le> r" "r \<le> int (bm_size b)"
  shows "(\<exists>q. iterator_next b p = Inr q \<and>
      (if iter_valid b q then p < q \<and> nat q \<in> bm_set b \<and> (\<forall>x \<in> bm_set b. p < int x \<longrightarrow> q \<le> int x)
       else \<forall>x \<in> bm_set b. int x \<le> p)) \<and>
    (\<exists>q. iterator_reverse_next b r = Inr q \<and>
      (if iter_valid b q then q < r \<and> nat q \<in> bm_set b \<and> (\<forall>x \<in> bm_set b. int x < r \<longrightarrow> int x \<le> q)
       else \<forall>x \<in> bm_set b. r \<le> int x))"
proof
  obtain q where q: "iterator_next b p = Inr (int q)" "first_from (bit_at (bm_words b)) (bm_size b) (nat (p + 1)) q"
    using iterator_next_first [OF assms(1-3)] by blast
  have ge: "nat (p + 1) \<le> x \<longleftrightarrow> p < int x" for x using assms(2) by linarith
  show "\<exists>q. iterator_next b p = Inr q \<and>
      (if iter_valid b q then p < q \<and> nat q \<in> bm_set b \<and> (\<forall>x \<in> bm_set b. p < int x \<longrightarrow> q \<le> int x)
       else \<forall>x \<in> bm_set b. int x \<le> p)"
    using q unfolding first_from_def ge by (intro exI [of _ "int q"]) (auto simp: iter_valid_def bm_set_def not_less not_le)
next
  obtain q where q: "iterator_reverse_next b r = Inr q" "last_to (bit_at (bm_words b)) (r - 1) q"
    using iterator_reverse_next_last [OF assms(1,4,5)] by blast
  then show "\<exists>q. iterator_reverse_next b r = Inr q \<and>
      (if iter_valid b q then q < r \<and> nat q \<in> bm_set b \<and> (\<forall>x \<in> bm_set b. int x < r \<longrightarrow> int x \<le> q)
       else \<forall>x \<in> bm_set b. r \<le> int x)"
    using assms(4,5) by (intro exI [of _ q]) (auto simp: last_to_def iter_valid_def bm_set_def not_less)
qed

theorem bitmap_iterators_witness: "\<exists>b. bm_set b = {20} \<and> iterator_next b (- 1) = Inr 20 \<and> iterator_reverse_next b 30 = Inr 20"
proof -
  obtain b where b: "bm_tidy b" "bm_size b = 30" "bm_set b = {20}"
    by (rule Bitmap_set_correct [of "new_Bitmap 30 0" 20 True]) (use new_Bitmap_tidy [of 30] in auto)
  have "nat q = 20 \<Longrightarrow> q = 20" for q by simp
  then show ?thesis using bitmap_iterators [OF b(1), of "- 1" 30] b(2,3) by (intro exI [of _ b]) (auto split: if_splits)
qed

section \<open>Descending enumeration\<close>

lemma rscan_bits_visit:
  assumes "rscan_bits cb tmp k (int (14 * i + k) - 1) s = (c, q, s')" "14 * i + k \<le> 2 ^ 32" "k \<le> 16"
  shows "visit cb (rev (filter (\<lambda>p. bit tmp (p - 14 * i)) [14 * i..<14 * i + k])) s = (c, s') \<and> (c \<longrightarrow> q = int (14 * i) - 1)"
  using assms
proof (induction k arbitrary: s)
  case (Suc k)
  have e: "int (14 * i + Suc k) - 1 = int (14 * i + k)" "nat (int (14 * i + k) mod 2 ^ 32) = 14 * i + k"
    using Suc.prems(2) by (simp, subst mod_pos_pos_trivial) auto
  have t: "tmp AND POS k \<noteq> 0 \<longleftrightarrow> bit tmp k" using Suc.prems(3) by (intro test_POS) simp
  have IH: "rscan_bits cb tmp k (int (14 * i + k) - 1) s1 = (c, q, s') \<Longrightarrow>
      visit cb (rev (filter (\<lambda>p. bit tmp (p - 14 * i)) [14 * i..<14 * i + k])) s1 = (c, s') \<and> (c \<longrightarrow> q = int (14 * i) - 1)" for s1
    using Suc.prems(2,3) by (intro Suc.IH) auto
  show ?case using Suc.prems(1) IH unfolding rscan_bits.simps e t
    by (cases "cb (14 * i + k) s") (auto split: if_splits bool.splits)
qed simp

lemma rscan_word_visit:
  assumes "rscan_bits cb tmp 14 (int (14 * Suc i) - 1) s = (c, q, s')" "14 * Suc i \<le> sz" "sz \<le> 2 ^ 32"
  shows "visit cb (rev (positions sz i [tmp])) s = (c, s') \<and> (c \<longrightarrow> q = int (14 * i) - 1)"
  using rscan_bits_visit [of cb tmp 14 i s c q s'] assms by (simp add: positions_one min_def algebra_simps)

lemma rscan_words_visit:
  assumes "rscan_words cb skip (rev ws) (int (14 * (i + length ws)) - 1) s = (c, q, s')" "14 * (i + length ws) \<le> sz" "sz \<le> 2 ^ 32"
  shows "visit cb (rev (positions sz i ws)) s = (c, s') \<and> (c \<longrightarrow> q = int (14 * i) - 1)"
  using assms(1,2)
proof (induction ws arbitrary: s rule: rev_induct)
  case (snoc v ws)
  let ?n = "i + length ws"
  have split: "positions sz i (ws @ [v]) = positions sz i ws @ positions sz ?n [v]"
    using snoc.prems(2) by (intro positions_append) simp
  have e: "int (14 * (i + length (ws @ [v]))) - 1 = int (14 * Suc ?n) - 1" "int (14 * Suc ?n) - 1 - int VALUE_SIZE = int (14 * ?n) - 1" by auto
  have IH: "rscan_words cb skip (rev ws) (int (14 * ?n) - 1) s1 = (c, q, s') \<Longrightarrow>
      visit cb (rev (positions sz i ws)) s1 = (c, s') \<and> (c \<longrightarrow> q = int (14 * i) - 1)" for s1
    using snoc.prems(2) by (intro snoc.IH) auto
  show ?case
  proof (cases "skip \<and> v = 0")
    case True
    then show ?thesis using snoc.prems(1) IH [of s] split unfolding e(1) by (simp add: e(2))
  next
    case False
    obtain d p s1 where b: "rscan_bits cb v 14 (int (14 * Suc ?n) - 1) s = (d, p, s1)"
      by (cases "rscan_bits cb v 14 (int (14 * Suc ?n) - 1) s")
    have v: "visit cb (rev (positions sz ?n [v])) s = (d, s1)" "d \<longrightarrow> p = int (14 * ?n) - 1"
      using rscan_word_visit [OF b _ assms(3)] snoc.prems(2) by auto
    have "rscan_words cb skip (rev (ws @ [v])) (int (14 * Suc ?n) - 1) s =
        (if d then rscan_words cb skip (rev ws) p s1 else (False, p, s1))"
      unfolding rev_append rev.simps append.simps rscan_words.simps VALUE_SIZE b using False by (auto split: bool.splits)
    then show ?thesis using snoc.prems(1) v IH [of s1] unfolding split e(1) by (cases d) (auto simp: visit_append)
  qed
qed simp

lemma rforeach_loop_visit:
  assumes "length ws = 4 * m" "56 * m \<le> sz" "sz \<le> 2 ^ 32"
  shows "rforeach_loop cb (rev ws) (int (14 * length ws) - 1) s = snd (visit cb (rev (positions sz 0 ws)) s)"
  using assms(1,2)
proof (induction m arbitrary: ws s)
  case (Suc m)
  define us where "us = take (4 * m) ws"
  have l: "length (drop (4 * m) ws) = 4" using Suc.prems(1) by simp
  then obtain a b c d rest where r: "drop (4 * m) ws = [a, b, c, d] @ rest" using four_words [of "drop (4 * m) ws"] by auto
  then have "drop (4 * m) ws = [a, b, c, d]" using arg_cong [OF r, of length] l by simp
  then have ws: "ws = us @ [a, b, c, d]" unfolding us_def by (metis append_take_drop_id)
  have us: "length us = 4 * m" using Suc.prems(1) by (simp add: us_def)
  have split: "positions sz 0 ws = positions sz 0 us @ positions sz (0 + length us) [a, b, c, d]"
    unfolding ws using us Suc.prems(2) by (intro positions_append) simp
  have e: "int (14 * length ws) - 1 = int (14 * (length us + length [a, b, c, d])) - 1"
    "int (14 * length ws) - 1 - 56 = int (14 * length us) - 1" by (simp_all add: ws)
  have IH: "rforeach_loop cb (rev us) (int (14 * length us) - 1) s1 = snd (visit cb (rev (positions sz 0 us)) s1)" for s1
    using us Suc.prems(2) by (intro Suc.IH) auto
  obtain k p s1 where r: "rscan_words cb False (rev [a, b, c, d]) (int (14 * (length us + length [a, b, c, d])) - 1) s = (k, p, s1)"
    by (metis prod_cases3)
  have v: "visit cb (rev (positions sz (length us) [a, b, c, d])) s = (k, s1)" "k \<longrightarrow> p = int (14 * length us) - 1"
    using rscan_words_visit [OF r _ assms(3)] us Suc.prems(2) by auto
  show ?case
  proof (cases "join4 a b c d = 0")
    case True
    then have z: "a = 0" "b = 0" "c = 0" "d = 0" by (simp_all add: join4_0)
    let ?i = "length us"
    have "positions sz ?i [0, 0, 0, 0] = []"
      using positions_Cons [of ?i sz] positions_Cons [of "Suc ?i" sz] positions_Cons [of "Suc (Suc ?i)" sz] us Suc.prems(2) by simp
    then show ?thesis using True IH [of s] split e(2) by (simp add: ws z)
  next
    case False
    have "rforeach_loop cb (rev ws) (int (14 * length ws) - 1) s = (if k then rforeach_loop cb (rev us) p s1 else s1)"
      unfolding e(1) unfolding ws using False r by (simp del: rscan_words.simps split: bool.splits)
    then show ?thesis using v IH [of s1] split by (cases k) (auto simp: visit_append)
  qed
qed simp

lemma rscan_last_visit:
  assumes "rscan_last cb sz tmp (int sz - 1) s = (c, q, s')" "14 * i < sz" "sz \<le> 14 * Suc i" "sz < 2 ^ 32"
    "\<And>n. bit tmp n \<Longrightarrow> n < 14 \<and> 14 * i + n < sz"
  shows "visit cb (rev (positions sz i [tmp])) s = (c, s') \<and> (c \<longrightarrow> q = int (14 * i) - 1)"
proof (cases "sz mod 14 = 0")
  case True
  obtain k where "sz = 14 * k" using True by auto
  then have sz: "sz = 14 * Suc i" using assms(2,3) by simp
  show ?thesis
  proof (cases "tmp = 0")
    case True
    then show ?thesis using assms(1) sz by (auto simp: rscan_last_def)
  next
    case False
    then have "rscan_bits cb tmp 14 (int (14 * Suc i) - 1) s = (c, q, s')" using assms(1) sz by (simp add: rscan_last_def Let_def)
    from rscan_word_visit [OF this, of sz] show ?thesis using sz assms(4) by simp
  qed
next
  case False
  define left where "left = sz mod 14"
  have "sz \<noteq> 14 * Suc i" using False by (metis mod_mult_self1_is_0)
  then have "sz div 14 = i" using assms(2,3) by (intro div_nat_eqI) auto
  then have sz: "sz = 14 * i + left" unfolding left_def by (metis mult_div_mod_eq)
  have l: "left < 14" by (simp add: left_def)
  show ?thesis
  proof (cases "tmp = 0")
    case True
    then have "(True, int sz - 1 - int left, s) = (c, q, s')" using assms(1) False by (simp add: rscan_last_def left_def Let_def)
    then show ?thesis using True sz by auto
  next
    case nz: False
    have e: "int sz = int (14 * i + Suc left) - 1" using sz by simp
    have "rscan_bits cb tmp (Suc left) (int (14 * i + Suc left) - 1) s = (c, q, s')"
      using assms(1) nz False unfolding e [symmetric] by (simp add: rscan_last_def Let_def left_def [symmetric])
    from rscan_bits_visit [OF this] have
      v: "visit cb (rev (filter (\<lambda>p. bit tmp (p - 14 * i)) [14 * i..<14 * i + Suc left])) s = (c, s') \<and> (c \<longrightarrow> q = int (14 * i) - 1)"
      using sz l assms(4) by simp
    have "\<not> bit tmp left" using assms(5) [of left] sz by auto
    then have "filter (\<lambda>p. bit tmp (p - 14 * i)) [14 * i..<14 * i + Suc left] = positions sz i [tmp]"
      using sz l by (simp add: positions_one min_def)
    then show ?thesis using v by simp
  qed
qed

lemma Bitmap_rforeach_correct:
  assumes "bm_tidy b"
  shows "Bitmap_rforeach cb b s = Inr (snd (visit cb (rev (sorted_list_of_set (bm_set b))) s))"
proof -
  note t = bm_tidyD [OF assms] and w = words_for_bounds [of "bm_size b"]
  let ?sz = "bm_size b" and ?ws = "bm_words b"
  let ?full = "?sz div 56 * 4"
  have all: "sorted_list_of_set (bm_set b) = positions ?sz 0 ?ws" using bit_at_words [OF assms] filter_bm_set [of b] by simp
  have full: "?full \<le> length ?ws" "length (take ?full ?ws) = 4 * (?sz div 56)" "56 * (?sz div 56) \<le> ?sz" using t(2,3) w by auto
  have loop: "rforeach_loop cb (rev (take ?full ?ws)) (int (14 * ?full) - 1) s1 = snd (visit cb (rev (positions ?sz 0 (take ?full ?ws))) s1)" for s1
    using rforeach_loop_visit [OF full(2,3), of cb s1] t(4) full(1) by simp
  show ?thesis
  proof (cases "?sz mod 56 = 0")
    case True
    then have sz: "14 * ?full = ?sz" by presburger
    then have "length ?ws = ?full" using t(2,3) w by linarith
    note this sz
    then show ?thesis using loop [of s] True unfolding all by (simp add: Bitmap_rforeach_def Let_def bm_words_def [symmetric])
  next
    case False
    have "56 * (?sz div 56) < ?sz" using False mult_div_mod_eq [of 56 ?sz] by linarith
    then have "?full < length ?ws" using t(2,3) w(1) by linarith
    then obtain mid x where d: "drop ?full ?ws = mid @ [x]" by (metis drop_eq_Nil not_le rev_exhaust)
    have wsplit: "?ws = take ?full ?ws @ mid @ [x]" using d by (metis append_take_drop_id)
    let ?i = "?full + length mid"
    have len: "length ?ws = Suc ?i" using arg_cong [OF wsplit, of length] full(1) by simp
    have xs: "?ws ! ?i = x" using d len by (metis \<open>?full < length ?ws\<close> less_imp_le_nat nth_append_length nth_drop)
    have "words_for ?sz = Suc ?i" using len t(2,3) by simp
    then have i: "14 * ?i < ?sz" "?sz \<le> 14 * Suc ?i" using w by simp_all
    have tidy: "\<And>n. bit x n \<Longrightarrow> n < 14 \<and> 14 * ?i + n < ?sz" using t(5) len xs unfolding tidy_words_def by auto
    have p: "positions ?sz 0 ?ws = positions ?sz 0 (take ?full ?ws) @ positions ?sz ?full mid @ positions ?sz ?i [x]"
      using full(1) i(1) positions_append [of 0 "take ?full ?ws" ?sz "mid @ [x]"] positions_append [of ?full mid ?sz "[x]"] wsplit by simp
    obtain c1 q1 s1 where r1: "rscan_last cb ?sz x (int ?sz - 1) s = (c1, q1, s1)" by (metis prod_cases3)
    have v1: "visit cb (rev (positions ?sz ?i [x])) s = (c1, s1)" "c1 \<longrightarrow> q1 = int (14 * ?i) - 1"
      using rscan_last_visit [OF r1 i _ tidy] t(4) by auto
    obtain c2 q2 s2 where r2: "rscan_words cb True (rev mid) (int (14 * ?i) - 1) s1 = (c2, q2, s2)" by (metis prod_cases3)
    have v2: "visit cb (rev (positions ?sz ?full mid)) s1 = (c2, s2)" "c2 \<longrightarrow> q2 = int (14 * ?full) - 1"
      using rscan_words_visit [OF r2, of ?sz] i(1) t(4) by auto
    have run: "Bitmap_rforeach cb b s = Inr (if c1 then if c2 then rforeach_loop cb (rev (take ?full ?ws)) q2 s2 else s2 else s1)"
      using False d full(1) r1 r2 v1(2) by (simp add: Bitmap_rforeach_def Let_def bm_words_def [symmetric] split: bool.splits)
    show ?thesis unfolding run all p using v1 v2 loop [of s2] by (cases c1; cases c2) (auto simp: visit_append)
  qed
qed

section \<open>Stored bitmaps\<close>

lemma length_words_mem [simp]: "length (words_mem host ws) = 2 * length ws"
  by (induction ws) (simp_all add: words_mem_def)

lemma mem_words_mem [simp]: "mem_words host (words_mem host ws) = ws"
proof (induction ws)
  case (Cons w ws)
  have "length (mem host 2 w) = Suc (Suc 0)" by simp
  then obtain x y where xy: "mem host 2 w = [x, y]" by (auto simp only: length_Suc_conv length_0_conv)
  then have "of_mem host [x, y] = w" using of_mem_mem [of 2 host w] by simp
  then show ?case using Cons xy by (simp add: words_mem_def)
qed (simp add: words_mem_def)

definition stored_bitmap :: "byte_order \<Rightarrow> byte_order \<Rightarrow> bitmap \<Rightarrow> bytes" where
  "stored_bitmap m host b = [if bm_compress b then 1 else 0] @ mem m 4 (of_nat (bm_size b) :: u32) @
     mem m 4 (of_nat (bm_dataSize b) :: u32) @ words_mem host (bm_words b)"

definition loaded_bitmap :: "bitmap \<Rightarrow> bitmap" where
  "loaded_bitmap b = b\<lparr>bm_data := bm_words b, bm_null := False\<rparr>"

lemma writes_bitmap: "ba.writes m (Bitmap_writeTo host b) (stored_bitmap m host b)"
  unfolding Bitmap_writeTo_def stored_bitmap_def bm_words_def by (intro ba.writes_bind ba_writes ba.writes_put)

lemma reads_bitmap:
  assumes "bm_size b < 2 ^ 32" "bm_dataSize b < 2 ^ 32" "bm_dataSize b \<le> length (bm_data b)" "0 < bm_dataSize b"
  shows "ba.reads False m (Bitmap_readFrom host garbage b') (stored_bitmap m host b) (True, loaded_bitmap b)"
proof (rule ba.reads_refine)
  let ?ok = "\<lambda>c sz n bs. (True, \<lparr>bm_compress = c \<noteq> (0 :: u8), bm_size = unat (sz :: u32), bm_dataSize = unat (n :: u32), bm_data = mem_words host bs, bm_null = False\<rparr>)"
  let ?g = "bindE readFuint8 (\<lambda>c. bindE (readFuint32 host) (\<lambda>sz. bindE (readFuint32 host) (\<lambda>n. bindE (read_bytes (unat n * 2)) (\<lambda>bs. returnE (?ok c sz n bs)))))"
  let ?c = "if bm_compress b then 1 else 0 :: u8" and ?sz = "of_nat (bm_size b) :: u32" and ?n = "of_nat (bm_dataSize b) :: u32"
  have len: "length (bm_words b) = bm_dataSize b" using assms(3) by (simp add: bm_words_def)
  have u: "unat ?sz = bm_size b" "unat ?n = bm_dataSize b" using assms(1,2) by (simp_all only: unat_of_nat) simp_all
  have "ba.reads (words_mem host (bm_words b) = []) m (read_bytes (unat ?n * 2)) (words_mem host (bm_words b)) (words_mem host (bm_words b))"
    using ba.reads_get [of "words_mem host (bm_words b)" m] len u(2) by (simp add: mult.commute)
  moreover have "words_mem host (bm_words b) \<noteq> []" using len assms(4) length_words_mem [of host "bm_words b"] by (metis list.size(3) mult_is_0 not_gr0 zero_neq_numeral)
  ultimately have r: "ba.reads False m (read_bytes (unat ?n * 2)) (words_mem host (bm_words b)) (words_mem host (bm_words b))" by simp
  have "?ok ?c ?sz ?n (words_mem host (bm_words b)) = (True, loaded_bitmap b)"
    by (simp add: loaded_bitmap_def u)
  then have "ba.reads False m (bindE (read_bytes (unat ?n * 2)) (\<lambda>bs. returnE (?ok ?c ?sz ?n bs))) (words_mem host (bm_words b)) (True, loaded_bitmap b)"
    using ba.reads_map [OF r, of "?ok ?c ?sz ?n"] by simp
  then have "ba.reads (False \<or> False \<or> False \<or> False) m ?g
      ([?c] @ mem m 4 ?sz @ mem m 4 ?n @ words_mem host (bm_words b)) (True, loaded_bitmap b)"
    by - ((rule ba.reads_bind, rule reads_F8(2) reads_F32(2))+, assumption)
  then show "ba.reads False m ?g (stored_bitmap m host b) (True, loaded_bitmap b)" by (simp add: stored_bitmap_def)
  fix s x s'
  assume "?g s = (Inr x, s')"
  then show "Bitmap_readFrom host garbage b' s = (Inr x, s')"
    by (auto simp: Bitmap_readFrom_def bindE_def returnE_app Let_def split: prod.splits sum.splits)
qed

text \<open>
  (C36) Serialisation: a bitmap with at least one word, compressed or not, written by \<^verbatim>\<open>writeTo\<close> is what \<^verbatim>\<open>readFrom\<close> reads back, in
  any byte order and whatever the old bitmap and fresh memory hold.
\<close>

theorem bitmap_serialisation_roundtrip:
  assumes "wf_ba ba" "bm_size b < 2 ^ 32" "bm_dataSize b < 2 ^ 32" "bm_dataSize b \<le> length (bm_data b)" "0 < bm_dataSize b"
  shows "roundtrips (Bitmap_writeTo host b) (Bitmap_readFrom host garbage b')
    (True, b\<lparr>bm_data := take (bm_dataSize b) (bm_data b), bm_null := False\<rparr>) ba"
  using roundtrips_plain [OF writes_bitmap reads_bitmap [OF assms(2-)] assms(1)]
  by (simp add: loaded_bitmap_def bm_words_def)

theorem bitmap_serialisation_roundtrip_witness:
  "roundtrips (Bitmap_writeTo SYLAR_LITTLE_ENDIAN (new_Bitmap 30 0))
    (Bitmap_readFrom SYLAR_LITTLE_ENDIAN (\<lambda>_. 7) (new_Bitmap 0 0)) (True, new_Bitmap 30 0) (new_ByteArray 4)"
proof -
  have "new_Bitmap 30 0 = \<lparr>bm_compress = False, bm_size = 30, bm_dataSize = 3, bm_data = [0, 0, 0], bm_null = False\<rparr>" by code_simp
  then show ?thesis using bitmap_serialisation_roundtrip [OF wf_new_ByteArray [of 4], of "new_Bitmap 30 0"] by simp
qed

text \<open>
  Descending enumeration: \<^verbatim>\<open>rforeach\<close> calls its callback for the set positions in descending order until it says to stop.
\<close>

theorem bitmap_rforeach:
  assumes "bm_tidy b"
  shows "Bitmap_rforeach cb b s = Inr (snd (visit cb (rev (sorted_list_of_set (bm_set b))) s))"
  using assms by (rule Bitmap_rforeach_correct)

theorem bitmap_rforeach_witness: "Bitmap_rforeach (\<lambda>p s. (True, p # s)) (new_Bitmap 100 0) [] = Inr []"
  using bitmap_rforeach [of "new_Bitmap 100 0"] new_Bitmap_tidy [of 100] by simp

end
