(* ===== verification/NetStream.thy ===== *)
theory NetStream
  imports ByteArray_Codec
begin

text \<open>
  Byte streams over a socket: the transfer functions of \<^verbatim>\<open>sylar/socket.cc\<close>, \<^verbatim>\<open>sylar/streams/socket_stream.cc\<close> and the loops
  of \<^verbatim>\<open>sylar/stream.cc\<close> that transfer exactly so many bytes. The system calls on the descriptor are parameters: they act
  on a state \<open>'w\<close> of the network, and transfer as many of the bytes as they like, as POSIX allows.
\<close>

section \<open>Sockets\<close>

record 'w syscalls =
  sys_recv :: "nat \<Rightarrow> 'w \<Rightarrow> (int \<times> bytes) \<times> 'w"
  sys_recvmsg :: "nat list \<Rightarrow> 'w \<Rightarrow> (int \<times> bytes) \<times> 'w"
  sys_send :: "bytes \<Rightarrow> 'w \<Rightarrow> int \<times> 'w"
  sys_sendmsg :: "bytes list \<Rightarrow> 'w \<Rightarrow> int \<times> 'w"
  sys_close :: "'w \<Rightarrow> 'w"

text \<open>\<open>m_sock\<close> says whether \<^verbatim>\<open>m_sock\<close> is a descriptor (not -1).\<close>

record 'w sock =
  m_isConnected :: bool
  m_sock :: bool
  m_net :: 'w

definition int32 :: "int \<Rightarrow> int" where
  "int32 x = sint (of_int x :: 32 word)"

definition Socket_close :: "'w syscalls \<Rightarrow> 'w sock \<Rightarrow> bool \<times> 'w sock" where
  "Socket_close sys sk =
     (if \<not> m_isConnected sk \<and> \<not> m_sock sk then (True, sk)
      else let sk = sk\<lparr>m_isConnected := False\<rparr> in
        if m_sock sk then (False, sk\<lparr>m_net := sys_close sys (m_net sk), m_sock := False\<rparr>) else (False, sk))"

definition Socket_send :: "'w syscalls \<Rightarrow> bytes \<Rightarrow> 'w sock \<Rightarrow> int \<times> 'w sock" where
  "Socket_send sys bs sk =
     (if m_isConnected sk then let (n, w) = sys_send sys bs (m_net sk) in (int32 n, sk\<lparr>m_net := w\<rparr>) else (- 1, sk))"

definition Socket_sendv :: "'w syscalls \<Rightarrow> bytes list \<Rightarrow> 'w sock \<Rightarrow> int \<times> 'w sock" where
  "Socket_sendv sys iovs sk =
     (if m_isConnected sk then let (n, w) = sys_sendmsg sys iovs (m_net sk) in (int32 n, sk\<lparr>m_net := w\<rparr>) else (- 1, sk))"

definition Socket_recv :: "'w syscalls \<Rightarrow> nat \<Rightarrow> 'w sock \<Rightarrow> (int \<times> bytes) \<times> 'w sock" where
  "Socket_recv sys len sk =
     (if m_isConnected sk then let ((n, bs), w) = sys_recv sys len (m_net sk) in ((int32 n, bs), sk\<lparr>m_net := w\<rparr>) else ((- 1, []), sk))"

definition Socket_recvv :: "'w syscalls \<Rightarrow> nat list \<Rightarrow> 'w sock \<Rightarrow> (int \<times> bytes) \<times> 'w sock" where
  "Socket_recvv sys lens sk =
     (if m_isConnected sk then let ((n, bs), w) = sys_recvmsg sys lens (m_net sk) in ((int32 n, bs), sk\<lparr>m_net := w\<rparr>)
      else ((- 1, []), sk))"

section \<open>SocketStream\<close>

definition SocketStream_read :: "'w syscalls \<Rightarrow> nat \<Rightarrow> 'w sock \<Rightarrow> (int \<times> bytes) \<times> 'w sock" where
  "SocketStream_read sys len sk = (if \<not> m_isConnected sk then ((- 1, []), sk) else Socket_recv sys len sk)"

definition SocketStream_write :: "'w syscalls \<Rightarrow> bytes \<Rightarrow> 'w sock \<Rightarrow> int \<times> 'w sock" where
  "SocketStream_write sys bs sk = (if \<not> m_isConnected sk then (- 1, sk) else Socket_send sys bs sk)"

definition SocketStream_close :: "'w syscalls \<Rightarrow> 'w sock \<Rightarrow> 'w sock" where
  "SocketStream_close sys sk = snd (Socket_close sys sk)"

text \<open>The system call fills the segments in order.\<close>

fun scatter_iovs :: "bytes list \<Rightarrow> iovec list \<Rightarrow> bytes \<Rightarrow> bytes list" where
  "scatter_iovs ns [] bs = ns"
| "scatter_iovs ns (v # vs) bs =
     scatter_iovs (ns[iov_node v := store (iov_base v) (take (iov_len v) bs) (ns ! iov_node v)]) vs (drop (iov_len v) bs)"

text \<open>The overloads with a \<^verbatim>\<open>ByteArray\<close>. With no segments \<^verbatim>\<open>&iovs[0]\<close> is not defined.\<close>

definition SocketStream_read_ba :: "'w syscalls \<Rightarrow> nat \<Rightarrow> ('w sock \<times> bytearray, int) action" where
  "SocketStream_read_ba sys len s =
     (let (sk, ba) = s in
      if \<not> m_isConnected sk then (Inr (- 1), sk, ba)
      else case getWriteBuffers [] len ba of (Inl e, ba) \<Rightarrow> (Inl e, sk, ba)
        | (Inr (iovs, _), ba) \<Rightarrow>
            if iovs = [] then (Inl Undefined, sk, ba)
            else let ((rt, bs), sk) = Socket_recvv sys (map iov_len iovs) sk;
                     ba = ba\<lparr>m_nodes := scatter_iovs (m_nodes ba) iovs bs\<rparr> in
              if 0 < rt then case setPosition (getPosition ba + nat rt) ba of (Inl e, ba) \<Rightarrow> (Inl e, sk, ba) | (Inr _, ba) \<Rightarrow> (Inr rt, sk, ba)
              else (Inr rt, sk, ba))"

definition SocketStream_write_ba :: "'w syscalls \<Rightarrow> nat \<Rightarrow> ('w sock \<times> bytearray, int) action" where
  "SocketStream_write_ba sys len s =
     (let (sk, ba) = s in
      if \<not> m_isConnected sk then (Inr (- 1), sk, ba)
      else case getReadBuffers [] len ba of Inl e \<Rightarrow> (Inl e, sk, ba)
        | Inr (iovs, _) \<Rightarrow>
            if iovs = [] then (Inl Undefined, sk, ba)
            else let (rt, sk) = Socket_sendv sys (map (iov_bytes (m_nodes ba)) iovs) sk in
              if 0 < rt then case setPosition (getPosition ba + nat rt) ba of (Inl e, ba) \<Rightarrow> (Inl e, sk, ba) | (Inr _, ba) \<Rightarrow> (Inr rt, sk, ba)
              else (Inr rt, sk, ba))"

section \<open>Transfers of a fixed size\<close>

text \<open>The loops of \<^verbatim>\<open>Stream::readFixSize\<close> and \<^verbatim>\<open>writeFixSize\<close> on any stream, given its \<^verbatim>\<open>read\<close> or \<^verbatim>\<open>write\<close>.\<close>

function read_left :: "(nat \<Rightarrow> 's \<Rightarrow> (int \<times> bytes) \<times> 's) \<Rightarrow> int \<Rightarrow> bytes \<Rightarrow> 's \<Rightarrow> (int option \<times> bytes) \<times> 's" where
  "read_left rd left got s =
     (if 0 < left
      then let ((len, bs), s) = rd (nat left) s in
        if len \<le> 0 then ((Some len, got), s) else read_left rd (left - len) (got @ bs) s
      else ((None, got), s))"
  by pat_completeness auto
termination
  by (relation "measure (\<lambda>(rd, left, got, s). nat left)") auto

function write_left :: "(bytes \<Rightarrow> 's \<Rightarrow> int \<times> 's) \<Rightarrow> bytes \<Rightarrow> 's \<Rightarrow> int option \<times> 's" where
  "write_left wr bs s =
     (if bs \<noteq> []
      then let (len, s) = wr bs s in
        if len \<le> 0 then (Some len, s) else write_left wr (drop (nat len) bs) s
      else (None, s))"
  by pat_completeness auto
termination
  by (relation "measure (\<lambda>(wr, bs, s). length bs)") auto

function left_ba :: "(nat \<Rightarrow> ('s \<times> bytearray, int) action) \<Rightarrow> int \<Rightarrow> ('s \<times> bytearray, int option) action" where
  "left_ba op left s =
     (if 0 < left
      then case op (nat left) s of (Inl e, s) \<Rightarrow> (Inl e, s)
        | (Inr len, s) \<Rightarrow> if len \<le> 0 then (Inr (Some len), s) else left_ba op (left - len) s
      else (Inr None, s))"
  by pat_completeness auto
termination
  by (relation "measure (\<lambda>(op, left, s). nat left)") auto

declare read_left.simps [simp del] write_left.simps [simp del] left_ba.simps [simp del]

text \<open>\<^verbatim>\<open>int64_t left = length\<close>: a length of \<open>2 ^ 63\<close> or more becomes negative, and nothing is transferred.\<close>

definition int64 :: "nat \<Rightarrow> int" where
  "int64 n = sint (of_nat n :: 64 word)"

definition readFixSize :: "(nat \<Rightarrow> 's \<Rightarrow> (int \<times> bytes) \<times> 's) \<Rightarrow> nat \<Rightarrow> 's \<Rightarrow> (int \<times> bytes) \<times> 's" where
  "readFixSize rd len s = (let ((r, got), s) = read_left rd (int64 len) [] s in ((case r of None \<Rightarrow> int32 (int len) | Some e \<Rightarrow> int32 e, got), s))"

definition writeFixSize :: "(bytes \<Rightarrow> 's \<Rightarrow> int \<times> 's) \<Rightarrow> bytes \<Rightarrow> 's \<Rightarrow> int \<times> 's" where
  "writeFixSize wr bs s = (let (r, s) = write_left wr (if 0 < int64 (length bs) then bs else []) s in (case r of None \<Rightarrow> int32 (int (length bs)) | Some e \<Rightarrow> int32 e, s))"

definition readFixSize_ba :: "(nat \<Rightarrow> ('s \<times> bytearray, int) action) \<Rightarrow> nat \<Rightarrow> ('s \<times> bytearray, int) action" where
  "readFixSize_ba rd len = bindE (left_ba rd (int64 len)) (\<lambda>r. returnE (case r of None \<Rightarrow> int32 (int len) | Some e \<Rightarrow> int32 e))"

definition writeFixSize_ba :: "(nat \<Rightarrow> ('s \<times> bytearray, int) action) \<Rightarrow> nat \<Rightarrow> ('s \<times> bytearray, int) action" where
  "writeFixSize_ba wr len = bindE (left_ba wr (int64 len)) (\<lambda>r. returnE (case r of None \<Rightarrow> int32 (int len) | Some e \<Rightarrow> int32 e))"

section \<open>What is relied on\<close>

text \<open>
  Transfers on a connected descriptor, as POSIX documents them, seen through the bytes still to be received (\<open>inp\<close>) and the bytes
  sent (\<open>out\<close>): as long as there is something to transfer a call transfers some of it, at least one byte and not more
  than asked for nor than \<^verbatim>\<open>INT_MAX\<close>, in order; \<^verbatim>\<open>recvmsg\<close> and \<^verbatim>\<open>sendmsg\<close> do so with the concatenation of the segments.
\<close>

definition receives :: "('w \<Rightarrow> bytes) \<Rightarrow> ('w \<Rightarrow> bytes) \<Rightarrow> nat \<Rightarrow> 'w \<Rightarrow> (int \<times> bytes) \<times> 'w \<Rightarrow> bool" where
  "receives inp out n w r \<longleftrightarrow> (\<exists>k w'. r = ((int k, take k (inp w)), w') \<and> 0 < k \<and> k \<le> n \<and> k \<le> length (inp w) \<and> k < 2 ^ 31 \<and>
     inp w' = drop k (inp w) \<and> out w' = out w)"

definition sends :: "('w \<Rightarrow> bytes) \<Rightarrow> ('w \<Rightarrow> bytes) \<Rightarrow> bytes \<Rightarrow> 'w \<Rightarrow> int \<times> 'w \<Rightarrow> bool" where
  "sends inp out bs w r \<longleftrightarrow> (\<exists>k w'. r = (int k, w') \<and> 0 < k \<and> k \<le> length bs \<and> k < 2 ^ 31 \<and> out w' = out w @ take k bs \<and> inp w' = inp w)"

definition reliable :: "'w syscalls \<Rightarrow> ('w \<Rightarrow> bytes) \<Rightarrow> ('w \<Rightarrow> bytes) \<Rightarrow> bool" where
  "reliable sys inp out \<longleftrightarrow>
     (\<forall>n w. 0 < n \<longrightarrow> inp w \<noteq> [] \<longrightarrow> receives inp out n w (sys_recv sys n w)) \<and>
     (\<forall>ns w. 0 < sum_list ns \<longrightarrow> inp w \<noteq> [] \<longrightarrow> receives inp out (sum_list ns) w (sys_recvmsg sys ns w)) \<and>
     (\<forall>bs w. bs \<noteq> [] \<longrightarrow> sends inp out bs w (sys_send sys bs w)) \<and>
     (\<forall>bss w. concat bss \<noteq> [] \<longrightarrow> sends inp out (concat bss) w (sys_sendmsg sys bss w))"

lemma int32_id: "0 \<le> x \<Longrightarrow> x < 2 ^ 31 \<Longrightarrow> int32 x = x"
  unfolding int32_def by (simp add: signed_of_int signed_take_bit_int_eq_self)

lemma int64_id:
  assumes "n < 2 ^ 31"
  shows "int64 n = int n"
proof -
  have "int n < int (2 ^ 31)" using assms by (simp only: of_nat_less_iff)
  then show ?thesis unfolding int64_def by (simp add: signed_of_nat signed_take_bit_int_eq_self_iff)
qed

lemma int32_minus1 [simp]: "int32 (- 1) = - 1"
  by (simp add: int32_def)

lemma SocketStream_read_reliable:
  assumes "reliable sys inp out" "m_isConnected sk" "0 < n" "inp (m_net sk) \<noteq> []"
  obtains k w where "SocketStream_read sys n sk = ((int k, take k (inp (m_net sk))), sk\<lparr>m_net := w\<rparr>)" "0 < k" "k \<le> n" "k \<le> length (inp (m_net sk))"
    "inp w = drop k (inp (m_net sk))" "out w = out (m_net sk)"
proof -
  have "receives inp out n (m_net sk) (sys_recv sys n (m_net sk))" using assms by (simp add: reliable_def)
  then show thesis using that assms(2) by (force simp: receives_def SocketStream_read_def Socket_recv_def int32_id)
qed

lemma SocketStream_write_reliable:
  assumes "reliable sys inp out" "m_isConnected sk" "bs \<noteq> []"
  obtains k w where "SocketStream_write sys bs sk = (int k, sk\<lparr>m_net := w\<rparr>)" "0 < k" "k \<le> length bs"
    "out w = out (m_net sk) @ take k bs" "inp w = inp (m_net sk)"
proof -
  have "sends inp out bs (m_net sk) (sys_send sys bs (m_net sk))" using assms by (simp add: reliable_def)
  then show thesis using that assms(2) by (force simp: sends_def SocketStream_write_def Socket_send_def int32_id)
qed

lemma read_left_reliable:
  assumes "reliable sys inp out" "m_isConnected sk" "n \<le> length (inp (m_net sk))"
  shows "\<exists>w. read_left (SocketStream_read sys) (int n) got sk = ((None, got @ take n (inp (m_net sk))), sk\<lparr>m_net := w\<rparr>) \<and>
    inp w = drop n (inp (m_net sk)) \<and> out w = out (m_net sk)"
  using assms(2,3)
proof (induction n arbitrary: got sk rule: less_induct)
  case (less n)
  show ?case
  proof (cases "n = 0")
    case False
    then have "0 < n" "inp (m_net sk) \<noteq> []" using less.prems(2) by auto
    then obtain k w where k: "SocketStream_read sys n sk = ((int k, take k (inp (m_net sk))), sk\<lparr>m_net := w\<rparr>)" "0 < k" "k \<le> n"
      "inp w = drop k (inp (m_net sk))" "out w = out (m_net sk)"
      by (rule SocketStream_read_reliable [OF assms(1) less.prems(1)])
    have "\<exists>w'. read_left (SocketStream_read sys) (int (n - k)) (got @ take k (inp (m_net sk))) (sk\<lparr>m_net := w\<rparr>) =
        ((None, (got @ take k (inp (m_net sk))) @ take (n - k) (inp w)), sk\<lparr>m_net := w'\<rparr>) \<and>
        inp w' = drop (n - k) (inp w) \<and> out w' = out w"
      using less.IH [of "n - k" "sk\<lparr>m_net := w\<rparr>" "got @ take k (inp (m_net sk))"] k less.prems by simp
    moreover have "read_left (SocketStream_read sys) (int n) got sk =
        read_left (SocketStream_read sys) (int (n - k)) (got @ take k (inp (m_net sk))) (sk\<lparr>m_net := w\<rparr>)"
      using \<open>0 < n\<close> k(1-3) by (subst read_left.simps) (simp add: of_nat_diff)
    moreover have "take k (inp (m_net sk)) @ take (n - k) (inp w) = take n (inp (m_net sk))"
      using k(3,4) take_add [of k "n - k" "inp (m_net sk)"] by simp
    moreover have "drop (n - k) (inp w) = drop n (inp (m_net sk))" using k(3,4) by simp
    ultimately show ?thesis using k(5) by auto
  qed (auto simp: read_left.simps intro: exI [of _ "m_net sk"])
qed

lemma readFixSize_reliable:
  assumes "reliable sys inp out" "m_isConnected sk" "inp (m_net sk) = bs @ rest" "length bs < 2 ^ 31"
  obtains w where "readFixSize (SocketStream_read sys) (length bs) sk = ((int (length bs), bs), sk\<lparr>m_net := w\<rparr>)" "inp w = rest" "out w = out (m_net sk)"
  using read_left_reliable [OF assms(1,2), of "length bs" "[]"] assms(3,4) by (auto simp: readFixSize_def int32_id int64_id)

lemma write_left_reliable:
  assumes "reliable sys inp out" "m_isConnected sk"
  shows "\<exists>w. write_left (SocketStream_write sys) bs sk = (None, sk\<lparr>m_net := w\<rparr>) \<and> out w = out (m_net sk) @ bs \<and> inp w = inp (m_net sk)"
  using assms(2)
proof (induction bs arbitrary: sk rule: length_induct)
  case (1 bs)
  show ?case
  proof (cases "bs = []")
    case False
    then obtain k w where k: "SocketStream_write sys bs sk = (int k, sk\<lparr>m_net := w\<rparr>)" "0 < k" "k \<le> length bs"
      "out w = out (m_net sk) @ take k bs" "inp w = inp (m_net sk)"
      by (rule SocketStream_write_reliable [OF assms(1) "1.prems"])
    have "write_left (SocketStream_write sys) bs sk = write_left (SocketStream_write sys) (drop k bs) (sk\<lparr>m_net := w\<rparr>)"
      using False k(1,2) by (subst write_left.simps) simp
    moreover have "length (drop k bs) < length bs" using k(2) False by simp
    then obtain w' where "write_left (SocketStream_write sys) (drop k bs) (sk\<lparr>m_net := w\<rparr>) = (None, sk\<lparr>m_net := w'\<rparr>)"
        "out w' = out w @ drop k bs" "inp w' = inp w"
      using "1.IH" [rule_format, of "drop k bs" "sk\<lparr>m_net := w\<rparr>"] "1.prems" by auto
    ultimately show ?thesis using k(4,5) by auto
  qed (auto simp: write_left.simps intro: exI [of _ "m_net sk"])
qed

lemma writeFixSize_reliable:
  assumes "reliable sys inp out" "m_isConnected sk" "length bs < 2 ^ 31"
  obtains w where "writeFixSize (SocketStream_write sys) bs sk = (int (length bs), sk\<lparr>m_net := w\<rparr>)" "out w = out (m_net sk) @ bs" "inp w = inp (m_net sk)"
proof -
  have "(if 0 < int64 (length bs) then bs else []) = bs" using assms(3) by (simp add: int64_id)
  then show thesis using that write_left_reliable [OF assms(1,2), of bs] assms(3) by (auto simp: writeFixSize_def int32_id)
qed

section \<open>Transfers with a ByteArray\<close>

lemma scatter_iovs_Nil: "scatter_iovs ns vs [] = ns"
  by (induction vs arbitrary: ns) auto

lemma iov_loop_prefix: "iov_loop ns cur npos len bufs = Some r \<Longrightarrow> \<exists>vs. r = bufs @ vs"
proof (induction ns cur npos len bufs rule: iov_loop.induct)
  case (1 ns cur npos len bufs)
  show ?case
  proof (cases "len = 0 \<or> length ns \<le> cur \<or> len \<le> length (ns ! cur) - npos")
    case True
    then show ?thesis using "1.prems" by (subst (asm) iov_loop.simps) (auto simp: Let_def split: if_splits)
  next
    case False
    then have "iov_loop ns (Suc cur) 0 (len - (length (ns ! cur) - npos))
        (bufs @ [\<lparr>iov_node = cur, iov_base = npos, iov_len = length (ns ! cur) - npos\<rparr>]) = Some r"
      using "1.prems" by (subst (asm) iov_loop.simps) (simp add: Let_def)
    then show ?thesis using "1.IH" False by fastforce
  qed
qed

text \<open>Filling the segments that \<^verbatim>\<open>getWriteBuffers\<close> lends is what the copy loop of \<^verbatim>\<open>write\<close> does.\<close>

lemma scatter_iovs_write_loop:
  assumes "iov_loop ns cur npos len bufs = Some (bufs @ vs)" "map length ns' = map length ns" "length bs \<le> len" "bs \<noteq> []"
  shows "\<exists>c. write_loop ns' cur npos bs = Some (scatter_iovs ns' vs bs, c)"
  using assms
proof (induction ns cur npos len bufs arbitrary: ns' bs vs rule: iov_loop.induct)
  case (1 ns cur npos len bufs)
  have len: "length ns' = length ns" using "1.prems"(2) by (metis length_map)
  have pos: "len \<noteq> 0" "\<not> length ns \<le> cur" using "1.prems"(1,3,4) by (auto simp: iov_loop.simps split: if_splits)
  have node: "length (ns' ! cur) = length (ns ! cur)" using "1.prems"(2) pos(2) len by (metis not_le nth_map)
  let ?ncap = "length (ns ! cur) - npos"
  let ?v = "\<lambda>n. \<lparr>iov_node = cur, iov_base = npos, iov_len = n\<rparr>"
  show ?case
  proof (cases "len \<le> ?ncap")
    case True
    then have "vs = [?v len]" using "1.prems"(1) pos by (simp add: iov_loop.simps Let_def)
    then show ?thesis using True "1.prems"(3,4) pos len node by (subst write_loop.simps) (auto simp: Let_def)
  next
    case False
    have run: "iov_loop ns (Suc cur) 0 (len - ?ncap) (bufs @ [?v ?ncap]) = Some (bufs @ vs)"
      using "1.prems"(1) pos False by (subst (asm) iov_loop.simps) (simp add: Let_def)
    obtain vs' where vs': "vs = ?v ?ncap # vs'" using iov_loop_prefix [OF run] by auto
    let ?ns = "ns'[cur := store npos (take ?ncap bs) (ns' ! cur)]"
    show ?thesis
    proof (cases "length bs \<le> ?ncap")
      case True
      then show ?thesis using "1.prems"(4) pos len node by (subst write_loop.simps) (auto simp: Let_def vs' scatter_iovs_Nil)
    next
      case more: False
      have l: "length (store npos (take ?ncap bs) (ns' ! cur)) = length (ns ! cur)"
        using more node by (auto simp: store_def)
      have "map length ?ns = map length ns"
        using "1.prems"(2) l pos(2) len by (simp add: map_update list_update_same_conv)
      then have "\<exists>c. write_loop ?ns (Suc cur) 0 (drop ?ncap bs) = Some (scatter_iovs ?ns vs' (drop ?ncap bs), c)"
        using "1.IH" [OF pos refl False, of vs' ?ns "drop ?ncap bs"] run vs' "1.prems"(3) more by simp
      then show ?thesis using "1.prems"(4) pos len node more by (subst write_loop.simps) (simp add: Let_def vs')
    qed
  qed
qed

lemma iov_len_sum: "list_all (iov_ok ns) vs \<Longrightarrow> sum_list (map iov_len vs) = length (concat (map (iov_bytes ns) vs))"
  by (induction vs) (auto simp: iov_ok_def iov_bytes_def)

lemma getWriteBuffers_iovs:
  assumes "wf_ba ba" "0 < len"
  defines "ba' \<equiv> addCapacity len ba"
  obtains vs where "getWriteBuffers [] len ba = (Inr (vs, len), ba')" "sum_list (map iov_len vs) = len"
    "iov_loop (m_nodes ba') (m_cur ba') (m_position ba' mod m_baseSize ba') len [] = Some vs"
proof -
  note ac = addCapacity_correct [OF assms(1), of len, folded ba'_def]
  have wf: "wf_ba ba'" using ac by simp
  note d = wf_baD [OF wf]
  have "m_position ba' < m_capacity ba'" using ac assms(2) by simp
  then have cur: "m_cur ba' < length (m_nodes ba')" using d(1,4,7) by (simp add: less_mult_imp_div_less mult.commute)
  obtain vs where vs: "iov_loop (m_nodes ba') (m_cur ba') (m_position ba' mod m_baseSize ba') len [] = Some ([] @ vs)"
      "list_all (iov_ok (m_nodes ba')) vs"
      "concat (map (iov_bytes (m_nodes ba')) vs) = take len (drop (m_position ba') (concat (m_nodes ba')))"
    using iov_loop_correct [OF d(1,2), of "m_position ba' mod m_baseSize ba'" "m_cur ba'" len "[]"] d ac position_split [OF wf] by auto
  have "length (take len (drop (m_position ba') (concat (m_nodes ba')))) = len"
    using ac d(8) by (auto simp: min_def simp del: length_concat)
  then have "sum_list (map iov_len vs) = len" using iov_len_sum [OF vs(2)] vs(3) by simp
  then show thesis using that vs(1) cur assms(2) by (simp add: getWriteBuffers_def ba'_def)
qed

lemma setPosition_endian: "setPosition v ba = (r, ba') \<Longrightarrow> m_endian ba' = m_endian ba"
  by (auto simp: setPosition_def Let_def split: if_splits option.splits)

lemma SocketStream_read_ba_reliable:
  assumes rel: "reliable sys inp out" and con: "m_isConnected sk" and wf: "wf_ba ba" and n: "0 < n" "inp (m_net sk) \<noteq> []"
  obtains k w ba' where "SocketStream_read_ba sys n (sk, ba) = (Inr (int k), sk\<lparr>m_net := w\<rparr>, ba')" "0 < k" "k \<le> n" "k \<le> length (inp (m_net sk))"
    "inp w = drop k (inp (m_net sk))" "out w = out (m_net sk)" "wf_ba ba'" "m_endian ba' = m_endian ba"
    "contents ba' = store (m_position ba) (take k (inp (m_net sk))) (contents ba)" "m_position ba' = m_position ba + k"
proof -
  define ba1 where "ba1 = addCapacity n ba"
  note a = addCapacity_correct [OF wf, of n, folded ba1_def]
  have wf1: "wf_ba ba1" using a by simp
  note d = wf_baD [OF wf1]
  obtain vs where vs: "getWriteBuffers [] n ba = (Inr (vs, n), ba1)" "sum_list (map iov_len vs) = n"
    "iov_loop (m_nodes ba1) (m_cur ba1) (m_position ba1 mod m_baseSize ba1) n [] = Some vs"
    unfolding ba1_def by (rule getWriteBuffers_iovs [OF wf n(1)])
  have ne: "vs \<noteq> []" using vs(2) n(1) by auto
  have "receives inp out n (m_net sk) (sys_recvmsg sys (map iov_len vs) (m_net sk))" using rel n vs(2) by (auto simp: reliable_def)
  then obtain k w where k: "sys_recvmsg sys (map iov_len vs) (m_net sk) = ((int k, take k (inp (m_net sk))), w)" "0 < k" "k \<le> n"
    "k \<le> length (inp (m_net sk))" "k < 2 ^ 31" "inp w = drop k (inp (m_net sk))" "out w = out (m_net sk)" by (auto simp: receives_def)
  define bs where "bs = take k (inp (m_net sk))"
  have bs: "length bs = k" "bs \<noteq> []" using k(2,4) by (auto simp: bs_def)
  define ba2 where "ba2 = ba1\<lparr>m_nodes := scatter_iovs (m_nodes ba1) vs bs\<rparr>"
  have pos: "m_baseSize ba1 * m_cur ba1 + m_position ba1 mod m_baseSize ba1 = m_position ba1" by (rule position_split [OF wf1])
  obtain c where c: "write_loop (m_nodes ba1) (m_cur ba1) (m_position ba1 mod m_baseSize ba1) bs = Some (scatter_iovs (m_nodes ba1) vs bs, c)"
    using scatter_iovs_write_loop [of "m_nodes ba1" "m_cur ba1" "m_position ba1 mod m_baseSize ba1" n "[]" vs "m_nodes ba1" bs] vs(3) bs k(3) by auto
  have sc: "uniform (m_baseSize ba1) (m_nodes ba2)" "length (m_nodes ba2) = length (m_nodes ba1)"
    "concat (m_nodes ba2) = store (m_position ba1) bs (concat (m_nodes ba1))"
    using write_loop_correct [OF d(1,2), of "m_position ba1 mod m_baseSize ba1" "m_cur ba1" bs] pos a d c bs(1) k(3)
    by (auto simp: ba2_def)
  have wf2: "wf_ba ba2" using wf1 sc by (auto simp: wf_ba_def ba2_def)
  have fit: "m_position ba1 + k \<le> m_capacity ba2" using a k(3) by (simp add: ba2_def)
  obtain ba3 where ba3: "setPosition (m_position ba1 + k) ba2 = (Inr (), ba3)" "wf_ba ba3" "m_position ba3 = m_position ba1 + k"
    "m_size ba3 = max (m_size ba2) (m_position ba1 + k)" "m_nodes ba3 = m_nodes ba2"
    using setPosition_wf [OF wf2 fit] by blast
  have cont: "contents ba3 = store (m_position ba1) bs (contents ba1)"
  proof -
    have room: "m_position ba1 + length bs \<le> length (concat (m_nodes ba1))" "m_size ba1 \<le> length (concat (m_nodes ba1))"
      using a d(6,8) bs(1) k(3) by (simp_all del: length_concat)
    have "m_size ba3 = (if m_size ba1 < m_position ba1 + length bs then m_position ba1 + length bs else m_size ba1)"
      using ba3(4) bs(1) by (auto simp: ba2_def max_def)
    then show ?thesis using take_store_extend [OF d(5) room(2,1)] unfolding contents_def ba3(5) sc(3) by (simp del: length_concat)
  qed
  have "SocketStream_read_ba sys n (sk, ba) = (Inr (int k), sk\<lparr>m_net := w\<rparr>, ba3)"
    using con vs(1) ne k(1,2,5) ba3(1) by (simp add: SocketStream_read_ba_def Socket_recvv_def int32_id bs_def [symmetric] ba2_def [symmetric] getPosition_def)
  then show thesis using that k cont ba3(2,3) setPosition_endian [OF ba3(1)] a by (simp add: bs_def ba2_def)
qed

lemma SocketStream_write_ba_reliable:
  assumes rel: "reliable sys inp out" and con: "m_isConnected sk" and wf: "wf_ba ba" and n: "0 < n" "0 < getReadSize ba"
  obtains k w ba' where "SocketStream_write_ba sys n (sk, ba) = (Inr (int k), sk\<lparr>m_net := w\<rparr>, ba')" "0 < k" "k \<le> n" "k \<le> getReadSize ba"
    "out w = out (m_net sk) @ take k (drop (m_position ba) (contents ba))" "inp w = inp (m_net sk)"
    "wf_ba ba'" "contents ba' = contents ba" "m_position ba' = m_position ba + k"
proof -
  obtain vs where vs: "getReadBuffers [] n ba = Inr (vs, min n (getReadSize ba))"
    "concat (map (iov_bytes (m_nodes ba)) vs) = take n (drop (m_position ba) (contents ba))"
    using getReadBuffers_lends [OF wf, of "[]" n] by auto
  let ?bs = "take n (drop (m_position ba) (contents ba))"
  have len: "length ?bs = min n (getReadSize ba)" using length_contents [OF wf] by (simp add: getReadSize_def min.commute)
  then have ne: "?bs \<noteq> []" "vs \<noteq> []" using n vs(2) by auto
  have "sends inp out ?bs (m_net sk) (sys_sendmsg sys (map (iov_bytes (m_nodes ba)) vs) (m_net sk))"
    using rel ne(1) unfolding reliable_def vs(2) [symmetric] by blast
  then obtain k w where k: "sys_sendmsg sys (map (iov_bytes (m_nodes ba)) vs) (m_net sk) = (int k, w)" "0 < k" "k \<le> length ?bs" "k < 2 ^ 31"
    "out w = out (m_net sk) @ take k ?bs" "inp w = inp (m_net sk)" by (auto simp: sends_def)
  have kr: "k \<le> min n (getReadSize ba)" using k(3) unfolding len .
  then have fit: "m_position ba + k \<le> m_size ba" using wf_baD(5) [OF wf] by (auto simp: getReadSize_def)
  obtain ba' where ba': "setPosition (m_position ba + k) ba = (Inr (), ba')" "wf_ba ba'" "contents ba' = contents ba" "m_position ba' = m_position ba + k"
    using setPosition_refines [OF wf fit] by blast
  have "SocketStream_write_ba sys n (sk, ba) = (Inr (int k), sk\<lparr>m_net := w\<rparr>, ba')"
    using con vs(1) ne(2) k(1,2,4) ba'(1) by (simp add: SocketStream_write_ba_def Socket_sendv_def int32_id getPosition_def)
  moreover have "k \<le> n" using k(3) by simp
  then have "take k ?bs = take k (drop (m_position ba) (contents ba))" by (simp add: min_absorb1)
  ultimately show thesis using that [of k w ba'] k kr ba' by simp
qed

lemma left_ba_read:
  assumes "reliable sys inp out" "m_isConnected sk" "wf_ba ba" "n \<le> length (inp (m_net sk))"
  shows "\<exists>w ba'. left_ba (SocketStream_read_ba sys) (int n) (sk, ba) = (Inr None, sk\<lparr>m_net := w\<rparr>, ba') \<and>
    inp w = drop n (inp (m_net sk)) \<and> out w = out (m_net sk) \<and> wf_ba ba' \<and> m_endian ba' = m_endian ba \<and>
    contents ba' = store (m_position ba) (take n (inp (m_net sk))) (contents ba) \<and> m_position ba' = m_position ba + n"
  using assms(2-4)
proof (induction n arbitrary: sk ba rule: less_induct)
  case (less n)
  show ?case
  proof (cases "n = 0")
    case True
    then show ?thesis using less.prems by (intro exI [of _ "m_net sk"] exI [of _ ba]) (simp add: left_ba.simps)
  next
    case False
    then have n: "0 < n" "inp (m_net sk) \<noteq> []" using less.prems(3) by auto
    let ?i = "inp (m_net sk)"
    obtain k w ba1 where k: "SocketStream_read_ba sys n (sk, ba) = (Inr (int k), sk\<lparr>m_net := w\<rparr>, ba1)" "0 < k" "k \<le> n" "k \<le> length ?i"
      "inp w = drop k ?i" "out w = out (m_net sk)" "wf_ba ba1" "m_endian ba1 = m_endian ba"
      "contents ba1 = store (m_position ba) (take k ?i) (contents ba)" "m_position ba1 = m_position ba + k"
      by (rule SocketStream_read_ba_reliable [OF assms(1) less.prems(1,2) n])
    obtain w' ba' where r: "left_ba (SocketStream_read_ba sys) (int (n - k)) (sk\<lparr>m_net := w\<rparr>, ba1) = (Inr None, sk\<lparr>m_net := w'\<rparr>, ba')"
      "inp w' = drop (n - k) (inp w)" "out w' = out w" "wf_ba ba'" "m_endian ba' = m_endian ba1"
      "contents ba' = store (m_position ba1) (take (n - k) (inp w)) (contents ba1)" "m_position ba' = m_position ba1 + (n - k)"
      using less.IH [of "n - k" "sk\<lparr>m_net := w\<rparr>" ba1] k less.prems diff_le_mono [OF less.prems(3), of k] by auto
    have "left_ba (SocketStream_read_ba sys) (int n) (sk, ba) = left_ba (SocketStream_read_ba sys) (int (n - k)) (sk\<lparr>m_net := w\<rparr>, ba1)"
      using n(1) k(1-3) by (subst left_ba.simps) (simp add: of_nat_diff)
    moreover have "take k ?i @ take (n - k) (inp w) = take n ?i" using k(3,5) take_add [of k "n - k" ?i] by simp
    then have "contents ba' = store (m_position ba) (take n ?i) (contents ba)"
      using ba.store_store_append [of "m_position ba" "contents ba" "take k ?i" "take (n - k) (inp w)"]
        wf_baD(5) [OF less.prems(2)] length_contents [OF less.prems(2)] r(6) k(4,9,10) by (simp add: min_absorb2)
    ultimately show ?thesis using r k by auto
  qed
qed

lemma left_ba_write:
  assumes "reliable sys inp out" "m_isConnected sk" "wf_ba ba" "n \<le> getReadSize ba"
  shows "\<exists>w ba'. left_ba (SocketStream_write_ba sys) (int n) (sk, ba) = (Inr None, sk\<lparr>m_net := w\<rparr>, ba') \<and>
    out w = out (m_net sk) @ take n (drop (m_position ba) (contents ba)) \<and> inp w = inp (m_net sk) \<and>
    wf_ba ba' \<and> contents ba' = contents ba \<and> m_position ba' = m_position ba + n"
  using assms(2-4)
proof (induction n arbitrary: sk ba rule: less_induct)
  case (less n)
  show ?case
  proof (cases "n = 0")
    case True
    then show ?thesis using less.prems by (intro exI [of _ "m_net sk"] exI [of _ ba]) (simp add: left_ba.simps)
  next
    case False
    then have n: "0 < n" "0 < getReadSize ba" using less.prems(3) by auto
    let ?r = "drop (m_position ba) (contents ba)"
    obtain k w ba1 where k: "SocketStream_write_ba sys n (sk, ba) = (Inr (int k), sk\<lparr>m_net := w\<rparr>, ba1)" "0 < k" "k \<le> n" "k \<le> getReadSize ba"
      "out w = out (m_net sk) @ take k ?r" "inp w = inp (m_net sk)" "wf_ba ba1" "contents ba1 = contents ba" "m_position ba1 = m_position ba + k"
      by (rule SocketStream_write_ba_reliable [OF assms(1) less.prems(1,2) n])
    have sz: "m_size ba1 = m_size ba" using length_contents [OF k(7)] length_contents [OF less.prems(2)] k(8) by simp
    then have "n - k \<le> getReadSize ba1" using k(9) less.prems(3) by (simp add: getReadSize_def)
    then obtain w' ba' where r: "left_ba (SocketStream_write_ba sys) (int (n - k)) (sk\<lparr>m_net := w\<rparr>, ba1) = (Inr None, sk\<lparr>m_net := w'\<rparr>, ba')"
      "out w' = out w @ take (n - k) (drop (m_position ba1) (contents ba1))" "inp w' = inp w" "wf_ba ba'"
      "contents ba' = contents ba1" "m_position ba' = m_position ba1 + (n - k)"
      using less.IH [of "n - k" "sk\<lparr>m_net := w\<rparr>" ba1] k less.prems by auto
    have "left_ba (SocketStream_write_ba sys) (int n) (sk, ba) = left_ba (SocketStream_write_ba sys) (int (n - k)) (sk\<lparr>m_net := w\<rparr>, ba1)"
      using n(1) k(1-3) by (subst left_ba.simps) (simp add: of_nat_diff)
    moreover have "take k ?r @ take (n - k) (drop (m_position ba1) (contents ba1)) = take n ?r"
      using k(3,8,9) take_add [of k "n - k" ?r] by (simp add: add.commute)
    ultimately show ?thesis using r k by auto
  qed
qed

lemma readFixSize_ba_reliable:
  assumes "reliable sys inp out" "m_isConnected sk" "wf_ba ba" "inp (m_net sk) = bs @ rest" "length bs < 2 ^ 31"
  obtains w ba' where "readFixSize_ba (SocketStream_read_ba sys) (length bs) (sk, ba) = (Inr (int (length bs)), sk\<lparr>m_net := w\<rparr>, ba')"
    "inp w = rest" "out w = out (m_net sk)" "wf_ba ba'" "m_endian ba' = m_endian ba"
    "contents ba' = store (m_position ba) bs (contents ba)" "m_position ba' = m_position ba + length bs"
  using left_ba_read [OF assms(1-3), of "length bs"] assms(4,5) by (auto simp: readFixSize_ba_def bindE_def returnE_def int32_id int64_id)

lemma writeFixSize_ba_reliable:
  assumes "reliable sys inp out" "m_isConnected sk" "wf_ba ba" "getReadSize ba < 2 ^ 31"
  obtains w ba' where "writeFixSize_ba (SocketStream_write_ba sys) (getReadSize ba) (sk, ba) = (Inr (int (getReadSize ba)), sk\<lparr>m_net := w\<rparr>, ba')"
    "out w = out (m_net sk) @ drop (m_position ba) (contents ba)" "inp w = inp (m_net sk)" "wf_ba ba'" "contents ba' = contents ba"
proof -
  have "take (getReadSize ba) (drop (m_position ba) (contents ba)) = drop (m_position ba) (contents ba)"
    using length_contents [OF assms(3)] by (simp add: getReadSize_def)
  then show thesis using that left_ba_write [OF assms(1-3), of "getReadSize ba"] assms(4)
    by (auto simp: writeFixSize_ba_def bindE_def returnE_def int32_id int64_id)
qed

section \<open>A network that cuts transfers into pieces\<close>

text \<open>A concrete network for examples: every call transfers at most \<open>c\<close> bytes.\<close>

definition pieces :: "nat \<Rightarrow> (bytes \<times> bytes) syscalls" where
  "pieces c =
     (let rv = (\<lambda>n (i, t). let k = min (min n c) (length i) in ((int k, take k i), (drop k i, t)));
          sn = (\<lambda>bs (i, t). let k = min (length bs) c in (int k, (i, t @ take k bs)))
      in \<lparr>sys_recv = rv, sys_recvmsg = rv \<circ> sum_list, sys_send = sn, sys_sendmsg = sn \<circ> concat, sys_close = id\<rparr>)"

lemma reliable_pieces:
  assumes "0 < c" "c < 2 ^ 31"
  shows "reliable (pieces c) fst snd"
proof -
  have r: "receives fst snd n w (sys_recv (pieces c) n w)" if "0 < n" "fst w \<noteq> []" for n w
    using that assms by (cases w) (auto simp: receives_def pieces_def Let_def min_less_iff_disj intro!: exI [of _ "min (min n c) (length (fst w))"])
  have s: "sends fst snd bs w (sys_send (pieces c) bs w)" if "bs \<noteq> []" for bs w
    using that assms by (cases w) (auto simp: sends_def pieces_def Let_def min_less_iff_disj intro!: exI [of _ "min (length bs) c"])
  have "sys_recvmsg (pieces c) ns = sys_recv (pieces c) (sum_list ns)" "sys_sendmsg (pieces c) bss = sys_send (pieces c) (concat bss)" for ns bss
    by (simp_all add: pieces_def Let_def)
  then show ?thesis using r s by (simp add: reliable_def)
qed

definition connected :: "'w \<Rightarrow> 'w sock" where
  "connected w = \<lparr>m_isConnected = True, m_sock = True, m_net = w\<rparr>"

end
