(* ===== verification/WebSocket.thy ===== *)
theory WebSocket
  imports NetStream
begin

text \<open>
  Websocket messages, \<^verbatim>\<open>sylar/http/ws_session.cc\<close>: the frame header, sending a message as a frame, and the loop that receives
  frames, answers pings and puts a fragmented message together. The functions work on any stream; the properties are
  about socket streams whose transfers may be cut into pieces of any size.
\<close>

section \<open>Model\<close>

record 's stream_ops =
  s_read :: "nat \<Rightarrow> 's \<Rightarrow> (int \<times> bytes) \<times> 's"
  s_write :: "bytes \<Rightarrow> 's \<Rightarrow> int \<times> 's"
  s_close :: "'s \<Rightarrow> 's"

definition SocketStream_ops :: "'w syscalls \<Rightarrow> 'w sock stream_ops" where
  "SocketStream_ops sys = \<lparr>s_read = SocketStream_read sys, s_write = SocketStream_write sys, s_close = SocketStream_close sys\<rparr>"

text \<open>
  The packed bit fields \<^verbatim>\<open>opcode\<close>, \<^verbatim>\<open>rsv3\<close>, \<^verbatim>\<open>rsv2\<close>, \<^verbatim>\<open>rsv1\<close>, \<^verbatim>\<open>fin\<close>; \<^verbatim>\<open>payload\<close>, \<^verbatim>\<open>mask\<close> are allocated by the usual ABIs from the lowest bit on on
  little-endian hosts and from the highest bit on on big-endian ones. Only the first is the layout of the protocol.
\<close>

record WSFrameHead =
  opcode :: nat
  rsv3 :: bool
  rsv2 :: bool
  rsv1 :: bool
  fin :: bool
  payload :: nat
  mask :: bool

definition CONTINUE :: nat where "CONTINUE = 0"
definition TEXT_FRAME :: nat where "TEXT_FRAME = 1"
definition BIN_FRAME :: nat where "BIN_FRAME = 2"
definition CLOSE :: nat where "CLOSE = 8"
definition PING :: nat where "PING = 9"
definition PONG :: nat where "PONG = 10"

definition flag :: "bool \<Rightarrow> nat \<Rightarrow> nat" where
  "flag b n = (if b then n else 0)"

definition head_bytes :: "byte_order \<Rightarrow> WSFrameHead \<Rightarrow> bytes" where
  "head_bytes host h =
     (if host = SYLAR_LITTLE_ENDIAN
      then [of_nat (opcode h mod 16 + flag (rsv3 h) 16 + flag (rsv2 h) 32 + flag (rsv1 h) 64 + flag (fin h) 128),
            of_nat (payload h mod 128 + flag (mask h) 128)]
      else [of_nat (16 * (opcode h mod 16) + flag (rsv3 h) 8 + flag (rsv2 h) 4 + flag (rsv1 h) 2 + flag (fin h) 1),
            of_nat (2 * (payload h mod 128) + flag (mask h) 1)])"

definition head_of :: "byte_order \<Rightarrow> bytes \<Rightarrow> WSFrameHead" where
  "head_of host bs =
     (let x = unat (bs ! 0); y = unat (bs ! 1) in
      if host = SYLAR_LITTLE_ENDIAN
      then \<lparr>opcode = x mod 16, rsv3 = odd (x div 16), rsv2 = odd (x div 32), rsv1 = odd (x div 64), fin = odd (x div 128),
            payload = y mod 128, mask = odd (y div 128)\<rparr>
      else \<lparr>opcode = x div 16, rsv3 = odd (x div 8), rsv2 = odd (x div 4), rsv1 = odd (x div 2), fin = odd x,
            payload = y div 2, mask = odd y\<rparr>)"

definition zero_head :: WSFrameHead where
  "zero_head = \<lparr>opcode = 0, rsv3 = False, rsv2 = False, rsv1 = False, fin = False, payload = 0, mask = False\<rparr>"

record WSFrameMessage =
  m_opcode :: nat
  m_data :: bytes

definition WSControl :: "byte_order \<Rightarrow> nat \<Rightarrow> 's stream_ops \<Rightarrow> 's \<Rightarrow> int \<times> 's" where
  "WSControl host op st s =
     (let (v, s) = writeFixSize (s_write st) (head_bytes host (zero_head\<lparr>fin := True, opcode := op\<rparr>)) s in
      if v \<le> 0 then (v, s_close st s) else (v, s))"

definition WSPing :: "byte_order \<Rightarrow> 's stream_ops \<Rightarrow> 's \<Rightarrow> int \<times> 's" where "WSPing host = WSControl host PING"
definition WSPong :: "byte_order \<Rightarrow> 's stream_ops \<Rightarrow> 's \<Rightarrow> int \<times> 's" where "WSPong host = WSControl host PONG"

text \<open>\<^verbatim>\<open>data[i] ^= mask[i % 4]\<close>\<close>

definition xor_mask :: "bytes \<Rightarrow> bytes \<Rightarrow> bytes" where
  "xor_mask key data = map (\<lambda>i. data ! i XOR key ! (i mod 4)) [0..<length data]"

text \<open>\<^verbatim>\<open>WSSendMessage\<close>, given the value that \<^verbatim>\<open>rand()\<close> returns. A client masks the data in the message object itself.\<close>

definition payload_code :: "nat \<Rightarrow> nat" where
  "payload_code sz = (if sz < 126 then sz else if sz < 65536 then 126 else 127)"

definition send_length :: "byte_order \<Rightarrow> nat \<Rightarrow> bytes option" where
  "send_length host sz =
     (if payload_code sz = 126 then Some (mem host 2 (byteswapOnLittleEndian host byteswap16 (of_nat sz)))
      else if payload_code sz = 127 then Some (mem host 8 (byteswapOnLittleEndian host byteswap64 (of_nat sz)))
      else None)"

definition then_write :: "'s stream_ops \<Rightarrow> bytes \<Rightarrow> ('s \<Rightarrow> (int \<times> 'm) \<times> 's) \<Rightarrow> 'm \<Rightarrow> 's \<Rightarrow> (int \<times> 'm) \<times> 's" where
  "then_write st bs k m s = (let (n, s) = writeFixSize (s_write st) bs s in if n \<le> 0 then ((- 1, m), s_close st s) else k s)"

definition WSSendMessage :: "byte_order \<Rightarrow> 32 word \<Rightarrow> 's stream_ops \<Rightarrow> WSFrameMessage \<Rightarrow> bool \<Rightarrow> bool \<Rightarrow> 's \<Rightarrow> (int \<times> WSFrameMessage) \<times> 's" where
  "WSSendMessage host rand_value st msg client fn s =
     (let sz = length (m_data msg);
          head = zero_head\<lparr>fin := fn, opcode := m_opcode msg mod 16, mask := client, payload := payload_code sz\<rparr>;
          key = mem host 4 rand_value;
          msg' = (if client then msg\<lparr>m_data := xor_mask key (m_data msg)\<rparr> else msg);
          send_data = then_write st (m_data msg') (\<lambda>s. ((int32 (int (sz + 2)), msg'), s)) msg';
          send_key = (if client then then_write st key send_data msg' else send_data);
          send_len = (case send_length host sz of None \<Rightarrow> send_key | Some bs \<Rightarrow> then_write st bs send_key msg)
      in then_write st (head_bytes host head) send_len msg s)"

text \<open>\<^verbatim>\<open>WSRecvMessage\<close>. The loop has no bound: a peer can send pings for ever.\<close>

datatype frame_result = Again nat bytes | Done WSFrameMessage | Broken

definition recv_length :: "byte_order \<Rightarrow> 's stream_ops \<Rightarrow> nat \<Rightarrow> 's \<Rightarrow> nat option \<times> 's" where
  "recv_length host st pl s =
     (if pl = 126
      then let ((n, bs), s) = readFixSize (s_read st) 2 s in
        (if n \<le> 0 then None else Some (unat (byteswapOnLittleEndian host byteswap16 (of_mem host bs :: u16))), s)
      else if pl = 127
      then let ((n, bs), s) = readFixSize (s_read st) 8 s in
        (if n \<le> 0 then None else Some (unat (byteswapOnLittleEndian host byteswap64 (of_mem host bs :: u64))), s)
      else (Some pl, s))"

definition recv_key :: "'s stream_ops \<Rightarrow> WSFrameHead \<Rightarrow> 's \<Rightarrow> (int \<times> bytes) \<times> 's" where
  "recv_key st h s = (if mask h then readFixSize (s_read st) 4 s else ((1, [0, 0, 0, 0]), s))"

definition recv_data :: "byte_order \<Rightarrow> nat \<Rightarrow> 's stream_ops \<Rightarrow> WSFrameHead \<Rightarrow> nat \<Rightarrow> bytes \<Rightarrow> 's \<Rightarrow> frame_result \<times> 's" where
  "recv_data host max_size st h op data s =
     (case recv_length host st (payload h) s of
        (None, s) \<Rightarrow> (Broken, s)
      | (Some len, s) \<Rightarrow>
          if max_size \<le> (length data + len) mod 2 ^ 64 then (Broken, s)
          else let ((k, key), s) = recv_key st h s in
            if k \<le> 0 then (Broken, s)
            else let ((n, bs), s) = readFixSize (s_read st) len s in
              if n \<le> 0 then (Broken, s)
              else let data = data @ (if mask h then xor_mask key bs else bs);
                       op = (if op = 0 \<and> opcode h \<noteq> CONTINUE then opcode h else op)
                   in (if fin h then Done \<lparr>m_opcode = op, m_data = data\<rparr> else Again op data, s))"

definition recv_frame :: "byte_order \<Rightarrow> nat \<Rightarrow> bool \<Rightarrow> 's stream_ops \<Rightarrow> nat \<Rightarrow> bytes \<Rightarrow> 's \<Rightarrow> frame_result \<times> 's" where
  "recv_frame host max_size client st op data s =
     (let ((n, bs), s) = readFixSize (s_read st) 2 s in
      if n \<le> 0 then (Broken, s)
      else let h = head_of host bs in
        if opcode h = PING then let (v, s) = WSPong host st s in (if v \<le> 0 then Broken else Again op data, s)
        else if opcode h = PONG then (Again op data, s)
        else if opcode h = CONTINUE \<or> opcode h = TEXT_FRAME \<or> opcode h = BIN_FRAME
        then if \<not> client \<and> \<not> mask h then (Broken, s) else recv_data host max_size st h op data s
        else if opcode h = CLOSE then (Broken, s)
        else (Again op data, s))"

partial_function (option) recv_loop :: "byte_order \<Rightarrow> nat \<Rightarrow> bool \<Rightarrow> 's stream_ops \<Rightarrow> nat \<Rightarrow> bytes \<Rightarrow> 's \<Rightarrow> (WSFrameMessage option \<times> 's) option" where
  "recv_loop host max_size client st op data s =
     (case recv_frame host max_size client st op data s of
        (Again op data, s) \<Rightarrow> recv_loop host max_size client st op data s
      | (Done msg, s) \<Rightarrow> Some (Some msg, s)
      | (Broken, s) \<Rightarrow> Some (None, s_close st s))"

definition WSRecvMessage :: "byte_order \<Rightarrow> nat \<Rightarrow> bool \<Rightarrow> 's stream_ops \<Rightarrow> 's \<Rightarrow> (WSFrameMessage option \<times> 's) option" where
  "WSRecvMessage host max_size client st s = recv_loop host max_size client st 0 [] s"

text \<open>\<^verbatim>\<open>WSSession\<close> is the server's side, \<^verbatim>\<open>WSConnection\<close> the client's.\<close>

definition WSSession_recvMessage :: "byte_order \<Rightarrow> nat \<Rightarrow> 's stream_ops \<Rightarrow> 's \<Rightarrow> (WSFrameMessage option \<times> 's) option" where
  "WSSession_recvMessage host max_size st s = WSRecvMessage host max_size False st s"

definition WSSession_sendMessage :: "byte_order \<Rightarrow> 32 word \<Rightarrow> 's stream_ops \<Rightarrow> WSFrameMessage \<Rightarrow> bool \<Rightarrow> 's \<Rightarrow> (int \<times> WSFrameMessage) \<times> 's" where
  "WSSession_sendMessage host r st msg fn s = WSSendMessage host r st msg False fn s"

definition WSConnection_recvMessage :: "byte_order \<Rightarrow> nat \<Rightarrow> 's stream_ops \<Rightarrow> 's \<Rightarrow> (WSFrameMessage option \<times> 's) option" where
  "WSConnection_recvMessage host max_size st s = WSRecvMessage host max_size True st s"

definition WSConnection_sendMessage :: "byte_order \<Rightarrow> 32 word \<Rightarrow> 's stream_ops \<Rightarrow> WSFrameMessage \<Rightarrow> bool \<Rightarrow> 's \<Rightarrow> (int \<times> WSFrameMessage) \<times> 's" where
  "WSConnection_sendMessage host r st msg fn s = WSSendMessage host r st msg True fn s"

section \<open>Frames\<close>

abbreviation LE :: byte_order where
  "LE \<equiv> SYLAR_LITTLE_ENDIAN"

lemma field_parts:
  fixes n q :: nat
  assumes "n < 16"
  shows "(16 * q + n) mod 16 = n" "(16 * q + n) div 16 = q" "(16 * q + n) div 32 = q div 2" "(16 * q + n) div 64 = q div 4"
    "(16 * q + n) div 128 = q div 8"
  using assms div_mult2_eq [of "16 * q + n" 16 2] div_mult2_eq [of "16 * q + n" 16 4] div_mult2_eq [of "16 * q + n" 16 8] by simp_all

lemma head_of_nats:
  assumes "x < 256" "y < 256"
  shows "head_of LE [of_nat x, of_nat y] =
    \<lparr>opcode = x mod 16, rsv3 = odd (x div 16), rsv2 = odd (x div 32), rsv1 = odd (x div 64), fin = odd (x div 128),
     payload = y mod 128, mask = odd (y div 128)\<rparr>"
proof -
  have "unat (of_nat x :: byte) = x" "unat (of_nat y :: byte) = y" using assms by (simp_all only: unat_of_nat) simp_all
  then show ?thesis by (simp add: head_of_def)
qed

lemma flags_sum:
  fixes a b c d :: bool
  defines "q \<equiv> flag a 1 + 2 * (flag b 1 + 2 * (flag c 1 + 2 * flag d 1))"
  shows "q < 16" "odd q = a" "odd (q div 2) = b" "odd (q div 4) = c" "odd (q div 8) = d"
    "16 * q = flag a 16 + flag b 32 + flag c 64 + flag d 128"
  unfolding q_def flag_def by (simp_all split: if_split)

lemma payload_field:
  assumes "n < 128"
  shows "n + flag b 128 < 256" "(n + flag b 128) mod 128 = n" "odd ((n + flag b 128) div 128) = b"
proof -
  have "n + flag b 128 = n + flag b 1 * 128" by (simp add: flag_def)
  then have "(n + flag b 128) mod 128 = n" "(n + flag b 128) div 128 = flag b 1" using assms by (simp_all only: mod_mult_self1 div_mult_self1 mod_less div_less)
  then show "(n + flag b 128) mod 128 = n" "odd ((n + flag b 128) div 128) = b" by (simp_all add: flag_def)
  show "n + flag b 128 < 256" using assms by (simp add: flag_def)
qed

lemma head_of_bytes:
  assumes "opcode h < 16" "payload h < 128"
  shows "head_of LE (head_bytes LE h) = h" "length (head_bytes LE h) = 2"
proof -
  define q where "q = flag (rsv3 h) 1 + 2 * (flag (rsv2 h) 1 + 2 * (flag (rsv1 h) 1 + 2 * flag (fin h) 1))"
  note f = flags_sum [of "rsv3 h" "rsv2 h" "rsv1 h" "fin h", folded q_def]
  let ?y = "payload h + flag (mask h) 128"
  have "opcode h mod 16 + flag (rsv3 h) 16 + flag (rsv2 h) 32 + flag (rsv1 h) 64 + flag (fin h) 128 = 16 * q + opcode h"
    using f(6) assms(1) by simp
  moreover have "payload h mod 128 + flag (mask h) 128 = ?y" using assms(2) by simp
  ultimately have b: "head_bytes LE h = [of_nat (16 * q + opcode h), of_nat ?y]" unfolding head_bytes_def by (simp only: if_True refl)
  note y = payload_field [OF assms(2), of "mask h"]
  have "16 * q + opcode h < 256" using f(1) assms(1) by simp
  show "head_of LE (head_bytes LE h) = h" unfolding b head_of_nats [OF \<open>16 * q + opcode h < 256\<close> y(1)] field_parts [OF assms(1)] f(2-5) y(2,3) by simp
qed (simp add: head_bytes_def)

lemma xor_mask_twice: "xor_mask key (xor_mask key data) = data"
  by (rule nth_equalityI) (simp_all add: xor_mask_def xor.assoc)

lemma length_xor_mask [simp]: "length (xor_mask key data) = length data"
  by (simp add: xor_mask_def)

text \<open>A frame on the wire.\<close>

definition frame_head :: "bool \<Rightarrow> nat \<Rightarrow> bool \<Rightarrow> nat \<Rightarrow> WSFrameHead" where
  "frame_head fn op masked len = zero_head\<lparr>fin := fn, opcode := op, mask := masked, payload := payload_code len\<rparr>"

definition len_bytes :: "nat \<Rightarrow> bytes" where
  "len_bytes n = (if n < 126 then [] else if n < 65536 then mem SYLAR_BIG_ENDIAN 2 (of_nat n :: u16) else mem SYLAR_BIG_ENDIAN 8 (of_nat n :: u64))"

definition frame_bytes :: "bool \<Rightarrow> nat \<Rightarrow> bytes option \<Rightarrow> bytes \<Rightarrow> bytes" where
  "frame_bytes fn op key data = head_bytes LE (frame_head fn op (key \<noteq> None) (length data)) @ len_bytes (length data) @
     (case key of None \<Rightarrow> data | Some k \<Rightarrow> k @ xor_mask k data)"

lemma payload_code_less: "payload_code n < 128"
  by (simp add: payload_code_def)

lemma mem_swapped:
  "LENGTH('a::len) = 8 * n \<Longrightarrow> mem host n (byteswapOnLittleEndian host (bswap n) (w :: 'a word)) = mem SYLAR_BIG_ENDIAN n w"
  by (cases host) (auto simp: byteswapOnLittleEndian_def mem_def le_bytes_bswap)

lemma of_mem_swapped:
  "LENGTH('a::len) = 8 * n \<Longrightarrow> byteswapOnLittleEndian host (bswap n) (of_mem host (mem SYLAR_BIG_ENDIAN n (w :: 'a word))) = w"
proof -
  assume n: "LENGTH('a) = 8 * n"
  let ?v = "byteswapOnLittleEndian host (bswap n) w"
  have "of_mem host (mem SYLAR_BIG_ENDIAN n w) = ?v" using mem_swapped [OF n, of host w] of_mem_mem [OF n, of host ?v] by simp
  then show ?thesis using bswap_bswap [OF n, of w] by (cases host) (auto simp: byteswapOnLittleEndian_def)
qed

lemma byteswap_fun: "byteswap16 = bswap 2" "byteswap64 = bswap 8"
  by (auto simp: byteswap16_def byteswap64_def)

lemma send_length_eq: "(case send_length host n of None \<Rightarrow> [] | Some bs \<Rightarrow> bs) = len_bytes n"
  by (auto simp: send_length_def len_bytes_def payload_code_def byteswap_fun mem_swapped)

section \<open>Sending\<close>

text \<open>An action on a connected socket that sends \<open>bs\<close> and returns \<open>r\<close>.\<close>

definition emits :: "('w \<Rightarrow> bytes) \<Rightarrow> ('w \<Rightarrow> bytes) \<Rightarrow> ('w sock \<Rightarrow> 'r \<times> 'w sock) \<Rightarrow> bytes \<Rightarrow> 'r \<Rightarrow> bool" where
  "emits inp out f bs r \<longleftrightarrow> (\<forall>sk. m_isConnected sk \<longrightarrow> (\<exists>w. f sk = (r, sk\<lparr>m_net := w\<rparr>) \<and> out w = out (m_net sk) @ bs \<and> inp w = inp (m_net sk)))"

lemma emits_return:
  fixes inp out :: "'w \<Rightarrow> bytes"
  shows "emits inp out (\<lambda>sk. (r, sk)) [] r"
  unfolding emits_def
proof (intro allI impI)
  fix sk :: "'w sock"
  show "\<exists>w. (r, sk) = (r, sk\<lparr>m_net := w\<rparr>) \<and> out w = out (m_net sk) @ [] \<and> inp w = inp (m_net sk)"
    by (rule exI [of _ "m_net sk"]) simp
qed

lemma emits_write:
  assumes "reliable sys inp out" "bs \<noteq> []" "length bs < 2 ^ 31" "emits inp out k cs r"
  shows "emits inp out (then_write (SocketStream_ops sys) bs k m) (bs @ cs) r"
  unfolding emits_def
proof (intro allI impI)
  fix sk assume con: "m_isConnected (sk :: 'a sock)"
  obtain w where w: "writeFixSize (SocketStream_write sys) bs sk = (int (length bs), sk\<lparr>m_net := w\<rparr>)" "out w = out (m_net sk) @ bs" "inp w = inp (m_net sk)"
    by (rule writeFixSize_reliable [OF assms(1) con assms(3)])
  have "m_isConnected (sk\<lparr>m_net := w\<rparr>)" using con by simp
  then obtain w' where "k (sk\<lparr>m_net := w\<rparr>) = (r, sk\<lparr>m_net := w\<rparr>\<lparr>m_net := w'\<rparr>)" "out w' = out w @ cs" "inp w' = inp w"
    using assms(4) [unfolded emits_def, rule_format, of "sk\<lparr>m_net := w\<rparr>"] by auto
  then show "\<exists>w. then_write (SocketStream_ops sys) bs k m sk = (r, sk\<lparr>m_net := w\<rparr>) \<and> out w = out (m_net sk) @ bs @ cs \<and> inp w = inp (m_net sk)"
    using w assms(2) by (auto simp: then_write_def SocketStream_ops_def)
qed

lemma WSSendMessage_emits:
  assumes "reliable sys inp out" "m_data msg \<noteq> []" "length (m_data msg) + 2 < 2 ^ 31" "m_opcode msg < 16"
  shows "emits inp out (WSSendMessage LE rand_value (SocketStream_ops sys) msg client fn)
    (frame_bytes fn (m_opcode msg) (if client then Some (mem LE 4 rand_value) else None) (m_data msg))
    (int (length (m_data msg)) + 2, if client then msg\<lparr>m_data := xor_mask (mem LE 4 rand_value) (m_data msg)\<rparr> else msg)"
proof -
  let ?sz = "length (m_data msg)" and ?k = "mem LE 4 rand_value" and ?st = "SocketStream_ops sys"
  let ?m = "if client then msg\<lparr>m_data := xor_mask ?k (m_data msg)\<rparr> else msg"
  let ?r = "(int32 (int (?sz + 2)), ?m)"
  have m: "m_data ?m \<noteq> []" "length (m_data ?m) < 2 ^ 31" using assms(2,3) by (auto simp: xor_mask_def)
  have 1: "emits inp out (then_write ?st (m_data ?m) (\<lambda>s. (?r, s)) ?m) (m_data ?m @ []) ?r"
    by (rule emits_write [OF assms(1) m emits_return])
  let ?kd = "(if client then ?k @ m_data ?m else m_data ?m)"
  have 2: "emits inp out (if client then then_write ?st ?k (then_write ?st (m_data ?m) (\<lambda>s. (?r, s)) ?m) ?m
      else then_write ?st (m_data ?m) (\<lambda>s. (?r, s)) ?m) ?kd ?r" (is "emits _ _ ?f _ _")
  proof (cases client)
    case True
    have "length ?k = 4" by simp
    then have "?k \<noteq> []" by force
    then show ?thesis using emits_write [OF assms(1) _ _ 1, of ?k ?m] True by simp
  qed (use 1 in simp)
  have 3: "emits inp out (case send_length LE ?sz of None \<Rightarrow> ?f | Some bs \<Rightarrow> then_write ?st bs ?f msg) (len_bytes ?sz @ ?kd) ?r"
  proof (cases "send_length LE ?sz")
    case None
    then show ?thesis using 2 send_length_eq [of LE ?sz] by (simp only: option.case append_Nil)
  next
    case (Some bs)
    then have bs: "len_bytes ?sz = bs" using send_length_eq [of LE ?sz] by simp
    have "length bs = 2 \<or> length bs = 8" using Some by (auto simp: send_length_def split: if_splits)
    then have "bs \<noteq> []" "length bs < 2 ^ 31" by auto
    then show ?thesis using emits_write [OF assms(1) _ _ 2] Some bs by simp
  qed
  let ?h = "frame_head fn (m_opcode msg) client ?sz"
  have "opcode ?h < 16" "payload ?h < 128" using assms(4) payload_code_less by (simp_all add: frame_head_def zero_head_def)
  then have l: "length (head_bytes LE ?h) = 2" by (rule head_of_bytes(2))
  then have "head_bytes LE ?h \<noteq> []" "length (head_bytes LE ?h) < 2 ^ 31" by auto
  from emits_write [OF assms(1) this 3]
  have "emits inp out (WSSendMessage LE rand_value ?st msg client fn) (head_bytes LE ?h @ len_bytes ?sz @ ?kd) ?r"
    unfolding emits_def WSSendMessage_def Let_def frame_head_def using assms(4) by simp
  moreover have "int32 (int (?sz + 2)) = int ?sz + 2" using assms(3) by (subst int32_id) auto
  moreover have "head_bytes LE ?h @ len_bytes ?sz @ ?kd = frame_bytes fn (m_opcode msg) (if client then Some ?k else None) (m_data msg)"
    by (simp add: frame_bytes_def)
  ultimately show ?thesis by simp
qed

section \<open>Receiving\<close>

lemma recv_length_reliable:
  assumes "reliable sys inp out" "m_isConnected sk" "inp (m_net sk) = len_bytes n @ rest" "n < 2 ^ 64"
  obtains w where "recv_length host (SocketStream_ops sys) (payload_code n) sk = (Some n, sk\<lparr>m_net := w\<rparr>)" "inp w = rest" "out w = out (m_net sk)"
proof -
  consider (direct) "n < 126" | (short) "126 \<le> n" "n < 65536" | (long) "65536 \<le> n" by linarith
  then show thesis
  proof cases
    case direct
    then show ?thesis using that [of "m_net sk"] assms(3) by (simp add: recv_length_def payload_code_def len_bytes_def)
  next
    case short
    let ?bs = "mem SYLAR_BIG_ENDIAN 2 (of_nat n :: u16)"
    have i: "inp (m_net sk) = ?bs @ rest" "length ?bs < 2 ^ 31" using assms(3) short by (simp_all add: len_bytes_def)
    obtain w where w: "readFixSize (SocketStream_read sys) (length ?bs) sk = ((int (length ?bs), ?bs), sk\<lparr>m_net := w\<rparr>)" "inp w = rest" "out w = out (m_net sk)"
      by (rule readFixSize_reliable [OF assms(1,2) i])
    have "unat (of_nat n :: u16) = n" using short(2) by (simp only: unat_of_nat) simp
    then show ?thesis using that [of w] w short
      by (simp add: recv_length_def payload_code_def SocketStream_ops_def byteswap_fun of_mem_swapped)
  next
    case long
    let ?bs = "mem SYLAR_BIG_ENDIAN 8 (of_nat n :: u64)"
    have i: "inp (m_net sk) = ?bs @ rest" "length ?bs < 2 ^ 31" using assms(3) long by (simp_all add: len_bytes_def)
    obtain w where w: "readFixSize (SocketStream_read sys) (length ?bs) sk = ((int (length ?bs), ?bs), sk\<lparr>m_net := w\<rparr>)" "inp w = rest" "out w = out (m_net sk)"
      by (rule readFixSize_reliable [OF assms(1,2) i])
    have "unat (of_nat n :: u64) = n" using assms(4) by (simp only: unat_of_nat) simp
    then show ?thesis using that [of w] w long
      by (simp add: recv_length_def payload_code_def SocketStream_ops_def byteswap_fun of_mem_swapped)
  qed
qed

definition next_op :: "nat \<Rightarrow> nat \<Rightarrow> nat" where
  "next_op op op' = (if op = 0 \<and> op' \<noteq> CONTINUE then op' else op)"

text \<open>A data frame in front.\<close>

lemma recv_data_reliable:
  assumes rel: "reliable sys inp out" and con: "m_isConnected sk"
    and inp: "inp (m_net sk) = len_bytes (length d) @ (case key of None \<Rightarrow> d | Some k \<Rightarrow> k @ xor_mask k d) @ rest"
    and key: "\<forall>k. key = Some k \<longrightarrow> length k = 4" and d: "d \<noteq> []" "length data + length d < max_size" "max_size \<le> 2 ^ 31"
    and h: "h = frame_head fn o' (key \<noteq> None) (length d)"
  obtains w where "recv_data host max_size (SocketStream_ops sys) h op data sk =
      (if fn then Done \<lparr>m_opcode = next_op op o', m_data = data @ d\<rparr> else Again (next_op op o') (data @ d), sk\<lparr>m_net := w\<rparr>)" "inp w = rest" "out w = out (m_net sk)"
proof -
  have hs: "payload h = payload_code (length d)" "mask h = (key \<noteq> None)" "opcode h = o'" "fin h = fn"
    by (simp_all add: h frame_head_def zero_head_def)
  have n: "length d < 2 ^ 64" "(length data + length d) mod 2 ^ 64 = length data + length d" "\<not> max_size \<le> length data + length d" "length d < 2 ^ 31"
    using d(2,3) by auto
  let ?kb = "case key of None \<Rightarrow> [] | Some k \<Rightarrow> k" and ?db = "case key of None \<Rightarrow> d | Some k \<Rightarrow> xor_mask k d"
  have i: "inp (m_net sk) = len_bytes (length d) @ (?kb @ ?db @ rest)" using inp by (cases key) auto
  obtain w1 where w1: "recv_length host (SocketStream_ops sys) (payload_code (length d)) sk = (Some (length d), sk\<lparr>m_net := w1\<rparr>)"
    "inp w1 = ?kb @ ?db @ rest" "out w1 = out (m_net sk)"
    by (rule recv_length_reliable [OF rel con i n(1)])
  have c1: "m_isConnected (sk\<lparr>m_net := w1\<rparr>)" using con by simp
  have "\<exists>w2 kn kb. recv_key (SocketStream_ops sys) h (sk\<lparr>m_net := w1\<rparr>) =
      ((kn, kb), sk\<lparr>m_net := w2\<rparr>) \<and> 0 < kn \<and> inp w2 = ?db @ rest \<and> out w2 = out (m_net sk) \<and> (\<forall>k. key = Some k \<longrightarrow> kb = k)"
  proof (cases key)
    case None
    then show ?thesis using hs(2) w1 by (auto simp: recv_key_def)
  next
    case (Some k)
    then have k: "length k = 4" "inp (m_net (sk\<lparr>m_net := w1\<rparr>)) = k @ (?db @ rest)" "length k < 2 ^ 31" using key w1 by auto
    obtain w2 where "readFixSize (SocketStream_read sys) (length k) (sk\<lparr>m_net := w1\<rparr>) = ((int (length k), k), sk\<lparr>m_net := w1\<rparr>\<lparr>m_net := w2\<rparr>)"
        "inp w2 = ?db @ rest" "out w2 = out (m_net (sk\<lparr>m_net := w1\<rparr>))"
      by (rule readFixSize_reliable [OF rel c1 k(2,3)])
    then show ?thesis using Some hs(2) k(1) w1(3) by (auto simp: recv_key_def SocketStream_ops_def)
  qed
  then obtain w2 kn kb where w2: "recv_key (SocketStream_ops sys) h (sk\<lparr>m_net := w1\<rparr>) =
      ((kn, kb), sk\<lparr>m_net := w2\<rparr>)" "0 < kn" "inp w2 = ?db @ rest" "out w2 = out (m_net sk)" "\<forall>k. key = Some k \<longrightarrow> kb = k" by blast
  have l: "length ?db = length d" by (simp split: option.split)
  have c2: "m_isConnected (sk\<lparr>m_net := w2\<rparr>)" "inp (m_net (sk\<lparr>m_net := w2\<rparr>)) = ?db @ rest" "length ?db < 2 ^ 31" using con w2(3) n(4) l by simp_all
  obtain w3 where w3: "readFixSize (SocketStream_read sys) (length ?db) (sk\<lparr>m_net := w2\<rparr>) = ((int (length ?db), ?db), sk\<lparr>m_net := w2\<rparr>\<lparr>m_net := w3\<rparr>)"
      "inp w3 = rest" "out w3 = out (m_net (sk\<lparr>m_net := w2\<rparr>))"
    by (rule readFixSize_reliable [OF rel c2])
  have dd: "(if mask h then xor_mask kb ?db else ?db) = d" using w2(5) hs(2) by (cases key) (simp_all add: xor_mask_twice)
  have "recv_data host max_size (SocketStream_ops sys) h op data sk =
      (if fn then Done \<lparr>m_opcode = next_op op o', m_data = data @ d\<rparr> else Again (next_op op o') (data @ d), sk\<lparr>m_net := w3\<rparr>)"
    unfolding recv_data_def hs(1) w1(1) using w2(1,2) w3(1) n d(1) dd l hs(3,4)
    by (simp add: SocketStream_ops_def [of sys] next_op_def Let_def)
  then show thesis using that w3(2,3) w2(4) by simp
qed

section \<open>Sequences of frames\<close>

datatype ws_frame = Data bool nat "bytes option" bytes | Control nat

primrec wire :: "ws_frame \<Rightarrow> bytes" where
  "wire (Data fn op key d) = frame_bytes fn op key d"
| "wire (Control op) = head_bytes LE (zero_head\<lparr>fin := True, opcode := op\<rparr>)"

text \<open>What a peer may send: data that is not empty, masked if it comes from a client, and pings and pongs.\<close>

primrec frame_ok :: "bool \<Rightarrow> ws_frame \<Rightarrow> bool" where
  "frame_ok client (Data fn op key d) =
     (op \<in> {CONTINUE, TEXT_FRAME, BIN_FRAME} \<and> d \<noteq> [] \<and> (case key of None \<Rightarrow> client | Some k \<Rightarrow> length k = 4))"
| "frame_ok client (Control op) = (op = PING \<or> op = PONG)"

text \<open>The message in a sequence of frames that ends with the first final one: the first opcode that is not \<^verbatim>\<open>CONTINUE\<close>, and all data.\<close>

fun assemble :: "nat \<Rightarrow> bytes \<Rightarrow> ws_frame list \<Rightarrow> (nat \<times> bytes) option" where
  "assemble op data [] = None"
| "assemble op data (Control _ # fs) = assemble op data fs"
| "assemble op data (Data fn op' key d # fs) =
     (if fn then if fs = [] then Some (next_op op op', data @ d) else None else assemble (next_op op op') (data @ d) fs)"

primrec pong_for :: "ws_frame \<Rightarrow> bytes" where
  "pong_for (Data fn op key d) = []"
| "pong_for (Control op) = (if op = PING then wire (Control PONG) else [])"

lemmas opcodes = CONTINUE_def TEXT_FRAME_def BIN_FRAME_def CLOSE_def PING_def PONG_def

lemma assemble_length: "assemble op data fs = Some (op', data') \<Longrightarrow> length data \<le> length data'"
  by (induction op data fs rule: assemble.induct) (auto split: if_splits)

lemma control_head:
  assumes "op < 16"
  shows "head_of LE (wire (Control op)) = zero_head\<lparr>fin := True, opcode := op\<rparr>" "length (wire (Control op)) = 2"
  using head_of_bytes [of "zero_head\<lparr>fin := True, opcode := op\<rparr>"] assms by (simp_all add: zero_head_def)

lemma WSPong_emits:
  assumes "reliable sys inp out"
  shows "emits inp out (WSPong LE (SocketStream_ops sys)) (wire (Control PONG)) 2"
  unfolding emits_def
proof (intro allI impI)
  fix sk assume con: "m_isConnected (sk :: 'a sock)"
  have l: "length (wire (Control PONG)) = 2" by (rule control_head(2)) (simp add: opcodes)
  then have lt: "length (wire (Control PONG)) < 2 ^ 31" unfolding l by simp
  obtain w where w: "writeFixSize (SocketStream_write sys) (wire (Control PONG)) sk = (int (length (wire (Control PONG))), sk\<lparr>m_net := w\<rparr>)"
      "out w = out (m_net sk) @ wire (Control PONG)" "inp w = inp (m_net sk)"
    by (rule writeFixSize_reliable [OF assms con lt])
  then show "\<exists>w. WSPong LE (SocketStream_ops sys) sk = (2, sk\<lparr>m_net := w\<rparr>) \<and> out w = out (m_net sk) @ wire (Control PONG) \<and> inp w = inp (m_net sk)"
    using l by (auto simp: WSPong_def WSControl_def SocketStream_ops_def)
qed

lemma recv_frame_control:
  assumes rel: "reliable sys inp out" and con: "m_isConnected sk" and ok: "op' = PING \<or> op' = PONG"
    and i: "inp (m_net sk) = wire (Control op') @ rest"
  obtains w where "recv_frame LE max_size client (SocketStream_ops sys) op data sk = (Again op data, sk\<lparr>m_net := w\<rparr>)" "inp w = rest"
    "out w = out (m_net sk) @ pong_for (Control op')"
proof -
  have l: "length (wire (Control op')) = 2" and h: "head_of LE (wire (Control op')) = zero_head\<lparr>fin := True, opcode := op'\<rparr>"
    using control_head [of op'] ok by (auto simp: opcodes)
  have lt: "length (wire (Control op')) < 2 ^ 31" unfolding l by simp
  obtain w where w: "readFixSize (SocketStream_read sys) (length (wire (Control op'))) sk = ((int (length (wire (Control op'))), wire (Control op')), sk\<lparr>m_net := w\<rparr>)"
      "inp w = rest" "out w = out (m_net sk)"
    by (rule readFixSize_reliable [OF rel con i lt])
  have r: "readFixSize (s_read (SocketStream_ops sys)) 2 sk = ((2, wire (Control op')), sk\<lparr>m_net := w\<rparr>)"
    using w(1) unfolding l by (simp add: SocketStream_ops_def)
  show thesis
  proof (cases "op' = PING")
    case True
    obtain w' where "WSPong LE (SocketStream_ops sys) (sk\<lparr>m_net := w\<rparr>) = (2, sk\<lparr>m_net := w\<rparr>\<lparr>m_net := w'\<rparr>)"
        "out w' = out w @ wire (Control PONG)" "inp w' = inp w"
      using WSPong_emits [OF rel] con unfolding emits_def by (metis (no_types) sock.ext_inject sock.surjective sock.update_convs(3))
    then show ?thesis using that [of w'] r w True h [unfolded True] by (simp add: recv_frame_def del: wire.simps)
  next
    case False
    then show ?thesis using that [of w] r w ok by (simp add: recv_frame_def h del: wire.simps)
  qed
qed

lemma recv_frame_data:
  assumes rel: "reliable sys inp out" and con: "m_isConnected sk" and ok: "frame_ok client (Data fn op' key d)"
    and i: "inp (m_net sk) = wire (Data fn op' key d) @ rest" and m: "length data + length d < max_size" "max_size \<le> 2 ^ 31"
  obtains w where "recv_frame LE max_size client (SocketStream_ops sys) op data sk =
      (if fn then Done \<lparr>m_opcode = next_op op op', m_data = data @ d\<rparr> else Again (next_op op op') (data @ d), sk\<lparr>m_net := w\<rparr>)"
    "inp w = rest" "out w = out (m_net sk)"
proof -
  let ?h = "frame_head fn op' (key \<noteq> None) (length d)"
  have op: "opcode ?h = op'" "mask ?h = (key \<noteq> None)" by (simp_all add: frame_head_def zero_head_def)
  have "opcode ?h < 16" "payload ?h < 128" using ok payload_code_less by (auto simp: frame_head_def zero_head_def opcodes)
  note h = head_of_bytes [OF this]
  have i': "inp (m_net sk) = head_bytes LE ?h @ len_bytes (length d) @ (case key of None \<Rightarrow> d | Some k \<Rightarrow> k @ xor_mask k d) @ rest"
    using i by (simp add: frame_bytes_def)
  have lt: "length (head_bytes LE ?h) < 2 ^ 31" unfolding h(2) by simp
  obtain w where w: "readFixSize (SocketStream_read sys) (length (head_bytes LE ?h)) sk = ((int (length (head_bytes LE ?h)), head_bytes LE ?h), sk\<lparr>m_net := w\<rparr>)"
      "inp w = len_bytes (length d) @ (case key of None \<Rightarrow> d | Some k \<Rightarrow> k @ xor_mask k d) @ rest" "out w = out (m_net sk)"
    by (rule readFixSize_reliable [OF rel con i' lt])
  have r: "readFixSize (s_read (SocketStream_ops sys)) 2 sk = ((2, head_bytes LE ?h), sk\<lparr>m_net := w\<rparr>)"
    using w(1) unfolding h(2) by (simp add: SocketStream_ops_def)
  have c: "m_isConnected (sk\<lparr>m_net := w\<rparr>)"
    "inp (m_net (sk\<lparr>m_net := w\<rparr>)) = len_bytes (length d) @ (case key of None \<Rightarrow> d | Some k \<Rightarrow> k @ xor_mask k d) @ rest" using con w(2) by simp_all
  have k: "\<forall>k. key = Some k \<longrightarrow> length k = 4" "d \<noteq> []" using ok by auto
  obtain w' where w': "recv_data LE max_size (SocketStream_ops sys) ?h op data (sk\<lparr>m_net := w\<rparr>) =
      (if fn then Done \<lparr>m_opcode = next_op op op', m_data = data @ d\<rparr> else Again (next_op op op') (data @ d), sk\<lparr>m_net := w\<rparr>\<lparr>m_net := w'\<rparr>)"
      "inp w' = rest" "out w' = out (m_net (sk\<lparr>m_net := w\<rparr>))"
    by (rule recv_data_reliable [OF rel c k m refl])
  have "op' \<noteq> PING" "op' \<noteq> PONG" "op' = CONTINUE \<or> op' = TEXT_FRAME \<or> op' = BIN_FRAME" "client \<or> key \<noteq> None"
    using ok by (auto simp: opcodes)
  moreover from this have "\<not> (\<not> client \<and> \<not> mask ?h)" unfolding op by blast
  ultimately have "recv_frame LE max_size client (SocketStream_ops sys) op data sk = recv_data LE max_size (SocketStream_ops sys) ?h op data (sk\<lparr>m_net := w\<rparr>)"
    unfolding recv_frame_def r Let_def prod.case h(1) op(1) by (simp only: if_False if_True simp_thms) simp
  then show thesis using that w' w(3) by simp
qed

lemma recv_loop_frames:
  assumes "reliable sys inp out" "m_isConnected sk" "list_all (frame_ok client) fs" "assemble op data fs = Some (op', data')"
    "length data' < max_size" "max_size \<le> 2 ^ 31" "inp (m_net sk) = concat (map wire fs) @ rest"
  shows "\<exists>w. recv_loop LE max_size client (SocketStream_ops sys) op data sk = Some (Some \<lparr>m_opcode = op', m_data = data'\<rparr>, sk\<lparr>m_net := w\<rparr>) \<and>
    inp w = rest \<and> out w = out (m_net sk) @ concat (map pong_for fs)"
  using assms(2-5,7)
proof (induction op data fs arbitrary: sk rule: assemble.induct)
  case (2 op data c fs)
  have ok: "c = PING \<or> c = PONG" and i: "inp (m_net sk) = wire (Control c) @ (concat (map wire fs) @ rest)" using "2.prems" by simp_all
  obtain w where w: "recv_frame LE max_size client (SocketStream_ops sys) op data sk = (Again op data, sk\<lparr>m_net := w\<rparr>)"
      "inp w = concat (map wire fs) @ rest" "out w = out (m_net sk) @ pong_for (Control c)"
    by (rule recv_frame_control [OF assms(1) "2.prems"(1) ok i])
  have "recv_loop LE max_size client (SocketStream_ops sys) op data sk = recv_loop LE max_size client (SocketStream_ops sys) op data (sk\<lparr>m_net := w\<rparr>)"
    using w(1) by (subst recv_loop.simps) simp
  then show ?case using "2.IH" [of "sk\<lparr>m_net := w\<rparr>"] "2.prems" w(2,3) by auto
next
  case (3 op data fn o' key d fs)
  have ok: "frame_ok client (Data fn o' key d)" and i: "inp (m_net sk) = wire (Data fn o' key d) @ (concat (map wire fs) @ rest)"
    using "3.prems" by simp_all
  have len: "length data + length d < max_size"
    using "3.prems"(3,4) assemble_length [of "next_op op o'" "data @ d" fs op' data'] by (auto split: if_splits)
  obtain w where w: "recv_frame LE max_size client (SocketStream_ops sys) op data sk =
      (if fn then Done \<lparr>m_opcode = next_op op o', m_data = data @ d\<rparr> else Again (next_op op o') (data @ d), sk\<lparr>m_net := w\<rparr>)"
      "inp w = concat (map wire fs) @ rest" "out w = out (m_net sk)"
    by (rule recv_frame_data [OF assms(1) "3.prems"(1) ok i len assms(6)])
  show ?case
  proof (cases fn)
    case True
    then have "fs = []" "op' = next_op op o'" "data' = data @ d" using "3.prems"(3) by (auto split: if_splits)
    then show ?thesis using True w by (subst recv_loop.simps) auto
  next
    case False
    then have "recv_loop LE max_size client (SocketStream_ops sys) op data sk =
        recv_loop LE max_size client (SocketStream_ops sys) (next_op op o') (data @ d) (sk\<lparr>m_net := w\<rparr>)"
      using w(1) by (subst recv_loop.simps) simp
    then show ?thesis using "3.IH" [of "sk\<lparr>m_net := w\<rparr>"] "3.prems" w(2,3) False by auto
  qed
qed simp

section \<open>Properties\<close>





text \<open>Fragments before the last one leave the loop with what they contain.\<close>

fun gathered :: "nat \<Rightarrow> bytes \<Rightarrow> ws_frame list \<Rightarrow> (nat \<times> bytes) option" where
  "gathered op data [] = Some (op, data)"
| "gathered op data (Control _ # fs) = gathered op data fs"
| "gathered op data (Data fn op' key d # fs) = (if fn then None else gathered (next_op op op') (data @ d) fs)"

lemma gathered_length: "gathered op data fs = Some (op', data') \<Longrightarrow> length data \<le> length data'"
  by (induction op data fs rule: gathered.induct) (auto split: if_splits)

lemma recv_loop_gathers:
  assumes "reliable sys inp out" "m_isConnected sk" "list_all (frame_ok client) fs" "gathered op data fs = Some (op', data')"
    "length data' < max_size" "max_size \<le> 2 ^ 31" "inp (m_net sk) = concat (map wire fs) @ rest"
  shows "\<exists>w. recv_loop LE max_size client (SocketStream_ops sys) op data sk = recv_loop LE max_size client (SocketStream_ops sys) op' data' (sk\<lparr>m_net := w\<rparr>) \<and> inp w = rest"
  using assms(2-5,7)
proof (induction op data fs arbitrary: sk rule: gathered.induct)
  case (1 op data)
  then show ?case by (auto intro!: exI [of _ "m_net sk"])
next
  case (2 op data c fs)
  have ok: "c = PING \<or> c = PONG" and i: "inp (m_net sk) = wire (Control c) @ (concat (map wire fs) @ rest)" using "2.prems" by simp_all
  obtain w where w: "recv_frame LE max_size client (SocketStream_ops sys) op data sk = (Again op data, sk\<lparr>m_net := w\<rparr>)" "inp w = concat (map wire fs) @ rest"
    by (rule recv_frame_control [OF assms(1) "2.prems"(1) ok i])
  have "recv_loop LE max_size client (SocketStream_ops sys) op data sk = recv_loop LE max_size client (SocketStream_ops sys) op data (sk\<lparr>m_net := w\<rparr>)"
    using w(1) by (subst recv_loop.simps) simp
  then show ?case using "2.IH" [of "sk\<lparr>m_net := w\<rparr>"] "2.prems" w(2) by auto
next
  case (3 op data fn o' key d fs)
  have ok: "frame_ok client (Data fn o' key d)" and i: "inp (m_net sk) = wire (Data fn o' key d) @ (concat (map wire fs) @ rest)" and fn: "\<not> fn"
    using "3.prems" by (simp_all split: if_splits)
  have len: "length data + length d < max_size"
    using "3.prems"(3,4) fn gathered_length [of "next_op op o'" "data @ d" fs op' data'] by simp
  obtain w where w: "recv_frame LE max_size client (SocketStream_ops sys) op data sk =
      (if fn then Done \<lparr>m_opcode = next_op op o', m_data = data @ d\<rparr> else Again (next_op op o') (data @ d), sk\<lparr>m_net := w\<rparr>)"
      "inp w = concat (map wire fs) @ rest"
    by (rule recv_frame_data [OF assms(1) "3.prems"(1) ok i len assms(6)])
  have "recv_loop LE max_size client (SocketStream_ops sys) op data sk =
      recv_loop LE max_size client (SocketStream_ops sys) (next_op op o') (data @ d) (sk\<lparr>m_net := w\<rparr>)"
    using w(1) fn by (subst recv_loop.simps) simp
  then show ?case using "3.IH" [of "sk\<lparr>m_net := w\<rparr>"] "3.prems" w(2) fn by auto
qed

lemma recv_head:
  assumes "reliable sys inp out" "m_isConnected sk" "inp (m_net sk) = head_bytes LE h @ rest" "opcode h < 16" "payload h < 128"
  obtains w where "readFixSize (s_read (SocketStream_ops sys)) 2 sk = ((2, head_bytes LE h), sk\<lparr>m_net := w\<rparr>)" "head_of LE (head_bytes LE h) = h" "inp w = rest"
proof -
  note h = head_of_bytes [OF assms(4,5)]
  have lt: "length (head_bytes LE h) < 2 ^ 31" unfolding h(2) by simp
  obtain w where w: "readFixSize (SocketStream_read sys) (length (head_bytes LE h)) sk = ((int (length (head_bytes LE h)), head_bytes LE h), sk\<lparr>m_net := w\<rparr>)" "inp w = rest"
    by (rule readFixSize_reliable [OF assms(1-3) lt])
  show thesis using that [of w] w h by (simp add: SocketStream_ops_def)
qed

text \<open>
  A frame that a receiver must not accept when it has \<open>n\<close> bytes of the message: a data frame that is not masked, for a server; one that makes the message as long
  as the limit or longer; a \<^verbatim>\<open>CLOSE\<close> frame.
\<close>

primrec unacceptable :: "bool \<Rightarrow> nat \<Rightarrow> nat \<Rightarrow> ws_frame \<Rightarrow> bool" where
  "unacceptable client max_size n (Data fn op key d) \<longleftrightarrow> op \<in> {CONTINUE, TEXT_FRAME, BIN_FRAME} \<and> length d < 2 ^ 63 \<and> (\<not> client \<and> key = None \<or> max_size \<le> n + length d)"
| "unacceptable client max_size n (Control op) \<longleftrightarrow> op = CLOSE"

lemma unacceptable_breaks:
  assumes "reliable sys inp out" "m_isConnected sk" "unacceptable client max_size (length data) f" "length data < 2 ^ 31" "inp (m_net sk) = wire f @ rest"
  obtains sk' where "recv_frame LE max_size client (SocketStream_ops sys) op data sk = (Broken, sk')"
proof (cases f)
  case (Control c)
  let ?h = "zero_head\<lparr>fin := True, opcode := CLOSE\<rparr>"
  have h: "opcode ?h < 16" "payload ?h < 128" "opcode ?h = CLOSE" by (simp_all add: zero_head_def opcodes)
  obtain w where w: "readFixSize (s_read (SocketStream_ops sys)) 2 sk = ((2, head_bytes LE ?h), sk\<lparr>m_net := w\<rparr>)" "head_of LE (head_bytes LE ?h) = ?h"
    by (rule recv_head [OF assms(1,2) _ h(1,2)]) (use assms(3,5) Control in auto)
  show thesis by (rule that [of "sk\<lparr>m_net := w\<rparr>"]) (use w h(3) in \<open>simp add: recv_frame_def opcodes\<close>)
next
  case (Data fn op' key d)
  let ?h = "frame_head fn op' (key \<noteq> None) (length d)" and ?d = "case key of None \<Rightarrow> d | Some k \<Rightarrow> k @ xor_mask k d"
  have o: "op' \<in> {CONTINUE, TEXT_FRAME, BIN_FRAME}" and l: "length d < 2 ^ 63" and bad: "\<not> client \<and> key = None \<or> max_size \<le> length data + length d"
    using assms(3) Data by simp_all
  have h: "opcode ?h = op'" "mask ?h = (key \<noteq> None)" "payload ?h < 128" "payload ?h = payload_code (length d)" using payload_code_less by (simp_all add: frame_head_def zero_head_def)
  have "inp (m_net sk) = head_bytes LE ?h @ (len_bytes (length d) @ ?d @ rest)" "opcode ?h < 16" using o h(1) assms(5) Data by (auto simp: frame_bytes_def opcodes)
  then obtain w where w: "readFixSize (s_read (SocketStream_ops sys)) 2 sk = ((2, head_bytes LE ?h), sk\<lparr>m_net := w\<rparr>)" "head_of LE (head_bytes LE ?h) = ?h"
      "inp w = len_bytes (length d) @ ?d @ rest"
    by (rule recv_head [OF assms(1,2) _ _ h(3)])
  have ops: "op' \<noteq> PING" "op' \<noteq> PONG" "op' = CONTINUE \<or> op' = TEXT_FRAME \<or> op' = BIN_FRAME" using o by (auto simp: opcodes)
  have step: "recv_frame LE max_size client (SocketStream_ops sys) op data sk =
      (if \<not> client \<and> key = None then (Broken, sk\<lparr>m_net := w\<rparr>) else recv_data LE max_size (SocketStream_ops sys) ?h op data (sk\<lparr>m_net := w\<rparr>))"
    unfolding recv_frame_def w(1) Let_def prod.case w(2) h(1,2) using ops by simp
  show thesis
  proof (cases "\<not> client \<and> key = None")
    case True
    then show ?thesis using that step by simp
  next
    case False
    have c: "m_isConnected (sk\<lparr>m_net := w\<rparr>)" "inp (m_net (sk\<lparr>m_net := w\<rparr>)) = len_bytes (length d) @ (?d @ rest)" "length d < 2 ^ 64"
      using assms(2) w(3) l by simp_all
    obtain w' where w': "recv_length LE (SocketStream_ops sys) (payload_code (length d)) (sk\<lparr>m_net := w\<rparr>) = (Some (length d), sk\<lparr>m_net := w\<rparr>\<lparr>m_net := w'\<rparr>)"
      by (rule recv_length_reliable [OF assms(1) c])
    have "(length data + length d) mod 2 ^ 64 = length data + length d" using l assms(4) by (intro mod_less) simp
    then have "recv_data LE max_size (SocketStream_ops sys) ?h op data (sk\<lparr>m_net := w\<rparr>) = (Broken, sk\<lparr>m_net := w'\<rparr>)"
      using w' bad False h(4) by (simp add: recv_data_def)
    then show ?thesis using that step False by simp
  qed
qed



text \<open>On a big-endian host the header of a text frame is not what the protocol says, although the length is converted.\<close>

lemma ws_big_endian_head: "head_bytes SYLAR_LITTLE_ENDIAN (frame_head True TEXT_FRAME False 1) = [0x81, 1]" "head_bytes SYLAR_BIG_ENDIAN (frame_head True TEXT_FRAME False 1) = [0x11, 2]"
  by (simp_all add: head_bytes_def frame_head_def zero_head_def payload_code_def flag_def opcodes)

text \<open>An empty message cannot be sent: \<^verbatim>\<open>writeFixSize\<close> of no bytes returns 0, which is taken for an error, so the connection is closed.\<close>

lemma ws_empty_message_closes:
  assumes "reliable sys inp out" "m_isConnected sk" "m_opcode msg < 16" "m_data msg = []"
  shows "\<exists>sk'. WSSendMessage LE r (SocketStream_ops sys) msg False fn sk = ((- 1, msg), sk') \<and> \<not> m_isConnected sk'"
proof -
  let ?h = "frame_head fn (m_opcode msg) False 0"
  have "opcode ?h < 16" "payload ?h < 128" using assms(3) by (simp_all add: frame_head_def zero_head_def payload_code_def)
  note h = head_of_bytes [OF this]
  have lt: "length (head_bytes LE ?h) < 2 ^ 31" unfolding h(2) by simp
  obtain w where w: "writeFixSize (SocketStream_write sys) (head_bytes LE ?h) sk = (int (length (head_bytes LE ?h)), sk\<lparr>m_net := w\<rparr>)"
    by (rule writeFixSize_reliable [OF assms(1,2) lt])
  have "writeFixSize (SocketStream_write sys) [] s = (0, s)" for s
    by (simp add: writeFixSize_def write_left.simps int32_def)
  then have "WSSendMessage LE r (SocketStream_ops sys) msg False fn sk = ((- 1, msg), SocketStream_close sys (sk\<lparr>m_net := w\<rparr>))"
    using w h(2) assms(3,4) by (simp add: WSSendMessage_def then_write_def send_length_def payload_code_def SocketStream_ops_def frame_head_def)
  moreover have "\<not> m_isConnected (SocketStream_close sys (sk\<lparr>m_net := w\<rparr>))" by (auto simp: SocketStream_close_def Socket_close_def Let_def)
  ultimately show ?thesis by blast
qed

text \<open>A client's ping carries a masking key, which the receiver takes for the next frame header: after it the stream is out of step.\<close>

declare recv_loop.simps [code]

lemma ws_masked_ping_out_of_step:
  "WSRecvMessage SYLAR_LITTLE_ENDIAN 100 False (SocketStream_ops (pieces 3))
     (connected (head_bytes LE (zero_head\<lparr>fin := True, opcode := PING, mask := True\<rparr>) @ [136, 0, 0, 0] @ frame_bytes True 1 (Some [0, 0, 0, 0]) [65], [])) =
   Some (None, \<lparr>m_isConnected = False, m_sock = False, m_net = ([0, 0] @ frame_bytes True 1 (Some [0, 0, 0, 0]) [65], head_bytes LE (zero_head\<lparr>fin := True, opcode := PONG\<rparr>))\<rparr>)"
  by code_simp

end
