(* ===== verification/ZlibStream.thy ===== *)
theory ZlibStream
  imports ByteArray_Codec
begin

text \<open>
  \<^verbatim>\<open>sylar/streams/zlib_stream.cc\<close>: compression and decompression into a chain of buffers of \<^verbatim>\<open>m_buffSize\<close> bytes. The zlib library
  is a parameter: \<open>z_input\<close> gives it the next piece of input, \<open>z_step\<close> is a call of \<^verbatim>\<open>deflate\<close> or \<^verbatim>\<open>inflate\<close> with so many
  bytes of room, which says what was written. The loops of \<^verbatim>\<open>encode\<close> and \<^verbatim>\<open>decode\<close> differ only in that call.
\<close>

record 'z zlib =
  z_input :: "bytes \<Rightarrow> 'z \<Rightarrow> 'z"
  z_step :: "nat \<Rightarrow> bool \<Rightarrow> 'z \<Rightarrow> (int \<times> bytes) \<times> 'z"

definition Z_OK :: int where "Z_OK = 0"
definition Z_STREAM_ERROR :: int where "Z_STREAM_ERROR = - 2"

record 'z ZlibStream =
  m_buffSize :: nat
  m_encode :: bool
  m_buffs :: "bytes list"
  m_zstream :: 'z

definition new_ZlibStream :: "bool \<Rightarrow> nat \<Rightarrow> 'z \<Rightarrow> 'z ZlibStream" where
  "new_ZlibStream enc buff_size z = \<lparr>m_buffSize = buff_size, m_encode = enc, m_buffs = [], m_zstream = z\<rparr>"

text \<open>The last buffer if there is room in it, else a new one.\<close>

definition with_room :: "'z ZlibStream \<Rightarrow> bytes list" where
  "with_room zs = (if m_buffs zs \<noteq> [] \<and> length (last (m_buffs zs)) \<noteq> m_buffSize zs then m_buffs zs else m_buffs zs @ [[]])"

partial_function (option) z_loop :: "'z zlib \<Rightarrow> bool \<Rightarrow> 'z ZlibStream \<Rightarrow> (int \<times> 'z ZlibStream) option" where
  "z_loop zl fl zs =
     (let buffs = with_room zs; ivc = last buffs; avail = m_buffSize zs - length ivc;
          ((ret, bs), z) = z_step zl avail fl (m_zstream zs) in
      if ret = Z_STREAM_ERROR then Some (ret, zs\<lparr>m_buffs := buffs, m_zstream := z\<rparr>)
      else let zs = zs\<lparr>m_buffs := butlast buffs @ [ivc @ bs], m_zstream := z\<rparr> in
        if length bs = avail then z_loop zl fl zs else Some (Z_OK, zs))"

declare z_loop.simps [code]

text \<open>\<^verbatim>\<open>avail_in\<close> has 32 bits: of a longer segment only the remainder modulo \<open>2 ^ 32\<close> is handed over.\<close>

definition avail_in :: "bytes \<Rightarrow> bytes" where
  "avail_in v = take (length v mod 2 ^ 32) v"

fun z_code :: "'z zlib \<Rightarrow> bool \<Rightarrow> bytes list \<Rightarrow> 'z ZlibStream \<Rightarrow> (int \<times> 'z ZlibStream) option" where
  "z_code zl finish [] zs = Some (Z_OK, zs)"
| "z_code zl finish (v # vs) zs =
     (case z_loop zl (finish \<and> vs = []) (zs\<lparr>m_zstream := z_input zl (avail_in v) (m_zstream zs)\<rparr>) of
        None \<Rightarrow> None
      | Some (ret, zs) \<Rightarrow> if ret = Z_STREAM_ERROR then Some (ret, zs) else z_code zl finish vs zs)"

definition ZlibStream_encode :: "'z zlib \<Rightarrow> bytes list \<Rightarrow> bool \<Rightarrow> 'z ZlibStream \<Rightarrow> (int \<times> 'z ZlibStream) option" where
  "ZlibStream_encode deflate v finish zs = z_code deflate finish v zs"

definition ZlibStream_decode :: "'z zlib \<Rightarrow> bytes list \<Rightarrow> bool \<Rightarrow> 'z ZlibStream \<Rightarrow> (int \<times> 'z ZlibStream) option" where
  "ZlibStream_decode inflate v finish zs = z_code inflate finish v zs"

definition ZlibStream_write :: "'z zlib \<Rightarrow> bytes \<Rightarrow> 'z ZlibStream \<Rightarrow> (int \<times> 'z ZlibStream) option" where
  "ZlibStream_write zl bs zs = (if m_encode zs then ZlibStream_encode zl [bs] False zs else ZlibStream_decode zl [bs] False zs)"

definition ZlibStream_write_ba :: "'z zlib \<Rightarrow> bytearray \<Rightarrow> nat \<Rightarrow> 'z ZlibStream \<Rightarrow> failure + (int \<times> 'z ZlibStream) option" where
  "ZlibStream_write_ba zl ba len zs =
     (case getReadBuffers [] len ba of Inl e \<Rightarrow> Inl e
      | Inr (buffers, _) \<Rightarrow>
          if buffers = [] then Inl Undefined
          else let v = map (iov_bytes (m_nodes ba)) buffers
               in Inr (if m_encode zs then ZlibStream_encode zl v False zs else ZlibStream_decode zl v False zs))"

definition ZlibStream_flush :: "'z zlib \<Rightarrow> 'z ZlibStream \<Rightarrow> (int \<times> 'z ZlibStream) option" where
  "ZlibStream_flush zl zs = (if m_encode zs then ZlibStream_encode zl [[]] True zs else ZlibStream_decode zl [[]] True zs)"

definition ZlibStream_getResult :: "'z ZlibStream \<Rightarrow> bytes" where
  "ZlibStream_getResult zs = concat (m_buffs zs)"

primrec write_all :: "bytes list \<Rightarrow> (bytearray, unit) action" where
  "write_all [] = returnE ()"
| "write_all (b # bs) = bindE (write_bytes b) (\<lambda>_. write_all bs)"

definition ZlibStream_getByteArray :: "'z ZlibStream \<Rightarrow> failure + bytearray" where
  "ZlibStream_getByteArray zs =
     (case bindE (write_all (m_buffs zs)) (\<lambda>_. setPosition 0) (new_ByteArray 4096) of
        (Inl e, _) \<Rightarrow> Inl e | (Inr _, ba) \<Rightarrow> Inr ba)"

lemmas zlib_calls = ZlibStream_encode_def ZlibStream_decode_def

section \<open>What is relied on\<close>

text \<open>
  How zlib may be used: a stream starts fresh; input is supplied when the previous input is used up, which is so when a call has left room
  in the output buffer; after the first call with \<^verbatim>\<open>Z_FINISH\<close> all calls have it, and no more input is supplied. \<open>z_reach\<close> relates the states
  that are reached this way to all input \<open>x\<close> and all output \<open>y\<close> so far.
\<close>

datatype z_phase = Ready | Busy | Finishing

inductive z_reach :: "'z zlib \<Rightarrow> 'z \<Rightarrow> 'z \<Rightarrow> bytes \<Rightarrow> bytes \<Rightarrow> z_phase \<Rightarrow> bool" for zl z0 where
  fresh: "z_reach zl z0 z0 [] [] Ready"
| input: "z_reach zl z0 z x y Ready \<Longrightarrow> z_reach zl z0 (z_input zl bs z) (x @ bs) y Busy"
| call: "z_reach zl z0 z x y Busy \<Longrightarrow> 0 < n \<Longrightarrow> z_step zl n False z = ((r, bs), z') \<Longrightarrow>
    z_reach zl z0 z' x (y @ bs) (if length bs < n then Ready else Busy)"
| finish: "z_reach zl z0 z x y p \<Longrightarrow> p \<noteq> Ready \<Longrightarrow> 0 < n \<Longrightarrow> z_step zl n True z = ((r, bs), z') \<Longrightarrow> z_reach zl z0 z' x (y @ bs) Finishing"

text \<open>
  What zlib promises for such use, with input that is the beginning of one it accepts (\<open>valid\<close>: anything for \<^verbatim>\<open>deflate\<close>, complete streams for
  \<^verbatim>\<open>inflate\<close>): calls do not report \<^verbatim>\<open>Z_STREAM_ERROR\<close> and write at most as much as there is room for; for given input the output is bounded; and a
  call with \<^verbatim>\<open>Z_FINISH\<close> that leaves room completes an image of the whole input. \<open>R x y\<close> says that \<open>y\<close> is one: for \<^verbatim>\<open>deflate\<close>, any stream that
  decodes to \<open>x\<close> (which one may depend on how the input and the room were cut); for \<^verbatim>\<open>inflate\<close>, that \<open>x\<close> decodes to \<open>y\<close>.
\<close>

definition codes :: "'z zlib \<Rightarrow> 'z \<Rightarrow> (bytes \<Rightarrow> bool) \<Rightarrow> (bytes \<Rightarrow> bytes \<Rightarrow> bool) \<Rightarrow> bool" where
  "codes zl z0 valid R \<longleftrightarrow>
     (\<forall>z x y p fl n r bs z'. z_reach zl z0 z x y p \<and> p \<noteq> Ready \<and> (p = Finishing \<longrightarrow> fl) \<and> (\<exists>s. valid (x @ s)) \<and> 0 < n \<and> z_step zl n fl z = ((r, bs), z') \<longrightarrow>
        r \<noteq> Z_STREAM_ERROR \<and> length bs \<le> n \<and> (fl \<and> valid x \<and> length bs < n \<longrightarrow> R x (y @ bs))) \<and>
     (\<exists>B. \<forall>z x y p. z_reach zl z0 z x y p \<and> (\<exists>s. valid (x @ s)) \<longrightarrow> length y \<le> B x)"

definition zs_wf :: "'z ZlibStream \<Rightarrow> bool" where
  "zs_wf zs \<longleftrightarrow> 0 < m_buffSize zs \<and> list_all (\<lambda>b. length b \<le> m_buffSize zs) (m_buffs zs)"

lemma with_room:
  assumes "zs_wf zs"
  shows "with_room zs \<noteq> []" "length (last (with_room zs)) < m_buffSize zs" "concat (with_room zs) = concat (m_buffs zs)"
    "list_all (\<lambda>b. length b \<le> m_buffSize zs) (butlast (with_room zs))"
proof -
  have "length (last (m_buffs zs)) \<le> m_buffSize zs" if "m_buffs zs \<noteq> []"
    using assms that by (simp add: zs_wf_def list_all_iff)
  then show "length (last (with_room zs)) < m_buffSize zs"
    using assms by (auto simp: with_room_def zs_wf_def)
  show "list_all (\<lambda>b. length b \<le> m_buffSize zs) (butlast (with_room zs))"
    using assms by (auto simp: with_room_def zs_wf_def list_all_iff dest: in_set_butlastD)
qed (auto simp: with_room_def)

lemma concat_butlast: "xs \<noteq> [] \<Longrightarrow> concat (butlast xs @ [last xs @ ys]) = concat xs @ ys"
  by (metis append.assoc append_butlast_last_id concat.simps(2) concat_append concat.simps(1) append_Nil2)

lemma z_loop_codes:
  assumes zl: "codes zl z0 valid R" and wf: "zs_wf zs" and re: "z_reach zl z0 (m_zstream zs) x (concat (m_buffs zs)) p"
    and p: "p \<noteq> Ready" "p = Finishing \<longrightarrow> fl" and v: "\<exists>s. valid (x @ s)"
  shows "\<exists>zs'. z_loop zl fl zs = Some (Z_OK, zs') \<and> zs_wf zs' \<and> z_reach zl z0 (m_zstream zs') x (concat (m_buffs zs')) (if fl then Finishing else Ready) \<and>
    (fl \<and> valid x \<longrightarrow> R x (concat (m_buffs zs')))"
proof -
  obtain B where B: "\<And>z y p. z_reach zl z0 z x y p \<Longrightarrow> length y \<le> B x" using zl v unfolding codes_def by blast
  show ?thesis using wf re p
  proof (induction "B x - length (concat (m_buffs zs))" arbitrary: zs p rule: less_induct)
    case less
    let ?b = "with_room zs" and ?z = "m_zstream zs" and ?y = "concat (m_buffs zs)"
    note w = with_room [OF less.prems(1)]
    let ?n = "m_buffSize zs - length (last ?b)"
    have n: "0 < ?n" using w(2) by simp
    obtain ret bs z where s: "z_step zl ?n fl ?z = ((ret, bs), z)" by (metis prod.exhaust)
    have c: "ret \<noteq> Z_STREAM_ERROR" "length bs \<le> ?n" "fl \<and> valid x \<and> length bs < ?n \<longrightarrow> R x (?y @ bs)"
      using zl less.prems(2-4) v n s unfolding codes_def by blast+
    define zs1 where "zs1 = zs\<lparr>m_buffs := butlast ?b @ [last ?b @ bs], m_zstream := z\<rparr>"
    define q where "q = (if fl then Finishing else if length bs < ?n then Ready else Busy)"
    have wf1: "zs_wf zs1" using w(2,4) less.prems(1) c(2) by (auto simp: zs_wf_def zs1_def)
    have c1: "concat (m_buffs zs1) = ?y @ bs" using concat_butlast [OF w(1), of bs] w(3) by (simp add: zs1_def)
    have pb: "\<not> fl \<Longrightarrow> p = Busy" using less.prems(3,4) by (cases p) auto
    have re0: "z_reach zl z0 z x (?y @ bs) q"
    proof (cases fl)
      case True
      then show ?thesis using z_reach.finish [OF less.prems(2,3) n, of ret bs z] s by (simp add: q_def)
    next
      case False
      then show ?thesis using z_reach.call [OF _ n, of zl z0 ?z x ?y ret bs z] less.prems(2) pb s by (simp add: q_def)
    qed
    then have re1: "z_reach zl z0 (m_zstream zs1) x (concat (m_buffs zs1)) q" unfolding c1 by (simp add: zs1_def)
    have run: "z_loop zl fl zs = (if length bs = ?n then z_loop zl fl zs1 else Some (Z_OK, zs1))"
      using s c(1) by (subst z_loop.simps) (simp add: zs1_def Let_def)
    show ?case
    proof (cases "length bs = ?n")
      case True
      have "length (concat (m_buffs zs1)) \<le> B x" by (rule B [OF re1])
      then have "B x - length (concat (m_buffs zs1)) < B x - length ?y" using True n c1 by simp
      moreover have "q \<noteq> Ready" "q = Finishing \<longrightarrow> fl" using True by (simp_all add: q_def)
      ultimately show ?thesis using less.hyps [OF _ wf1 re1] run True by simp
    next
      case False
      then show ?thesis using run wf1 re1 c c1 by (auto simp: q_def)
    qed
  qed
qed

lemma avail_in_small: "length v < 2 ^ 32 \<Longrightarrow> avail_in v = v"
  by (simp add: avail_in_def)

lemma z_code_codes:
  assumes zl: "codes zl z0 valid R" and "zs_wf zs" "z_reach zl z0 (m_zstream zs) x (concat (m_buffs zs)) Ready"
    and "\<forall>v \<in> set vs. length v < 2 ^ 32" "\<exists>s. valid (x @ concat vs @ s)"
  shows "\<exists>zs'. z_code zl finish vs zs = Some (Z_OK, zs') \<and> zs_wf zs' \<and>
    z_reach zl z0 (m_zstream zs') (x @ concat vs) (concat (m_buffs zs')) (if finish \<and> vs \<noteq> [] then Finishing else Ready) \<and>
    (finish \<and> vs \<noteq> [] \<and> valid (x @ concat vs) \<longrightarrow> R (x @ concat vs) (concat (m_buffs zs')))"
  using assms(2-5)
proof (induction vs arbitrary: zs x)
  case (Cons v vs)
  let ?zs = "zs\<lparr>m_zstream := z_input zl v (m_zstream zs)\<rparr>" and ?fl = "finish \<and> vs = []"
  have a: "avail_in v = v" using Cons.prems(3) by (simp add: avail_in_small)
  have "zs_wf ?zs" using Cons.prems(1) by (simp add: zs_wf_def)
  moreover have "z_reach zl z0 (m_zstream ?zs) (x @ v) (concat (m_buffs ?zs)) Busy" using z_reach.input [OF Cons.prems(2)] by simp
  moreover have ex: "\<exists>s. valid ((x @ v) @ s)" using Cons.prems(4) by auto
  ultimately obtain zs1 where z1: "z_loop zl ?fl ?zs = Some (Z_OK, zs1)" "zs_wf zs1"
      "z_reach zl z0 (m_zstream zs1) (x @ v) (concat (m_buffs zs1)) (if ?fl then Finishing else Ready)" "?fl \<and> valid (x @ v) \<longrightarrow> R (x @ v) (concat (m_buffs zs1))"
    using z_loop_codes [OF zl, of ?zs "x @ v" Busy ?fl] by auto
  have "Z_OK \<noteq> Z_STREAM_ERROR" by (simp add: Z_OK_def Z_STREAM_ERROR_def)
  then have run: "z_code zl finish (v # vs) zs = z_code zl finish vs zs1" using z1(1) a by simp
  show ?case
  proof (cases "vs = []")
    case True
    then show ?thesis using run z1 by (cases finish) auto
  next
    case False
    then have "z_reach zl z0 (m_zstream zs1) (x @ v) (concat (m_buffs zs1)) Ready" using z1(3) by simp
    from Cons.IH [OF z1(2) this] Cons.prems(3,4) run False show ?thesis by auto
  qed
qed auto

section \<open>Compressing a ByteArray\<close>

lemma writes_all: "ba.writes m (write_all bss) (concat bss)"
proof (induction bss)
  case (Cons b bss)
  then show ?case using ba.writes_bind [OF ba.writes_put Cons.IH] by simp
next
  case Nil
  then show ?case by (auto simp: ba.writes_def returnE_def store_def)
qed

lemma getByteArray_correct:
  obtains ba where "ZlibStream_getByteArray zs = Inr ba" "wf_ba ba" "contents ba = concat (m_buffs zs)" "m_position ba = 0" "m_endian ba = SYLAR_BIG_ENDIAN"
proof -
  have wf: "wf_ba (new_ByteArray 4096)" by (rule wf_new_ByteArray) simp
  have e: "contents (new_ByteArray 4096) = []" "m_position (new_ByteArray 4096) = 0" "m_endian (new_ByteArray 4096) = SYLAR_BIG_ENDIAN"
    by (simp_all add: new_ByteArray_def contents_def)
  obtain ba1 where 1: "write_all (m_buffs zs) (new_ByteArray 4096) = (Inr (), ba1)" "wf_ba ba1" "contents ba1 = concat (m_buffs zs)" "m_endian ba1 = SYLAR_BIG_ENDIAN"
    by (rule ba.writesD [OF writes_all wf refl]) (use e in \<open>auto simp: store_def\<close>)
  obtain ba where "setPosition 0 ba1 = (Inr (), ba)" "wf_ba ba" "contents ba = contents ba1" "m_position ba = 0" "m_endian ba = m_endian ba1"
    using setPosition_refines [OF 1(2), of 0] by auto
  then show thesis using that 1 by (simp add: ZlibStream_getByteArray_def bindE_def)
qed

lemma fresh_stream: "0 < bsz \<Longrightarrow> zs_wf (new_ZlibStream enc bsz z0)" "z_reach zl z0 (m_zstream (new_ZlibStream enc bsz z0)) [] (concat (m_buffs (new_ZlibStream enc bsz z0))) Ready"
  by (simp_all add: zs_wf_def new_ZlibStream_def z_reach.fresh)

text \<open>Writing the input in pieces and flushing.\<close>

lemma zlib_write_flush:
  assumes zl: "codes zl z0 valid R" and "0 < bsz" "\<forall>v \<in> set vs. length v < 2 ^ 32" "valid (concat vs)"
  obtains zs1 zs2 where "z_code zl False vs (new_ZlibStream enc bsz z0) = Some (Z_OK, zs1)" "ZlibStream_flush zl zs1 = Some (Z_OK, zs2)"
    "R (concat vs) (concat (m_buffs zs2))"
proof -
  have e: "\<exists>s. valid ([] @ concat vs @ s)" using assms(4) by (intro exI [of _ "[]"]) simp
  obtain zs1 where 1: "z_code zl False vs (new_ZlibStream enc bsz z0) = Some (Z_OK, zs1)" "zs_wf zs1" "z_reach zl z0 (m_zstream zs1) (concat vs) (concat (m_buffs zs1)) Ready"
    using z_code_codes [OF zl fresh_stream(1) [OF assms(2)] fresh_stream(2) assms(3) e, of False] by auto
  have "\<exists>s. valid (concat vs @ concat [[]] @ s)" using assms(4) by (intro exI [of _ "[]"]) simp
  then obtain zs2 where "z_code zl True [[]] zs1 = Some (Z_OK, zs2)" "R (concat vs) (concat (m_buffs zs2))"
    using z_code_codes [OF zl 1(2,3), of "[[]]" True] assms(4) by auto
  then show thesis using that 1(1) by (simp add: ZlibStream_flush_def zlib_calls)
qed

lemma zlib_pass:
  assumes zl: "codes zl z0 valid R" and wf: "wf_ba ba" and r: "0 < getReadSize ba" "m_size ba < 2 ^ 32" and b: "0 < bsz"
    and v: "valid (drop (m_position ba) (contents ba))"
  obtains zs1 zs2 ba' where "ZlibStream_write_ba zl ba (2 ^ 64 - 1) (new_ZlibStream enc bsz z0) = Inr (Some (Z_OK, zs1))"
    "ZlibStream_flush zl zs1 = Some (Z_OK, zs2)" "ZlibStream_getByteArray zs2 = Inr ba'" "wf_ba ba'" "m_position ba' = 0"
    "m_endian ba' = SYLAR_BIG_ENDIAN" "R (drop (m_position ba) (contents ba)) (contents ba')"
proof -
  let ?bs = "drop (m_position ba) (contents ba)"
  obtain vs where vs: "getReadBuffers [] (2 ^ 64 - 1) ba = Inr (vs, min (2 ^ 64 - 1) (getReadSize ba))"
    "concat (map (iov_bytes (m_nodes ba)) vs) = take (2 ^ 64 - 1) ?bs"
    using getReadBuffers_lends [OF wf, of "[]" "2 ^ 64 - 1"] by auto
  have len: "length ?bs = getReadSize ba" using length_contents [OF wf] by (simp add: getReadSize_def)
  have all: "concat (map (iov_bytes (m_nodes ba)) vs) = ?bs" using vs(2) r(2) len by (simp add: getReadSize_def)
  then have "vs \<noteq> []" using r(1) len by auto
  let ?vs = "map (iov_bytes (m_nodes ba)) vs"
  have "length v < 2 ^ 32" if "v \<in> set ?vs" for v
  proof -
    have "length v \<le> length (concat ?vs)" unfolding length_concat using that by (intro member_le_sum_list) auto
    then show ?thesis using r(2) len unfolding all by (simp add: getReadSize_def)
  qed
  then obtain zs1 zs2 where 1: "z_code zl False ?vs (new_ZlibStream enc bsz z0) = Some (Z_OK, zs1)" "ZlibStream_flush zl zs1 = Some (Z_OK, zs2)"
      "R (concat ?vs) (concat (m_buffs zs2))"
    using zlib_write_flush [OF zl b, of ?vs enc] v unfolding all by blast
  obtain ba' where "ZlibStream_getByteArray zs2 = Inr ba'" "wf_ba ba'" "R ?bs (contents ba')" "m_position ba' = 0" "m_endian ba' = SYLAR_BIG_ENDIAN"
    using 1(3) unfolding all by (metis getByteArray_correct)
  moreover have "ZlibStream_write_ba zl ba (2 ^ 64 - 1) (new_ZlibStream enc bsz z0) = Inr (Some (Z_OK, zs1))"
    using vs(1) \<open>vs \<noteq> []\<close> 1(1) by (simp add: ZlibStream_write_ba_def zlib_calls Let_def)
  ultimately show thesis using that 1(2) by blast
qed

section \<open>A coder for examples\<close>

text \<open>
  It keeps all input and produces the image of it under a function when it is told to finish, as much at a time as there is room for. As a format
  we take the bytes followed by a checksum and the number of bytes, as in the trailer of gzip.
\<close>

definition whole_coder :: "(bytes \<Rightarrow> bytes) \<Rightarrow> (bytes \<times> bytes option) zlib" where
  "whole_coder f = \<lparr>z_input = (\<lambda>bs (i, out). (i @ bs, out)),
     z_step = (\<lambda>n fl (i, out). if fl then (let y = (case out of None \<Rightarrow> f i | Some y \<Rightarrow> y) in ((if length y \<le> n then 1 else 0, take n y), (i, Some (drop n y))))
       else ((0, []), (i, out)))\<rparr>"

definition with_trailer :: "bytes \<Rightarrow> bytes" where
  "with_trailer bs = bs @ [sum_list bs, of_nat (length bs)]"

definition without_trailer :: "bytes \<Rightarrow> bytes" where
  "without_trailer bs = take (length bs - 2) bs"

lemma trailer_inverse: "without_trailer (with_trailer bs) = bs"
  by (simp add: without_trailer_def with_trailer_def)

lemma whole_coder_reach:
  "z_reach (whole_coder f) ([], None) z x y p \<Longrightarrow> fst z = x \<and> (if p = Finishing then \<exists>o'. snd z = Some o' \<and> y @ o' = f x else snd z = None \<and> y = [])"
proof (induction rule: z_reach.induct)
  case (input z x y bs)
  then show ?case by (cases z) (simp add: whole_coder_def)
next
  case (call z x y n r bs z')
  then show ?case by (cases z) (auto simp: whole_coder_def)
next
  case (finish z x y p n r bs z')
  then show ?case by (cases z) (auto simp: whole_coder_def Let_def split: if_splits)
qed simp

lemma codes_whole: "codes (whole_coder f) ([], None) valid (\<lambda>x y. y = f x)"
proof -
  have "r \<noteq> Z_STREAM_ERROR \<and> length bs \<le> n \<and> (fl \<and> length bs < n \<longrightarrow> y @ bs = f x)"
    if "z_reach (whole_coder f) ([], None) z x y p" "p \<noteq> Ready" "p = Finishing \<longrightarrow> fl" "0 < n" "z_step (whole_coder f) n fl z = ((r, bs), z')" for z x y p fl n r bs z'
    using whole_coder_reach [OF that(1)] that(2-5) by (cases z) (auto simp: whole_coder_def Z_STREAM_ERROR_def Let_def split: if_splits)
  moreover have "length y \<le> length (f x)" if "z_reach (whole_coder f) ([], None) z x y p" for z x y p
    using whole_coder_reach [OF that] by (metis le_add1 length_append list.size(3) zero_le)
  ultimately show ?thesis unfolding codes_def by (intro conjI allI impI exI [of _ "\<lambda>x. length (f x)"]) (elim conjE, blast)+
qed

text \<open>
  (C39) Compression and decompression streams: if zlib keeps its promise for streams that are used as the code uses them, then the loops over buffers of any
  positive size return after finitely many calls, and what was written in pieces (each shorter than \<open>2 ^ 32\<close> bytes) and then flushed gives an
  image of the whole input, if zlib accepts it: for compression, a stream that decodes to it, and for decompression, what it decodes to.
\<close>

theorem zlib_stream_result:
  assumes "codes zl z0 valid R" "0 < bsz" "\<forall>v \<in> set vs. length v < 2 ^ 32" "valid (concat vs)"
  shows "\<exists>zs1 zs2. z_code zl False vs (new_ZlibStream enc bsz z0) = Some (Z_OK, zs1) \<and> ZlibStream_flush zl zs1 = Some (Z_OK, zs2) \<and>
    R (concat vs) (ZlibStream_getResult zs2)"
  using zlib_write_flush [OF assms] by (metis ZlibStream_getResult_def)

theorem zlib_stream_result_witness:
  "\<exists>zs1 zs2. z_code (whole_coder with_trailer) False [[1, 2, 3], [4]] (new_ZlibStream True 2 ([], None)) = Some (Z_OK, zs1) \<and>
    ZlibStream_flush (whole_coder with_trailer) zs1 = Some (Z_OK, zs2) \<and> ZlibStream_getResult zs2 = [1, 2, 3, 4, 10, 4]"
  using zlib_stream_result [OF codes_whole [of with_trailer "\<lambda>_. True"], of 2 "[[1, 2, 3], [4]]" True] by (simp add: with_trailer_def)

end
