(* ===== verification/Rock.thy ===== *)
theory Rock
  imports NetStream ZlibStream
begin

text \<open>
  The rock protocol: messages of \<^verbatim>\<open>sylar/protocol.cc\<close> and \<^verbatim>\<open>sylar/rock/rock_protocol.cc\<close> in a \<^verbatim>\<open>ByteArray\<close>, and the decoder that frames
  them with a header, compresses long ones and transfers them over a stream.
\<close>

section \<open>Messages\<close>

datatype rock_message =
    RockRequest (rq_sn: u32) (rq_cmd: u32) (rq_body: bytes)
  | RockResponse (rs_sn: u32) (rs_cmd: u32) (rs_result: u32) (rs_resultStr: bytes) (rs_body: bytes)
  | RockNotify (rn_notify: u32) (rn_body: bytes)

definition REQUEST :: u8 where "REQUEST = 1"
definition RESPONSE :: u8 where "RESPONSE = 2"
definition NOTIFY :: u8 where "NOTIFY = 3"

primrec getType :: "rock_message \<Rightarrow> u8" where
  "getType (RockRequest _ _ _) = REQUEST"
| "getType (RockResponse _ _ _ _ _) = RESPONSE"
| "getType (RockNotify _ _) = NOTIFY"

definition createResponse :: "u32 \<Rightarrow> u32 \<Rightarrow> rock_message" where
  "createResponse sn cmd = RockResponse sn cmd 404 (map (of_nat \<circ> of_char) ''unhandle'') []"

text \<open>\<^verbatim>\<open>serializeToByteArray\<close> of \<^verbatim>\<open>Request\<close>, \<^verbatim>\<open>Response\<close>, \<^verbatim>\<open>Notify\<close> and \<^verbatim>\<open>RockBody\<close>.\<close>

definition Request_serialize :: "u8 \<Rightarrow> u32 \<Rightarrow> u32 \<Rightarrow> (bytearray, unit) action" where
  "Request_serialize ty sn cmd = bindE (writeFuint8 ty) (\<lambda>_. bindE (writeUint32 sn) (\<lambda>_. writeUint32 cmd))"

definition Response_serialize :: "u8 \<Rightarrow> u32 \<Rightarrow> u32 \<Rightarrow> u32 \<Rightarrow> bytes \<Rightarrow> (bytearray, unit) action" where
  "Response_serialize ty sn cmd result resultStr =
     bindE (writeFuint8 ty) (\<lambda>_. bindE (writeUint32 sn) (\<lambda>_. bindE (writeUint32 cmd) (\<lambda>_.
     bindE (writeUint32 result) (\<lambda>_. writeStringVint resultStr))))"

definition Notify_serialize :: "u8 \<Rightarrow> u32 \<Rightarrow> (bytearray, unit) action" where
  "Notify_serialize ty notify = bindE (writeFuint8 ty) (\<lambda>_. writeUint32 notify)"

definition RockBody_serialize :: "bytes \<Rightarrow> (bytearray, unit) action" where
  "RockBody_serialize body = writeStringVint body"

text \<open>A C++ exception, as opposed to a crash.\<close>

definition exn :: "failure \<Rightarrow> bool" where
  "exn e \<longleftrightarrow> e \<in> {OutOfRange, LogicError, InvalidArgument}"

definition catch_false :: "('s, 'a) action \<Rightarrow> ('a \<Rightarrow> 'b) \<Rightarrow> 'b \<Rightarrow> ('s, 'b) action" where
  "catch_false f ok bad s = (case f s of (Inr a, s) \<Rightarrow> (Inr (ok a), s) | (Inl e, s) \<Rightarrow> if exn e then (Inr bad, s) else (Inl e, s))"

definition serializeToByteArray :: "rock_message \<Rightarrow> (bytearray, bool) action" where
  "serializeToByteArray msg =
     catch_false
       (case msg of
          RockRequest sn cmd body \<Rightarrow> bindE (Request_serialize (getType msg) sn cmd) (\<lambda>_. RockBody_serialize body)
        | RockResponse sn cmd result resultStr body \<Rightarrow> bindE (Response_serialize (getType msg) sn cmd result resultStr) (\<lambda>_. RockBody_serialize body)
        | RockNotify notify body \<Rightarrow> bindE (Notify_serialize (getType msg) notify) (\<lambda>_. RockBody_serialize body))
       (\<lambda>_. True) False"

definition RockBody_parse :: "(bytearray, bytes) action" where
  "RockBody_parse = readStringVint"

definition parse_request :: "(bytearray, rock_message) action" where
  "parse_request = bindE readUint32 (\<lambda>sn. bindE readUint32 (\<lambda>cmd. bindE RockBody_parse (\<lambda>body. returnE (RockRequest sn cmd body))))"

definition parse_response :: "(bytearray, rock_message) action" where
  "parse_response = bindE readUint32 (\<lambda>sn. bindE readUint32 (\<lambda>cmd. bindE readUint32 (\<lambda>result.
     bindE readStringVint (\<lambda>resultStr. bindE RockBody_parse (\<lambda>body. returnE (RockResponse sn cmd result resultStr body))))))"

definition parse_notify :: "(bytearray, rock_message) action" where
  "parse_notify = bindE readUint32 (\<lambda>notify. bindE RockBody_parse (\<lambda>body. returnE (RockNotify notify body)))"

text \<open>\<^verbatim>\<open>parseFromByteArray\<close> of the message object of that type; \<open>None\<close> if it returns false.\<close>

definition parseFromByteArray :: "(bytearray, rock_message) action \<Rightarrow> (bytearray, rock_message option) action" where
  "parseFromByteArray p = catch_false p Some None"

definition toByteArray :: "rock_message \<Rightarrow> failure + bytearray" where
  "toByteArray msg = (case serializeToByteArray msg (new_ByteArray 4096) of (Inl e, _) \<Rightarrow> Inl e
     | (Inr True, ba) \<Rightarrow> Inr ba | (Inr False, _) \<Rightarrow> Inl NullDeref)"

section \<open>The decoder\<close>

text \<open>\<open>gz\<close> and \<open>gz0\<close> are the zlib library and the state of a fresh stream, for compression or decompression.\<close>

definition header_bytes :: "byte_order \<Rightarrow> u8 \<Rightarrow> 32 word \<Rightarrow> bytes" where
  "header_bytes host flg len = [0xab, 0xcd, 1, flg] @ mem host 4 len"

definition zlib_body :: "bool \<Rightarrow> 'z zlib \<Rightarrow> 'z \<Rightarrow> bytearray \<Rightarrow> failure + ((int, bytearray) sum) option" where
  "zlib_body enc gz gz0 ba =
     (case ZlibStream_write_ba gz ba (2 ^ 64 - 1) (new_ZlibStream enc 4096 gz0) of Inl e \<Rightarrow> Inl e
      | Inr None \<Rightarrow> Inr None
      | Inr (Some (r, zs)) \<Rightarrow>
          if r \<noteq> Z_OK then Inr (Some (Inl (- 1)))
          else case ZlibStream_flush gz zs of None \<Rightarrow> Inr None
            | Some (r, zs) \<Rightarrow>
                if r \<noteq> Z_OK then Inr (Some (Inl (- 2)))
                else case ZlibStream_getByteArray zs of Inl e \<Rightarrow> Inl e | Inr ba \<Rightarrow> Inr (Some (Inr ba)))"

definition send_rock :: "byte_order \<Rightarrow> 'w syscalls \<Rightarrow> u8 \<Rightarrow> bytearray \<Rightarrow> ('w sock, int) action" where
  "send_rock host sys flg ba sk =
     (let len = byteswapOnLittleEndian host byteswap32 (of_nat (getSize ba));
          (n, sk) = writeFixSize (SocketStream_write sys) (header_bytes host flg len) sk in
      if n \<le> 0 then (Inr (- 3), sk)
      else case writeFixSize_ba (SocketStream_write_ba sys) (getReadSize ba) (sk, ba) of
             (Inl e, sk, _) \<Rightarrow> (Inl e, sk)
           | (Inr n, sk, ba) \<Rightarrow> if n \<le> 0 then (Inr (- 4), sk) else (Inr (int32 (8 + int (getSize ba))), sk))"

text \<open>\<open>None\<close> is a call that does not return.\<close>

definition serializeTo :: "byte_order \<Rightarrow> nat \<Rightarrow> 'z zlib \<Rightarrow> 'z \<Rightarrow> 'w syscalls \<Rightarrow> rock_message \<Rightarrow> 'w sock \<Rightarrow> ((failure + int) \<times> 'w sock) option" where
  "serializeTo host gzip_min gz gz0 sys msg sk =
     (case toByteArray msg of Inl e \<Rightarrow> Some (Inl e, sk)
      | Inr ba \<Rightarrow>
          (case setPosition 0 ba of (Inl e, _) \<Rightarrow> Some (Inl e, sk)
           | (Inr _, ba) \<Rightarrow>
               if gzip_min \<le> getSize ba mod 2 ^ 32
               then case zlib_body True gz gz0 ba of Inl e \<Rightarrow> Some (Inl e, sk)
                    | Inr None \<Rightarrow> None
                    | Inr (Some (Inl r)) \<Rightarrow> Some (Inr r, sk)
                    | Inr (Some (Inr ba)) \<Rightarrow> Some (send_rock host sys 1 ba sk)
               else Some (send_rock host sys 0 ba sk)))"

definition parse_body :: "bytearray \<Rightarrow> failure + rock_message option" where
  "parse_body ba =
     (case readFuint8 ba of (Inl e, _) \<Rightarrow> if exn e then Inr None else Inl e
      | (Inr ty, ba) \<Rightarrow>
          if ty = REQUEST then fst (parseFromByteArray parse_request ba)
          else if ty = RESPONSE then fst (parseFromByteArray parse_response ba)
          else if ty = NOTIFY then fst (parseFromByteArray parse_notify ba)
          else Inr None)"

definition or_null :: "failure + 'a option \<Rightarrow> failure + 'a option" where
  "or_null r = (case r of Inl e \<Rightarrow> if exn e then Inr None else Inl e | Inr x \<Rightarrow> Inr x)"

text \<open>A length with the sign bit set becomes a negative \<^verbatim>\<open>int64_t left\<close> in \<^verbatim>\<open>readFixSize\<close>, which then returns a negative number.\<close>

definition parseFrom :: "byte_order \<Rightarrow> nat \<Rightarrow> 'z zlib \<Rightarrow> 'z \<Rightarrow> 'w syscalls \<Rightarrow> 'w sock \<Rightarrow> ((failure + rock_message option) \<times> 'w sock) option" where
  "parseFrom host max_length gz gz0 sys sk =
     (let ((n, hd), sk) = readFixSize (SocketStream_read sys) 8 sk in
      if n \<le> 0 then Some (Inr None, sk)
      else if take 2 hd \<noteq> [0xab, 0xcd] then Some (Inr None, sk)
      else if hd ! 2 \<noteq> 1 then Some (Inr None, sk)
      else let len = unat (byteswapOnLittleEndian host byteswap32 (of_mem host (drop 4 hd) :: 32 word)) in
        if max_length \<le> len then Some (Inr None, sk)
        else if 2 ^ 31 \<le> len then Some (Inr None, sk)
        else case readFixSize_ba (SocketStream_read_ba sys) len (sk, new_ByteArray 4096) of
          (Inl e, sk, _) \<Rightarrow> Some (or_null (Inl e), sk)
        | (Inr n, sk, ba) \<Rightarrow>
            if n \<le> 0 then Some (Inr None, sk)
            else case setPosition 0 ba of (Inl e, _) \<Rightarrow> Some (or_null (Inl e), sk)
              | (Inr _, ba) \<Rightarrow>
                  if hd ! 3 AND 1 \<noteq> 0
                  then case zlib_body False gz gz0 ba of Inl e \<Rightarrow> Some (or_null (Inl e), sk)
                       | Inr None \<Rightarrow> None
                       | Inr (Some (Inl _)) \<Rightarrow> Some (Inr None, sk)
                       | Inr (Some (Inr ba)) \<Rightarrow> Some (parse_body ba, sk)
                  else Some (parse_body ba, sk))"

section \<open>Messages in a ByteArray\<close>

definition body_bytes :: "bytes \<Rightarrow> bytes" where
  "body_bytes s = varint 10 (of_nat (length s) :: u64) @ s"

fun msg_bytes :: "rock_message \<Rightarrow> bytes" where
  "msg_bytes (RockRequest sn cmd body) = varint 5 sn @ varint 5 cmd @ body_bytes body"
| "msg_bytes (RockResponse sn cmd result resultStr body) =
     varint 5 sn @ varint 5 cmd @ varint 5 result @ body_bytes resultStr @ body_bytes body"
| "msg_bytes (RockNotify notify body) = varint 5 notify @ body_bytes body"

fun msg_body :: "rock_message \<Rightarrow> bytes" where
  "msg_body (RockRequest sn cmd body) = body"
| "msg_body (RockResponse sn cmd result resultStr body) = body"
| "msg_body (RockNotify notify body) = body"

text \<open>The strings are not longer than a \<^verbatim>\<open>size_t\<close> can say.\<close>

fun msg_ok :: "rock_message \<Rightarrow> bool" where
  "msg_ok (RockResponse sn cmd result resultStr body) = (length resultStr < 2 ^ 64 \<and> length body < 2 ^ 64)"
| "msg_ok msg = (length (msg_body msg) < 2 ^ 64)"

lemma serialize_writes:
  assumes "wf_ba ba"
  obtains ba' where "serializeToByteArray msg ba = (Inr True, ba')" "wf_ba ba'" "contents ba' = store (m_position ba) (getType msg # msg_bytes msg) (contents ba)"
    "m_endian ba' = m_endian ba"
proof -
  let ?f = "case msg of
          RockRequest sn cmd body \<Rightarrow> bindE (Request_serialize (getType msg) sn cmd) (\<lambda>_. RockBody_serialize body)
        | RockResponse sn cmd result resultStr body \<Rightarrow> bindE (Response_serialize (getType msg) sn cmd result resultStr) (\<lambda>_. RockBody_serialize body)
        | RockNotify notify body \<Rightarrow> bindE (Notify_serialize (getType msg) notify) (\<lambda>_. RockBody_serialize body)"
  have b: "ba.writes m (RockBody_serialize s) (body_bytes s)" "ba.writes m (writeStringVint s) (body_bytes s)" for m s
    unfolding RockBody_serialize_def body_bytes_def by (rule ba_writes)+
  have w: "ba.writes m (Request_serialize ty x y) ([ty] @ varint 5 x @ varint 5 y)" "ba.writes m (Notify_serialize ty x) ([ty] @ varint 5 x)"
    "ba.writes m (Response_serialize ty x y z s) ([ty] @ varint 5 x @ varint 5 y @ varint 5 z @ body_bytes s)" for m ty x y z s
    unfolding Request_serialize_def Notify_serialize_def Response_serialize_def by (intro ba.writes_bind writes_F8 writes_varint b)+
  have "ba.writes (m_endian ba) ?f (getType msg # msg_bytes msg)"
  proof (cases msg)
    case (RockRequest sn cmd body)
    then show ?thesis using ba.writes_bind [OF w(1) b(1)] by (simp del: getType.simps)
  next
    case (RockResponse sn cmd result resultStr body)
    then show ?thesis using ba.writes_bind [OF w(3) b(1)] by (simp del: getType.simps)
  next
    case (RockNotify notify body)
    then show ?thesis using ba.writes_bind [OF w(2) b(1)] by (simp del: getType.simps)
  qed
  then obtain ba' where "?f ba = (Inr (), ba')" "wf_ba ba'" "contents ba' = store (m_position ba) (getType msg # msg_bytes msg) (contents ba)" "m_endian ba' = m_endian ba"
    using assms by (rule ba.writesD) simp
  then show thesis using that by (simp add: serializeToByteArray_def catch_false_def)
qed

lemma reads_body: "length s < 2 ^ 64 \<Longrightarrow> ba.reads (s = []) m readStringVint (body_bytes s) s"
  unfolding body_bytes_def by (rule reads_strings(4))

lemma body_bytes_ne: "body_bytes s \<noteq> []"
  using varint64 [of "of_nat (length s)"] by (simp add: body_bytes_def)

lemma parse_reads:
  assumes "msg_ok msg"
  shows "ba.reads (msg_body msg = []) m (case msg of RockRequest _ _ _ \<Rightarrow> parse_request | RockResponse _ _ _ _ _ \<Rightarrow> parse_response | RockNotify _ _ \<Rightarrow> parse_notify)
    (msg_bytes msg) msg"
proof (cases msg)
  case (RockRequest sn cmd body)
  have "ba.reads (body = []) m (bindE readStringVint (\<lambda>body. returnE (RockRequest sn cmd body))) (body_bytes body) (RockRequest sn cmd body)"
    using assms RockRequest by (intro ba.reads_map reads_body) simp
  then have "ba.reads (False \<or> False \<or> body = []) m parse_request (varint 5 sn @ varint 5 cmd @ body_bytes body) (RockRequest sn cmd body)"
    unfolding parse_request_def RockBody_parse_def by - ((rule ba.reads_bind, rule reads_Uint(1))+, assumption)
  then show ?thesis using RockRequest by simp
next
  case (RockResponse sn cmd result resultStr body)
  have 1: "ba.reads (body = []) m (bindE readStringVint (\<lambda>body. returnE (RockResponse sn cmd result resultStr body))) (body_bytes body) (RockResponse sn cmd result resultStr body)"
    using assms RockResponse by (intro ba.reads_map reads_body) simp
  have "ba.reads (body = []) m (bindE readStringVint (\<lambda>resultStr. bindE readStringVint (\<lambda>body. returnE (RockResponse sn cmd result resultStr body))))
      (body_bytes resultStr @ body_bytes body) (RockResponse sn cmd result resultStr body)"
    using assms RockResponse 1 reads_body [of resultStr m] by (intro ba.reads_bind_strict [where z = "resultStr = []"] body_bytes_ne) simp_all
  then have "ba.reads (False \<or> False \<or> False \<or> body = []) m parse_response
      (varint 5 sn @ varint 5 cmd @ varint 5 result @ body_bytes resultStr @ body_bytes body) (RockResponse sn cmd result resultStr body)"
    unfolding parse_response_def RockBody_parse_def by - ((rule ba.reads_bind, rule reads_Uint(1))+, assumption)
  then show ?thesis using RockResponse by simp
next
  case (RockNotify notify body)
  have "ba.reads (body = []) m (bindE readStringVint (\<lambda>body. returnE (RockNotify notify body))) (body_bytes body) (RockNotify notify body)"
    using assms RockNotify by (intro ba.reads_map reads_body) simp
  then have "ba.reads (False \<or> body = []) m parse_notify (varint 5 notify @ body_bytes body) (RockNotify notify body)"
    unfolding parse_notify_def RockBody_parse_def by - ((rule ba.reads_bind, rule reads_Uint(1))+, assumption)
  then show ?thesis using RockNotify by simp
qed

section \<open>Transfer\<close>

abbreviation raw_bytes :: "rock_message \<Rightarrow> bytes" where
  "raw_bytes msg \<equiv> getType msg # msg_bytes msg"

definition rock_frame :: "u8 \<Rightarrow> bytes \<Rightarrow> bytes" where
  "rock_frame flg body = [0xab, 0xcd, 1, flg] @ mem SYLAR_BIG_ENDIAN 4 (of_nat (length body) :: 32 word) @ body"

text \<open>What may be sent after the header: the message, or a compressed form of it.\<close>

definition wire_bodies :: "nat \<Rightarrow> (bytes \<Rightarrow> bytes \<Rightarrow> bool) \<Rightarrow> rock_message \<Rightarrow> bytes set" where
  "wire_bodies gzip_min R msg = (if gzip_min \<le> length (raw_bytes msg) then {y. R (raw_bytes msg) y} else {raw_bytes msg})"

definition wire_flag :: "nat \<Rightarrow> rock_message \<Rightarrow> u8" where
  "wire_flag gzip_min msg = (if gzip_min \<le> length (raw_bytes msg) then 1 else 0)"

lemma mem_swapped32:
  "mem host 4 (byteswapOnLittleEndian host byteswap32 (w :: 32 word)) = mem SYLAR_BIG_ENDIAN 4 w"
  "byteswapOnLittleEndian host byteswap32 (of_mem host (mem SYLAR_BIG_ENDIAN 4 (w :: 32 word))) = w"
proof -
  let ?v = "byteswapOnLittleEndian host byteswap32 w"
  show 1: "mem host 4 ?v = mem SYLAR_BIG_ENDIAN 4 w"
    by (cases host) (auto simp: byteswapOnLittleEndian_def byteswap32_def mem_def le_bytes_bswap)
  have "of_mem host (mem host 4 ?v) = ?v" by (rule of_mem_mem) simp
  then show "byteswapOnLittleEndian host byteswap32 (of_mem host (mem SYLAR_BIG_ENDIAN 4 w)) = w"
    unfolding 1 using bswap_bswap [of 4 w] by (cases host) (auto simp: byteswapOnLittleEndian_def byteswap32_def)
qed

lemma toByteArray_correct:
  obtains ba where "toByteArray msg = Inr ba" "wf_ba ba" "contents ba = raw_bytes msg"
proof -
  have wf: "wf_ba (new_ByteArray 4096)" by (rule wf_new_ByteArray) simp
  have "contents (new_ByteArray 4096) = []" "m_position (new_ByteArray 4096) = 0" by (simp_all add: new_ByteArray_def contents_def)
  then obtain ba where "serializeToByteArray msg (new_ByteArray 4096) = (Inr True, ba)" "wf_ba ba" "contents ba = raw_bytes msg"
    by - (rule serialize_writes [OF wf, of msg], simp add: store_def)
  then show thesis using that by (simp add: toByteArray_def)
qed

lemma send_rock_reliable:
  assumes rel: "reliable sys inp out" and con: "m_isConnected sk" and ba: "wf_ba ba" "m_position ba = 0" "contents ba = body"
    and n: "0 < length body" "length body + 8 < 2 ^ 31"
  obtains w where "send_rock host sys flg ba sk = (Inr (int (length (rock_frame flg body))), sk\<lparr>m_net := w\<rparr>)" "out w = out (m_net sk) @ rock_frame flg body"
proof -
  have sz: "getSize ba = length body" "getReadSize ba = length body" using length_contents [OF ba(1)] ba(2,3) by (simp_all add: getSize_def getReadSize_def)
  let ?h = "header_bytes host flg (byteswapOnLittleEndian host byteswap32 (of_nat (getSize ba)))"
  have h: "?h = [0xab, 0xcd, 1, flg] @ mem SYLAR_BIG_ENDIAN 4 (of_nat (length body) :: 32 word)" "length ?h = 8"
    unfolding header_bytes_def mem_swapped32 sz by simp_all
  have lt: "length ?h < 2 ^ 31" unfolding h(2) by simp
  obtain w1 where w1: "writeFixSize (SocketStream_write sys) ?h sk = (int (length ?h), sk\<lparr>m_net := w1\<rparr>)" "out w1 = out (m_net sk) @ ?h"
    by (rule writeFixSize_reliable [OF rel con lt])
  have c1: "m_isConnected (sk\<lparr>m_net := w1\<rparr>)" "getReadSize ba < 2 ^ 31" using con sz(2) n(2) by simp_all
  obtain w2 ba' where w2: "writeFixSize_ba (SocketStream_write_ba sys) (getReadSize ba) (sk\<lparr>m_net := w1\<rparr>, ba) = (Inr (int (getReadSize ba)), sk\<lparr>m_net := w1\<rparr>\<lparr>m_net := w2\<rparr>, ba')"
      "out w2 = out (m_net (sk\<lparr>m_net := w1\<rparr>)) @ drop (m_position ba) (contents ba)" "wf_ba ba'" "contents ba' = contents ba"
    by (rule writeFixSize_ba_reliable [OF rel c1(1) ba(1) c1(2)])
  have sz': "getSize ba' = length body" using length_contents [OF w2(3)] w2(4) ba(3) by (simp add: getSize_def)
  have "int32 (8 + int (length body)) = 8 + int (length body)" using n(2) by (intro int32_id) auto
  then have "send_rock host sys flg ba sk = (Inr (8 + int (length body)), sk\<lparr>m_net := w2\<rparr>)"
    unfolding send_rock_def Let_def using w1(1) w2(1) h(2) n(1) sz' by (simp add: sz(2))
  moreover have "length (rock_frame flg body) = 8 + length body" by (simp add: rock_frame_def)
  moreover have "out w2 = out (m_net sk) @ rock_frame flg body" using w1(2) w2(2) h(1) ba(2,3) by (simp add: rock_frame_def)
  ultimately show thesis using that by simp
qed

lemma parse_body_correct:
  assumes "wf_ba ba" "m_position ba = 0" "contents ba = raw_bytes msg" "msg_ok msg" "msg_body msg \<noteq> []"
  shows "parse_body ba = Inr (Some msg)"
proof -
  have p: "m_position ba + length [getType msg] \<le> length (contents ba)" "take (length [getType msg]) (drop (m_position ba) (contents ba)) = [getType msg]"
    using assms(2,3) by simp_all
  obtain ba1 where 1: "readFuint8 ba = (Inr (getType msg), ba1)" "wf_ba ba1" "contents ba1 = contents ba" "m_position ba1 = m_position ba + length [getType msg]" "m_endian ba1 = m_endian ba"
    by (rule ba.readsD [OF reads_F8(2) assms(1) refl p]) auto
  let ?p = "case msg of RockRequest _ _ _ \<Rightarrow> parse_request | RockResponse _ _ _ _ _ \<Rightarrow> parse_response | RockNotify _ _ \<Rightarrow> parse_notify"
  have r: "ba.reads False (m_endian ba1) ?p (msg_bytes msg) msg" using parse_reads [OF assms(4), of "m_endian ba1"] assms(5) by simp
  have q: "m_position ba1 + length (msg_bytes msg) \<le> length (contents ba1)" "take (length (msg_bytes msg)) (drop (m_position ba1) (contents ba1)) = msg_bytes msg"
    using 1(3,4) assms(2,3) by simp_all
  obtain ba2 where "?p ba1 = (Inr msg, ba2)"
    by (rule ba.readsD [OF r 1(2) refl q]) auto
  then show ?thesis using 1(1) by (cases msg) (auto simp: parse_body_def parseFromByteArray_def catch_false_def REQUEST_def RESPONSE_def NOTIFY_def)
qed

lemma parseFrom_reliable:
  assumes rel: "reliable sys inp out" and con: "m_isConnected sk" and i: "inp (m_net sk) = rock_frame flg body @ rest"
    and n: "0 < length body" "length body < max_length" "max_length \<le> 2 ^ 31"
  obtains w ba where "wf_ba ba" "m_position ba = 0" "contents ba = body" "m_endian ba = SYLAR_BIG_ENDIAN" "inp w = rest"
    "parseFrom host max_length gz gz0 sys sk =
       (if flg AND 1 \<noteq> 0
        then case zlib_body False gz gz0 ba of Inl e \<Rightarrow> Some (or_null (Inl e), sk\<lparr>m_net := w\<rparr>) | Inr None \<Rightarrow> None
          | Inr (Some (Inl _)) \<Rightarrow> Some (Inr None, sk\<lparr>m_net := w\<rparr>) | Inr (Some (Inr ba)) \<Rightarrow> Some (parse_body ba, sk\<lparr>m_net := w\<rparr>)
        else Some (parse_body ba, sk\<lparr>m_net := w\<rparr>))"
proof -
  let ?h = "[0xab, 0xcd, 1, flg] @ mem SYLAR_BIG_ENDIAN 4 (of_nat (length body) :: 32 word)"
  have i': "inp (m_net sk) = ?h @ (body @ rest)" "length ?h = 8" using i by (simp_all add: rock_frame_def)
  have lt: "length ?h < 2 ^ 31" unfolding i'(2) by simp
  obtain w1 where w1: "readFixSize (SocketStream_read sys) (length ?h) sk = ((int (length ?h), ?h), sk\<lparr>m_net := w1\<rparr>)" "inp w1 = body @ rest"
    by (rule readFixSize_reliable [OF rel con i'(1) lt])
  have h: "take 2 ?h = [0xab, 0xcd]" "?h ! 2 = 1" "?h ! 3 = flg" "drop 4 ?h = mem SYLAR_BIG_ENDIAN 4 (of_nat (length body) :: 32 word)" by simp_all
  have u: "unat (of_nat (length body) :: 32 word) = length body" using n by (simp only: unat_of_nat) simp
  have wf: "wf_ba (new_ByteArray 4096)" by (rule wf_new_ByteArray) simp
  have e: "contents (new_ByteArray 4096) = []" "m_position (new_ByteArray 4096) = 0" "m_endian (new_ByteArray 4096) = SYLAR_BIG_ENDIAN"
    by (simp_all add: new_ByteArray_def contents_def)
  have c1: "m_isConnected (sk\<lparr>m_net := w1\<rparr>)" "inp (m_net (sk\<lparr>m_net := w1\<rparr>)) = body @ rest" "length body < 2 ^ 31" using con w1(2) n by simp_all
  obtain w2 ba1 where w2: "readFixSize_ba (SocketStream_read_ba sys) (length body) (sk\<lparr>m_net := w1\<rparr>, new_ByteArray 4096) =
        (Inr (int (length body)), sk\<lparr>m_net := w1\<rparr>\<lparr>m_net := w2\<rparr>, ba1)"
      "inp w2 = rest" "wf_ba ba1" "m_endian ba1 = m_endian (new_ByteArray 4096)" "contents ba1 = store (m_position (new_ByteArray 4096)) body (contents (new_ByteArray 4096))"
    by (rule readFixSize_ba_reliable [OF rel c1(1) wf c1(2,3)])
  have cb: "contents ba1 = body" using w2(5) e by (simp add: store_def)
  obtain ba2 where b2: "setPosition 0 ba1 = (Inr (), ba2)" "wf_ba ba2" "contents ba2 = contents ba1" "m_position ba2 = 0" "m_endian ba2 = m_endian ba1"
    using setPosition_refines [OF w2(3), of 0] by auto
  have "parseFrom host max_length gz gz0 sys sk =
       (if flg AND 1 \<noteq> 0
        then case zlib_body False gz gz0 ba2 of Inl e \<Rightarrow> Some (or_null (Inl e), sk\<lparr>m_net := w2\<rparr>) | Inr None \<Rightarrow> None
          | Inr (Some (Inl _)) \<Rightarrow> Some (Inr None, sk\<lparr>m_net := w2\<rparr>) | Inr (Some (Inr ba)) \<Rightarrow> Some (parse_body ba, sk\<lparr>m_net := w2\<rparr>)
        else Some (parse_body ba2, sk\<lparr>m_net := w2\<rparr>))"
    unfolding parseFrom_def w1(1) [unfolded i'(2)] Let_def prod.case h mem_swapped32 u using n w2(1) b2(1) by simp
  then show thesis using that b2 w2 e cb by simp
qed

lemma zlib_body_codes:
  assumes "codes zl z0 valid R" "wf_ba ba" "m_position ba = 0" "contents ba \<noteq> []" "length (contents ba) < 2 ^ 32" "valid (contents ba)"
  obtains ba' where "zlib_body enc zl z0 ba = Inr (Some (Inr ba'))" "wf_ba ba'" "m_position ba' = 0" "R (contents ba) (contents ba')"
proof -
  have n: "0 < getReadSize ba" "m_size ba < 2 ^ 32" using length_contents [OF assms(2)] assms(3-5) by (auto simp: getReadSize_def simp flip: length_greater_0_conv)
  have v: "valid (drop (m_position ba) (contents ba))" using assms(3,6) by simp
  obtain zs1 zs2 ba' where z: "ZlibStream_write_ba zl ba (2 ^ 64 - 1) (new_ZlibStream enc 4096 z0) = Inr (Some (Z_OK, zs1))"
      "ZlibStream_flush zl zs1 = Some (Z_OK, zs2)" "ZlibStream_getByteArray zs2 = Inr ba'" "wf_ba ba'" "m_position ba' = 0"
      "R (drop (m_position ba) (contents ba)) (contents ba')"
    by (rule zlib_pass [OF assms(1,2) n, of 4096]) (use v in simp_all)
  then show thesis using that assms(3) by (simp add: zlib_body_def)
qed

lemma parseFrom_plain:
  assumes "reliable sys inp out" "m_isConnected sk" "inp (m_net sk) = rock_frame 0 (raw_bytes msg) @ rest" "msg_ok msg" "msg_body msg \<noteq> []"
    and size: "length (raw_bytes msg) < max_length" "max_length \<le> 2 ^ 31"
  shows "\<exists>w. parseFrom host max_length gz z sys sk = Some (Inr (Some msg), sk\<lparr>m_net := w\<rparr>) \<and> inp w = rest"
proof -
  have ne: "0 < length (raw_bytes msg)" by simp
  obtain w bb where b: "wf_ba bb" "m_position bb = 0" "contents bb = raw_bytes msg" "inp w = rest"
    "parseFrom host max_length gz z sys sk =
     (if (0 :: u8) AND 1 \<noteq> 0
      then case zlib_body False gz z bb of Inl e \<Rightarrow> Some (or_null (Inl e), sk\<lparr>m_net := w\<rparr>) | Inr None \<Rightarrow> None
        | Inr (Some (Inl _)) \<Rightarrow> Some (Inr None, sk\<lparr>m_net := w\<rparr>) | Inr (Some (Inr ba)) \<Rightarrow> Some (parse_body ba, sk\<lparr>m_net := w\<rparr>)
      else Some (parse_body bb, sk\<lparr>m_net := w\<rparr>))"
    by (rule parseFrom_reliable [OF assms(1-3) ne size])
  then show ?thesis using parse_body_correct [OF b(1-3) assms(4,5)] by auto
qed

lemma parseFrom_compressed:
  assumes "reliable sys inp out" "m_isConnected sk" "inp (m_net sk) = rock_frame 1 body @ rest" "msg_ok msg" "msg_body msg \<noteq> []"
    and gunz: "codes gunz z valid S" "valid body" "\<And>w. S body w \<Longrightarrow> w = raw_bytes msg"
    and size: "0 < length body" "length body < max_length" "max_length \<le> 2 ^ 31"
  shows "\<exists>w. parseFrom host max_length gunz z sys sk = Some (Inr (Some msg), sk\<lparr>m_net := w\<rparr>) \<and> inp w = rest"
proof -
  obtain w bb where b: "wf_ba bb" "m_position bb = 0" "contents bb = body" "inp w = rest"
    "parseFrom host max_length gunz z sys sk =
     (if (1 :: u8) AND 1 \<noteq> 0
      then case zlib_body False gunz z bb of Inl e \<Rightarrow> Some (or_null (Inl e), sk\<lparr>m_net := w\<rparr>) | Inr None \<Rightarrow> None
        | Inr (Some (Inl _)) \<Rightarrow> Some (Inr None, sk\<lparr>m_net := w\<rparr>) | Inr (Some (Inr ba)) \<Rightarrow> Some (parse_body ba, sk\<lparr>m_net := w\<rparr>)
      else Some (parse_body bb, sk\<lparr>m_net := w\<rparr>))"
    by (rule parseFrom_reliable [OF assms(1-3) size])
  obtain b2 where b2: "zlib_body False gunz z bb = Inr (Some (Inr b2))" "wf_ba b2" "m_position b2 = 0" "S body (contents b2)"
    by (rule zlib_body_codes [OF gunz(1) b(1,2), of False]) (use b(3) size gunz(2) in auto)
  have "parse_body b2 = Inr (Some msg)" using parse_body_correct [OF b2(2,3) gunz(3) [OF b2(4)] assms(4,5)] .
  then show ?thesis using b(4,5) b2(1) by auto
qed

lemma serializeTo_reliable:
  assumes "reliable sys inp out" "m_isConnected sk" and gz: "gzip_min \<le> length (raw_bytes msg) \<Longrightarrow> codes gz z (\<lambda>_. True) R"
    and size: "\<forall>body \<in> wire_bodies gzip_min R msg. body \<noteq> [] \<and> length body + 8 < 2 ^ 31" "length (raw_bytes msg) < 2 ^ 31"
  obtains w body where "body \<in> wire_bodies gzip_min R msg"
    "serializeTo host gzip_min gz z sys msg sk = Some (Inr (int (length (rock_frame (wire_flag gzip_min msg) body))), sk\<lparr>m_net := w\<rparr>)"
    "out w = out (m_net sk) @ rock_frame (wire_flag gzip_min msg) body"
proof -
  let ?raw = "raw_bytes msg"
  obtain ba0 where ba0: "toByteArray msg = Inr ba0" "wf_ba ba0" "contents ba0 = ?raw" by (rule toByteArray_correct)
  obtain ba where ba: "setPosition 0 ba0 = (Inr (), ba)" "wf_ba ba" "contents ba = ?raw" "m_position ba = 0"
    using setPosition_refines [OF ba0(2), of 0] ba0(3) by auto
  have sz: "getSize ba = length ?raw" using length_contents [OF ba(2)] ba(3) by (simp add: getSize_def)
  have small: "length ?raw < 2 ^ 32" "length ?raw mod 2 ^ 32 = length ?raw" using size(2) by auto
  show thesis
  proof (cases "gzip_min \<le> length ?raw")
    case True
    have ne: "contents ba \<noteq> []" and sm: "length (contents ba) < 2 ^ 32" using ba(3) small(1) by simp_all
    obtain ba' where ba': "zlib_body True gz z ba = Inr (Some (Inr ba'))" "wf_ba ba'" "m_position ba' = 0" "R (contents ba) (contents ba')"
      by (rule zlib_body_codes [OF gz [OF True] ba(2,4) ne sm TrueI, of True])
    have b: "contents ba' \<in> wire_bodies gzip_min R msg" using ba'(4) ba(3) True by (simp add: wire_bodies_def)
    have n: "0 < length (contents ba')" "length (contents ba') + 8 < 2 ^ 31" using size(1) [rule_format, OF b] by simp_all
    obtain w where w: "send_rock host sys 1 ba' sk = (Inr (int (length (rock_frame 1 (contents ba')))), sk\<lparr>m_net := w\<rparr>)" "out w = out (m_net sk) @ rock_frame 1 (contents ba')"
      by (rule send_rock_reliable [OF assms(1,2) ba'(2,3) refl n])
    have "serializeTo host gzip_min gz z sys msg sk = Some (Inr (int (length (rock_frame 1 (contents ba')))), sk\<lparr>m_net := w\<rparr>)"
      using ba0(1) ba(1) sz small True ba'(1) w(1) by (simp add: serializeTo_def)
    then show ?thesis using True w(2) by (intro that [OF b, of w]) (simp_all add: wire_flag_def)
  next
    case False
    have b: "?raw \<in> wire_bodies gzip_min R msg" using False by (simp add: wire_bodies_def)
    have n: "0 < length ?raw" "length ?raw + 8 < 2 ^ 31" using size(1) [rule_format, OF b] by simp_all
    obtain w where w: "send_rock host sys 0 ba sk = (Inr (int (length (rock_frame 0 ?raw))), sk\<lparr>m_net := w\<rparr>)" "out w = out (m_net sk) @ rock_frame 0 ?raw"
      by (rule send_rock_reliable [OF assms(1,2) ba(2,4,3) n])
    have "serializeTo host gzip_min gz z sys msg sk = Some (Inr (int (length (rock_frame 0 ?raw))), sk\<lparr>m_net := w\<rparr>)"
      using ba0(1) ba(1) sz small False w(1) by (simp add: serializeTo_def)
    then show ?thesis using False w(2) by (intro that [OF b, of w]) (simp_all add: wire_flag_def)
  qed
qed

text \<open>
  What a gzip implementation promises: compression accepts everything and produces something, decompression accepts what compression
  may produce and gives the original back.
\<close>

definition gzip_pair :: "'z zlib \<Rightarrow> 'z \<Rightarrow> 'y zlib \<Rightarrow> 'y \<Rightarrow> (bytes \<Rightarrow> bytes \<Rightarrow> bool) \<Rightarrow> bool" where
  "gzip_pair gz z gunz z' R \<longleftrightarrow> codes gz z (\<lambda>_. True) R \<and> (\<forall>x y. R x y \<longrightarrow> y \<noteq> []) \<and>
     (\<exists>S. codes gunz z' (\<lambda>y. \<exists>x. R x y) S \<and> (\<forall>x y w. R x y \<and> S y w \<longrightarrow> w = x))"


lemma trailer_ne: "with_trailer bs \<noteq> []"
  by (simp add: with_trailer_def)

lemma gzip_pair_trailer: "gzip_pair (whole_coder with_trailer) ([], None) (whole_coder without_trailer) ([], None) (\<lambda>x y. y = with_trailer x)"
proof -
  have "\<exists>S. codes (whole_coder without_trailer) ([], None) (\<lambda>y. \<exists>x. y = with_trailer x) S \<and> (\<forall>x y w. y = with_trailer x \<and> S y w \<longrightarrow> w = x)"
    by (intro exI [of _ "\<lambda>x y. y = without_trailer x"] conjI codes_whole) (simp add: trailer_inverse)
  then show ?thesis using codes_whole [of with_trailer "\<lambda>_. True"] unfolding gzip_pair_def by (simp add: trailer_ne)
qed


end
