(* ===== verification/Scheduler.thy ===== *)
theory Scheduler
  imports Prelude
begin

text \<open>
  \<^verbatim>\<open>sylar/fiber.cc\<close>, \<^verbatim>\<open>scheduler.h\<close>, \<^verbatim>\<open>scheduler.cc\<close> and the \<^verbatim>\<open>FiberSemaphore\<close> of \<^verbatim>\<open>mutex.cc\<close>: the threads of one scheduler, each in
  \<^verbatim>\<open>Scheduler::run\<close>, take fibers and callbacks from the shared queue and run them until they yield or end.

  A step of a thread is what it does between two accesses to state that other threads can see: one critical section, one
  change of an atomic counter, or one access to the state of a fiber. Threads take their steps in any order. What
  runs inside a fiber is a parameter: \<open>exec f p\<close> is the next call into the framework that the code at point \<open>p\<close> of fiber
  \<open>f\<close> makes, with the point it goes on from. The context that \<^verbatim>\<open>swapcontext\<close> saves is such a point.
\<close>

section \<open>Fibers\<close>

datatype fiber_state = INIT | HOLD | EXEC | TERM_state | READY | EXCEPT

text \<open>
  A point at which the code of a fiber stands: at the start of \<^verbatim>\<open>MainFunc\<close> with \<^verbatim>\<open>m_cb\<close>, in the callback, before the call
  of \<^verbatim>\<open>YieldToHold\<close> in \<^verbatim>\<open>FiberSemaphore::wait\<close> and \<^verbatim>\<open>switchTo\<close>, before a \<^verbatim>\<open>swapOut\<close> with the state already changed, and after the
  last \<^verbatim>\<open>swapOut\<close> of \<^verbatim>\<open>MainFunc\<close>.
\<close>

datatype 'c ctx = Fresh "'c option" | Run 'c | Hold 'c | Leave "'c option" | Dead

text \<open>\<open>m_ctx\<close> is \<open>None\<close> while the fiber is on a thread and its saved context is out of date.\<close>

record 'c fiber =
  m_state :: fiber_state
  m_ctx :: "'c ctx option"

definition new_Fiber :: "'c option \<Rightarrow> 'c fiber" where
  "new_Fiber cb = \<lparr>m_state = INIT, m_ctx = Some (Fresh cb)\<rparr>"

definition Fiber_reset :: "'c option \<Rightarrow> 'c fiber \<Rightarrow> failure + 'c fiber" where
  "Fiber_reset cb fb = (if m_state fb = TERM_state \<or> m_state fb = EXCEPT \<or> m_state fb = INIT then Inr (new_Fiber cb) else Inl AssertFail)"

text \<open>\<^verbatim>\<open>swapIn\<close>: the point at which the fiber goes on, and the fiber. Entering a context that is not saved is undefined.\<close>

definition Fiber_swapIn :: "'c fiber \<Rightarrow> failure + 'c ctx \<times> 'c fiber" where
  "Fiber_swapIn fb =
     (if m_state fb = EXEC then Inl AssertFail
      else case m_ctx fb of None \<Rightarrow> Inl Undefined | Some c \<Rightarrow> Inr (c, \<lparr>m_state = EXEC, m_ctx = None\<rparr>))"

definition Fiber_swapOut :: "'c ctx \<Rightarrow> 'c fiber \<Rightarrow> 'c fiber" where
  "Fiber_swapOut c fb = fb\<lparr>m_ctx := Some c\<rparr>"

section \<open>State\<close>

text \<open>The calls into the framework that code in a fiber can make; semaphores are numbered.\<close>

datatype 'c request =
    Schedule "'c option" int 'c
  | ScheduleFiber nat int 'c
  | YieldToReady 'c
  | YieldToHold 'c
  | SwitchTo int 'c
  | SemWait nat 'c
  | SemTryWait nat "bool \<Rightarrow> 'c"
  | SemNotify nat 'c
  | Return
  | Throw

text \<open>\<^verbatim>\<open>FiberAndThread\<close>: a fiber or a callback, and the thread it must run on, or -1.\<close>

datatype 'c task = FiberTask nat | CbTask 'c

type_synonym 'c entry = "'c task \<times> int"

text \<open>
  Where a thread is in \<^verbatim>\<open>Scheduler::run\<close>: before its first line; before the critical section; after it, with what was taken
  from the queue; in a fiber, which is \<^verbatim>\<open>cb_fiber\<close> if the flag is set; after the return of \<^verbatim>\<open>swapIn\<close>; after the change of the
  active count; in the idle fiber and after it; at the end.
\<close>

datatype 'c pc =
    NotStarted | Enter | Scan | Dispatch "'c entry option"
  | In bool nat "'c ctx" | Ret bool nat | Post bool nat
  | InIdle | RetIdle | Exited

record 'c thread =
  pc :: "'c pc"
  cb_fiber :: "nat option"
  idle_fiber :: fiber_state

record semaphore =
  m_concurrency :: u64
  m_waiters :: "nat list"

text \<open>Where the caller of \<^verbatim>\<open>stop\<close> is in it; until the assertion on it, with whether its thread's \<^verbatim>\<open>GetThis()\<close> is this scheduler.\<close>

datatype stop_pc = NotStopping | Stop1 bool | Stop2 | StopRun | StopJoin | StopDone

text \<open>The last two fields record what was submitted and started; no operation reads them.\<close>

record 'c sched =
  m_fibers :: "'c entry list"
  m_activeThreadCount :: u64
  m_idleThreadCount :: u64
  m_stopping :: bool
  m_autoStop :: bool
  m_rootThread :: int
  m_threadCount :: nat
  m_threads :: "int list"
  m_threadIds :: "int list"
  s_fiber_id :: nat
  fibers :: "nat \<Rightarrow> 'c fiber"
  threads :: "int \<Rightarrow> 'c thread"
  sems :: "nat \<Rightarrow> semaphore"
  stop_at :: stop_pc
  submitted :: "('c \<times> int) list"
  started :: "('c \<times> int \<times> int) list"

abbreviation pc_of :: "'c sched \<Rightarrow> int \<Rightarrow> 'c pc" where
  "pc_of w t \<equiv> pc (threads w t)"

abbreviation state_of :: "'c sched \<Rightarrow> nat \<Rightarrow> fiber_state" where
  "state_of w f \<equiv> m_state (fibers w f)"

definition goto_pc :: "int \<Rightarrow> 'c pc \<Rightarrow> 'c sched \<Rightarrow> 'c sched" where
  "goto_pc t p w = w\<lparr>threads := (threads w)(t := (threads w t)\<lparr>pc := p\<rparr>)\<rparr>"

definition set_cb :: "int \<Rightarrow> nat option \<Rightarrow> 'c sched \<Rightarrow> 'c sched" where
  "set_cb t f w = w\<lparr>threads := (threads w)(t := (threads w t)\<lparr>cb_fiber := f\<rparr>)\<rparr>"

definition set_idle :: "int \<Rightarrow> fiber_state \<Rightarrow> 'c sched \<Rightarrow> 'c sched" where
  "set_idle t s w = w\<lparr>threads := (threads w)(t := (threads w t)\<lparr>idle_fiber := s\<rparr>)\<rparr>"

definition set_fiber :: "nat \<Rightarrow> 'c fiber \<Rightarrow> 'c sched \<Rightarrow> 'c sched" where
  "set_fiber f fb w = w\<lparr>fibers := (fibers w)(f := fb)\<rparr>"

definition set_state :: "nat \<Rightarrow> fiber_state \<Rightarrow> 'c sched \<Rightarrow> 'c sched" where
  "set_state f s w = set_fiber f ((fibers w f)\<lparr>m_state := s\<rparr>) w"

definition set_sem :: "nat \<Rightarrow> semaphore \<Rightarrow> 'c sched \<Rightarrow> 'c sched" where
  "set_sem k s w = w\<lparr>sems := (sems w)(k := s)\<rparr>"

section \<open>Scheduling\<close>

definition scheduleNoLock :: "'c task \<Rightarrow> int \<Rightarrow> 'c sched \<Rightarrow> bool \<times> 'c sched" where
  "scheduleNoLock fc thread w = (m_fibers w = [], w\<lparr>m_fibers := m_fibers w @ [(fc, thread)]\<rparr>)"

text \<open>\<^verbatim>\<open>Scheduler::tickle\<close> only writes a log message.\<close>

definition schedule :: "'c task \<Rightarrow> int \<Rightarrow> 'c sched \<Rightarrow> 'c sched" where
  "schedule fc thread w = snd (scheduleNoLock fc thread w)"

text \<open>\<^verbatim>\<open>schedule\<close> of a callback; an empty \<^verbatim>\<open>std::function\<close> is not put into the queue.\<close>

definition schedule_cb :: "'c option \<Rightarrow> int \<Rightarrow> 'c sched \<Rightarrow> 'c sched" where
  "schedule_cb cb thread w = (case cb of None \<Rightarrow> w
     | Some c \<Rightarrow> (schedule (CbTask c) thread w)\<lparr>submitted := submitted w @ [(c, thread)]\<rparr>)"

definition schedule_all :: "'c option list \<Rightarrow> 'c sched \<Rightarrow> 'c sched" where
  "schedule_all cbs w = fold (\<lambda>cb. schedule_cb cb (- 1)) cbs w"

definition stopping :: "'c sched \<Rightarrow> bool" where
  "stopping w \<longleftrightarrow> m_autoStop w \<and> m_stopping w \<and> m_fibers w = [] \<and> m_activeThreadCount w = 0"

text \<open>The critical section of \<^verbatim>\<open>run\<close>: the entry that is taken, the queue without it, and \<^verbatim>\<open>tickle_me\<close>.\<close>

fun scan :: "(nat \<Rightarrow> fiber_state) \<Rightarrow> int \<Rightarrow> 'c entry list \<Rightarrow> 'c entry option \<times> 'c entry list \<times> bool" where
  "scan st t [] = (None, [], False)"
| "scan st t ((fc, thread) # q) =
     (if thread \<noteq> - 1 \<and> thread \<noteq> t then let (r, q', _) = scan st t q in (r, (fc, thread) # q', True)
      else case fc of
        FiberTask f \<Rightarrow> if st f = EXEC then let (r, q', tickle_me) = scan st t q in (r, (fc, thread) # q', tickle_me)
                       else (Some (fc, thread), q, q \<noteq> [])
      | CbTask c \<Rightarrow> (Some (fc, thread), q, q \<noteq> []))"

section \<open>Semaphores\<close>

definition FiberSemaphore_tryWait :: "nat \<Rightarrow> 'c sched \<Rightarrow> bool \<times> 'c sched" where
  "FiberSemaphore_tryWait k w =
     (let s = sems w k in
      if 0 < m_concurrency s then (True, set_sem k (s\<lparr>m_concurrency := m_concurrency s - 1\<rparr>) w) else (False, w))"

text \<open>The critical section of \<^verbatim>\<open>wait\<close>, called in fiber \<open>f\<close>; the fiber must then call \<^verbatim>\<open>YieldToHold\<close> if it was put among the waiters.\<close>

definition FiberSemaphore_wait :: "nat \<Rightarrow> nat \<Rightarrow> 'c sched \<Rightarrow> bool \<times> 'c sched" where
  "FiberSemaphore_wait k f w =
     (let s = sems w k in
      if 0 < m_concurrency s then (False, set_sem k (s\<lparr>m_concurrency := m_concurrency s - 1\<rparr>) w)
      else (True, set_sem k (s\<lparr>m_waiters := m_waiters s @ [f]\<rparr>) w))"

definition FiberSemaphore_notify :: "nat \<Rightarrow> 'c sched \<Rightarrow> 'c sched" where
  "FiberSemaphore_notify k w =
     (let s = sems w k in
      case m_waiters s of
        f # fs \<Rightarrow> schedule (FiberTask f) (- 1) (set_sem k (s\<lparr>m_waiters := fs\<rparr>) w)
      | [] \<Rightarrow> set_sem k (s\<lparr>m_concurrency := m_concurrency s + 1\<rparr>) w)"

section \<open>Steps of a fiber\<close>

text \<open>\<^verbatim>\<open>swapOut\<close> of fiber \<open>f\<close>, which will go on at \<open>c\<close>.\<close>

definition leave_fiber :: "int \<Rightarrow> bool \<Rightarrow> nat \<Rightarrow> 'c ctx \<Rightarrow> 'c sched \<Rightarrow> 'c sched" where
  "leave_fiber t b f c w = goto_pc t (Ret b f) (set_fiber f (Fiber_swapOut c (fibers w f)) w)"

definition do_YieldToHold :: "int \<Rightarrow> bool \<Rightarrow> nat \<Rightarrow> 'c \<Rightarrow> 'c sched \<Rightarrow> failure + 'c sched" where
  "do_YieldToHold t b f p w = (if state_of w f = EXEC then Inr (leave_fiber t b f (Run p) w) else Inl AssertFail)"

text \<open>\<^verbatim>\<open>YieldToReady\<close> up to its \<^verbatim>\<open>swapOut\<close>.\<close>

definition do_YieldToReady :: "int \<Rightarrow> bool \<Rightarrow> nat \<Rightarrow> 'c \<Rightarrow> 'c sched \<Rightarrow> failure + 'c sched" where
  "do_YieldToReady t b f p w =
     (if state_of w f = EXEC then Inr (goto_pc t (In b f (Leave (Some p))) (set_state f READY w)) else Inl AssertFail)"

text \<open>\<^verbatim>\<open>switchTo\<close> of this scheduler.\<close>

definition do_switchTo :: "int \<Rightarrow> bool \<Rightarrow> nat \<Rightarrow> int \<Rightarrow> 'c \<Rightarrow> 'c sched \<Rightarrow> 'c sched" where
  "do_switchTo t b f thread p w =
     (if thread = - 1 \<or> thread = t then goto_pc t (In b f (Run p)) w
      else goto_pc t (In b f (Hold p)) (schedule (FiberTask f) thread w))"

fun request_step :: "int \<Rightarrow> bool \<Rightarrow> nat \<Rightarrow> 'c request \<Rightarrow> 'c sched \<Rightarrow> failure + 'c sched" where
  "request_step t b f (Schedule cb thread p) w = Inr (goto_pc t (In b f (Run p)) (schedule_cb cb thread w))"
| "request_step t b f (ScheduleFiber g thread p) w = Inr (goto_pc t (In b f (Run p)) (schedule (FiberTask g) thread w))"
| "request_step t b f (YieldToReady p) w = do_YieldToReady t b f p w"
| "request_step t b f (YieldToHold p) w = do_YieldToHold t b f p w"
| "request_step t b f (SwitchTo thread p) w = Inr (do_switchTo t b f thread p w)"
| "request_step t b f (SemWait k p) w =
     (case FiberSemaphore_wait k f w of (blocked, w) \<Rightarrow> Inr (goto_pc t (In b f (if blocked then Hold p else Run p)) w))"
| "request_step t b f (SemTryWait k p) w =
     (case FiberSemaphore_tryWait k w of (r, w) \<Rightarrow> Inr (goto_pc t (In b f (Run (p r))) w))"
| "request_step t b f (SemNotify k p) w = Inr (goto_pc t (In b f (Run p)) (FiberSemaphore_notify k w))"
| "request_step t b f Return w = Inr (goto_pc t (In b f (Leave None)) (set_state f TERM_state w))"
| "request_step t b f Throw w = Inr (goto_pc t (In b f (Leave None)) (set_state f EXCEPT w))"

text \<open>\<^verbatim>\<open>MainFunc\<close> calls \<^verbatim>\<open>m_cb\<close>; calling an empty function throws. Being entered again after its end fails an assertion.\<close>

fun fiber_step :: "(nat \<Rightarrow> 'c \<Rightarrow> 'c request) \<Rightarrow> int \<Rightarrow> bool \<Rightarrow> nat \<Rightarrow> 'c ctx \<Rightarrow> 'c sched \<Rightarrow> failure + 'c sched" where
  "fiber_step exec t b f (Fresh None) w = request_step t b f Throw w"
| "fiber_step exec t b f (Fresh (Some p)) w = request_step t b f (exec f p) w"
| "fiber_step exec t b f (Run p) w = request_step t b f (exec f p) w"
| "fiber_step exec t b f (Hold p) w = do_YieldToHold t b f p w"
| "fiber_step exec t b f (Leave (Some p)) w = Inr (leave_fiber t b f (Run p) w)"
| "fiber_step exec t b f (Leave None) w = Inr (leave_fiber t b f Dead w)"
| "fiber_step exec t b f Dead w = Inl AssertFail"

section \<open>Steps of \<^verbatim>\<open>Scheduler::run\<close>\<close>

definition enter_step :: "int \<Rightarrow> 'c sched \<Rightarrow> 'c sched" where
  "enter_step t w = goto_pc t Scan (set_cb t None (set_idle t INIT (w\<lparr>s_fiber_id := Suc (s_fiber_id w)\<rparr>)))"

definition scan_step :: "int \<Rightarrow> 'c sched \<Rightarrow> 'c sched" where
  "scan_step t w =
     (let (ft, q, tickle_me) = scan (state_of w) t (m_fibers w); w = w\<lparr>m_fibers := q\<rparr> in
      goto_pc t (Dispatch ft) (if ft = None then w else w\<lparr>m_activeThreadCount := m_activeThreadCount w + 1\<rparr>))"

definition run_fiber :: "int \<Rightarrow> bool \<Rightarrow> nat \<Rightarrow> 'c sched \<Rightarrow> failure + 'c sched" where
  "run_fiber t b f w = (case Fiber_swapIn (fibers w f) of Inl e \<Rightarrow> Inl e
     | Inr (c, fb) \<Rightarrow> Inr (goto_pc t (In b f c) (set_fiber f fb w)))"

text \<open>The fiber for a callback: the thread's \<^verbatim>\<open>cb_fiber\<close>, or a new one.\<close>

definition prepare_cb :: "int \<Rightarrow> 'c \<Rightarrow> 'c sched \<Rightarrow> failure + nat \<times> 'c sched" where
  "prepare_cb t c w =
     (case cb_fiber (threads w t) of
        Some f \<Rightarrow> (case Fiber_reset (Some c) (fibers w f) of Inl e \<Rightarrow> Inl e | Inr fb \<Rightarrow> Inr (f, set_fiber f fb w))
      | None \<Rightarrow> let f = Suc (s_fiber_id w)
                in Inr (f, set_cb t (Some f) (set_fiber f (new_Fiber (Some c)) (w\<lparr>s_fiber_id := f\<rparr>))))"

fun dispatch_step :: "int \<Rightarrow> 'c entry option \<Rightarrow> 'c sched \<Rightarrow> failure + 'c sched" where
  "dispatch_step t (Some (FiberTask f, thread)) w =
     (if state_of w f \<noteq> TERM_state \<and> state_of w f \<noteq> EXCEPT then run_fiber t False f w
      else Inr (goto_pc t Scan (w\<lparr>m_activeThreadCount := m_activeThreadCount w - 1\<rparr>)))"
| "dispatch_step t (Some (CbTask c, thread)) w =
     (case prepare_cb t c w of Inl e \<Rightarrow> Inl e
      | Inr (f, w) \<Rightarrow> run_fiber t True f (w\<lparr>started := started w @ [(c, thread, t)]\<rparr>))"
| "dispatch_step t None w =
     (if idle_fiber (threads w t) = TERM_state then Inr (goto_pc t Exited w)
      else if idle_fiber (threads w t) = EXEC \<or> idle_fiber (threads w t) = EXCEPT then Inl AssertFail
      else Inr (goto_pc t InIdle (set_idle t EXEC (w\<lparr>m_idleThreadCount := m_idleThreadCount w + 1\<rparr>))))"

definition ret_step :: "int \<Rightarrow> bool \<Rightarrow> nat \<Rightarrow> 'c sched \<Rightarrow> 'c sched" where
  "ret_step t b f w = goto_pc t (Post b f) (w\<lparr>m_activeThreadCount := m_activeThreadCount w - 1\<rparr>)"

definition post_step :: "int \<Rightarrow> bool \<Rightarrow> nat \<Rightarrow> 'c sched \<Rightarrow> failure + 'c sched" where
  "post_step t b f w =
     (if state_of w f = READY then Inr (goto_pc t Scan ((if b then set_cb t None else id) (schedule (FiberTask f) (- 1) w)))
      else if state_of w f = TERM_state \<or> state_of w f = EXCEPT
      then if b then (case Fiber_reset None (fibers w f) of Inl e \<Rightarrow> Inl e | Inr fb \<Rightarrow> Inr (goto_pc t Scan (set_fiber f fb w)))
           else Inr (goto_pc t Scan w)
      else Inr (goto_pc t Scan ((if b then set_cb t None else id) (set_state f HOLD w))))"

text \<open>\<^verbatim>\<open>Scheduler::idle\<close>, one turn of its loop.\<close>

definition idle_step :: "int \<Rightarrow> 'c sched \<Rightarrow> 'c sched" where
  "idle_step t w = goto_pc t RetIdle (if stopping w then set_idle t TERM_state w else w)"

definition ret_idle_step :: "int \<Rightarrow> 'c sched \<Rightarrow> 'c sched" where
  "ret_idle_step t w =
     (let w = w\<lparr>m_idleThreadCount := m_idleThreadCount w - 1\<rparr>; s = idle_fiber (threads w t) in
      goto_pc t Scan (if s \<noteq> TERM_state \<and> s \<noteq> EXCEPT then set_idle t HOLD w else w))"

definition thread_step :: "(nat \<Rightarrow> 'c \<Rightarrow> 'c request) \<Rightarrow> int \<Rightarrow> 'c sched \<Rightarrow> failure + 'c sched" where
  "thread_step exec t w =
     (case pc_of w t of
        NotStarted \<Rightarrow> Inr w
      | Enter \<Rightarrow> Inr (enter_step t w)
      | Scan \<Rightarrow> Inr (scan_step t w)
      | Dispatch ft \<Rightarrow> dispatch_step t ft w
      | In b f c \<Rightarrow> fiber_step exec t b f c w
      | Ret b f \<Rightarrow> Inr (ret_step t b f w)
      | Post b f \<Rightarrow> post_step t b f w
      | InIdle \<Rightarrow> Inr (idle_step t w)
      | RetIdle \<Rightarrow> Inr (ret_idle_step t w)
      | Exited \<Rightarrow> Inr w)"

section \<open>Construction, start and stop\<close>

definition blank_thread :: "'c thread" where
  "blank_thread = \<lparr>pc = NotStarted, cb_fiber = None, idle_fiber = INIT\<rparr>"

text \<open>The constructor, called in thread \<open>tid\<close>; with \<^verbatim>\<open>use_caller\<close> that thread will run the scheduler inside \<^verbatim>\<open>stop\<close>.\<close>

definition new_Scheduler :: "nat \<Rightarrow> bool \<Rightarrow> int \<Rightarrow> (nat \<Rightarrow> u64) \<Rightarrow> failure + 'c sched" where
  "new_Scheduler thrs use_caller tid conc =
     (if thrs = 0 then Inl AssertFail
      else Inr \<lparr>m_fibers = [], m_activeThreadCount = 0, m_idleThreadCount = 0, m_stopping = True, m_autoStop = False,
        m_rootThread = (if use_caller then tid else - 1), m_threadCount = (if use_caller then thrs - 1 else thrs),
        m_threads = [], m_threadIds = (if use_caller then [tid] else []), s_fiber_id = (if use_caller then 1 else 0),
        fibers = (\<lambda>_. new_Fiber None), threads = (\<lambda>_. blank_thread), sems = (\<lambda>k. \<lparr>m_concurrency = conc k, m_waiters = []\<rparr>),
        stop_at = NotStopping, submitted = [], started = []\<rparr>)"

text \<open>\<open>ids\<close> are the thread numbers that the operating system gives; no other numbers than new ones can occur.\<close>

definition Scheduler_start :: "int list \<Rightarrow> 'c sched \<Rightarrow> failure + 'c sched" where
  "Scheduler_start ids w =
     (if \<not> m_stopping w then Inr w
      else if m_threads w \<noteq> [] then Inl AssertFail
      else if length ids = m_threadCount w \<and> distinct ids \<and> set ids \<inter> set (m_threadIds w) = {} \<and> - 1 \<notin> set ids
      then Inr (w\<lparr>m_stopping := False, m_threads := ids, m_threadIds := m_threadIds w @ ids,
        threads := (\<lambda>t. if t \<in> set ids then blank_thread\<lparr>pc := Enter\<rparr> else threads w t)\<rparr>)
      else Inr w)"

text \<open>The state of \<^verbatim>\<open>m_rootFiber\<close>, which runs \<^verbatim>\<open>Scheduler::run\<close> on the root thread.\<close>

definition rootFiber_state :: "'c sched \<Rightarrow> fiber_state" where
  "rootFiber_state w = (case pc_of w (m_rootThread w) of NotStarted \<Rightarrow> INIT | Exited \<Rightarrow> TERM_state | _ \<Rightarrow> EXEC)"

text \<open>
  \<^verbatim>\<open>stop\<close> up to each point where other threads can notice it: the assignment to \<^verbatim>\<open>m_autoStop\<close>; the early return of a
  scheduler with no threads of its own, or the assertion on \<^verbatim>\<open>GetThis()\<close> and the assignment to \<^verbatim>\<open>m_stopping\<close>; the run of the root
  fiber; the joins.
\<close>

definition stop_step :: "'c sched \<Rightarrow> failure + 'c sched" where
  "stop_step w =
     (case stop_at w of
        NotStopping \<Rightarrow> Inr w
      | Stop1 own \<Rightarrow> let w = w\<lparr>m_stopping := True\<rparr> in
          if m_rootThread w \<noteq> - 1 \<and> m_threadCount w = 0 \<and> (rootFiber_state w = TERM_state \<or> rootFiber_state w = INIT) \<and> stopping w
          then Inr (w\<lparr>stop_at := StopDone\<rparr>)
          else if own \<noteq> (m_rootThread w \<noteq> - 1) then Inl AssertFail
          else Inr (w\<lparr>stop_at := Stop2\<rparr>)
      | Stop2 \<Rightarrow> if m_rootThread w \<noteq> - 1 \<and> \<not> stopping w then Inr ((goto_pc (m_rootThread w) Enter w)\<lparr>stop_at := StopRun\<rparr>)
                 else Inr (w\<lparr>stop_at := StopJoin\<rparr>)
      | StopRun \<Rightarrow> Inr (if pc_of w (m_rootThread w) = Exited then w\<lparr>stop_at := StopJoin\<rparr> else w)
      | StopJoin \<Rightarrow> Inr (if list_all (\<lambda>t. pc_of w t = Exited) (m_threads w) then w\<lparr>m_threads := [], stop_at := StopDone\<rparr> else w)
      | StopDone \<Rightarrow> Inr w)"

text \<open>What can happen next: a step of a thread, or a call from outside. \<^verbatim>\<open>stop\<close> is called once; its argument here says whether
  \<^verbatim>\<open>GetThis()\<close> is this scheduler in the thread that calls it.\<close>

datatype 'c sched_move = Turn int | StartCall "int list" | ExtSchedule "'c option" int | ExtScheduleAll "'c option list" | ExtNotify nat
  | StopCall bool | StopStep

fun move :: "(nat \<Rightarrow> 'c \<Rightarrow> 'c request) \<Rightarrow> 'c sched_move \<Rightarrow> 'c sched \<Rightarrow> failure + 'c sched" where
  "move exec (Turn t) w = thread_step exec t w"
| "move exec (StartCall ids) w = Scheduler_start ids w"
| "move exec (ExtSchedule cb thread) w = Inr (schedule_cb cb thread w)"
| "move exec (ExtScheduleAll cbs) w = Inr (schedule_all cbs w)"
| "move exec (ExtNotify k) w = Inr (FiberSemaphore_notify k w)"
| "move exec (StopCall own) w = Inr (if stop_at w = NotStopping then w\<lparr>m_autoStop := True, stop_at := Stop1 own\<rparr> else w)"
| "move exec StopStep w = stop_step w"

fun moves :: "(nat \<Rightarrow> 'c \<Rightarrow> 'c request) \<Rightarrow> 'c sched_move list \<Rightarrow> 'c sched \<Rightarrow> failure + 'c sched" where
  "moves exec [] w = Inr w"
| "moves exec (m # ms) w = (case move exec m w of Inl e \<Rightarrow> Inl e | Inr w \<Rightarrow> moves exec ms w)"

end
