(* ===== verification/Scheduler_Inv.thy ===== *)
theory Scheduler_Inv
  imports Scheduler
begin

text \<open>
  The invariant of the scheduler, for all interleavings. Each fiber is on at most one thread and in at most one place from which
  it can be woken: the queue, the waiters of one semaphore, or the hands of a thread that took it from the queue.
  These three partial functions (\<open>R\<close>, \<open>T\<close>, and \<open>C\<close> for the threads' \<^verbatim>\<open>cb_fiber\<close>) describe a state; the lemmas say how each
  operation changes them.
\<close>

section \<open>Where fibers are\<close>

datatype place = InQueue | InSem nat | OnThread int

fun queued_fibers :: "'c entry list \<Rightarrow> nat list" where
  "queued_fibers [] = []"
| "queued_fibers ((FiberTask f, _) # q) = f # queued_fibers q"
| "queued_fibers ((CbTask _, _) # q) = queued_fibers q"

fun fiber_on :: "'c pc \<Rightarrow> nat option" where
  "fiber_on (In _ f _) = Some f"
| "fiber_on (Ret _ f) = Some f"
| "fiber_on (Post _ f) = Some f"
| "fiber_on _ = None"

fun taken :: "'c pc \<Rightarrow> nat option" where
  "taken (Dispatch (Some (FiberTask f, _))) = Some f"
| "taken _ = None"

definition not_taken :: "place option \<Rightarrow> bool" where
  "not_taken k \<longleftrightarrow> (\<forall>t. k \<noteq> Some (OnThread t))"

lemma not_taken_simps [simp]: "not_taken None" "not_taken (Some InQueue)" "not_taken (Some (InSem i))" "\<not> not_taken (Some (OnThread t))"
  by (auto simp: not_taken_def)

fun in_ok :: "'c ctx \<Rightarrow> fiber_state \<Rightarrow> place option \<Rightarrow> bool" where
  "in_ok (Fresh _) s k \<longleftrightarrow> s = EXEC \<and> k = None"
| "in_ok (Run _) s k \<longleftrightarrow> s = EXEC \<and> k = None"
| "in_ok (Hold _) s k \<longleftrightarrow> s = EXEC \<and> not_taken k"
| "in_ok (Leave (Some _)) s k \<longleftrightarrow> s = READY \<and> k = None"
| "in_ok (Leave None) s k \<longleftrightarrow> (s = TERM_state \<or> s = EXCEPT) \<and> k = None"
| "in_ok Dead s k \<longleftrightarrow> False"

lemma in_ok_Leave: "in_ok (Leave y) s k \<longleftrightarrow> k = None \<and> (if y = None then s = TERM_state \<or> s = EXCEPT else s = READY)"
  by (cases y) auto

definition can_resume :: "'c fiber \<Rightarrow> bool" where
  "can_resume fb \<longleftrightarrow> (\<exists>p. m_ctx fb = Some (Run p))"

definition out_ok :: "'c fiber \<Rightarrow> place option \<Rightarrow> bool" where
  "out_ok fb k \<longleftrightarrow> (m_state fb = EXEC \<and> can_resume fb \<and> not_taken k) \<or> (m_state fb = READY \<and> can_resume fb \<and> k = None)
     \<or> ((m_state fb = TERM_state \<or> m_state fb = EXCEPT) \<and> k = None)"

fun pc_ok :: "int \<Rightarrow> 'c pc \<Rightarrow> 'c fiber \<Rightarrow> place option \<Rightarrow> int option \<Rightarrow> bool" where
  "pc_ok t (In b f x) fb k c \<longleftrightarrow> c = (if b then Some t else None) \<and> in_ok x (m_state fb) k"
| "pc_ok t (Ret b f) fb k c \<longleftrightarrow> c = (if b then Some t else None) \<and> out_ok fb k"
| "pc_ok t (Post b f) fb k c \<longleftrightarrow> c = (if b then Some t else None) \<and> out_ok fb k"
| "pc_ok t _ fb k c \<longleftrightarrow> False"

definition parked_ok :: "'c fiber \<Rightarrow> place option \<Rightarrow> int option \<Rightarrow> bool" where
  "parked_ok fb k c \<longleftrightarrow> m_state fb \<noteq> EXEC \<and> (c \<noteq> None \<longrightarrow> m_state fb = INIT) \<and>
     (k \<noteq> None \<longrightarrow> (m_state fb = HOLD \<or> m_state fb = READY) \<and> can_resume fb \<and> c = None)"

definition fiber_ok :: "'c sched \<Rightarrow> nat \<Rightarrow> int option \<Rightarrow> place option \<Rightarrow> int option \<Rightarrow> bool" where
  "fiber_ok w f r k c \<longleftrightarrow> (case r of None \<Rightarrow> parked_ok (fibers w f) k c | Some t \<Rightarrow> pc_ok t (pc_of w t) (fibers w f) k c)"

definition fibers_inv :: "'c sched \<Rightarrow> (nat \<Rightarrow> int option) \<Rightarrow> (nat \<Rightarrow> place option) \<Rightarrow> (nat \<Rightarrow> int option) \<Rightarrow> bool" where
  "fibers_inv w R T C \<longleftrightarrow>
     (\<forall>t f. fiber_on (pc_of w t) = Some f \<longleftrightarrow> R f = Some t) \<and>
     (\<forall>f. f \<in> set (queued_fibers (m_fibers w)) \<longleftrightarrow> T f = Some InQueue) \<and>
     (\<forall>i f. f \<in> set (m_waiters (sems w i)) \<longleftrightarrow> T f = Some (InSem i)) \<and>
     (\<forall>t f. taken (pc_of w t) = Some f \<longleftrightarrow> T f = Some (OnThread t)) \<and>
     (\<forall>t f. cb_fiber (threads w t) = Some f \<longleftrightarrow> C f = Some t) \<and>
     distinct (queued_fibers (m_fibers w)) \<and> (\<forall>i. distinct (m_waiters (sems w i))) \<and>
     (\<forall>f. fiber_ok w f (R f) (T f) (C f)) \<and>
     (\<forall>f. s_fiber_id w < f \<longrightarrow> R f = None \<and> T f = None \<and> C f = None)"

lemmas update_defs = goto_pc_def set_cb_def set_idle_def set_fiber_def set_state_def set_sem_def

lemma queued_fibers_append [simp]: "queued_fibers (p @ q) = queued_fibers p @ queued_fibers q"
  by (induction p rule: queued_fibers.induct) auto

text \<open>What \<open>scan\<close> takes is the first entry that may run on the thread; the others stay in order.\<close>

definition may_run :: "(nat \<Rightarrow> fiber_state) \<Rightarrow> int \<Rightarrow> 'c entry \<Rightarrow> bool" where
  "may_run st t e \<longleftrightarrow> (snd e = - 1 \<or> snd e = t) \<and> (\<forall>f. fst e = FiberTask f \<longrightarrow> st f \<noteq> EXEC)"

lemma scan_cases:
  obtains (none) tm where "scan st t q = (None, q, tm)" "\<And>e. e \<in> set q \<Longrightarrow> \<not> may_run st t e"
  | (some) e p r tm where "q = p @ e # r" "scan st t q = (Some e, p @ r, tm)" "may_run st t e" "\<And>e. e \<in> set p \<Longrightarrow> \<not> may_run st t e"
proof -
  have "(\<exists>tm. scan st t q = (None, q, tm) \<and> (\<forall>e \<in> set q. \<not> may_run st t e)) \<or>
    (\<exists>e p r tm. q = p @ e # r \<and> scan st t q = (Some e, p @ r, tm) \<and> may_run st t e \<and> (\<forall>e \<in> set p. \<not> may_run st t e))"
    (is "?N q \<or> ?S q")
  proof (induction q)
    case (Cons x q)
    obtain fc thread where x: "x = (fc, thread)" by (cases x)
    show ?case
    proof (cases "may_run st t x")
      case True
      then have "scan st t (x # q) = (Some x, q, q \<noteq> [])" by (auto simp: x may_run_def split: task.split)
      then show ?thesis using True by fastforce
    next
      case False
      have s: "\<exists>tm. scan st t (x # q) = (r, x # q', tm)" if "scan st t q = (r, q', tm')" for r q' tm'
        using False that by (auto simp: x may_run_def split: task.split)
      from Cons.IH show ?thesis
      proof
        assume "?N q"
        then show ?thesis using s False by fastforce
      next
        assume "?S q"
        then obtain e p r tm where e: "q = p @ e # r" "scan st t q = (Some e, p @ r, tm)" "may_run st t e"
            "\<forall>e \<in> set p. \<not> may_run st t e" by blast
        obtain tm' where "scan st t (x # q) = (Some e, x # p @ r, tm')" using s [OF e(2)] by blast
        then show ?thesis using e(1,3,4) False by (intro disjI2 exI [of _ e] exI [of _ "x # p"] exI [of _ r] exI [of _ tm']) auto
      qed
    qed
  qed auto
  then show thesis using that by blast
qed

section \<open>Preservation\<close>

lemma fibers_invD:
  assumes "fibers_inv w R T C"
  shows "fiber_on (pc_of w t) = Some f \<longleftrightarrow> R f = Some t"
    "f \<in> set (queued_fibers (m_fibers w)) \<longleftrightarrow> T f = Some InQueue"
    "f \<in> set (m_waiters (sems w i)) \<longleftrightarrow> T f = Some (InSem i)"
    "taken (pc_of w t) = Some f \<longleftrightarrow> T f = Some (OnThread t)"
    "cb_fiber (threads w t) = Some f \<longleftrightarrow> C f = Some t"
    "distinct (queued_fibers (m_fibers w))" "distinct (m_waiters (sems w i))"
    "fiber_ok w f (R f) (T f) (C f)" "s_fiber_id w < f \<Longrightarrow> R f = None \<and> T f = None \<and> C f = None"
  using assms unfolding fibers_inv_def by blast+

lemma fibers_invI:
  assumes "\<And>t f. fiber_on (pc_of w t) = Some f \<longleftrightarrow> R f = Some t"
    "\<And>f. f \<in> set (queued_fibers (m_fibers w)) \<longleftrightarrow> T f = Some InQueue"
    "\<And>i f. f \<in> set (m_waiters (sems w i)) \<longleftrightarrow> T f = Some (InSem i)"
    "\<And>t f. taken (pc_of w t) = Some f \<longleftrightarrow> T f = Some (OnThread t)"
    "\<And>t f. cb_fiber (threads w t) = Some f \<longleftrightarrow> C f = Some t"
    "distinct (queued_fibers (m_fibers w))" "\<And>i. distinct (m_waiters (sems w i))"
    "\<And>f. fiber_ok w f (R f) (T f) (C f)" "\<And>f. s_fiber_id w < f \<Longrightarrow> R f = None \<and> T f = None \<and> C f = None"
  shows "fibers_inv w R T C"
  using assms unfolding fibers_inv_def by blast

lemma inv_frame:
  assumes "fibers_inv w R T C" "threads w' = threads w" "fibers w' = fibers w" "s_fiber_id w' = s_fiber_id w"
    "queued_fibers (m_fibers w') = queued_fibers (m_fibers w)" "\<And>i. m_waiters (sems w' i) = m_waiters (sems w i)"
  shows "fibers_inv w' R T C"
  using assms(1) unfolding fibers_inv_def fiber_ok_def assms(2-) .

text \<open>A thread that is in no fiber and holds none moves on.\<close>

lemma inv_thread:
  assumes "fibers_inv w R T C"
    and "threads w' = (threads w)(t := th)" "fibers w' = fibers w" "m_fibers w' = m_fibers w" "sems w' = sems w"
      "s_fiber_id w \<le> s_fiber_id w'"
    and "fiber_on (pc_of w t) = None" "taken (pc_of w t) = None" "fiber_on (pc th) = None" "taken (pc th) = None"
      "cb_fiber th = cb_fiber (threads w t)"
  shows "fibers_inv w' R T C"
proof (rule fibers_invI)
  note D = fibers_invD [OF assms(1)] and E = assms(2-)
  have n: "R f \<noteq> Some t" "T f \<noteq> Some (OnThread t)" for f using D(1,4) [of t f] E(6,7) by auto
  show "fiber_on (pc_of w' u) = Some f \<longleftrightarrow> R f = Some u" for u f using D(1) [of u f] n(1) [of f] E by auto
  show "taken (pc_of w' u) = Some f \<longleftrightarrow> T f = Some (OnThread u)" for u f using D(4) [of u f] n(2) [of f] E by auto
  show "fiber_ok w' f (R f) (T f) (C f)" for f
    using D(8) [of f] n(1) [of f] E by (auto simp: fiber_ok_def split: option.splits)
  show "s_fiber_id w' < f \<Longrightarrow> R f = None \<and> T f = None \<and> C f = None" for f using D(9) [of f] E(5) by simp
qed (use fibers_invD [OF assms(1)] assms(2-) in auto)

text \<open>The wake-up of a fiber moves from one place to another, not into or out of the hands of a thread.\<close>

lemma inv_token:
  assumes "fibers_inv w R T C"
    and "threads w' = threads w" "fibers w' = fibers w" "s_fiber_id w' = s_fiber_id w"
    and "\<And>g. g \<in> set (queued_fibers (m_fibers w')) \<longleftrightarrow> (if g = f then k = Some InQueue else g \<in> set (queued_fibers (m_fibers w)))"
      "\<And>g i. g \<in> set (m_waiters (sems w' i)) \<longleftrightarrow> (if g = f then k = Some (InSem i) else g \<in> set (m_waiters (sems w i)))"
      "distinct (queued_fibers (m_fibers w'))" "\<And>i. distinct (m_waiters (sems w' i))"
    and "not_taken (T f)" "not_taken k" "fiber_ok w f (R f) k (C f)" "f \<le> s_fiber_id w"
  shows "fibers_inv w' R (T(f := k)) C"
proof (rule fibers_invI)
  note D = fibers_invD [OF assms(1)] and E = assms(2-)
  show "taken (pc_of w' u) = Some g \<longleftrightarrow> (T(f := k)) g = Some (OnThread u)" for u g
    using D(4) [of u g] E(1,8,9) by (auto simp: not_taken_def)
  show "fiber_ok w' g (R g) ((T(f := k)) g) (C g)" for g
    using D(8) [of g] E(1,2,10) by (auto simp: fiber_ok_def split: option.splits)
  show "s_fiber_id w' < g \<Longrightarrow> R g = None \<and> (T(f := k)) g = None \<and> C g = None" for g using D(9) [of g] E(3,11) by auto
qed (use fibers_invD [OF assms(1)] assms(2-) in auto)

text \<open>A thread and the one fiber it deals with change.\<close>

lemma inv_fiber:
  assumes "fibers_inv w R T C"
    and "threads w' = (threads w)(t := th)" "fibers w' = (fibers w)(f := fb)" "s_fiber_id w \<le> s_fiber_id w'" "f \<le> s_fiber_id w'"
    and "\<And>g. g \<in> set (queued_fibers (m_fibers w')) \<longleftrightarrow> (if g = f then k = Some InQueue else g \<in> set (queued_fibers (m_fibers w)))"
      "\<And>g i. g \<in> set (m_waiters (sems w' i)) \<longleftrightarrow> (if g = f then k = Some (InSem i) else g \<in> set (m_waiters (sems w i)))"
      "distinct (queued_fibers (m_fibers w'))" "\<And>i. distinct (m_waiters (sems w' i))"
    and "R f = None \<or> R f = Some t" "r = None \<or> r = Some t" "fiber_on (pc_of w t) = None \<or> fiber_on (pc_of w t) = Some f"
      "fiber_on (pc th) = (if r = None then None else Some f)"
    and "T f = Some (OnThread t) \<or> not_taken (T f)" "k = Some (OnThread t) \<or> not_taken k" "taken (pc_of w t) = None \<or> taken (pc_of w t) = Some f"
      "taken (pc th) = (if k = Some (OnThread t) then Some f else None)"
    and "C f = None \<or> C f = Some t" "c = None \<or> c = Some t" "\<And>g. cb_fiber th = Some g \<longleftrightarrow> (if g = f then c = Some t else cb_fiber (threads w t) = Some g)"
    and "fiber_ok w' f r k c"
  shows "fibers_inv w' (R(f := r)) (T(f := k)) (C(f := c))"
proof (rule fibers_invI)
  note D = fibers_invD [OF assms(1)] and E = assms(2-)
  have n: "g \<noteq> f \<Longrightarrow> R g \<noteq> Some t" "g \<noteq> f \<Longrightarrow> T g \<noteq> Some (OnThread t)" for g
    using D(1,4) [of t g] E(11,15) by auto
  show "fiber_on (pc_of w' u) = Some g \<longleftrightarrow> (R(f := r)) g = Some u" for u g
    using D(1) [of u g] n(1) [of g] E(1,9,10,12) by auto
  show "taken (pc_of w' u) = Some g \<longleftrightarrow> (T(f := k)) g = Some (OnThread u)" for u g
    using D(4) [of u g] n(2) [of g] E(1,13,14,16) by (auto simp: not_taken_def)
  show "cb_fiber (threads w' u) = Some g \<longleftrightarrow> (C(f := c)) g = Some u" for u g
    using D(5) [of u g] E(1,17,18) E(19) [of g] by (cases "u = t"; cases "g = f") auto
  show "fiber_ok w' g ((R(f := r)) g) ((T(f := k)) g) ((C(f := c)) g)" for g
    using D(8) [of g] n(1) [of g] E(1,2,20) by (auto simp: fiber_ok_def split: option.splits)
  show "s_fiber_id w' < g \<Longrightarrow> (R(f := r)) g = None \<and> (T(f := k)) g = None \<and> (C(f := c)) g = None" for g
    using D(9) [of g] E(3,4) by auto
qed (use fibers_invD [OF assms(1)] assms(2-) in auto)

text \<open>The operations, one by one.\<close>

lemma can_resume_Run [simp]: "can_resume \<lparr>m_state = s, m_ctx = Some (Run p)\<rparr>"
  by (simp add: can_resume_def)

lemma can_resume_update [simp]:
  "can_resume (fb\<lparr>m_state := s\<rparr>) = can_resume fb" "can_resume (fb\<lparr>m_ctx := Some (Run p)\<rparr>)"
  by (simp_all add: can_resume_def)

lemma inv_located:
  assumes "fibers_inv w R T C"
  shows "R f = Some t \<Longrightarrow> f \<le> s_fiber_id w" "T f = Some l \<Longrightarrow> f \<le> s_fiber_id w" "C f = Some t \<Longrightarrow> f \<le> s_fiber_id w"
    "pc_of w t = In b f x \<Longrightarrow> R f = Some t \<and> C f = (if b then Some t else None) \<and> in_ok x (state_of w f) (T f) \<and> not_taken (T f)"
    "pc_of w t = Ret b f \<or> pc_of w t = Post b f \<Longrightarrow> R f = Some t \<and> C f = (if b then Some t else None) \<and> out_ok (fibers w f) (T f) \<and> not_taken (T f)"
    "R f = None \<Longrightarrow> parked_ok (fibers w f) (T f) (C f)"
    "T f = Some (OnThread t) \<Longrightarrow> R f = None"
proof -
  note D = fibers_invD [OF assms]
  show "R f = Some t \<Longrightarrow> f \<le> s_fiber_id w" "T f = Some l \<Longrightarrow> f \<le> s_fiber_id w" "C f = Some t \<Longrightarrow> f \<le> s_fiber_id w"
    using D(9) [of f] by (cases "s_fiber_id w < f"; simp)+
  have nt: "in_ok x s k \<Longrightarrow> not_taken k" for x :: "'a ctx" and s k by (induction x s k rule: in_ok.induct) auto
  have nt': "out_ok fb k \<Longrightarrow> not_taken k" for fb :: "'a fiber" and k by (auto simp: out_ok_def)
  show in_f: "R f = Some t \<and> C f = (if b then Some t else None) \<and> in_ok x (state_of w f) (T f) \<and> not_taken (T f)"
    if "pc_of w t = In b f x" for t b x
    using D(1) [of t f] D(8) [of f] that nt [of x "state_of w f" "T f"] by (auto simp: fiber_ok_def)
  show out_f: "R f = Some t \<and> C f = (if b then Some t else None) \<and> out_ok (fibers w f) (T f) \<and> not_taken (T f)"
    if "pc_of w t = Ret b f \<or> pc_of w t = Post b f" for t b
    using D(1) [of t f] D(8) [of f] that nt' [of "fibers w f" "T f"] by (auto simp: fiber_ok_def)
  show "R f = None \<Longrightarrow> parked_ok (fibers w f) (T f) (C f)" using D(8) [of f] by (simp add: fiber_ok_def)
  show "R f = None" if "T f = Some (OnThread t)"
  proof (rule ccontr)
    assume "R f \<noteq> None"
    then obtain u where u: "R f = Some u" by blast
    then have "fiber_on (pc_of w u) = Some f" using D(1) by simp
    then show False using in_f [of u] out_f [of u] that by (cases "pc_of w u") auto
  qed
qed

lemma inv_leave:
  assumes "fibers_inv w R T C" "pc_of w t = In b f x" "c = Run p \<or> (c = Dead \<and> x = Leave None)"
  shows "fibers_inv (leave_fiber t b f c w) R T C"
proof -
  note D = fibers_invD [OF assms(1)] and L = inv_located(4) [OF assms(1,2)]
  have ok: "fiber_ok (leave_fiber t b f c w) f (Some t) (T f) (C f)"
    using assms(2,3) L by (cases x) (auto simp: in_ok_Leave fiber_ok_def leave_fiber_def update_defs Fiber_swapOut_def out_ok_def can_resume_def split: if_splits)
  have "fibers_inv (leave_fiber t b f c w) (R(f := Some t)) (T(f := T f)) (C(f := C f))"
    by (rule inv_fiber [OF assms(1)]) (use D(2,3,5,6,7) L inv_located(1) [OF assms(1)] ok assms(2) in \<open>auto simp: leave_fiber_def update_defs\<close>)
  then show ?thesis using L by (simp add: fun_upd_idem)
qed

text \<open>The running code goes on, with another state of the fiber.\<close>

lemma inv_go_on:
  assumes "fibers_inv w R T C" "pc_of w t = In b f x" "in_ok y s (T f)"
  shows "fibers_inv (goto_pc t (In b f y) (set_state f s w)) R T C"
proof -
  let ?w = "goto_pc t (In b f y) (set_state f s w)"
  note D = fibers_invD [OF assms(1)] and L = inv_located(4) [OF assms(1,2)]
  have ok: "fiber_ok ?w f (Some t) (T f) (C f)" using assms(3) L by (simp add: fiber_ok_def update_defs)
  have "fibers_inv ?w (R(f := Some t)) (T(f := T f)) (C(f := C f))"
    by (rule inv_fiber [OF assms(1)]) (use D(2,3,5,6,7) L inv_located(1) [OF assms(1)] ok assms(2) in \<open>auto simp: update_defs\<close>)
  then show ?thesis using L by (simp add: fun_upd_idem)
qed

lemma set_state_same [simp]: "set_state f (state_of w f) w = w"
  by (simp add: update_defs)

lemma inv_go_on':
  assumes "fibers_inv w R T C" "pc_of w t = In b f x" "in_ok y (state_of w f) (T f)"
  shows "fibers_inv (goto_pc t (In b f y) w) R T C"
  using inv_go_on [OF assms] by simp

lemma schedule_simps [simp]:
  "threads (schedule e i w) = threads w" "fibers (schedule e i w) = fibers w" "sems (schedule e i w) = sems w"
  "s_fiber_id (schedule e i w) = s_fiber_id w" "m_fibers (schedule e i w) = m_fibers w @ [(e, i)]"
  by (simp_all add: schedule_def scheduleNoLock_def)

lemma schedule_cb_simps [simp]:
  "threads (schedule_cb cb i w) = threads w" "fibers (schedule_cb cb i w) = fibers w" "sems (schedule_cb cb i w) = sems w"
  "s_fiber_id (schedule_cb cb i w) = s_fiber_id w" "queued_fibers (m_fibers (schedule_cb cb i w)) = queued_fibers (m_fibers w)"
  by (simp_all add: schedule_cb_def split: option.splits)

lemma inv_schedule_cb:
  "fibers_inv w R T C \<Longrightarrow> fibers_inv (schedule_cb cb i w) R T C"
  by (rule inv_frame) simp_all

lemma inv_schedule_all:
  "fibers_inv w R T C \<Longrightarrow> fibers_inv (schedule_all cbs w) R T C"
  unfolding schedule_all_def by (induction cbs arbitrary: w) (simp_all add: inv_schedule_cb)

lemma inv_notify:
  assumes "fibers_inv w R T C"
  obtains T' where "fibers_inv (FiberSemaphore_notify i w) R T' C"
    "threads (FiberSemaphore_notify i w) = threads w" "fibers (FiberSemaphore_notify i w) = fibers w" "\<And>f. T f = None \<Longrightarrow> T' f = None"
proof (cases "m_waiters (sems w i)")
  case Nil
  then have "fibers_inv (FiberSemaphore_notify i w) R T C"
    by (intro inv_frame [OF assms]) (auto simp: FiberSemaphore_notify_def Let_def update_defs)
  then show thesis using that Nil by (simp add: FiberSemaphore_notify_def Let_def update_defs)
next
  case (Cons f fs)
  note D = fibers_invD [OF assms]
  have k: "T f = Some (InSem i)" using D(3) [of f i] Cons by simp
  have ok: "fiber_ok w f (R f) (Some InQueue) (C f)"
    using D(8) [of f] k by (cases "pc_of w (the (R f))"; cases "R f")
      (auto simp: fiber_ok_def parked_ok_def out_ok_def elim: in_ok.elims)
  have q: "f \<notin> set (queued_fibers (m_fibers w))" using D(2) [of f] k by simp
  have s: "g \<in> set (m_waiters (sems w j)) \<Longrightarrow> f \<noteq> g \<or> j = i" for g j using D(3) [of g j] k by auto
  have "fibers_inv (FiberSemaphore_notify i w) R (T(f := Some InQueue)) C"
    by (rule inv_token [OF assms])
      (use D(6) D(7) [of i] D(7) q s k ok inv_located(2) [OF assms k] Cons in \<open>auto simp: FiberSemaphore_notify_def Let_def update_defs\<close>)
  then show thesis using k Cons by (intro that [of "T(f := Some InQueue)"]) (auto simp: FiberSemaphore_notify_def Let_def update_defs)
qed

definition tame :: "(nat \<Rightarrow> 'c \<Rightarrow> 'c request) \<Rightarrow> bool" where
  "tame exec \<longleftrightarrow> (\<forall>f p g i p'. exec f p \<noteq> ScheduleFiber g i p')"

lemma inv_switchTo:
  assumes "fibers_inv w R T C" "pc_of w t = In b f x" "state_of w f = EXEC" "T f = None"
  obtains T' where "fibers_inv (do_switchTo t b f thread p w) R T' C"
proof (cases "thread = - 1 \<or> thread = t")
  case True
  then show thesis using inv_go_on' [OF assms(1,2), of "Run p"] assms(3,4) that by (simp add: do_switchTo_def)
next
  case False
  let ?w = "do_switchTo t b f thread p w"
  note D = fibers_invD [OF assms(1)] and L = inv_located(4) [OF assms(1,2)]
  have w: "?w = goto_pc t (In b f (Hold p)) (schedule (FiberTask f) thread w)" using False by (simp add: do_switchTo_def)
  have ok: "fiber_ok ?w f (Some t) (Some InQueue) (C f)" using assms(3) L by (simp add: w fiber_ok_def update_defs)
  have q: "f \<notin> set (queued_fibers (m_fibers w))" "f \<notin> set (m_waiters (sems w i))" for i using D(2) [of f] D(3) [of f i] assms(4) by auto
  have "fibers_inv ?w (R(f := Some t)) (T(f := Some InQueue)) (C(f := C f))"
    by (rule inv_fiber [OF assms(1), where fb = "fibers w f" and th = "(threads w t)\<lparr>pc := In b f (Hold p)\<rparr>"])
      (use D(2,3,5,6,7) L q inv_located(1) [OF assms(1)] ok assms(2,4) in \<open>auto simp: w update_defs\<close>)
  then show thesis using L that by (simp add: fun_upd_idem)
qed

lemma inv_wait:
  assumes "fibers_inv w R T C" "pc_of w t = In b f x" "state_of w f = EXEC" "T f = None" "FiberSemaphore_wait i f w = (blocked, w')"
  obtains T' where "fibers_inv (goto_pc t (In b f (if blocked then Hold p else Run p)) w') R T' C"
proof (cases blocked)
  case False
  then have "fibers_inv w' R T C" "threads w' = threads w" "fibers w' = fibers w" using assms(5)
    by (auto intro!: inv_frame [OF assms(1)] simp: FiberSemaphore_wait_def Let_def update_defs split: if_splits)
  then show thesis using inv_go_on' [of w' R T C t b f x "Run p"] assms(2,3,4) that False by simp
next
  case True
  let ?w = "goto_pc t (In b f (Hold p)) w'"
  note D = fibers_invD [OF assms(1)] and L = inv_located(4) [OF assms(1,2)]
  have w: "w' = set_sem i ((sems w i)\<lparr>m_waiters := m_waiters (sems w i) @ [f]\<rparr>) w"
    using assms(5) True by (auto simp: FiberSemaphore_wait_def Let_def split: if_splits)
  have ok: "fiber_ok ?w f (Some t) (Some (InSem i)) (C f)" using assms(3) L by (simp add: w fiber_ok_def update_defs)
  have q: "f \<notin> set (queued_fibers (m_fibers w))" "f \<notin> set (m_waiters (sems w j))" for j using D(2) [of f] D(3) [of f j] assms(4) by auto
  have "fibers_inv ?w (R(f := Some t)) (T(f := Some (InSem i))) (C(f := C f))"
    by (rule inv_fiber [OF assms(1), where fb = "fibers w f" and th = "(threads w t)\<lparr>pc := In b f (Hold p)\<rparr>"])
      (use D(2,3,5,6,7) L q inv_located(1) [OF assms(1)] ok assms(2,4) in \<open>auto simp: w update_defs\<close>)
  then show thesis using L that True by (simp add: fun_upd_idem)
qed

lemma inv_request:
  assumes "fibers_inv w R T C" "pc_of w t = In b f x" "state_of w f = EXEC" "T f = None" "\<And>g i p. req \<noteq> ScheduleFiber g i p"
  shows "\<exists>w' T'. request_step t b f req w = Inr w' \<and> fibers_inv w' R T' C"
proof (cases req)
  case (Schedule cb thread p)
  then show ?thesis using inv_go_on' [OF inv_schedule_cb [OF assms(1)], of cb thread t b f x "Run p"] assms(2,3,4) by auto
next
  case (YieldToReady p)
  then show ?thesis using inv_go_on [OF assms(1,2), of "Leave (Some p)" READY] assms(3,4) by (auto simp: do_YieldToReady_def)
next
  case (YieldToHold p)
  then show ?thesis using inv_leave [OF assms(1,2), of "Run p" p] assms(3) by (auto simp: do_YieldToHold_def)
next
  case (SwitchTo thread p)
  obtain T' where "fibers_inv (do_switchTo t b f thread p w) R T' C" by (rule inv_switchTo [OF assms(1-4)])
  then show ?thesis using SwitchTo by auto
next
  case (SemWait i p)
  obtain blocked w' where w: "FiberSemaphore_wait i f w = (blocked, w')" by fastforce
  obtain T' where "fibers_inv (goto_pc t (In b f (if blocked then Hold p else Run p)) w') R T' C" by (rule inv_wait [OF assms(1-4) w])
  then show ?thesis using SemWait w by auto
next
  case (SemTryWait i p)
  obtain r w' where w: "FiberSemaphore_tryWait i w = (r, w')" by fastforce
  then have "fibers_inv w' R T C" "threads w' = threads w" "fibers w' = fibers w"
    by (auto intro!: inv_frame [OF assms(1)] simp: FiberSemaphore_tryWait_def Let_def update_defs split: if_splits)
  then show ?thesis using inv_go_on' [of w' R T C t b f x "Run (p r)"] assms(2,3,4) SemTryWait w by auto
next
  case (SemNotify i p)
  obtain T' where n: "fibers_inv (FiberSemaphore_notify i w) R T' C" "threads (FiberSemaphore_notify i w) = threads w"
      "fibers (FiberSemaphore_notify i w) = fibers w" "\<And>f. T f = None \<Longrightarrow> T' f = None"
    by (rule inv_notify [OF assms(1), of i]) blast
  then show ?thesis using inv_go_on' [OF n(1), of t b f x "Run p"] assms(2,3,4) SemNotify by auto
next
  case Return
  then show ?thesis using inv_go_on [OF assms(1,2), of "Leave None" TERM_state] assms(4) by auto
next
  case Throw
  then show ?thesis using inv_go_on [OF assms(1,2), of "Leave None" EXCEPT] assms(4) by auto
qed (use assms(5) in auto)

lemma inv_fiber_step:
  assumes "fibers_inv w R T C" "pc_of w t = In b f x" "tame exec"
  shows "\<exists>w' T'. fiber_step exec t b f x w = Inr w' \<and> fibers_inv w' R T' C"
proof -
  note L = inv_located(4) [OF assms(1,2)]
  have e: "exec g p \<noteq> ScheduleFiber h i p'" for g p h i p' using assms(3) by (simp add: tame_def)
  show ?thesis
  proof (cases x)
    case (Fresh y)
    then show ?thesis using inv_request [OF assms(1,2), of Throw] inv_request [OF assms(1,2), of "exec f (the y)"] L e
      by (cases y) auto
  next
    case (Run p)
    then show ?thesis using inv_request [OF assms(1,2)] L e by auto
  next
    case (Hold p)
    then show ?thesis using inv_leave [OF assms(1,2), of "Run p" p] L by (auto simp: do_YieldToHold_def)
  next
    case (Leave y)
    then show ?thesis using inv_leave [OF assms(1,2)] L by (cases y) auto
  qed (use L in simp)
qed

section \<open>The loop of a thread\<close>

lemma inv_scan:
  assumes "fibers_inv w R T C" "pc_of w t = Scan"
  shows "\<exists>T'. fibers_inv (scan_step t w) R T' C"
proof (cases rule: scan_cases [of "state_of w" t "m_fibers w"])
  case (none tm)
  then have "fibers_inv (scan_step t w) R T C"
    by (intro inv_thread [OF assms(1), where t = t and th = "(threads w t)\<lparr>pc := Dispatch None\<rparr>"])
      (simp_all add: scan_step_def update_defs assms(2))
  then show ?thesis by blast
next
  case (some e p r tm)
  note D = fibers_invD [OF assms(1)]
  have w: "scan_step t w = goto_pc t (Dispatch (Some e)) (w\<lparr>m_fibers := p @ r, m_activeThreadCount := m_activeThreadCount w + 1\<rparr>)"
    using some(2) by (simp add: scan_step_def)
  show ?thesis
  proof (cases "fst e")
    case (CbTask c)
    then obtain i where e: "e = (CbTask c, i)" by (cases e) auto
    have "fibers_inv (w\<lparr>m_fibers := p @ r\<rparr>) R T C" by (rule inv_frame [OF assms(1)]) (simp_all add: some(1) e)
    then have "fibers_inv (scan_step t w) R T C"
      by (rule inv_thread [where t = t and th = "(threads w t)\<lparr>pc := Dispatch (Some e)\<rparr>"]) (simp_all add: w update_defs assms(2) e)
    then show ?thesis by blast
  next
    case (FiberTask f)
    then obtain i where e: "e = (FiberTask f, i)" by (cases e) auto
    have k: "T f = Some InQueue" using D(2) [of f] some(1) e by simp
    have st: "state_of w f \<noteq> EXEC" using some(3) by (simp add: may_run_def e)
    have r: "R f = None"
    proof (rule ccontr)
      assume "R f \<noteq> None"
      then obtain u where "R f = Some u" by blast
      then have "pc_ok u (pc_of w u) (fibers w f) (Some InQueue) (C f)" using D(8) [of f] k by (simp add: fiber_ok_def)
      then show False using st by (cases "pc_of w u") (auto simp: out_ok_def elim: in_ok.elims)
    qed
    have ok: "fiber_ok (scan_step t w) f None (Some (OnThread t)) (C f)"
      using inv_located(6) [OF assms(1) r] k by (simp add: fiber_ok_def parked_ok_def w update_defs)
    have c: "C f = None" using inv_located(6) [OF assms(1) r] k by (simp add: parked_ok_def)
    have d: "distinct (queued_fibers p @ f # queued_fibers r)" using D(6) by (simp add: some(1) e)
    have q: "g \<in> set (queued_fibers (m_fibers w)) \<longleftrightarrow> g = f \<or> g \<in> set (queued_fibers (p @ r))" for g by (auto simp: some(1) e)
    have s: "f \<notin> set (m_waiters (sems w i))" for i using D(3) [of f i] k by simp
    have "fibers_inv (scan_step t w) (R(f := None)) (T(f := Some (OnThread t))) (C(f := C f))"
      by (rule inv_fiber [OF assms(1), where t = t and fb = "fibers w f" and th = "(threads w t)\<lparr>pc := Dispatch (Some e)\<rparr>"])
        (use D(3,5,7) d q s k r c ok inv_located(2) [OF assms(1) k] in \<open>auto simp: w update_defs assms(2) e\<close>)
    then show ?thesis using r by (auto simp: fun_upd_idem)
  qed
qed

lemma inv_run_fiber:
  assumes "fibers_inv w R T C" "fiber_on (pc_of w t) = None" "taken (pc_of w t) = None \<or> taken (pc_of w t) = Some f"
    and "R f = None" "T f = None \<or> T f = Some (OnThread t)" "C f = (if b then Some t else None)"
    and "m_ctx (fibers w f) = Some x" "x = Fresh y \<or> x = Run p" "f \<le> s_fiber_id w"
  shows "\<exists>w' R' T'. run_fiber t b f w = Inr w' \<and> fibers_inv w' R' T' C"
proof -
  note D = fibers_invD [OF assms(1)]
  let ?w = "goto_pc t (In b f x) (set_fiber f \<lparr>m_state = EXEC, m_ctx = None\<rparr> w)"
  have s: "state_of w f \<noteq> EXEC" using inv_located(6) [OF assms(1,4)] by (simp add: parked_ok_def)
  have q: "f \<notin> set (queued_fibers (m_fibers w))" "f \<notin> set (m_waiters (sems w j))" for j using D(2) [of f] D(3) [of f j] assms(5) by auto
  have "fibers_inv ?w (R(f := Some t)) (T(f := None)) (C(f := C f))"
    by (rule inv_fiber [OF assms(1), where fb = "\<lparr>m_state = EXEC, m_ctx = None\<rparr>" and th = "(threads w t)\<lparr>pc := In b f x\<rparr>"])
      (use D(5,6,7) q assms(2-6,8,9) in \<open>auto simp: update_defs fiber_ok_def\<close>)
  moreover have "run_fiber t b f w = Inr ?w" using s assms(7) by (simp add: run_fiber_def Fiber_swapIn_def)
  ultimately show ?thesis by (auto simp: fun_upd_idem)
qed

lemma inv_prepare_cb:
  assumes "fibers_inv w R T C" "pc_of w t = Dispatch (Some (CbTask c, i))"
  obtains f w' C' where "prepare_cb t c w = Inr (f, w')" "fibers_inv w' R T C'" "pc_of w' t = pc_of w t" "R f = None" "T f = None"
    "C' f = Some t" "m_ctx (fibers w' f) = Some (Fresh (Some c))" "f \<le> s_fiber_id w'"
proof (cases "cb_fiber (threads w t)")
  case (Some f)
  note D = fibers_invD [OF assms(1)]
  have c: "C f = Some t" using D(5) Some by simp
  have r: "R f = None"
  proof (rule ccontr)
    assume "R f \<noteq> None"
    then obtain u where "R f = Some u" by blast
    then have "pc_ok u (pc_of w u) (fibers w f) (T f) (C f)" using D(8) [of f] by (simp add: fiber_ok_def)
    then show False using c assms(2) by (cases "pc_of w u") (auto split: if_splits)
  qed
  note P = inv_located(6) [OF assms(1) r]
  have k: "T f = None" and s: "state_of w f = INIT" using P c by (auto simp: parked_ok_def)
  let ?w = "set_fiber f (new_Fiber (Some c)) w"
  have q: "f \<notin> set (queued_fibers (m_fibers w))" "f \<notin> set (m_waiters (sems w j))" for j using D(2) [of f] D(3) [of f j] k by auto
  have "fibers_inv ?w (R(f := None)) (T(f := None)) (C(f := Some t))"
    by (rule inv_fiber [OF assms(1), where th = "threads w t" and fb = "new_Fiber (Some c)"])
      (use D(5,6,7) q r k c assms(2) inv_located(3) [OF assms(1) c] in \<open>auto simp: update_defs fiber_ok_def parked_ok_def new_Fiber_def\<close>)
  then have "fibers_inv ?w R T C" using r k c by (simp add: fun_upd_idem)
  moreover have "prepare_cb t c w = Inr (f, ?w)" using Some s by (simp add: prepare_cb_def Fiber_reset_def)
  ultimately show thesis using r k c inv_located(3) [OF assms(1) c] by (intro that [of f ?w C]) (auto simp: update_defs new_Fiber_def)
next
  case None
  note D = fibers_invD [OF assms(1)]
  define f where "f = Suc (s_fiber_id w)"
  let ?w = "set_cb t (Some f) (set_fiber f (new_Fiber (Some c)) (w\<lparr>s_fiber_id := f\<rparr>))"
  have n: "R f = None" "T f = None" "C f = None" using D(9) [of f] by (auto simp: f_def)
  have q: "f \<notin> set (queued_fibers (m_fibers w))" "f \<notin> set (m_waiters (sems w j))" for j using D(2) [of f] D(3) [of f j] n by auto
  have "fibers_inv ?w (R(f := None)) (T(f := None)) (C(f := Some t))"
    by (rule inv_fiber [OF assms(1), where th = "(threads w t)\<lparr>cb_fiber := Some f\<rparr>" and fb = "new_Fiber (Some c)"])
      (use D(6,7) q n None assms(2) in \<open>auto simp: update_defs fiber_ok_def parked_ok_def new_Fiber_def f_def\<close>)
  then have "fibers_inv ?w R T (C(f := Some t))" using n by (simp add: fun_upd_idem)
  moreover have "prepare_cb t c w = Inr (f, ?w)" using None by (simp add: prepare_cb_def f_def Let_def)
  ultimately show thesis using n by (intro that [of f ?w "C(f := Some t)"]) (auto simp: update_defs new_Fiber_def)
qed

lemma inv_dispatch_cb:
  assumes "fibers_inv w R T C" "pc_of w t = Dispatch (Some (CbTask c, i))"
  shows "\<exists>w' R' T' C'. dispatch_step t (Some (CbTask c, i)) w = Inr w' \<and> fibers_inv w' R' T' C'"
proof -
  obtain f w' C' where p: "prepare_cb t c w = Inr (f, w')" "fibers_inv w' R T C'" "pc_of w' t = pc_of w t" "R f = None" "T f = None"
      "C' f = Some t" "m_ctx (fibers w' f) = Some (Fresh (Some c))" "f \<le> s_fiber_id w'"
    by (rule inv_prepare_cb [OF assms])
  let ?w = "w'\<lparr>started := started w' @ [(c, i, t)]\<rparr>"
  have "fibers_inv ?w R T C'" by (rule inv_frame [OF p(2)]) simp_all
  then have "\<exists>w'' R' T'. run_fiber t True f ?w = Inr w'' \<and> fibers_inv w'' R' T' C'"
    by (rule inv_run_fiber) (use p assms(2) in auto)
  then show ?thesis using p(1) by auto
qed

lemma inv_dispatch_fiber:
  assumes "fibers_inv w R T C" "pc_of w t = Dispatch (Some (FiberTask f, i))"
  shows "\<exists>w' R' T' C'. dispatch_step t (Some (FiberTask f, i)) w = Inr w' \<and> fibers_inv w' R' T' C'"
proof -
  have k: "T f = Some (OnThread t)" using fibers_invD(4) [OF assms(1), of t f] assms(2) by simp
  note r = inv_located(7) [OF assms(1) k]
  have P: "state_of w f = HOLD \<or> state_of w f = READY" "can_resume (fibers w f)" "C f = None"
    using inv_located(6) [OF assms(1) r] k by (auto simp: parked_ok_def)
  then obtain p where p: "m_ctx (fibers w f) = Some (Run p)" by (auto simp: can_resume_def)
  have "\<exists>w' R' T'. run_fiber t False f w = Inr w' \<and> fibers_inv w' R' T' C"
    by (rule inv_run_fiber [OF assms(1)]) (use assms(2) r k P p inv_located(2) [OF assms(1) k] in auto)
  then show ?thesis using P(1) by auto
qed

lemma inv_post:
  assumes "fibers_inv w R T C" "pc_of w t = Post b f"
  shows "\<exists>w' R' T' C'. post_step t b f w = Inr w' \<and> fibers_inv w' R' T' C'"
proof -
  note D = fibers_invD [OF assms(1)] and L = inv_located(5) [OF assms(1) disjI2 [OF assms(2)]]
  have le: "f \<le> s_fiber_id w" using inv_located(1) [OF assms(1)] L by blast
  define th where "th = (if b then (threads w t)\<lparr>cb_fiber := None\<rparr> else threads w t)\<lparr>pc := Scan\<rparr>"
  have th: "pc th = Scan" "cb_fiber th = (if b then None else cb_fiber (threads w t))" by (simp_all add: th_def)
  have cb: "cb_fiber th = Some g \<longleftrightarrow> g \<noteq> f \<and> cb_fiber (threads w t) = Some g" for g using D(5) [of t f] L th(2) by auto
  consider (ready) "state_of w f = READY" "can_resume (fibers w f)" "T f = None" | (ended) "state_of w f = TERM_state \<or> state_of w f = EXCEPT" "T f = None"
    | (held) "state_of w f = EXEC" "can_resume (fibers w f)" using L by (auto simp: out_ok_def)
  then show ?thesis
  proof cases
    case ready
    have q: "f \<notin> set (queued_fibers (m_fibers w))" "f \<notin> set (m_waiters (sems w j))" for j using D(2) [of f] D(3) [of f j] ready by auto
    obtain w' where w: "post_step t b f w = Inr w'" "threads w' = (threads w)(t := th)" "fibers w' = fibers w"
        "m_fibers w' = m_fibers w @ [(FiberTask f, - 1)]" "sems w' = sems w" "s_fiber_id w' = s_fiber_id w"
      using ready by (cases b) (auto simp: post_step_def update_defs th_def)
    have "fibers_inv w' (R(f := None)) (T(f := Some InQueue)) (C(f := None))"
      by (rule inv_fiber [OF assms(1), where th = th and fb = "fibers w f" and t = t])
        (use D(6,7) q w(2-) th(1) L le cb ready assms(2) in \<open>auto simp: fiber_ok_def parked_ok_def\<close>)
    then show ?thesis using w(1) by blast
  next
    case held
    obtain w' where w: "post_step t b f w = Inr w'" "threads w' = (threads w)(t := th)" "fibers w' = (fibers w)(f := (fibers w f)\<lparr>m_state := HOLD\<rparr>)"
        "m_fibers w' = m_fibers w" "sems w' = sems w" "s_fiber_id w' = s_fiber_id w"
      using held by (cases b) (auto simp: post_step_def update_defs th_def)
    have "fibers_inv w' (R(f := None)) (T(f := T f)) (C(f := None))"
      by (rule inv_fiber [OF assms(1), where th = th and fb = "(fibers w f)\<lparr>m_state := HOLD\<rparr>" and t = t])
        (use D(2,3,6,7) w(2-) th(1) L le cb held assms(2) in \<open>auto simp: fiber_ok_def parked_ok_def\<close>)
    then show ?thesis using w(1) by blast
  next
    case ended
    have q: "f \<notin> set (queued_fibers (m_fibers w))" "f \<notin> set (m_waiters (sems w j))" for j using D(2) [of f] D(3) [of f j] ended by auto
    let ?fb = "if b then new_Fiber None else fibers w f"
    obtain w' where w: "post_step t b f w = Inr w'" "threads w' = (threads w)(t := (threads w t)\<lparr>pc := Scan\<rparr>)" "fibers w' = (fibers w)(f := ?fb)"
        "m_fibers w' = m_fibers w" "sems w' = sems w" "s_fiber_id w' = s_fiber_id w"
      using ended by (cases b) (auto simp: post_step_def update_defs Fiber_reset_def)
    have "fibers_inv w' (R(f := None)) (T(f := None)) (C(f := C f))"
      by (rule inv_fiber [OF assms(1), where th = "(threads w t)\<lparr>pc := Scan\<rparr>" and fb = ?fb and t = t])
        (use D(5,6,7) q w(2-) L le ended assms(2) in \<open>auto simp: fiber_ok_def parked_ok_def new_Fiber_def\<close>)
    then show ?thesis using w(1) by blast
  qed
qed

end
