(* ===== verification/Scheduler_Safe.thy ===== *)
theory Scheduler_Safe
  imports Scheduler_Inv
begin

text \<open>
  The counters of the scheduler, the semaphores, and the safety of all runs: no assertion of \<^verbatim>\<open>Scheduler::run\<close> and of the fibers fails,
  whatever the order in which the threads take their steps, if the code in the fibers wakes fibers only
  through semaphores, \<^verbatim>\<open>switchTo\<close> and \<^verbatim>\<open>YieldToReady\<close>.
\<close>

section \<open>Counters\<close>

fun active_pc :: "'c pc \<Rightarrow> bool" where
  "active_pc (Dispatch ft) \<longleftrightarrow> ft \<noteq> None"
| "active_pc (In _ _ _) \<longleftrightarrow> True"
| "active_pc (Ret _ _) \<longleftrightarrow> True"
| "active_pc _ \<longleftrightarrow> False"

fun idle_pc :: "'c pc \<Rightarrow> bool" where
  "idle_pc InIdle \<longleftrightarrow> True"
| "idle_pc RetIdle \<longleftrightarrow> True"
| "idle_pc _ \<longleftrightarrow> False"

definition tally :: "('c pc \<Rightarrow> 'a::comm_monoid_add) \<Rightarrow> 'c sched \<Rightarrow> 'a" where
  "tally g w = (\<Sum>t\<leftarrow>m_threadIds w. g (pc_of w t))"

definition pc_count :: "('c pc \<Rightarrow> bool) \<Rightarrow> 'c sched \<Rightarrow> u64" where
  "pc_count P w = tally (\<lambda>p. of_bool (P p)) w"

fun idle_ok :: "'c pc \<Rightarrow> fiber_state \<Rightarrow> bool" where
  "idle_ok NotStarted s \<longleftrightarrow> True"
| "idle_ok Enter s \<longleftrightarrow> True"
| "idle_ok InIdle s \<longleftrightarrow> s = EXEC"
| "idle_ok RetIdle s \<longleftrightarrow> s = EXEC \<or> s = TERM_state"
| "idle_ok _ s \<longleftrightarrow> s = INIT \<or> s = HOLD \<or> s = TERM_state"

definition thread_ok :: "'c thread \<Rightarrow> bool" where
  "thread_ok th \<longleftrightarrow> idle_ok (pc th) (idle_fiber th) \<and> (pc th = NotStarted \<or> pc th = Enter \<longrightarrow> cb_fiber th = None)"

definition threads_inv :: "'c sched \<Rightarrow> bool" where
  "threads_inv w \<longleftrightarrow> distinct (m_threadIds w) \<and> - 1 \<notin> set (m_threadIds w) \<and> set (m_threads w) \<subseteq> set (m_threadIds w) \<and>
     (m_rootThread w \<noteq> - 1 \<longrightarrow> m_rootThread w \<in> set (m_threadIds w)) \<and>
     (\<forall>t. t \<notin> set (m_threadIds w) \<longrightarrow> pc_of w t = NotStarted) \<and> (\<forall>t. thread_ok (threads w t)) \<and>
     m_activeThreadCount w = pc_count active_pc w \<and> m_idleThreadCount w = pc_count idle_pc w"

definition sems_inv :: "'c sched \<Rightarrow> bool" where
  "sems_inv w \<longleftrightarrow> (\<forall>i. m_waiters (sems w i) \<noteq> [] \<longrightarrow> m_concurrency (sems w i) = 0)"

lemma tally_update:
  assumes "t \<in> set (m_threadIds w)" "distinct (m_threadIds w)" "m_threadIds w' = m_threadIds w" "\<And>u. u \<noteq> t \<Longrightarrow> threads w' u = threads w u"
  shows "tally g w' + g (pc_of w t) = tally g w + g (pc_of w' t)"
proof -
  have "(\<Sum>u\<leftarrow>ts. g (pc_of w' u)) + (if t \<in> set ts then g (pc_of w t) else 0) = (\<Sum>u\<leftarrow>ts. g (pc_of w u)) + (if t \<in> set ts then g (pc_of w' t) else 0)"
    if "distinct ts" for ts using that
  proof (induction ts)
    case (Cons a ts)
    then show ?case using assms(4) [of a] by (cases "a = t") (auto simp: ac_simps)
  qed simp
  from this [OF assms(2)] show ?thesis using assms(1,3) by (simp add: tally_def)
qed

lemma pc_count_update:
  assumes "t \<in> set (m_threadIds w)" "distinct (m_threadIds w)" "m_threadIds w' = m_threadIds w" "\<And>u. u \<noteq> t \<Longrightarrow> threads w' u = threads w u"
  shows "pc_count P w' = pc_count P w - of_bool (P (pc_of w t)) + of_bool (P (pc_of w' t))"
  using tally_update [OF assms, of "\<lambda>p. of_bool (P p)"] unfolding pc_count_def by (simp add: algebra_simps)

text \<open>What a step of a thread changes beside fibers.\<close>

definition step_frame :: "int \<Rightarrow> 'c sched \<Rightarrow> 'c sched \<Rightarrow> bool" where
  "step_frame t w w' \<longleftrightarrow> (\<forall>u. u \<noteq> t \<longrightarrow> threads w' u = threads w u) \<and> (thread_ok (threads w t) \<longrightarrow> thread_ok (threads w' t)) \<and>
     m_activeThreadCount w' = m_activeThreadCount w - of_bool (active_pc (pc_of w t)) + of_bool (active_pc (pc_of w' t)) \<and>
     m_idleThreadCount w' = m_idleThreadCount w - of_bool (idle_pc (pc_of w t)) + of_bool (idle_pc (pc_of w' t)) \<and>
     m_threadIds w' = m_threadIds w \<and> m_threads w' = m_threads w \<and> m_rootThread w' = m_rootThread w \<and>
     m_threadCount w' = m_threadCount w \<and> m_stopping w' = m_stopping w \<and> m_autoStop w' = m_autoStop w \<and> stop_at w' = stop_at w \<and>
     (sems_inv w \<longrightarrow> sems_inv w')"

lemma schedule_frame [simp]:
  "m_activeThreadCount (schedule e i w) = m_activeThreadCount w" "m_idleThreadCount (schedule e i w) = m_idleThreadCount w"
  "m_threadIds (schedule e i w) = m_threadIds w" "m_threads (schedule e i w) = m_threads w" "m_rootThread (schedule e i w) = m_rootThread w"
  "m_threadCount (schedule e i w) = m_threadCount w" "m_stopping (schedule e i w) = m_stopping w" "m_autoStop (schedule e i w) = m_autoStop w"
  "stop_at (schedule e i w) = stop_at w" "submitted (schedule e i w) = submitted w" "started (schedule e i w) = started w"
  by (simp_all add: schedule_def scheduleNoLock_def)

lemma schedule_cb_frame [simp]:
  "m_activeThreadCount (schedule_cb e i w) = m_activeThreadCount w" "m_idleThreadCount (schedule_cb e i w) = m_idleThreadCount w"
  "m_threadIds (schedule_cb e i w) = m_threadIds w" "m_threads (schedule_cb e i w) = m_threads w" "m_rootThread (schedule_cb e i w) = m_rootThread w"
  "m_threadCount (schedule_cb e i w) = m_threadCount w" "m_stopping (schedule_cb e i w) = m_stopping w" "m_autoStop (schedule_cb e i w) = m_autoStop w"
  "stop_at (schedule_cb e i w) = stop_at w" "started (schedule_cb e i w) = started w"
  by (simp_all add: schedule_cb_def split: option.splits)

lemma sems_inv_ops:
  "sems_inv w \<Longrightarrow> sems_inv (FiberSemaphore_notify i w)" "sems_inv w \<Longrightarrow> sems_inv (snd (FiberSemaphore_wait i f w))"
  "sems_inv w \<Longrightarrow> sems_inv (snd (FiberSemaphore_tryWait i w))"
  by (auto simp: sems_inv_def FiberSemaphore_notify_def FiberSemaphore_wait_def FiberSemaphore_tryWait_def Let_def update_defs
      word_gt_0 split: list.splits if_splits)

text \<open>Operations that change neither threads nor counters.\<close>

definition same_frame :: "'c sched \<Rightarrow> 'c sched \<Rightarrow> bool" where
  "same_frame w w' \<longleftrightarrow> threads w' = threads w \<and> m_activeThreadCount w' = m_activeThreadCount w \<and> m_idleThreadCount w' = m_idleThreadCount w \<and>
     m_threadIds w' = m_threadIds w \<and> m_threads w' = m_threads w \<and> m_rootThread w' = m_rootThread w \<and>
     m_threadCount w' = m_threadCount w \<and> m_stopping w' = m_stopping w \<and> m_autoStop w' = m_autoStop w \<and> stop_at w' = stop_at w \<and>
     (sems_inv w \<longrightarrow> sems_inv w')"

lemma same_frame_ops [simp]:
  "same_frame w w" "same_frame w (schedule e i w)" "same_frame w (schedule_cb cb i w)" "same_frame w (set_fiber f fb w)" "same_frame w (set_state f s w)"
  by (simp_all add: same_frame_def set_state_def set_fiber_def sems_inv_def)

lemma same_frame_sems [simp]:
  "same_frame w (FiberSemaphore_notify i w)" "same_frame w (snd (FiberSemaphore_wait i f w))" "same_frame w (snd (FiberSemaphore_tryWait i w))"
proof -
  note [simp] = same_frame_def Let_def set_sem_def
  show "same_frame w (FiberSemaphore_notify i w)"
    using sems_inv_ops(1) [of w i] by (cases "m_waiters (sems w i)") (simp_all add: FiberSemaphore_notify_def)
  show "same_frame w (snd (FiberSemaphore_wait i f w))"
    using sems_inv_ops(2) [of w i f] by (cases "0 < m_concurrency (sems w i)") (simp_all add: FiberSemaphore_wait_def)
  show "same_frame w (snd (FiberSemaphore_tryWait i w))"
    using sems_inv_ops(3) [of w i] by (cases "0 < m_concurrency (sems w i)") (simp_all add: FiberSemaphore_tryWait_def)
qed

text \<open>A thread in a fiber, or about to enter one, is in a fiber afterwards.\<close>

lemma frame_goto:
  assumes "same_frame w w'" "active_pc (pc_of w t)" "\<exists>c. p = In b f c \<or> p = Ret b f"
  shows "step_frame t w (goto_pc t p w')"
proof -
  have "thread_ok (threads w t) \<longrightarrow> thread_ok ((threads w t)\<lparr>pc := p\<rparr>)" "\<not> idle_pc (pc_of w t)"
    using assms(2,3) by (cases "pc_of w t"; auto simp: thread_ok_def)+
  moreover have "active_pc p" "\<not> idle_pc p" using assms(3) by auto
  ultimately show ?thesis using assms(1,2) by (simp add: step_frame_def same_frame_def goto_pc_def sems_inv_def)
qed

lemma frame_leave:
  "pc_of w t = In b f x \<Longrightarrow> step_frame t w (leave_fiber t b f c w)"
  unfolding leave_fiber_def by (rule frame_goto) auto

lemma request_frame:
  assumes "request_step t b f req w = Inr w'" "pc_of w t = In b f x"
  shows "step_frame t w w'"
proof (cases "\<exists>p. req = YieldToHold p")
  case True
  then show ?thesis using assms frame_leave by (auto simp: do_YieldToHold_def split: if_splits)
next
  case False
  have "FiberSemaphore_wait i f w = (r, v) \<Longrightarrow> same_frame w v" "FiberSemaphore_tryWait i w = (r, v) \<Longrightarrow> same_frame w v" for i r v
    using same_frame_sems(2) [of w i f] same_frame_sems(3) [of w i] by auto
  then obtain v c where "w' = goto_pc t (In b f c) v" "same_frame w v"
    using assms(1) False
    by (cases req) (auto simp: do_YieldToReady_def do_switchTo_def split: if_splits prod.splits)
  then show ?thesis using frame_goto [of w v t "In b f c"] assms(2) by auto
qed

lemma fiber_frame:
  assumes "fiber_step exec t b f x w = Inr w'" "pc_of w t = In b f x"
  shows "step_frame t w w'"
  using assms frame_leave [OF assms(2)] request_frame [of t b f Throw w w' x] request_frame [of t b f "exec f p" w w' x for p]
  by (cases "(exec, t, b, f, x, w)" rule: fiber_step.cases) (auto simp: do_YieldToHold_def split: if_splits)

lemma run_fiber_frame:
  assumes "run_fiber t b f w = Inr w'"
  obtains x fb where "w' = goto_pc t (In b f x) (set_fiber f fb w)"
  using assms by (auto simp: run_fiber_def split: sum.splits)

lemma prepare_cb_frame:
  assumes "prepare_cb t c w = Inr (f, w')"
  obtains fb n where "w' = set_cb t (Some f) (set_fiber f fb (w\<lparr>s_fiber_id := n\<rparr>))"
proof (cases "cb_fiber (threads w t)")
  case None
  then show thesis using assms that by (auto simp: prepare_cb_def Let_def)
next
  case (Some g)
  have "(threads w t)\<lparr>cb_fiber := Some g\<rparr> = threads w t" using Some by simp
  then have "set_cb t (Some g) v = v" if "threads v = threads w" for v :: "'a sched" using that by (simp add: set_cb_def)
  from this [of "set_fiber g fb w" for fb] show thesis using assms Some that [of _ "s_fiber_id w"]
    by (auto simp: prepare_cb_def set_fiber_def split: sum.splits)
qed

text \<open>A thread that moves on and changes only itself and the counters.\<close>

lemma frame_self:
  assumes "w' = w\<lparr>threads := (threads w)(t := th), m_activeThreadCount := a, m_idleThreadCount := i\<rparr>"
    "thread_ok (threads w t) \<Longrightarrow> thread_ok th"
    "a = m_activeThreadCount w - of_bool (active_pc (pc_of w t)) + of_bool (active_pc (pc th))"
    "i = m_idleThreadCount w - of_bool (idle_pc (pc_of w t)) + of_bool (idle_pc (pc th))"
  shows "step_frame t w w'"
  using assms(2) unfolding assms(1,3,4) by (simp add: step_frame_def sems_inv_def)

lemma frame_trans_same: "same_frame w v \<Longrightarrow> step_frame t v w' \<Longrightarrow> step_frame t w w'"
  by (simp add: step_frame_def same_frame_def)

lemma dispatch_frame:
  assumes "dispatch_step t ft w = Inr w'" "pc_of w t = Dispatch ft"
  shows "step_frame t w w'"
proof (cases "(t, ft, w)" rule: dispatch_step.cases)
  case (1 t' f i w'')
  show ?thesis
  proof (cases "state_of w f \<noteq> TERM_state \<and> state_of w f \<noteq> EXCEPT")
    case True
    then have "run_fiber t False f w = Inr w'" using assms(1) 1 by simp
    then obtain x fb where "w' = goto_pc t (In False f x) (set_fiber f fb w)" by (rule run_fiber_frame)
    then show ?thesis using frame_goto [of w "set_fiber f fb w" t "In False f x" False f] assms(2) 1 by simp
  next
    case False
    then show ?thesis using assms 1
      by (intro frame_self [where th = "(threads w t)\<lparr>pc := Scan\<rparr>"]) (auto simp: goto_pc_def thread_ok_def)
  qed
next
  case (2 t' c i w'')
  then obtain f v where v: "prepare_cb t c w = Inr (f, v)" "run_fiber t True f (v\<lparr>started := started v @ [(c, i, t)]\<rparr>) = Inr w'"
    using assms(1) by (auto split: sum.splits)
  obtain fb n where f: "v = set_cb t (Some f) (set_fiber f fb (w\<lparr>s_fiber_id := n\<rparr>))" using v(1) by (rule prepare_cb_frame)
  obtain x gb where "w' = goto_pc t (In True f x) (set_fiber f gb (v\<lparr>started := started v @ [(c, i, t)]\<rparr>))" using v(2) by (rule run_fiber_frame)
  then show ?thesis using assms(2) 2 unfolding f by (simp add: step_frame_def thread_ok_def update_defs sems_inv_def)
next
  case (3 t' w'')
  show ?thesis
  proof (cases "idle_fiber (threads w t) = TERM_state")
    case True
    then show ?thesis using assms 3
      by (intro frame_self [where th = "(threads w t)\<lparr>pc := Exited\<rparr>"]) (auto simp: goto_pc_def thread_ok_def)
  next
    case False
    then show ?thesis using assms 3
      by (intro frame_self [where th = "(threads w t)\<lparr>idle_fiber := EXEC, pc := InIdle\<rparr>"])
        (auto simp: goto_pc_def set_idle_def thread_ok_def split: if_splits)
  qed
qed

lemma step_frame_refl: "step_frame t w w"
  by (simp add: step_frame_def)

lemma post_frame:
  assumes "post_step t b f w = Inr w'" "pc_of w t = Post b f"
  shows "step_frame t w w'"
proof -
  have g: "step_frame t w (goto_pc t Scan v)" if "same_frame w v" for v
    using that assms(2) by (simp add: step_frame_def same_frame_def thread_ok_def goto_pc_def sems_inv_def)
  have c: "step_frame t w (goto_pc t Scan (set_cb t None v))" if "same_frame w v" for v
    using that assms(2) by (simp add: step_frame_def same_frame_def thread_ok_def goto_pc_def set_cb_def sems_inv_def)
  show ?thesis using assms(1) g c same_frame_ops
    by (cases b) (auto simp: post_step_def Fiber_reset_def split: if_splits)
qed

lemma thread_frame:
  assumes "thread_step exec t w = Inr w'"
  shows "step_frame t w w'"
proof (cases "pc_of w t")
  case (Dispatch ft)
  then show ?thesis using assms dispatch_frame [of t ft w w'] by (simp add: thread_step_def)
next
  case (In b f x)
  then show ?thesis using assms fiber_frame [of exec t b f x w w'] by (simp add: thread_step_def)
next
  case Scan
  obtain ft q tm where "scan (state_of w) t (m_fibers w) = (ft, q, tm)" using prod_cases3 by blast
  then show ?thesis using assms Scan
    by (cases ft) (auto simp: thread_step_def scan_step_def step_frame_def thread_ok_def update_defs sems_inv_def Let_def)
next
  case (Post b f)
  then show ?thesis using assms post_frame [of t b f w w'] by (simp add: thread_step_def)
next
  case InIdle
  then show ?thesis using assms
    by (cases "stopping w") (auto simp: thread_step_def idle_step_def step_frame_def thread_ok_def update_defs sems_inv_def)
next
  case RetIdle
  then show ?thesis using assms
    by (cases "idle_fiber (threads w t) \<noteq> TERM_state \<and> idle_fiber (threads w t) \<noteq> EXCEPT")
      (auto simp: thread_step_def ret_idle_step_def step_frame_def thread_ok_def update_defs sems_inv_def Let_def)
next
  case Enter
  then show ?thesis using assms by (auto simp: thread_step_def enter_step_def step_frame_def thread_ok_def update_defs sems_inv_def)
next
  case (Ret b f)
  then show ?thesis using assms by (auto simp: thread_step_def ret_step_def step_frame_def thread_ok_def update_defs sems_inv_def)
qed (use assms step_frame_refl [of t w] in \<open>simp_all add: thread_step_def\<close>)

definition sched_inv :: "'c sched \<Rightarrow> bool" where
  "sched_inv w \<longleftrightarrow> (\<exists>R T C. fibers_inv w R T C) \<and> threads_inv w \<and> sems_inv w"

lemma thread_step_inv:
  assumes "sched_inv w" "tame exec"
  shows "\<exists>w'. thread_step exec t w = Inr w' \<and> sched_inv w'"
proof -
  obtain R T C where I: "fibers_inv w R T C" "threads_inv w" "sems_inv w" using assms(1) by (auto simp: sched_inv_def)
  have th: "thread_ok (threads w t)" using I(2) by (simp add: threads_inv_def)
  have "\<exists>w'. thread_step exec t w = Inr w' \<and> (\<exists>R' T' C'. fibers_inv w' R' T' C')"
  proof (cases "pc_of w t")
    case Enter
    have "fibers_inv (enter_step t w) R T C"
      by (rule inv_thread [OF I(1), where t = t and th = "\<lparr>pc = Scan, cb_fiber = None, idle_fiber = INIT\<rparr>"])
        (use th Enter in \<open>auto simp: enter_step_def update_defs thread_ok_def\<close>)
    then show ?thesis using Enter by (auto simp: thread_step_def)
  next
    case Scan
    then show ?thesis using inv_scan [OF I(1), of t] by (auto simp: thread_step_def)
  next
    case (Dispatch ft)
    consider f i where "ft = Some (FiberTask f, i)" | c i where "ft = Some (CbTask c, i)" | "ft = None"
      by (metis option.exhaust prod.exhaust task.exhaust)
    then show ?thesis
    proof cases
      case 1
      then show ?thesis using inv_dispatch_fiber [OF I(1), of t f i] Dispatch by (simp add: thread_step_def)
    next
      case 2
      then show ?thesis using inv_dispatch_cb [OF I(1), of t c i] Dispatch by (simp add: thread_step_def)
    next
      case 3
      then have "idle_fiber (threads w t) \<in> {INIT, HOLD, TERM_state}" using th Dispatch by (simp add: thread_ok_def)
      then obtain w' th' where w: "dispatch_step t None w = Inr w'" "threads w' = (threads w)(t := th')" "fiber_on (pc th') = None" "taken (pc th') = None"
          "cb_fiber th' = cb_fiber (threads w t)" "fibers w' = fibers w" "m_fibers w' = m_fibers w" "sems w' = sems w" "s_fiber_id w' = s_fiber_id w"
        by (auto simp: update_defs)
      then have "fibers_inv w' R T C" by (intro inv_thread [OF I(1) w(2)]) (use Dispatch 3 in auto)
      then show ?thesis using Dispatch 3 w(1) by (auto simp: thread_step_def)
    qed
  next
    case (In b f x)
    then show ?thesis using inv_fiber_step [OF I(1) In assms(2)] by (auto simp: thread_step_def)
  next
    case (Ret b f)
    let ?w = "ret_step t b f w"
    note D = fibers_invD [OF I(1)] and L = inv_located(5) [OF I(1) disjI1 [OF Ret]]
    have "fibers_inv ?w (R(f := R f)) (T(f := T f)) (C(f := C f))"
      by (rule inv_fiber [OF I(1), where t = t and th = "(threads w t)\<lparr>pc := Post b f\<rparr>" and fb = "fibers w f"])
        (use D(2,3,5,6,7) L inv_located(1) [OF I(1)] Ret in \<open>auto simp: ret_step_def update_defs fiber_ok_def\<close>)
    then show ?thesis using Ret by (auto simp: thread_step_def)
  next
    case (Post b f)
    then show ?thesis using inv_post [OF I(1) Post] by (simp add: thread_step_def)
  next
    case InIdle
    have "fibers_inv (idle_step t w) R T C"
      by (rule inv_thread [OF I(1), where t = t and th = "threads (idle_step t w) t"]) (use InIdle in \<open>auto simp: idle_step_def update_defs\<close>)
    then show ?thesis using InIdle by (auto simp: thread_step_def)
  next
    case RetIdle
    have "fibers_inv (ret_idle_step t w) R T C"
      by (rule inv_thread [OF I(1), where t = t and th = "threads (ret_idle_step t w) t"]) (use RetIdle in \<open>auto simp: ret_idle_step_def update_defs Let_def\<close>)
    then show ?thesis using RetIdle by (auto simp: thread_step_def)
  qed (use I(1) in \<open>auto simp: thread_step_def\<close>)
  then obtain w' where w: "thread_step exec t w = Inr w'" "\<exists>R' T' C'. fibers_inv w' R' T' C'" by blast
  have "threads_inv w' \<and> sems_inv w'"
  proof (cases "pc_of w t = NotStarted")
    case True
    then show ?thesis using w(1) I(2,3) by (simp add: thread_step_def)
  next
    case False
    then have t: "t \<in> set (m_threadIds w)" using I(2) unfolding threads_inv_def by blast
    note F = thread_frame [OF w(1), unfolded step_frame_def]
    have "thread_ok (threads w' u)" for u using F I(2) by (cases "u = t") (auto simp: threads_inv_def)
    moreover have "pc_count P w' = pc_count P w - of_bool (P (pc_of w t)) + of_bool (P (pc_of w' t))" for P
      by (rule pc_count_update [OF t]) (use F I(2) in \<open>auto simp: threads_inv_def\<close>)
    moreover have "u \<notin> set (m_threadIds w) \<Longrightarrow> pc_of w' u = NotStarted" for u using F I(2) t by (cases "u = t") (auto simp: threads_inv_def)
    ultimately show ?thesis using F I(2,3) by (simp add: threads_inv_def)
  qed
  then show ?thesis using w by (auto simp: sched_inv_def)
qed

section \<open>All moves\<close>

fun before_run :: "stop_pc \<Rightarrow> bool" where
  "before_run NotStopping = True"
| "before_run (Stop1 own) = True"
| "before_run Stop2 = True"
| "before_run _ = False"

definition stop_inv :: "'c sched \<Rightarrow> bool" where
  "stop_inv w \<longleftrightarrow> (stop_at w = NotStopping \<longrightarrow> m_stopping w \<longrightarrow> m_threads w = []) \<and>
     (m_rootThread w \<noteq> - 1 \<and> before_run (stop_at w) \<longrightarrow> pc_of w (m_rootThread w) = NotStarted) \<and>
     (\<forall>own. stop_at w = Stop1 own \<longrightarrow> own = (m_rootThread w \<noteq> - 1))"

fun is_start :: "'c sched_move \<Rightarrow> bool" where
  "is_start (StartCall ids) = True"
| "is_start _ = False"

text \<open>\<^verbatim>\<open>stop\<close> is called in a thread whose \<^verbatim>\<open>GetThis()\<close> is this scheduler if \<^verbatim>\<open>use_caller\<close> is set (the thread that
  constructed it) and is not otherwise, as \<^verbatim>\<open>stop\<close> asserts; and \<^verbatim>\<open>start\<close> is not called once \<^verbatim>\<open>stop\<close> has been.\<close>

fun well_used :: "bool \<Rightarrow> 'c sched_move list \<Rightarrow> bool" where
  "well_used use_caller [] \<longleftrightarrow> True"
| "well_used use_caller (StopCall own # ms) \<longleftrightarrow> own = use_caller \<and> list_all (\<lambda>m. \<not> is_start m) ms"
| "well_used use_caller (m # ms) \<longleftrightarrow> well_used use_caller ms"

lemma sched_inv_same:
  assumes "sched_inv w" "same_frame w w'" "\<exists>R T C. fibers_inv w' R T C"
  shows "sched_inv w'"
  using assms by (auto simp: sched_inv_def threads_inv_def same_frame_def pc_count_def tally_def)

lemma stop_inv_same: "stop_inv w \<Longrightarrow> same_frame w w' \<Longrightarrow> stop_inv w'"
  by (simp add: stop_inv_def same_frame_def)

lemma same_frame_all: "same_frame w (schedule_all cbs w)"
proof (induction cbs arbitrary: w)
  case (Cons cb cbs)
  have "same_frame w (schedule_cb cb (- 1) w)" "same_frame (schedule_cb cb (- 1) w) (schedule_all cbs (schedule_cb cb (- 1) w))"
    using Cons by auto
  then show ?case by (simp add: same_frame_def schedule_all_def)
qed (simp add: schedule_all_def)

lemma start_tally:
  assumes "Scheduler_start ids w = Inr w'" "g Enter = 0"
  shows "tally g w' = tally g w"
proof (cases "m_stopping w \<and> length ids = m_threadCount w \<and> distinct ids \<and> set ids \<inter> set (m_threadIds w) = {} \<and> - 1 \<notin> set ids")
  case True
  then have w: "m_threadIds w' = m_threadIds w @ ids" "pc_of w' t = (if t \<in> set ids then Enter else pc_of w t)" for t
    using assms(1) by (auto simp: Scheduler_start_def blank_thread_def split: if_splits)
  have m: "map (\<lambda>t. g (pc_of w' t)) (m_threadIds w) = map (\<lambda>t. g (pc_of w t)) (m_threadIds w)"
    "map (\<lambda>t. g (pc_of w' t)) ids = map (\<lambda>_. 0) ids"
    using True assms(2) by (auto simp: w(2))
  show ?thesis unfolding tally_def w(1) by (simp only: map_append sum_list_append m) simp
next
  case False
  then show ?thesis using assms(1) by (auto simp: Scheduler_start_def split: if_splits)
qed

lemma start_inv:
  assumes "sched_inv w" "stop_inv w" "stop_at w = NotStopping"
  shows "\<exists>w'. Scheduler_start ids w = Inr w' \<and> sched_inv w' \<and> stop_inv w' \<and> stop_at w' = NotStopping \<and> m_rootThread w' = m_rootThread w"
proof (cases "m_stopping w \<and> length ids = m_threadCount w \<and> distinct ids \<and> set ids \<inter> set (m_threadIds w) = {} \<and> - 1 \<notin> set ids")
  case True
  obtain R T C where I: "fibers_inv w R T C" "threads_inv w" "sems_inv w" using assms(1) by (auto simp: sched_inv_def)
  note D = fibers_invD [OF I(1)]
  define w' where "w' = w\<lparr>m_stopping := False, m_threads := ids, m_threadIds := m_threadIds w @ ids,
        threads := (\<lambda>t. if t \<in> set ids then blank_thread\<lparr>pc := Enter\<rparr> else threads w t)\<rparr>"
  have w': "Scheduler_start ids w = Inr w'" using True assms(2,3) by (simp add: Scheduler_start_def w'_def stop_inv_def)
  have n: "pc_of w t = NotStarted" "cb_fiber (threads w t) = None" if "t \<in> set ids" for t
    using I(2) True that unfolding threads_inv_def thread_ok_def by blast+
  have p: "pc_of w' t = (if t \<in> set ids then Enter else pc_of w t)" "cb_fiber (threads w' t) = cb_fiber (threads w t)" for t
    using n [of t] by (simp_all add: w'_def blank_thread_def)
  have off: "R f \<noteq> Some t" if "t \<in> set ids" for f t using D(1) [of t f] n(1) [OF that] by simp
  have "fibers_inv w' R T C"
  proof (rule fibers_invI)
    show "fiber_on (pc_of w' t) = Some f \<longleftrightarrow> R f = Some t" for t f using D(1) [of t f] off [of t f] by (auto simp: p)
    show "taken (pc_of w' t) = Some f \<longleftrightarrow> T f = Some (OnThread t)" for t f using D(4) [of t f] n(1) [of t] by (auto simp: p)
    show "cb_fiber (threads w' t) = Some f \<longleftrightarrow> C f = Some t" for t f using D(5) [of t f] by (simp add: p)
    show "fiber_ok w' f (R f) (T f) (C f)" for f
      using D(8) [of f] off by (cases "R f") (auto simp: fiber_ok_def p w'_def)
  qed (use D in \<open>auto simp: w'_def\<close>)
  moreover have "pc_count P w' = pc_count P w" if "\<not> P Enter" for P
    unfolding pc_count_def by (rule start_tally [OF w']) (simp add: that)
  ultimately have "sched_inv w'" using I(2,3) True
    by (auto simp: sched_inv_def threads_inv_def sems_inv_def w'_def thread_ok_def blank_thread_def)
  moreover have "stop_inv w' \<and> stop_at w' = NotStopping \<and> m_rootThread w' = m_rootThread w" using assms(2,3) I(2) True by (auto simp: stop_inv_def w'_def threads_inv_def)
  ultimately show ?thesis using w' by blast
next
  case False
  then show ?thesis using assms by (auto simp: Scheduler_start_def stop_inv_def)
qed

lemma stop_step_returns:
  assumes "stop_inv w"
  obtains w' where "stop_step w = Inr w'"
proof (cases "stop_step w")
  case (Inl e)
  then have False using assms by (auto simp: stop_step_def stop_inv_def Let_def split: stop_pc.splits if_splits)
  then show ?thesis ..
qed (rule that)

lemma stop_step_inv:
  assumes "sched_inv w" "stop_inv w" "stop_step w = Inr w'"
  shows "sched_inv w' \<and> stop_inv w' \<and> m_rootThread w' = m_rootThread w \<and> (stop_at w = NotStopping \<longrightarrow> w' = w)"
proof (cases "stop_at w = Stop2 \<and> m_rootThread w \<noteq> - 1 \<and> \<not> stopping w")
  case True
  obtain R T C where I: "fibers_inv w R T C" "threads_inv w" "sems_inv w" using assms(1) by (auto simp: sched_inv_def)
  let ?r = "m_rootThread w"
  have r: "pc_of w ?r = NotStarted" "?r \<in> set (m_threadIds w)" using True assms(2) I(2) by (auto simp: stop_inv_def threads_inv_def)
  have w: "w' = (goto_pc ?r Enter w)\<lparr>stop_at := StopRun\<rparr>" using True assms(3) by (simp add: stop_step_def)
  have "fibers_inv w' R T C"
    by (rule inv_thread [OF I(1), where t = ?r and th = "(threads w ?r)\<lparr>pc := Enter\<rparr>"]) (simp_all add: w goto_pc_def r(1))
  moreover have "pc_count P w' = pc_count P w - of_bool (P NotStarted) + of_bool (P Enter)" for P
    using pc_count_update [OF r(2), of w' P] I(2) r(1) by (simp add: threads_inv_def w goto_pc_def)
  ultimately have "sched_inv w'" using I(2,3) r
    by (auto simp: sched_inv_def threads_inv_def sems_inv_def thread_ok_def w goto_pc_def)
  then show ?thesis using True by (simp add: stop_inv_def w goto_pc_def)
next
  case False
  then have s: "threads w' = threads w" "m_threadIds w' = m_threadIds w" "set (m_threads w') \<subseteq> set (m_threads w)"
    "sems w' = sems w" "fibers w' = fibers w" "m_fibers w' = m_fibers w" "s_fiber_id w' = s_fiber_id w"
    "m_rootThread w' = m_rootThread w" "m_activeThreadCount w' = m_activeThreadCount w"
    "m_idleThreadCount w' = m_idleThreadCount w" "stop_at w' = NotStopping \<longleftrightarrow> stop_at w = NotStopping"
    "before_run (stop_at w') \<Longrightarrow> before_run (stop_at w)" "stop_at w = NotStopping \<Longrightarrow> w' = w" "stop_at w' \<noteq> Stop1 own"
    for own
    using assms(3) by (auto simp: stop_step_def Let_def split: stop_pc.splits if_splits)
  obtain R T C where I: "fibers_inv w R T C" "threads_inv w" "sems_inv w" using assms(1) by (auto simp: sched_inv_def)
  have "fibers_inv w' R T C" by (rule inv_frame [OF I(1)]) (simp_all add: s)
  then have "sched_inv w'" using I(2,3) s(3)
    by (auto simp: sched_inv_def threads_inv_def sems_inv_def pc_count_def tally_def s(1,2,4-10))
  moreover have "stop_inv w'" using assms(2) s(1,8,11-14) by (auto simp: stop_inv_def)
  ultimately show ?thesis using s(8,13) by blast
qed

fun stop_fits :: "'c sched \<Rightarrow> 'c sched_move \<Rightarrow> bool" where
  "stop_fits w (StopCall own) \<longleftrightarrow> stop_at w \<noteq> NotStopping \<or> own = (m_rootThread w \<noteq> - 1)"
| "stop_fits w (StartCall ids) \<longleftrightarrow> stop_at w = NotStopping"
| "stop_fits w _ \<longleftrightarrow> True"

fun is_stop :: "'c sched_move \<Rightarrow> bool" where
  "is_stop (StopCall own) = True"
| "is_stop _ = False"

lemma move_inv:
  assumes "sched_inv w" "stop_inv w" "tame exec" "stop_fits w m"
  shows "\<exists>w'. move exec m w = Inr w' \<and> sched_inv w' \<and> stop_inv w' \<and> m_rootThread w' = m_rootThread w \<and>
    (stop_at w' = NotStopping \<longleftrightarrow> stop_at w = NotStopping \<and> \<not> is_stop m)"
proof -
  obtain R T C where I: "fibers_inv w R T C" using assms(1) by (auto simp: sched_inv_def)
  have ext: "sched_inv w' \<and> stop_inv w' \<and> m_rootThread w' = m_rootThread w \<and> stop_at w' = stop_at w"
    if "same_frame w w'" "fibers_inv w' R' T' C'" for w' R' T' C'
    using sched_inv_same [OF assms(1) that(1)] stop_inv_same [OF assms(2) that(1)] that by (auto simp: same_frame_def)
  show ?thesis
  proof (cases m)
    case (Turn t)
    obtain w' where w: "thread_step exec t w = Inr w'" "sched_inv w'" using thread_step_inv [OF assms(1,3)] by blast
    note F = thread_frame [OF w(1), unfolded step_frame_def]
    have "pc_of w' u = NotStarted" if "pc_of w u = NotStarted" for u
      using w(1) F that by (cases "u = t") (auto simp: thread_step_def)
    then have "stop_inv w'" using assms(2) F by (auto simp: stop_inv_def)
    then show ?thesis using Turn w F by simp
  next
    case (StartCall ids)
    then show ?thesis using start_inv [OF assms(1,2), of ids] assms(4) by auto
  next
    case (StopCall own)
    let ?w = "w\<lparr>m_autoStop := True, stop_at := Stop1 own\<rparr>"
    have "fibers_inv ?w R T C" by (rule inv_frame [OF I]) simp_all
    then have "sched_inv ?w"
      using assms(1) by (auto simp: sched_inv_def threads_inv_def sems_inv_def pc_count_def tally_def)
    then show ?thesis using StopCall assms(1,2,4) by (auto simp: stop_inv_def)
  next
    case StopStep
    obtain w' where w: "stop_step w = Inr w'" using assms(2) by (rule stop_step_returns)
    have "stop_at w' = NotStopping \<longleftrightarrow> stop_at w = NotStopping"
      using w by (auto simp: stop_step_def Let_def split: stop_pc.splits if_splits)
    then show ?thesis using StopStep w stop_step_inv [OF assms(1,2) w] by auto
  next
    case (ExtSchedule cb i)
    then show ?thesis using ext [OF _ inv_schedule_cb [OF I], of cb i] by auto
  next
    case (ExtScheduleAll cbs)
    then show ?thesis using ext [OF same_frame_all inv_schedule_all [OF I], of cbs] by auto
  next
    case (ExtNotify i)
    obtain T' where n: "fibers_inv (FiberSemaphore_notify i w) R T' C" using I by (rule inv_notify) blast
    show ?thesis using ExtNotify ext [OF _ n] by auto
  qed
qed

text \<open>A run that may still be started and stopped, or one that is being stopped.\<close>

definition run_fits :: "'c sched \<Rightarrow> 'c sched_move list \<Rightarrow> bool" where
  "run_fits w ms \<longleftrightarrow> (if stop_at w = NotStopping then well_used (m_rootThread w \<noteq> - 1) ms else list_all (\<lambda>m. \<not> is_start m) ms)"

lemma run_fits_Cons:
  assumes "run_fits w (m # ms)"
  shows "stop_fits w m" "m_rootThread w' = m_rootThread w \<Longrightarrow> stop_at w' = NotStopping \<longleftrightarrow> stop_at w = NotStopping \<and> \<not> is_stop m \<Longrightarrow> run_fits w' ms"
  using assms by (cases m; auto simp: run_fits_def split: if_splits)+

lemma moves_inv:
  assumes "tame exec" "sched_inv w" "stop_inv w" "run_fits w ms"
  shows "\<exists>w'. moves exec ms w = Inr w' \<and> sched_inv w' \<and> stop_inv w'"
  using assms(2-4)
proof (induction ms arbitrary: w)
  case (Cons m ms)
  from move_inv [OF Cons.prems(1,2) assms(1) run_fits_Cons(1) [OF Cons.prems(3)]]
  obtain w' where w: "move exec m w = Inr w'" "sched_inv w'" "stop_inv w'" "m_rootThread w' = m_rootThread w"
    "stop_at w' = NotStopping \<longleftrightarrow> stop_at w = NotStopping \<and> \<not> is_stop m" by blast
  from Cons.IH [OF w(2,3) run_fits_Cons(2) [OF Cons.prems(3) w(4,5)]] show ?case using w(1) by simp
qed simp

lemma moves_last:
  assumes "tame exec" "sched_inv w" "stop_inv w" "run_fits w (ms @ [m])" "moves exec ms w = Inr w'"
  shows "sched_inv w' \<and> stop_inv w' \<and> stop_fits w' m"
  using assms(2-5)
proof (induction ms arbitrary: w)
  case Nil
  then show ?case using run_fits_Cons(1) [of w m "[]"] by simp
next
  case (Cons a ms)
  have fits: "run_fits w (a # ms @ [m])" using Cons.prems(3) by simp
  from move_inv [OF Cons.prems(1,2) assms(1) run_fits_Cons(1) [OF fits]]
  obtain v where v: "move exec a w = Inr v" "sched_inv v" "stop_inv v" "m_rootThread v = m_rootThread w"
    "stop_at v = NotStopping \<longleftrightarrow> stop_at w = NotStopping \<and> \<not> is_stop a" by blast
  from Cons.IH [OF v(2,3) run_fits_Cons(2) [OF fits v(4,5)]] show ?case using v(1) Cons.prems(4) by simp
qed

lemma new_Scheduler_inv:
  assumes "new_Scheduler n use_caller tid conc = Inr w" "tid \<noteq> - 1"
  shows "sched_inv w" "stop_inv w" "stop_at w = NotStopping" "run_fits w ms \<longleftrightarrow> well_used use_caller ms"
proof -
  have "fibers_inv w (\<lambda>_. None) (\<lambda>_. None) (\<lambda>_. None)"
    using assms(1) by (auto simp: new_Scheduler_def fibers_inv_def fiber_ok_def parked_ok_def new_Fiber_def blank_thread_def split: if_splits)
  moreover have "threads_inv w" "sems_inv w"
    using assms by (auto simp: new_Scheduler_def threads_inv_def thread_ok_def sems_inv_def blank_thread_def pc_count_def tally_def split: if_splits)
  ultimately show "sched_inv w" by (auto simp: sched_inv_def)
  show "stop_inv w" "stop_at w = NotStopping" "run_fits w ms \<longleftrightarrow> well_used use_caller ms"
    using assms by (auto simp: new_Scheduler_def stop_inv_def blank_thread_def run_fits_def split: if_splits)
qed

lemma pc_count_zero:
  assumes "pc_count P w = 0" "length (m_threadIds w) < 2 ^ 64" "t \<in> set (m_threadIds w)"
  shows "\<not> P (pc_of w t)"
proof
  assume P: "P (pc_of w t)"
  have "(\<Sum>t\<leftarrow>ts. of_bool (P (pc_of w t)) :: u64) = of_nat (length (filter (\<lambda>t. P (pc_of w t)) ts))" for ts
    by (induction ts) auto
  then have "of_nat (length (filter (\<lambda>t. P (pc_of w t)) (m_threadIds w))) = (0 :: u64)"
    using assms(1) by (simp add: pc_count_def tally_def)
  moreover have "length (filter (\<lambda>t. P (pc_of w t)) (m_threadIds w)) < 2 ^ LENGTH(64)"
    using le_less_trans [OF length_filter_le [of "\<lambda>t. P (pc_of w t)" "m_threadIds w"] assms(2)] by simp
  ultimately have "filter (\<lambda>t. P (pc_of w t)) (m_threadIds w) = []" using of_nat_inverse by fastforce
  then show False using assms(3) P by (simp add: filter_empty_conv)
qed

section \<open>Safety\<close>


text \<open>A program whose two fibers pass a semaphore to and fro.\<close>

definition ping_pong :: "nat \<Rightarrow> nat \<Rightarrow> nat request" where
  "ping_pong f p = (if p = 0 then Schedule (Some 10) (- 1) 1 else if p = 1 then YieldToReady 2 else if p = 2 then SemWait 0 3
     else if p = 10 then SemNotify 0 11 else Return)"

lemma tame_ping_pong: "tame ping_pong"
  by (simp add: tame_def ping_pong_def)


section \<open>Wake-ups\<close>

text \<open>The way of a fiber from a semaphore back to a thread: among the waiters, in the queue, in the hands of a thread, running.
  From one state to the next it stays where it is or goes one place on.\<close>

definition wakes_kept :: "'c sched \<Rightarrow> 'c sched \<Rightarrow> bool" where
  "wakes_kept w w' \<longleftrightarrow>
     (\<forall>f i. f \<in> set (m_waiters (sems w i)) \<longrightarrow> f \<in> set (m_waiters (sems w' i)) \<or> f \<in> set (queued_fibers (m_fibers w'))) \<and>
     (\<forall>f. f \<in> set (queued_fibers (m_fibers w)) \<longrightarrow> f \<in> set (queued_fibers (m_fibers w')) \<or> (\<exists>t. taken (pc_of w' t) = Some f)) \<and>
     (\<forall>f t. taken (pc_of w t) = Some f \<longrightarrow> taken (pc_of w' t) = Some f \<or> (\<exists>p. pc_of w' t = In False f (Run p) \<and> state_of w' f = EXEC))"

definition wakes_grow :: "'c sched \<Rightarrow> 'c sched \<Rightarrow> bool" where
  "wakes_grow w w' \<longleftrightarrow> set (queued_fibers (m_fibers w)) \<subseteq> set (queued_fibers (m_fibers w')) \<and>
     (\<forall>f i. f \<in> set (m_waiters (sems w i)) \<longrightarrow> f \<in> set (m_waiters (sems w' i)) \<or> f \<in> set (queued_fibers (m_fibers w')))"

lemma wakes_grow_kept:
  assumes "wakes_grow w w'" "\<And>u. u \<noteq> t \<Longrightarrow> pc_of w' u = pc_of w u" "taken (pc_of w t) = None"
  shows "wakes_kept w w'"
  unfolding wakes_kept_def
proof (intro conjI allI impI)
  fix f u assume "taken (pc_of w u) = Some f"
  then show "taken (pc_of w' u) = Some f \<or> (\<exists>p. pc_of w' u = In False f (Run p) \<and> state_of w' f = EXEC)"
    using assms(2) [of u] assms(3) by (cases "u = t") auto
qed (use assms(1) in \<open>auto simp: wakes_grow_def\<close>)

lemma wakes_grow_same: "m_fibers w' = m_fibers w \<Longrightarrow> sems w' = sems w \<Longrightarrow> wakes_grow w w'"
  by (simp add: wakes_grow_def)

lemma wakes_grow_trans: "wakes_grow w v \<Longrightarrow> wakes_grow v w' \<Longrightarrow> wakes_grow w w'"
  unfolding wakes_grow_def by blast

lemma wakes_grow_ops [simp]:
  "wakes_grow w (goto_pc t p v) \<longleftrightarrow> wakes_grow w v" "wakes_grow w (set_state f st v) \<longleftrightarrow> wakes_grow w v"
  "wakes_grow w (set_fiber f fb v) \<longleftrightarrow> wakes_grow w v" "wakes_grow w (set_cb t c v) \<longleftrightarrow> wakes_grow w v"
  "wakes_grow w (schedule e i w)" "wakes_grow w (schedule_cb cb i w)" "wakes_grow w (FiberSemaphore_notify k w)" "wakes_grow w w"
  "wakes_grow w (snd (FiberSemaphore_wait k f w))" "wakes_grow w (snd (FiberSemaphore_tryWait k w))"
  by (auto simp: wakes_grow_def update_defs FiberSemaphore_notify_def FiberSemaphore_wait_def FiberSemaphore_tryWait_def Let_def
      split: list.split)

lemma wakes_grow_all: "wakes_grow w (schedule_all cbs w)"
  unfolding schedule_all_def
proof (induction cbs arbitrary: w)
  case (Cons cb cbs)
  show ?case using wakes_grow_trans [OF wakes_grow_ops(6) Cons] by simp
qed simp

lemma request_wakes: "request_step t b f req w = Inr w' \<Longrightarrow> wakes_grow w w'"
  by (cases req)
    (auto simp: do_YieldToReady_def do_YieldToHold_def leave_fiber_def do_switchTo_def case_prod_beta split: if_splits)

lemma fiber_wakes: "fiber_step exec t b f x w = Inr w' \<Longrightarrow> wakes_grow w w'"
  by (cases "(exec, t, b, f, x, w)" rule: fiber_step.cases)
    (auto dest: request_wakes simp: do_YieldToHold_def leave_fiber_def split: if_splits)

lemma scan_wakes:
  assumes "pc_of w t = Scan"
  shows "wakes_kept w (scan_step t w)"
proof (cases rule: scan_cases [where st = "state_of w" and t = t and q = "m_fibers w"])
  case (none tm)
  then have "wakes_grow w (scan_step t w)" by (intro wakes_grow_same) (simp_all add: scan_step_def update_defs)
  then show ?thesis by (rule wakes_grow_kept [where t = t]) (use assms in \<open>simp_all add: scan_step_def update_defs case_prod_beta Let_def\<close>)
next
  case (some e p r tm)
  obtain fc i where e: "e = (fc, i)" by (cases e)
  have w: "scan_step t w = goto_pc t (Dispatch (Some e)) (w\<lparr>m_fibers := p @ r, m_activeThreadCount := m_activeThreadCount w + 1\<rparr>)"
    using some by (simp add: scan_step_def)
  have q: "set (queued_fibers (m_fibers w)) = set (queued_fibers (p @ r)) \<union> set_option (taken (Dispatch (Some e)))"
    unfolding some(1) e by (cases fc) auto
  have t: "taken (pc_of (scan_step t w) t) = taken (Dispatch (Some e))" by (simp add: w update_defs)
  have g: "f \<in> set (queued_fibers (m_fibers (scan_step t w))) \<or> (\<exists>u. taken (pc_of (scan_step t w) u) = Some f)"
    if "f \<in> set (queued_fibers (m_fibers w))" for f
  proof (cases "taken (Dispatch (Some e)) = Some f")
    case True
    then show ?thesis using t by metis
  next
    case False
    then show ?thesis using that unfolding q by (auto simp: w update_defs)
  qed
  show ?thesis unfolding wakes_kept_def using g assms by (auto simp: w update_defs)
qed

lemma dispatch_wakes:
  assumes "fibers_inv w R T C" "pc_of w t = Dispatch ft" "dispatch_step t ft w = Inr w'"
    and frame: "\<And>u. u \<noteq> t \<Longrightarrow> pc_of w' u = pc_of w u"
  shows "wakes_kept w w'"
proof (cases "taken (pc_of w t)")
  case None
  have "wakes_grow w w'"
    by (rule wakes_grow_same; cases "(t, ft, w)" rule: dispatch_step.cases)
      (use None assms(2,3) in \<open>auto simp: update_defs prepare_cb_def run_fiber_def Let_def split: option.splits sum.splits if_splits\<close>)
  then show ?thesis by (rule wakes_grow_kept [OF _ frame None])
next
  case (Some f)
  then obtain i where ft: "ft = Some (FiberTask f, i)" using assms(2) by (auto elim: taken.elims)
  have T: "T f = Some (OnThread t)" using fibers_invD(4) [OF assms(1), of t f] Some by simp
  have "parked_ok (fibers w f) (T f) (C f)" using inv_located(6) [OF assms(1)] inv_located(7) [OF assms(1) T] by simp
  then obtain p where "state_of w f \<in> {HOLD, READY}" "m_ctx (fibers w f) = Some (Run p)"
    using T by (auto simp: parked_ok_def can_resume_def)
  then have w: "w' = goto_pc t (In False f (Run p)) (set_fiber f \<lparr>m_state = EXEC, m_ctx = None\<rparr> w)"
    using assms(3) by (auto simp: ft run_fiber_def Fiber_swapIn_def)
  show ?thesis unfolding wakes_kept_def using frame Some by (auto simp: w update_defs)
qed

lemma thread_wakes:
  assumes "fibers_inv w R T C" "thread_step exec t w = Inr w'"
  shows "wakes_kept w w'"
proof -
  have frame: "u \<noteq> t \<Longrightarrow> pc_of w' u = pc_of w u" for u
    using thread_frame [OF assms(2)] by (auto simp: step_frame_def)
  note kept = wakes_grow_kept [where t = t, OF _ frame]
  have plain: ?thesis if "m_fibers w' = m_fibers w" "sems w' = sems w" "taken (pc_of w t) = None"
    by (rule kept [OF wakes_grow_same [OF that(1,2)] _ that(3)])
  show ?thesis
  proof (cases "pc_of w t")
    case Scan
    then show ?thesis using assms(2) scan_wakes by (auto simp: thread_step_def)
  next
    case (Dispatch ft)
    then show ?thesis using dispatch_wakes [OF assms(1) Dispatch _ frame] assms(2) by (simp add: thread_step_def)
  next
    case (In b f x)
    then have "wakes_grow w w'" using assms(2) fiber_wakes by (simp add: thread_step_def)
    then show ?thesis by (rule kept) (use In in auto)
  next
    case (Post b f)
    then have "wakes_grow w w'" using assms(2)
      by (auto simp: thread_step_def post_step_def split: if_splits sum.splits)
    then show ?thesis by (rule kept) (use Post in auto)
  qed (rule plain; use assms(2) in \<open>auto simp: thread_step_def enter_step_def ret_step_def idle_step_def ret_idle_step_def update_defs Let_def\<close>)+
qed

lemma move_wakes:
  assumes "sched_inv w" "stop_inv w" "stop_fits w m" "move exec m w = Inr w'"
  shows "wakes_kept w w'"
proof -
  obtain R T C where I: "fibers_inv w R T C" "threads_inv w" using assms(1) by (auto simp: sched_inv_def)
  have ext: "wakes_kept w v" if "wakes_grow w v" "same_frame w v" for v
    using that by (auto simp: wakes_kept_def wakes_grow_def same_frame_def)
  show ?thesis
  proof (cases m)
    case (Turn t)
    then show ?thesis using assms(4) thread_wakes [OF I(1)] by simp
  next
    case (StartCall ids)
    have "taken (pc_of w t) = None" if "t \<in> set ids" "set ids \<inter> set (m_threadIds w) = {}" for t
    proof -
      have "pc_of w t = NotStarted" using I(2) that unfolding threads_inv_def by blast
      then show ?thesis by simp
    qed
    then show ?thesis using assms(4) StartCall
      by (fastforce simp: wakes_kept_def Scheduler_start_def blank_thread_def split: if_splits)
  next
    case StopStep
    have "m_rootThread w \<noteq> - 1 \<Longrightarrow> stop_at w = Stop2 \<Longrightarrow> pc_of w (m_rootThread w) = NotStarted" using assms(2) by (simp add: stop_inv_def)
    then show ?thesis using assms(4) StopStep
      by (auto simp: wakes_kept_def stop_step_def goto_pc_def Let_def split: stop_pc.splits if_splits)
  next
    case (ExtScheduleAll cbs)
    then show ?thesis using assms(4) ext [OF wakes_grow_all same_frame_all] by auto
  next
    case (StopCall own)
    then have "wakes_grow w w'" "threads w' = threads w" using assms(4) by (auto intro!: wakes_grow_same)
    then show ?thesis by (auto simp: wakes_kept_def wakes_grow_def)
  qed (use assms(4) in \<open>auto intro!: ext\<close>)
qed


definition ping_pong_moves :: "nat sched_move list" where
  "ping_pong_moves = [StartCall [1, 2], ExtSchedule (Some 2) (- 1), Turn 1, Turn 1, Turn 1, Turn 1]"

lemma ping_pong_waits:
  "\<exists>w w'. new_Scheduler 2 False 7 (\<lambda>_. 0) = Inr w \<and> moves ping_pong ping_pong_moves w = Inr w' \<and> m_waiters (sems w' 0) = [2]"
  by (simp add: new_Scheduler_def ping_pong_moves_def Scheduler_start_def thread_step_def enter_step_def scan_step_def blank_thread_def
      update_defs schedule_cb_def schedule_def scheduleNoLock_def prepare_cb_def run_fiber_def Fiber_swapIn_def new_Fiber_def Let_def
      ping_pong_def FiberSemaphore_wait_def)


end
