(* ===== verification/Scheduler_Run.thy ===== *)
theory Scheduler_Run
  imports Scheduler_Safe
begin

text \<open>
  What becomes of the work that is given to a scheduler: every callback is started once and on the thread it was meant for, and
  \<^verbatim>\<open>stop\<close> returns only when the queue is empty, unless callbacks are meant for particular threads.
\<close>

section \<open>Callbacks are started once\<close>

fun queued_cbs :: "'c entry list \<Rightarrow> ('c \<times> int) list" where
  "queued_cbs [] = []"
| "queued_cbs ((CbTask c, i) # q) = (c, i) # queued_cbs q"
| "queued_cbs ((FiberTask _, _) # q) = queued_cbs q"

fun taken_cb :: "'c pc \<Rightarrow> ('c \<times> int) multiset" where
  "taken_cb (Dispatch (Some (CbTask c, i))) = {#(c, i)#}"
| "taken_cb _ = {#}"

definition started_cbs :: "'c sched \<Rightarrow> ('c \<times> int) list" where
  "started_cbs w = map (\<lambda>(c, i, t). (c, i)) (started w)"

definition balance :: "'c sched \<Rightarrow> bool" where
  "balance w \<longleftrightarrow> mset (submitted w) = mset (started_cbs w) + mset (queued_cbs (m_fibers w)) + tally taken_cb w"

text \<open>A step of a thread keeps the balance: what it puts on one side it takes from the other.\<close>

definition step_balance :: "int \<Rightarrow> 'c sched \<Rightarrow> 'c sched \<Rightarrow> bool" where
  "step_balance t w w' \<longleftrightarrow>
     mset (submitted w') + mset (started_cbs w) + mset (queued_cbs (m_fibers w)) + taken_cb (pc_of w t) =
     mset (submitted w) + mset (started_cbs w') + mset (queued_cbs (m_fibers w')) + taken_cb (pc_of w' t)"

lemma queued_cbs_append [simp]: "queued_cbs (p @ q) = queued_cbs p @ queued_cbs q"
  by (induction p rule: queued_cbs.induct) auto

definition fair :: "'c sched \<Rightarrow> 'c sched \<Rightarrow> bool" where
  "fair w w' \<longleftrightarrow> mset (submitted w') + mset (queued_cbs (m_fibers w)) = mset (submitted w) + mset (queued_cbs (m_fibers w')) \<and>
     started w' = started w"

lemma fair_ops [simp]:
  "fair w w" "fair w (schedule (FiberTask f) i w)" "fair w (schedule_cb cb i w)" "fair w (set_fiber f fb w)" "fair w (set_state f s w)"
  "fair w (FiberSemaphore_notify k w)" "fair w (snd (FiberSemaphore_wait k f w))" "fair w (snd (FiberSemaphore_tryWait k w))"
  by (auto simp: fair_def set_state_def set_fiber_def schedule_cb_def set_sem_def FiberSemaphore_notify_def FiberSemaphore_wait_def
      FiberSemaphore_tryWait_def Let_def split: option.splits list.splits)

lemma balance_goto:
  "fair w w' \<Longrightarrow> taken_cb (pc_of w t) = {#} \<Longrightarrow> taken_cb p = {#} \<Longrightarrow> step_balance t w (goto_pc t p w')"
  by (simp add: step_balance_def fair_def started_cbs_def goto_pc_def)

lemma request_balance:
  assumes "request_step t b f req w = Inr w'" "pc_of w t = In b f x"
  shows "step_balance t w w'"
proof -
  have "FiberSemaphore_wait i f w = (r, v) \<Longrightarrow> fair w v" "FiberSemaphore_tryWait i w = (r, v) \<Longrightarrow> fair w v" for i r v
    using fair_ops(7) [of w i f] fair_ops(8) [of w i] by auto
  then obtain v p where "w' = goto_pc t p v" "fair w v" "taken_cb p = {#}"
    using assms(1) by (cases req) (auto simp: do_YieldToReady_def do_YieldToHold_def leave_fiber_def do_switchTo_def split: if_splits prod.splits)
  then show ?thesis using balance_goto [of w v t p] assms(2) by simp
qed

lemma fiber_balance:
  assumes "fiber_step exec t b f x w = Inr w'" "pc_of w t = In b f x"
  shows "step_balance t w w'"
proof -
  have l: "step_balance t w (leave_fiber t b f c w)" for c
    unfolding leave_fiber_def by (rule balance_goto) (simp_all add: assms(2))
  show ?thesis
    using assms l request_balance [of t b f Throw w w' x] request_balance [of t b f "exec f p" w w' x for p]
    by (cases "(exec, t, b, f, x, w)" rule: fiber_step.cases) (auto simp: do_YieldToHold_def split: if_splits)
qed

lemma scan_balance:
  assumes "pc_of w t = Scan"
  shows "step_balance t w (scan_step t w)"
proof (cases rule: scan_cases [of "state_of w" t "m_fibers w"])
  case (none tm)
  then show ?thesis using assms by (simp add: step_balance_def scan_step_def goto_pc_def started_cbs_def)
next
  case (some e p r tm)
  obtain fc i where e: "e = (fc, i)" by (cases e)
  show ?thesis using some(1,2) assms by (cases fc) (simp_all add: e step_balance_def scan_step_def goto_pc_def started_cbs_def)
qed

lemma dispatch_balance:
  assumes "dispatch_step t ft w = Inr w'" "pc_of w t = Dispatch ft"
  shows "step_balance t w w'"
proof (cases "(t, ft, w)" rule: dispatch_step.cases)
  case (1 t' f i w'')
  then show ?thesis using assms
    by (auto simp: step_balance_def started_cbs_def update_defs elim!: run_fiber_frame split: if_splits)
next
  case (2 t' c i w'')
  then obtain f v where v: "prepare_cb t c w = Inr (f, v)" "run_fiber t True f (v\<lparr>started := started v @ [(c, i, t)]\<rparr>) = Inr w'"
    using assms(1) by (auto split: sum.splits)
  obtain fb n where f: "v = set_cb t (Some f) (set_fiber f fb (w\<lparr>s_fiber_id := n\<rparr>))" using v(1) by (rule prepare_cb_frame)
  obtain x gb where "w' = goto_pc t (In True f x) (set_fiber f gb (v\<lparr>started := started v @ [(c, i, t)]\<rparr>))" using v(2) by (rule run_fiber_frame)
  then show ?thesis using assms(2) 2 unfolding f by (simp add: step_balance_def started_cbs_def update_defs)
next
  case (3 t' w'')
  then show ?thesis using assms by (auto simp: step_balance_def started_cbs_def update_defs split: if_splits)
qed

lemma post_balance:
  assumes "post_step t b f w = Inr w'" "pc_of w t = Post b f"
  shows "step_balance t w w'"
proof -
  have "step_balance t w (goto_pc t Scan v)" "step_balance t w (goto_pc t Scan (set_cb t None v))" if "fair w v" for v
    using that assms(2) by (simp_all add: step_balance_def fair_def started_cbs_def goto_pc_def set_cb_def)
  then show ?thesis using assms(1) by (cases b) (auto simp: post_step_def Fiber_reset_def split: if_splits)
qed

lemma thread_balance:
  assumes "thread_step exec t w = Inr w'"
  shows "step_balance t w w'"
  using assms dispatch_balance [of t _ w w'] fiber_balance [of exec t _ _ _ w w'] scan_balance [of w t] post_balance [of t _ _ w w']
  by (cases "pc_of w t") (auto simp: thread_step_def enter_step_def ret_step_def idle_step_def ret_idle_step_def
      step_balance_def started_cbs_def update_defs Let_def)

lemma balance_arith:
  fixes S :: "'b multiset"
  assumes "S' + A + Q + k = S + A' + Q' + k'" "S = A + Q + T" "T' + k = T + k'"
  shows "S' = A' + Q' + T'"
proof -
  have "S' + (A + Q + k) = A + Q + A' + Q' + (T + k')" using assms(1) unfolding assms(2) by (simp add: ac_simps)
  also have "\<dots> = A' + Q' + T' + (A + Q + k)" unfolding assms(3) [symmetric] by (simp add: ac_simps)
  finally show ?thesis by simp
qed

lemma balance_fair:
  assumes "balance w" "fair w w'" "threads w' = threads w" "m_threadIds w' = m_threadIds w"
  shows "balance w'"
proof -
  let ?q = "mset (queued_cbs (m_fibers w))" and ?q' = "mset (queued_cbs (m_fibers w'))"
  have t: "tally taken_cb w' = tally taken_cb w" "started_cbs w' = started_cbs w"
    using assms(2) by (simp_all add: tally_def assms(3,4) fair_def started_cbs_def)
  have "mset (submitted w') + ?q = (mset (started_cbs w) + ?q + tally taken_cb w) + ?q'"
    using assms(1,2) unfolding balance_def fair_def by simp
  also have "\<dots> = (mset (started_cbs w) + ?q' + tally taken_cb w) + ?q" by (simp only: ac_simps)
  finally show ?thesis unfolding balance_def t by (simp only: add_right_cancel)
qed

lemma move_balance:
  assumes "sched_inv w" "stop_inv w" "balance w" "move exec m w = Inr w'"
  shows "balance w'"
proof (cases m)
  case (Turn t)
  show ?thesis
  proof (cases "pc_of w t = NotStarted")
    case True
    then show ?thesis using Turn assms(3,4) by (simp add: thread_step_def)
  next
    case False
    then have t: "t \<in> set (m_threadIds w)" "distinct (m_threadIds w)" using assms(1) unfolding sched_inv_def threads_inv_def by blast+
    note F = thread_frame [of exec t w w', unfolded step_frame_def]
    have y: "tally taken_cb w' + taken_cb (pc_of w t) = tally taken_cb w + taken_cb (pc_of w' t)"
      by (rule tally_update [OF t]) (use F Turn assms(4) in auto)
    have b: "step_balance t w w'" using thread_balance [of exec t w w'] assms(4) Turn by simp
    show ?thesis unfolding balance_def by (rule balance_arith [OF b [unfolded step_balance_def] assms(3) [unfolded balance_def] y])
  qed
next
  case (StartCall ids)
  then have "tally taken_cb w' = tally taken_cb w" using start_tally [of ids w w' taken_cb] assms(4) by simp
  then show ?thesis using assms(3,4) StartCall by (auto simp: balance_def started_cbs_def Scheduler_start_def split: if_splits)
next
  case StopStep
  show ?thesis
  proof (cases "stop_at w = Stop2 \<and> m_rootThread w \<noteq> - 1 \<and> \<not> stopping w")
    case True
    let ?r = "m_rootThread w"
    have r: "pc_of w ?r = NotStarted" "?r \<in> set (m_threadIds w)" "distinct (m_threadIds w)"
      using True assms(1,2) by (auto simp: stop_inv_def sched_inv_def threads_inv_def)
    have w: "w' = (goto_pc ?r Enter w)\<lparr>stop_at := StopRun\<rparr>" using True StopStep assms(4) by (simp add: stop_step_def)
    have "tally taken_cb w' = tally taken_cb w"
      using tally_update [OF r(2,3), of w' taken_cb] r(1) by (simp add: w goto_pc_def)
    then show ?thesis using assms(3) by (simp add: balance_def started_cbs_def w goto_pc_def)
  next
    case False
    then have "threads w' = threads w \<and> m_threadIds w' = m_threadIds w \<and> submitted w' = submitted w \<and> started w' = started w \<and> m_fibers w' = m_fibers w"
      using assms(4) StopStep by (auto simp: stop_step_def Let_def split: stop_pc.splits if_splits)
    then show ?thesis using balance_fair [OF assms(3), of w'] by (simp add: fair_def)
  qed
next
  case (ExtSchedule cb i)
  then show ?thesis using assms(4) balance_fair [OF assms(3), of w'] by auto
next
  case (ExtScheduleAll cbs)
  have "balance v \<Longrightarrow> balance (schedule_all cbs v)" for v :: "'a sched" unfolding schedule_all_def
  proof (induction cbs arbitrary: v)
    case (Cons cb cbs)
    have "balance (schedule_cb cb (- 1) v)" by (rule balance_fair [OF Cons.prems]) simp_all
    then show ?case using Cons.IH by simp
  qed simp
  then show ?thesis using ExtScheduleAll assms(3,4) by auto
next
  case (ExtNotify i)
  then show ?thesis using assms(4) balance_fair [OF assms(3), of w'] same_frame_sems(1) [of w i] by (auto simp: same_frame_def)
next
  case (StopCall own)
  then show ?thesis using assms(4) balance_fair [OF assms(3), of w'] by (auto simp: fair_def split: if_splits)
qed

text \<open>Callbacks and fibers run on the thread they are meant for.\<close>

definition pins_inv :: "'c sched \<Rightarrow> bool" where
  "pins_inv w \<longleftrightarrow> (\<forall>t e i. pc_of w t = Dispatch (Some (e, i)) \<longrightarrow> i = - 1 \<or> i = t) \<and> (\<forall>c i t. (c, i, t) \<in> set (started w) \<longrightarrow> i = - 1 \<or> i = t)"

text \<open>Where a step can lead.\<close>

lemma request_pc:
  assumes "request_step t b f req w = Inr w'"
  shows "\<exists>c. pc_of w' t = In b f c \<or> pc_of w' t = Ret b f" "started w' = started w"
  using assms by (cases req; auto simp: do_YieldToReady_def do_YieldToHold_def leave_fiber_def do_switchTo_def update_defs
      FiberSemaphore_wait_def FiberSemaphore_tryWait_def FiberSemaphore_notify_def Let_def split: if_splits prod.splits list.splits)+

lemma fiber_pc:
  assumes "fiber_step exec t b f x w = Inr w'"
  shows "(\<exists>c. pc_of w' t = In b f c \<or> pc_of w' t = Ret b f) \<and> started w' = started w"
proof -
  have l: "pc_of (leave_fiber t b f c w) t = Ret b f" "started (leave_fiber t b f c w) = started w" for c
    by (simp_all add: leave_fiber_def update_defs)
  show ?thesis
    using assms l request_pc [of t b f Throw w w'] request_pc [of t b f "exec f p" w w' for p]
    by (cases "(exec, t, b, f, x, w)" rule: fiber_step.cases) (auto simp: do_YieldToHold_def split: if_splits)
qed

lemma dispatch_pc:
  assumes "dispatch_step t ft w = Inr w'"
  shows "(pc_of w' t = Exited \<and> ft = None \<and> idle_fiber (threads w t) = TERM_state \<or> pc_of w' t = InIdle \<or> pc_of w' t = Scan \<or> (\<exists>b f c. pc_of w' t = In b f c)) \<and>
    (started w' = started w \<or> (\<exists>c i. ft = Some (CbTask c, i) \<and> started w' = started w @ [(c, i, t)])) \<and>
    (idle_fiber (threads w' t) = TERM_state \<longrightarrow> idle_fiber (threads w t) = TERM_state) \<and> m_fibers w' = m_fibers w"
proof (cases "(t, ft, w)" rule: dispatch_step.cases)
  case (1 t' f i w'')
  show ?thesis
  proof (cases "state_of w f \<noteq> TERM_state \<and> state_of w f \<noteq> EXCEPT")
    case True
    then have "run_fiber t False f w = Inr w'" using assms 1 by simp
    then obtain x fb where "w' = goto_pc t (In False f x) (set_fiber f fb w)" by (rule run_fiber_frame)
    then show ?thesis by (auto simp: update_defs)
  next
    case False
    then show ?thesis using assms 1 by (auto simp: update_defs)
  qed
next
  case (2 t' c i w'')
  then obtain f v where v: "prepare_cb t c w = Inr (f, v)" "run_fiber t True f (v\<lparr>started := started v @ [(c, i, t)]\<rparr>) = Inr w'"
    using assms by (auto split: sum.splits)
  obtain fb n where f: "v = set_cb t (Some f) (set_fiber f fb (w\<lparr>s_fiber_id := n\<rparr>))" using v(1) by (rule prepare_cb_frame)
  obtain x gb where "w' = goto_pc t (In True f x) (set_fiber f gb (v\<lparr>started := started v @ [(c, i, t)]\<rparr>))" using v(2) by (rule run_fiber_frame)
  then show ?thesis using 2 unfolding f by (auto simp: update_defs)
next
  case (3 t' w'')
  then show ?thesis using assms by (simp add: update_defs split: if_splits) auto
qed

lemma post_pc:
  "post_step t b f w = Inr w' \<Longrightarrow> pc_of w' t = Scan \<and> started w' = started w"
  by (cases b) (auto simp: post_step_def update_defs split: if_splits sum.splits)

lemma thread_step_pc:
  assumes "thread_step exec t w = Inr w'"
  shows "(pc_of w' t = Exited \<longrightarrow> pc_of w t = Exited \<or> pc_of w t = Dispatch None \<and> idle_fiber (threads w t) = TERM_state) \<and>
    (pc_of w' t = NotStarted \<longrightarrow> pc_of w t = NotStarted) \<and>
    (\<forall>ft. pc_of w' t = Dispatch ft \<longrightarrow> pc_of w t = Scan \<and> fst (scan (state_of w) t (m_fibers w)) = ft) \<and>
    (started w' = started w \<or> (\<exists>c i. pc_of w t = Dispatch (Some (CbTask c, i)) \<and> started w' = started w @ [(c, i, t)]))"
proof (cases "pc_of w t")
  case (Dispatch ft)
  then show ?thesis using assms dispatch_pc [of t ft w w'] by (auto simp: thread_step_def)
next
  case (In b f x)
  then show ?thesis using assms fiber_pc [of exec t b f x w w'] by (auto simp: thread_step_def)
next
  case (Post b f)
  then show ?thesis using assms post_pc [of t b f w w'] by (auto simp: thread_step_def)
next
  case Scan
  obtain ft q tm where "scan (state_of w) t (m_fibers w) = (ft, q, tm)" using prod_cases3 by blast
  then show ?thesis using assms Scan by (cases ft) (auto simp: thread_step_def scan_step_def goto_pc_def Let_def)
next
  case InIdle
  then show ?thesis using assms by (auto simp: thread_step_def idle_step_def update_defs)
next
  case RetIdle
  then show ?thesis using assms by (auto simp: thread_step_def ret_idle_step_def update_defs Let_def)
next
  case Enter
  then show ?thesis using assms by (auto simp: thread_step_def enter_step_def update_defs)
next
  case (Ret b f)
  then show ?thesis using assms by (auto simp: thread_step_def ret_step_def update_defs)
qed (use assms in \<open>auto simp: thread_step_def\<close>)

lemma scan_pinned:
  "fst (scan st t q) = Some (e, i) \<Longrightarrow> i = - 1 \<or> i = t"
  by (rule scan_cases [of st t q]) (auto simp: may_run_def)

lemma pins_thread:
  assumes "pins_inv w" "thread_step exec t w = Inr w'"
  shows "pins_inv w'"
proof -
  have I: "pc_of w u = Dispatch (Some (e, i)) \<Longrightarrow> i = - 1 \<or> i = u" "(c, i, u) \<in> set (started w) \<Longrightarrow> i = - 1 \<or> i = u" for u e i c
    using assms(1) unfolding pins_inv_def by blast+
  note P = thread_step_pc [OF assms(2)] and F = thread_frame [OF assms(2), unfolded step_frame_def]
  have "i = - 1 \<or> i = u" if "pc_of w' u = Dispatch (Some (e, i))" for u e i
    using I(1) P F that scan_pinned [of "state_of w" t "m_fibers w" e i] by (cases "u = t") auto
  moreover have "i = - 1 \<or> i = u" if "(c, i, u) \<in> set (started w')" for c i u
  proof -
    have "(c, i, u) \<in> set (started w) \<or> pc_of w u = Dispatch (Some (CbTask c, i))" using P that by auto
    then show ?thesis using I by blast
  qed
  ultimately show ?thesis unfolding pins_inv_def by blast
qed

lemma pins_move:
  assumes "pins_inv w" "move exec m w = Inr w'"
  shows "pins_inv w'"
proof -
  have same: "pins_inv v" if "\<And>u e i. pc_of v u = Dispatch (Some (e, i)) \<Longrightarrow> pc_of w u = Dispatch (Some (e, i))" "started v = started w" for v
    using assms(1) that by (auto simp: pins_inv_def)
  show ?thesis
  proof (cases m)
    case (Turn t)
    then show ?thesis using pins_thread [OF assms(1)] assms(2) by simp
  next
    case (StartCall ids)
    then show ?thesis using assms(2) by (intro same) (auto simp: Scheduler_start_def blank_thread_def split: if_splits)
  next
    case StopStep
    then show ?thesis using assms(2) by (intro same) (auto simp: stop_step_def Let_def goto_pc_def split: stop_pc.splits if_splits)
  next
    case (ExtSchedule cb i)
    then show ?thesis using assms(2) by (intro same) auto
  next
    case (ExtScheduleAll cbs)
    have "started (schedule_all cbs v) = started v" for v :: "'a sched"
      unfolding schedule_all_def by (induction cbs arbitrary: v) simp_all
    then show ?thesis using assms(2) ExtScheduleAll same_frame_all [of w cbs] by (intro same) (auto simp: same_frame_def)
  next
    case (ExtNotify k)
    then show ?thesis using assms(2) same_frame_sems(1) [of w k] fair_ops(6) [of w k] by (intro same) (auto simp: same_frame_def fair_def)
  next
    case (StopCall own)
    then show ?thesis using assms(2) by (intro same) (auto split: if_splits)
  qed
qed

text \<open>Invariants of single moves hold along runs.\<close>

lemma moves_induct:
  assumes "tame exec" "sched_inv w" "stop_inv w" "run_fits w ms" "P w"
    and "\<And>w m w'. m \<in> set ms \<Longrightarrow> sched_inv w \<Longrightarrow> stop_inv w \<Longrightarrow> P w \<Longrightarrow> move exec m w = Inr w' \<Longrightarrow> P w'"
  shows "\<exists>w'. moves exec ms w = Inr w' \<and> P w' \<and> sched_inv w' \<and> stop_inv w'"
  using assms(2-6)
proof (induction ms arbitrary: w)
  case (Cons m ms)
  from move_inv [OF Cons.prems(1,2) assms(1) run_fits_Cons(1) [OF Cons.prems(3)]]
  obtain w' where w: "move exec m w = Inr w'" "sched_inv w'" "stop_inv w'" "m_rootThread w' = m_rootThread w"
    "stop_at w' = NotStopping \<longleftrightarrow> stop_at w = NotStopping \<and> \<not> is_stop m" by blast
  have "P w'" using Cons.prems(5) [OF _ Cons.prems(1,2,4) w(1)] by simp
  then have "\<exists>w''. moves exec ms w' = Inr w'' \<and> P w'' \<and> sched_inv w'' \<and> stop_inv w''"
    using Cons.prems(5) by (intro Cons.IH [OF w(2,3) run_fits_Cons(2) [OF Cons.prems(3) w(4,5)]]) auto
  then show ?case using w(1) by simp
qed simp

text \<open>
  (C7) No callback is lost and none is run twice, in a run whose code schedules no fibers itself and calls \<^verbatim>\<open>stop\<close> and \<^verbatim>\<open>start\<close> as \<open>well_used\<close> says: in
  every reachable state the callbacks that were submitted are, counted with
  multiplicity, those that were started, those in the queue and those that a thread has just taken from it. A
  callback that was submitted for a thread is started on that thread.
\<close>

theorem callbacks_started_once:
  assumes "tame exec" "new_Scheduler n use_caller tid conc = Inr w" "tid \<noteq> - 1" "well_used use_caller ms"
  shows "\<exists>w'. moves exec ms w = Inr w' \<and>
    mset (submitted w') = mset (started_cbs w') + mset (queued_cbs (m_fibers w')) + tally taken_cb w' \<and>
    (\<forall>c i t. (c, i, t) \<in> set (started w') \<longrightarrow> i = - 1 \<or> i = t)"
proof -
  note N = new_Scheduler_inv [OF assms(2,3)]
  have "balance w \<and> pins_inv w" using assms(2)
    by (auto simp: new_Scheduler_def balance_def pins_inv_def started_cbs_def tally_def blank_thread_def split: if_splits)
  then have "\<exists>w'. moves exec ms w = Inr w' \<and> (balance w' \<and> pins_inv w') \<and> sched_inv w' \<and> stop_inv w'"
    by (intro moves_induct [OF assms(1) N(1,2)]) (use N(4) assms(4) move_balance pins_move in blast)+
  then show ?thesis unfolding balance_def pins_inv_def by blast
qed

theorem callbacks_started_once_witness:
  "\<exists>w w'. new_Scheduler 2 False 7 (\<lambda>_. 0) = Inr w \<and> moves ping_pong ping_pong_moves w = Inr w' \<and>
    mset (submitted w') = mset (started_cbs w') + mset (queued_cbs (m_fibers w')) + tally taken_cb w'"
proof -
  obtain w :: "nat sched" where w: "new_Scheduler 2 False 7 (\<lambda>_. 0) = Inr w" using ping_pong_waits by blast
  show ?thesis using callbacks_started_once [OF tame_ping_pong w, of ping_pong_moves] w by (auto simp: ping_pong_moves_def)
qed

section \<open>Stopping\<close>

text \<open>Code and calls that leave the choice of the thread to the scheduler.\<close>

definition unpinned :: "(nat \<Rightarrow> 'c \<Rightarrow> 'c request) \<Rightarrow> bool" where
  "unpinned exec \<longleftrightarrow> (\<forall>f p cb i p'. exec f p = Schedule cb i p' \<longrightarrow> i = - 1) \<and> (\<forall>f p i p'. exec f p = SwitchTo i p' \<longrightarrow> i = - 1)"

fun unpinned_move :: "'c sched_move \<Rightarrow> bool" where
  "unpinned_move (ExtSchedule cb i) \<longleftrightarrow> i = - 1"
| "unpinned_move (StopCall own) \<longleftrightarrow> False"
| "unpinned_move _ \<longleftrightarrow> True"

text \<open>After the call of \<^verbatim>\<open>stop\<close>, nothing is submitted from outside.\<close>

fun quiet_move :: "'c sched_move \<Rightarrow> bool" where
  "quiet_move (Turn t) \<longleftrightarrow> True"
| "quiet_move StopStep \<longleftrightarrow> True"
| "quiet_move _ \<longleftrightarrow> False"

definition anywhere :: "'c sched \<Rightarrow> bool" where
  "anywhere w \<longleftrightarrow> list_all (\<lambda>e. snd e = - 1) (m_fibers w)"

lemma anywhere_ops [simp]:
  "anywhere (schedule e i w) \<longleftrightarrow> anywhere w \<and> i = - 1" "anywhere (set_fiber f fb w) = anywhere w" "anywhere (goto_pc t p w) = anywhere w"
  "anywhere (set_cb t x w) = anywhere w" "anywhere (set_state f s w) = anywhere w" "anywhere (set_idle t s w) = anywhere w"
  by (auto simp: anywhere_def update_defs)

lemma anywhere_more [simp]:
  "anywhere w \<Longrightarrow> anywhere (schedule_cb cb (- 1) w)" "anywhere w \<Longrightarrow> anywhere (FiberSemaphore_notify k w)"
  "anywhere (snd (FiberSemaphore_wait k f w)) = anywhere w" "anywhere (snd (FiberSemaphore_tryWait k w)) = anywhere w"
  by (auto simp: anywhere_def schedule_cb_def FiberSemaphore_notify_def FiberSemaphore_wait_def FiberSemaphore_tryWait_def Let_def set_sem_def
      split: option.splits list.splits)

lemma anywhere_request:
  assumes "anywhere w" "request_step t b f req w = Inr w'" "\<And>cb i p. req = Schedule cb i p \<Longrightarrow> i = - 1" "\<And>i p. req = SwitchTo i p \<Longrightarrow> i = - 1"
    "\<And>g i p. req \<noteq> ScheduleFiber g i p"
  shows "anywhere w'"
proof -
  have "FiberSemaphore_wait k f w = (r, v) \<Longrightarrow> anywhere v" "FiberSemaphore_tryWait k w = (r, v) \<Longrightarrow> anywhere v" for k r v
    using anywhere_more(3) [of k f w] anywhere_more(4) [of k w] assms(1) by auto
  then show ?thesis using assms(1-4) assms(5) [of "case req of ScheduleFiber g i p \<Rightarrow> g" "case req of ScheduleFiber g i p \<Rightarrow> i"
      "case req of ScheduleFiber g i p \<Rightarrow> p"]
    by (cases req) (auto simp: do_YieldToReady_def do_YieldToHold_def leave_fiber_def do_switchTo_def split: if_splits prod.splits)
qed

lemma anywhere_fiber:
  assumes "anywhere w" "fiber_step exec t b f x w = Inr w'" "tame exec" "unpinned exec"
  shows "anywhere w'"
proof -
  have "anywhere w'" if "request_step t b f (exec f p) w = Inr w'" for p
    using assms(3,4) unfolding tame_def unpinned_def by (intro anywhere_request [OF assms(1) that]) blast+
  then show ?thesis using assms(1,2) anywhere_request [of w t b f Throw w']
    by (cases "(exec, t, b, f, x, w)" rule: fiber_step.cases) (auto simp: do_YieldToHold_def leave_fiber_def split: if_splits)
qed

lemma anywhere_thread:
  assumes "anywhere w" "thread_step exec t w = Inr w'" "tame exec" "unpinned exec"
  shows "anywhere w'"
proof (cases "pc_of w t")
  case (Dispatch ft)
  then show ?thesis using assms(1,2) dispatch_pc [of t ft w w'] by (simp add: thread_step_def anywhere_def)
next
  case (In b f x)
  then show ?thesis using assms anywhere_fiber [of w exec t b f x w'] by (simp add: thread_step_def)
next
  case Scan
  then show ?thesis using assms(1,2)
    by (cases rule: scan_cases [of "state_of w" t "m_fibers w"]) (auto simp: thread_step_def scan_step_def goto_pc_def anywhere_def)
next
  case (Post b f)
  then show ?thesis using assms(1,2) by (cases b) (auto simp: thread_step_def post_step_def split: if_splits sum.splits)
qed (use assms(1,2) in \<open>auto simp: thread_step_def enter_step_def ret_step_def idle_step_def ret_idle_step_def update_defs anywhere_def Let_def\<close>)

lemma idle_request:
  "request_step t b f req w = Inr w' \<Longrightarrow> idle_fiber (threads w' u) = idle_fiber (threads w u)"
  by (cases req) (auto simp: do_YieldToReady_def do_YieldToHold_def leave_fiber_def do_switchTo_def update_defs
      FiberSemaphore_wait_def FiberSemaphore_tryWait_def FiberSemaphore_notify_def Let_def split: if_splits prod.splits list.splits)

lemma idle_thread:
  assumes "thread_step exec t w = Inr w'"
  shows "idle_fiber (threads w' u) = TERM_state \<Longrightarrow> idle_fiber (threads w u) = TERM_state \<or> stopping w"
    "pc_of w' t = Exited \<Longrightarrow> pc_of w t = Dispatch None \<Longrightarrow> idle_fiber (threads w' t) = TERM_state"
proof -
  have f: "idle_fiber (threads w' t) = idle_fiber (threads w t)" if "fiber_step exec t b f x w = Inr w'" for b f x
    using that idle_request [of t b f Throw w w' t] idle_request [of t b f "exec f p" w w' t for p]
    by (cases "(exec, t, b, f, x, w)" rule: fiber_step.cases) (auto simp: do_YieldToHold_def leave_fiber_def update_defs split: if_splits)
  have "idle_fiber (threads w' t) = TERM_state \<Longrightarrow> idle_fiber (threads w t) = TERM_state \<or> stopping w"
  proof (cases "pc_of w t")
    case (Dispatch ft)
    then show "idle_fiber (threads w' t) = TERM_state \<Longrightarrow> idle_fiber (threads w t) = TERM_state \<or> stopping w"
      using assms dispatch_pc [of t ft w w'] by (simp add: thread_step_def)
  next
    case (Post b g)
    then show "idle_fiber (threads w' t) = TERM_state \<Longrightarrow> idle_fiber (threads w t) = TERM_state \<or> stopping w"
      using assms by (cases b) (auto simp: thread_step_def post_step_def update_defs split: if_splits sum.splits)
  qed (use assms f in \<open>auto simp: thread_step_def enter_step_def scan_step_def ret_step_def idle_step_def ret_idle_step_def update_defs Let_def
      split: prod.splits if_splits\<close>)
  then show "idle_fiber (threads w' u) = TERM_state \<Longrightarrow> idle_fiber (threads w u) = TERM_state \<or> stopping w"
    using thread_frame [OF assms] by (cases "u = t") (auto simp: step_frame_def)
  show "pc_of w' t = Exited \<Longrightarrow> pc_of w t = Dispatch None \<Longrightarrow> idle_fiber (threads w' t) = TERM_state"
    using assms by (auto simp: thread_step_def update_defs split: if_splits)
qed

text \<open>A thread that will not look into the queue any more, and one that will.\<close>

definition doomed :: "'c thread \<Rightarrow> bool" where
  "doomed th \<longleftrightarrow> pc th = Exited \<or> pc th = Dispatch None \<and> idle_fiber th = TERM_state"

definition live :: "'c sched \<Rightarrow> int \<Rightarrow> bool" where
  "live w t \<longleftrightarrow> t \<in> set (m_threadIds w) \<and> \<not> doomed (threads w t) \<and>
     (pc_of w t = NotStarted \<longrightarrow> t = m_rootThread w \<and> before_run (stop_at w))"

definition off :: "'c pc \<Rightarrow> bool" where
  "off p \<longleftrightarrow> p = Exited \<or> p = NotStarted"

definition drain_inv :: "'c sched \<Rightarrow> bool" where
  "drain_inv w \<longleftrightarrow> anywhere w \<and> (stop_at w = NotStopping \<longrightarrow> \<not> m_autoStop w \<and> (\<forall>t. idle_fiber (threads w t) \<noteq> TERM_state)) \<and>
     (\<forall>t \<in> set (m_threadIds w). t = m_rootThread w \<or> pc_of w t \<noteq> NotStarted) \<and>
     (stop_at w \<noteq> StopDone \<longrightarrow> (\<forall>t \<in> set (m_threadIds w). t = m_rootThread w \<or> t \<in> set (m_threads w))) \<and>
     (m_threadCount w = 0 \<longrightarrow> m_threads w = []) \<and>
     (stop_at w \<in> {StopJoin, StopDone} \<longrightarrow> off (pc_of w (m_rootThread w))) \<and>
     (stop_at w = StopDone \<longrightarrow> (\<forall>t \<in> set (m_threadIds w). off (pc_of w t))) \<and>
     (\<forall>t. pc_of w t = Exited \<longrightarrow> idle_fiber (threads w t) = TERM_state)"

definition watched :: "'c sched \<Rightarrow> bool" where
  "watched w \<longleftrightarrow> (m_threadIds w \<noteq> [] \<and> m_fibers w \<noteq> [] \<longrightarrow> (\<exists>t. live w t))"

text \<open>Before \<^verbatim>\<open>stop\<close> is called, every thread is there.\<close>

lemma watched_running:
  assumes "drain_inv w" "stop_at w = NotStopping"
  shows "watched w"
proof (cases "m_threadIds w")
  case (Cons t ts)
  then have "live w t" using assms by (auto simp: drain_inv_def live_def doomed_def)
  then show ?thesis by (auto simp: watched_def)
qed (simp add: watched_def)

lemma drain_turn:
  assumes "drain_inv w" "thread_step exec t w = Inr w'" "tame exec" "unpinned exec"
  shows "drain_inv w'"
proof -
  note F = thread_frame [OF assms(2), unfolded step_frame_def] and P = thread_step_pc [OF assms(2)]
  have off_stays: "off (pc_of w u) \<Longrightarrow> pc_of w' u = pc_of w u" for u
    using assms(2) F by (cases "u = t") (auto simp: off_def thread_step_def)
  have "anywhere w'" using anywhere_thread [OF _ assms(2-4)] assms(1) by (simp add: drain_inv_def)
  moreover have "idle_fiber (threads w' u) \<noteq> TERM_state" if "stop_at w = NotStopping" for u
    using idle_thread(1) [OF assms(2), of u] assms(1) that by (auto simp: drain_inv_def stopping_def)
  moreover have "pc_of w' u = NotStarted \<Longrightarrow> pc_of w u = NotStarted" for u using P F by (cases "u = t") auto
  moreover have "idle_fiber (threads w' u) = TERM_state" if e: "pc_of w' u = Exited" for u
  proof (cases "u = t")
    case True
    then consider "pc_of w t = Exited" | "pc_of w t = Dispatch None" using P e by auto
    then show ?thesis
    proof cases
      case 1
      then have "w' = w" using assms(2) by (simp add: thread_step_def)
      then show ?thesis using assms(1) e by (simp add: drain_inv_def)
    next
      case 2
      then show ?thesis using idle_thread(2) [OF assms(2)] e True by simp
    qed
  next
    case False
    then show ?thesis using F assms(1) e by (simp add: drain_inv_def)
  qed
  ultimately show ?thesis using assms(1) F off_stays unfolding drain_inv_def by (metis (no_types, lifting) insert_iff)
qed

text \<open>The last thread that looks sees an empty queue.\<close>

lemma scan_none:
  assumes "fst (scan st t q) = None"
  shows "\<exists>tm. scan st t q = (None, q, tm)" "e \<in> set q \<Longrightarrow> \<not> may_run st t e"
proof -
  have "(\<exists>tm. scan st t q = (None, q, tm)) \<and> (\<forall>e \<in> set q. \<not> may_run st t e)"
  proof (cases rule: scan_cases [of st t q])
    case (none tm)
    then show ?thesis by blast
  next
    case (some e p r tm)
    then show ?thesis using assms by simp
  qed
  then show "\<exists>tm. scan st t q = (None, q, tm)" "e \<in> set q \<Longrightarrow> \<not> may_run st t e" by blast+
qed

lemma watched_turn:
  assumes "sched_inv w" "drain_inv w" "watched w" "thread_step exec t w = Inr w'"
  shows "watched w'"
proof -
  have F: "u \<noteq> t \<Longrightarrow> threads w' u = threads w u" "m_threadIds w' = m_threadIds w" "m_rootThread w' = m_rootThread w" "stop_at w' = stop_at w" for u
    using thread_frame [OF assms(4)] by (simp_all add: step_frame_def)
  have P: "pc_of w' t = NotStarted \<Longrightarrow> pc_of w t = NotStarted" "pc_of w' t = Exited \<Longrightarrow> pc_of w t \<noteq> Exited \<Longrightarrow> pc_of w t = Dispatch None \<and> idle_fiber (threads w t) = TERM_state"
    "pc_of w' t = Dispatch None \<Longrightarrow> pc_of w t = Scan \<and> fst (scan (state_of w) t (m_fibers w)) = None"
    using thread_step_pc [OF assms(4)] by blast+
  have other: "live w' u \<longleftrightarrow> live w u" if "u \<noteq> t" for u using that by (simp add: live_def F)
  obtain R T C where I: "fibers_inv w R T C" "threads_inv w" using assms(1) by (auto simp: sched_inv_def)
  show ?thesis
  proof (cases "pc_of w t = NotStarted \<or> pc_of w t = Exited")
    case True
    then have "w' = w" using assms(4) by (auto simp: thread_step_def)
    then show ?thesis using assms(3) by simp
  next
    case False
    then have t: "t \<in> set (m_threadIds w)" using I(2) unfolding threads_inv_def by blast
    show ?thesis
    proof (cases "doomed (threads w' t)")
      case alive: False
      then have "live w' t" using False P(1) t by (auto simp: live_def F(2))
      then show ?thesis by (auto simp: watched_def)
    next
      case True
      show ?thesis
      proof (cases "pc_of w t = Dispatch None")
        case d: True
        then have dm: "doomed (threads w t)" using True P(2,3) by (auto simp: doomed_def)
        have "dispatch_step t None w = Inr w'" using assms(4) d by (simp add: thread_step_def)
        from dispatch_pc [OF this] have q: "m_fibers w' = m_fibers w" by blast
        have "live w' u" if "live w u" for u using that other [of u] dm by (cases "u = t") (simp_all add: live_def)
        then show ?thesis using assms(3) q F(2) unfolding watched_def by auto
      next
        case d: False
        then have s: "pc_of w t = Scan" "fst (scan (state_of w) t (m_fibers w)) = None" using True P(2,3) False by (auto simp: doomed_def)
        have q: "m_fibers w' = m_fibers w" using scan_none(1) [OF s(2)] assms(4) s(1) by (auto simp: thread_step_def scan_step_def goto_pc_def)
        show ?thesis
        proof (cases "m_fibers w'")
          case (Cons e es)
          then have e: "e \<in> set (m_fibers w)" using q by simp
          have "snd e = - 1" using assms(2) e by (auto simp: drain_inv_def anywhere_def list_all_iff)
          then obtain f where f: "fst e = FiberTask f" "state_of w f = EXEC" using scan_none(2) [OF s(2) e] by (auto simp: may_run_def)
          then obtain u where u: "R f = Some u" using inv_located(6) [OF I(1), of f] by (cases "R f") (auto simp: parked_ok_def)
          then have on: "fiber_on (pc_of w u) = Some f" using fibers_invD(1) [OF I(1)] by simp
          then have ut: "u \<noteq> t" using s(1) by auto
          have "u \<in> set (m_threadIds w)" using I(2) on by (auto simp: threads_inv_def)
          then have "live w u" using on by (auto simp: live_def doomed_def)
          then show ?thesis using other [OF ut] by (auto simp: watched_def)
        qed (simp add: watched_def)
      qed
    qed
  qed
qed

text \<open>Calls from outside before \<^verbatim>\<open>stop\<close>.\<close>

lemma drain_frame:
  assumes "drain_inv w" "same_frame w w'" "anywhere w'"
  shows "drain_inv w'"
  using assms unfolding drain_inv_def same_frame_def by simp

lemma anywhere_all: "anywhere w \<Longrightarrow> anywhere (schedule_all cbs w)"
  unfolding schedule_all_def by (induction cbs arbitrary: w) simp_all

lemma drain_start:
  assumes "drain_inv w" "stop_inv w" "threads_inv w" "stop_at w = NotStopping" "Scheduler_start ids w = Inr w'"
  shows "drain_inv w'"
proof (cases "m_stopping w \<and> length ids = m_threadCount w \<and> distinct ids \<and> set ids \<inter> set (m_threadIds w) = {} \<and> - 1 \<notin> set ids")
  case True
  have w': "w' = w\<lparr>m_stopping := False, m_threads := ids, m_threadIds := m_threadIds w @ ids,
        threads := (\<lambda>t. if t \<in> set ids then blank_thread\<lparr>pc := Enter\<rparr> else threads w t)\<rparr>"
    using True assms(2,4,5) by (auto simp: Scheduler_start_def stop_inv_def split: if_splits)
  have "m_threads w = []" using True assms(2,4) by (simp add: stop_inv_def)
  then have old: "t = m_rootThread w" if "t \<in> set (m_threadIds w)" for t using assms(1,4) that by (auto simp: drain_inv_def)
  show ?thesis using assms(1,4) True old unfolding drain_inv_def w' by (auto simp: anywhere_def blank_thread_def)
next
  case False
  then show ?thesis using assms(1,5) by (auto simp: Scheduler_start_def split: if_splits)
qed

lemma drain_before:
  assumes "drain_inv w" "stop_inv w" "sched_inv w" "stop_at w = NotStopping" "unpinned_move m" "move exec m w = Inr w'" "tame exec" "unpinned exec"
  shows "drain_inv w' \<and> stop_at w' = NotStopping"
proof -
  have ext: "drain_inv v \<and> stop_at v = NotStopping" if "same_frame w v" "anywhere v" for v
    using drain_frame [OF assms(1) that] that(1) assms(4) by (simp add: same_frame_def)
  have a: "anywhere w" using assms(1) by (simp add: drain_inv_def)
  show ?thesis
  proof (cases m)
    case (Turn t)
    then show ?thesis using drain_turn [OF assms(1) _ assms(7,8)] thread_frame [of exec t w w'] assms(4,6) by (auto simp: step_frame_def)
  next
    case (StartCall ids)
    then have w': "Scheduler_start ids w = Inr w'" using assms(6) by simp
    have "stop_at w' = stop_at w" using w' by (auto simp: Scheduler_start_def split: if_splits)
    then show ?thesis using drain_start [OF assms(1,2) _ assms(4) w'] assms(3,4) by (simp add: sched_inv_def)
  next
    case (ExtSchedule cb i)
    then show ?thesis using assms(5,6) a ext [of "schedule_cb cb i w"] by auto
  next
    case (ExtScheduleAll cbs)
    then show ?thesis using assms(6) ext [OF same_frame_all anywhere_all [OF a], of cbs] by auto
  next
    case (ExtNotify k)
    then show ?thesis using assms(6) ext [of "FiberSemaphore_notify k w"] a by auto
  next
    case StopStep
    then show ?thesis using assms(1,4,6) by (auto simp: stop_step_def)
  qed (use assms(5) in simp)
qed

lemma drain_stop_call:
  assumes "drain_inv w" "watched w" "stop_at w = NotStopping"
  shows "drain_inv (w\<lparr>m_autoStop := True, stop_at := Stop1 own\<rparr>)" "watched (w\<lparr>m_autoStop := True, stop_at := Stop1 own\<rparr>)"
  using assms by (auto simp: drain_inv_def watched_def live_def anywhere_def)

lemma drain_stop_step:
  assumes "drain_inv w" "watched w" "stop_inv w" "threads_inv w" "stop_step w = Inr w'"
  shows "drain_inv w' \<and> watched w'"
proof (cases "stop_at w")
  case (Stop1 own)
  have root: "off (pc_of w (m_rootThread w))" using Stop1 assms(3,4) by (cases "m_rootThread w = - 1") (auto simp: stop_inv_def off_def threads_inv_def)
  let ?w = "w\<lparr>m_stopping := True\<rparr>"
  have rs: "rootFiber_state ?w = INIT" if "m_rootThread w \<noteq> - 1" using that Stop1 assms(3) by (simp add: stop_inv_def rootFiber_state_def)
  show ?thesis
  proof (cases "m_rootThread w \<noteq> - 1 \<and> m_threadCount w = 0 \<and> stopping ?w")
    case True
    then have w: "w' = ?w\<lparr>stop_at := StopDone\<rparr>" using Stop1 assms(5) rs by (simp add: stop_step_def)
    have "m_threads w = []" using assms(1) True by (simp add: drain_inv_def)
    then have "t = m_rootThread w" if "t \<in> set (m_threadIds w)" for t using assms(1) Stop1 that by (auto simp: drain_inv_def)
    then show ?thesis using assms(1) root True Stop1 unfolding w by (auto simp: drain_inv_def anywhere_def watched_def stopping_def)
  next
    case False
    then have w: "w' = ?w\<lparr>stop_at := Stop2\<rparr>" using Stop1 assms(5) by (simp add: stop_step_def Let_def split: if_splits)
    then show ?thesis using assms(1,2) Stop1 unfolding w by (auto simp: drain_inv_def anywhere_def watched_def live_def)
  qed
next
  case Stop2
  have root: "pc_of w (m_rootThread w) = NotStarted" using Stop2 assms(3,4) by (cases "m_rootThread w = - 1") (auto simp: stop_inv_def threads_inv_def)
  show ?thesis
  proof (cases "m_rootThread w \<noteq> - 1 \<and> \<not> stopping w")
    case True
    then have w: "w' = (goto_pc (m_rootThread w) Enter w)\<lparr>stop_at := StopRun\<rparr>" using Stop2 assms(5) by (simp add: stop_step_def)
    have "live w' (m_rootThread w)" using True assms(4) unfolding w by (auto simp: live_def doomed_def goto_pc_def threads_inv_def)
    then show ?thesis using assms(1) Stop2 unfolding w by (auto simp: drain_inv_def anywhere_def watched_def goto_pc_def)
  next
    case False
    then have w: "w' = w\<lparr>stop_at := StopJoin\<rparr>" using Stop2 assms(5) by (auto simp: stop_step_def)
    have "live w' t" if "live w t" "m_rootThread w = - 1" for t
      using that assms(4) unfolding w by (auto simp: live_def threads_inv_def)
    then have "watched w'" using False assms(2) w by (cases "m_rootThread w = - 1") (auto simp: watched_def stopping_def)
    then show ?thesis using assms(1) Stop2 root unfolding w by (auto simp: drain_inv_def anywhere_def off_def)
  qed
next
  case StopRun
  show ?thesis
  proof (cases "pc_of w (m_rootThread w) = Exited")
    case True
    then have w: "w' = w\<lparr>stop_at := StopJoin\<rparr>" using StopRun assms(5) by (simp add: stop_step_def)
    show ?thesis using assms(1,2) True StopRun unfolding w by (auto simp: drain_inv_def anywhere_def watched_def live_def off_def)
  next
    case False
    then have "w' = w" using StopRun assms(5) by (simp add: stop_step_def)
    then show ?thesis using assms(1,2) by simp
  qed
next
  case StopJoin
  show ?thesis
  proof (cases "list_all (\<lambda>t. pc_of w t = Exited) (m_threads w)")
    case True
    then have w: "w' = w\<lparr>m_threads := [], stop_at := StopDone\<rparr>" using StopJoin assms(5) by (simp add: stop_step_def)
    have o: "off (pc_of w t)" if "t \<in> set (m_threadIds w)" for t
      using assms(1) StopJoin True that by (auto simp: drain_inv_def list_all_iff off_def)
    then have "\<not> live w t" for t using StopJoin by (auto simp: live_def doomed_def off_def)
    then have "watched w'" using assms(2) unfolding w watched_def by auto
    then show ?thesis using assms(1) StopJoin o unfolding w by (auto simp: drain_inv_def anywhere_def)
  next
    case False
    then have "w' = w" using StopJoin assms(5) by (simp add: stop_step_def)
    then show ?thesis using assms(1,2) by simp
  qed
next
  case NotStopping
  then show ?thesis using assms(1,2,5) by (simp add: stop_step_def)
next
  case StopDone
  then show ?thesis using assms(1,2,5) by (simp add: stop_step_def)
qed

lemma moves_append: "moves exec (ms @ ns) w = (case moves exec ms w of Inl e \<Rightarrow> Inl e | Inr w \<Rightarrow> moves exec ns w)"
  by (induction ms arbitrary: w) (auto split: sum.splits)

lemma moves_quiet:
  assumes "tame exec" "unpinned exec" "sched_inv w" "stop_inv w" "balance w \<and> drain_inv w \<and> watched w" "list_all quiet_move ms"
  shows "\<exists>w'. moves exec ms w = Inr w' \<and> (balance w' \<and> drain_inv w' \<and> watched w') \<and> sched_inv w' \<and> stop_inv w'"
proof (rule moves_induct [OF assms(1,3,4)])
  have "well_used b ns" if "list_all quiet_move ns" for b and ns :: "'a sched_move list"
    using that by (induction b ns rule: well_used.induct) auto
  moreover have "quiet_move m \<Longrightarrow> \<not> is_start m" for m :: "'a sched_move" by (cases m) auto
  ultimately show "run_fits w ms" using assms(6) by (auto simp: list_all_iff run_fits_def)
  show "balance w' \<and> drain_inv w' \<and> watched w'"
    if "m \<in> set ms" "sched_inv v" "stop_inv v" "balance v \<and> drain_inv v \<and> watched v" "move exec m v = Inr w'" for v m w'
  proof -
    have "balance w'" using move_balance [OF that(2,3) _ that(5)] that(4) by simp
    have "quiet_move m" using assms(6) that(1) by (simp add: list_all_iff)
    then consider t where "m = Turn t" | "m = StopStep" by (cases m) auto
    then show ?thesis
    proof cases
      case 1
      then show ?thesis using drain_turn [of v exec t w'] watched_turn [of v exec t w'] that \<open>balance w'\<close> assms(1,2) by simp
    next
      case 2
      then show ?thesis using drain_stop_step [of v w'] that \<open>balance w'\<close> by (auto simp: sched_inv_def)
    qed
  qed
qed (use assms(5) in blast)

lemma moves_before:
  assumes "tame exec" "unpinned exec" "new_Scheduler n use_caller tid conc = Inr w" "tid \<noteq> - 1" "list_all unpinned_move ms"
  shows "\<exists>v. moves exec ms w = Inr v \<and> (balance v \<and> drain_inv v \<and> stop_at v = NotStopping \<and> use_caller = (m_rootThread v \<noteq> - 1)) \<and>
    sched_inv v \<and> stop_inv v"
proof -
  note N = new_Scheduler_inv [OF assms(3,4)]
  show ?thesis
  proof (rule moves_induct [OF assms(1) N(1,2)])
    have "well_used use_caller ms" using assms(5) by (induction use_caller ms rule: well_used.induct) auto
    then show "run_fits w ms" using N(4) by simp
    show "balance w \<and> drain_inv w \<and> stop_at w = NotStopping \<and> use_caller = (m_rootThread w \<noteq> - 1)" using assms(3,4)
      by (auto simp: new_Scheduler_def drain_inv_def anywhere_def blank_thread_def off_def balance_def started_cbs_def tally_def split: if_splits)
    show "balance w' \<and> drain_inv w' \<and> stop_at w' = NotStopping \<and> use_caller = (m_rootThread w' \<noteq> - 1)"
      if "m \<in> set ms" "sched_inv v" "stop_inv v" "balance v \<and> drain_inv v \<and> stop_at v = NotStopping \<and> use_caller = (m_rootThread v \<noteq> - 1)"
        "move exec m v = Inr w'" for v m w'
    proof -
      have u: "unpinned_move m" using that(1) assms(5) by (simp add: list_all_iff)
      then have "stop_fits v m" using that(4) by (cases m) auto
      from move_inv [OF that(2,3) assms(1) this] that(5) have "m_rootThread w' = m_rootThread v" by simp
      then show ?thesis using move_balance [OF that(2,3) _ that(5)] drain_before [OF _ that(3,2) _ u that(5) assms(1,2)] that(4) by simp
    qed
  qed
qed


definition drain_moves :: "nat sched_move list" where
  "drain_moves = [StopStep, StopStep, Turn 7, Turn 7, Turn 7, Turn 7, Turn 7, Turn 7, Turn 7, Turn 7, Turn 7, Turn 7, Turn 7, Turn 7, Turn 7,
     StopStep, StopStep]"

lemmas sched_defs = Scheduler_start_def rootFiber_state_def thread_step_def enter_step_def scan_step_def ret_step_def post_step_def idle_step_def ret_idle_step_def
  stop_step_def stopping_def blank_thread_def update_defs schedule_cb_def schedule_def scheduleNoLock_def prepare_cb_def run_fiber_def
  Fiber_swapIn_def Fiber_swapOut_def Fiber_reset_def new_Fiber_def leave_fiber_def do_YieldToReady_def do_YieldToHold_def do_switchTo_def Let_def

lemma drain_run:
  "\<exists>w w'. new_Scheduler 1 True 7 (\<lambda>_. 0) = Inr w \<and> moves ping_pong ([ExtSchedule (Some 11) (- 1)] @ StopCall True # drain_moves) w = Inr w' \<and>
     stop_at w' = StopDone \<and> m_threadIds w' = [7]"
  by (simp add: new_Scheduler_def drain_moves_def sched_defs ping_pong_def)


section \<open>What goes wrong\<close>

text \<open>
  The active count is decremented before a fiber that yielded is put back into the queue. A thread that looks in between
  takes the scheduler for finished and ends; a callback meant for it is then never run, and \<^verbatim>\<open>stop\<close> does not return.
\<close>

definition stuck :: "'c \<Rightarrow> 'c sched \<Rightarrow> bool" where
  "stuck c w \<longleftrightarrow> pc_of w 1 = Exited \<and> (CbTask c, 1) \<in> set (m_fibers w) \<and> pc_of w 2 \<noteq> Exited \<and> idle_fiber (threads w 2) \<noteq> TERM_state \<and>
     2 \<in> set (m_threads w) \<and> m_rootThread w = - 1 \<and> stop_at w \<in> {Stop2, StopJoin}"

definition leaver :: "nat \<Rightarrow> nat \<Rightarrow> nat request" where
  "leaver f p = (if p = 0 then YieldToReady 1 else if p = 1 then Schedule (Some 5) 1 2 else Return)"

definition leaver_moves :: "nat sched_move list" where
  "leaver_moves = [StartCall [1, 2], ExtSchedule (Some 0) (- 1), Turn 2, Turn 2, Turn 2, StopCall False, StopStep, Turn 2, Turn 2, Turn 2,
     Turn 1, Turn 1, Turn 1, Turn 1, Turn 1, Turn 1, Turn 1, Turn 2, Turn 2, Turn 2, Turn 2]"

lemma leaver_stuck:
  "\<exists>w w'. new_Scheduler 2 False 7 (\<lambda>_. 0) = Inr w \<and> moves leaver leaver_moves w = Inr w' \<and> stuck 5 w'"
  by (simp add: new_Scheduler_def leaver_moves_def sched_defs leaver_def stuck_def)

lemma queue_request:
  "request_step t b f req w = Inr w' \<Longrightarrow> set (m_fibers w) \<subseteq> set (m_fibers w')"
  by (cases req) (auto simp: do_YieldToReady_def do_YieldToHold_def leave_fiber_def do_switchTo_def update_defs schedule_cb_def
      FiberSemaphore_wait_def FiberSemaphore_tryWait_def FiberSemaphore_notify_def Let_def split: if_splits prod.splits list.splits option.splits)

lemma queue_thread:
  assumes "thread_step exec t w = Inr w'" "(CbTask c, i) \<in> set (m_fibers w)" "i \<noteq> - 1" "i \<noteq> t"
  shows "(CbTask c, i) \<in> set (m_fibers w')"
proof (cases "pc_of w t")
  case (Dispatch ft)
  then have "dispatch_step t ft w = Inr w'" using assms(1) by (simp add: thread_step_def)
  from dispatch_pc [OF this] have "m_fibers w' = m_fibers w" by blast
  then show ?thesis using assms(2) by simp
next
  case (In b f x)
  then show ?thesis using assms(1,2) queue_request [of t b f Throw w w'] queue_request [of t b f "exec f p" w w' for p]
    by (cases "(exec, t, b, f, x, w)" rule: fiber_step.cases) (auto simp: thread_step_def do_YieldToHold_def leave_fiber_def update_defs split: if_splits)
next
  case Scan
  show ?thesis
  proof (cases rule: scan_cases [of "state_of w" t "m_fibers w"])
    case (none tm)
    then show ?thesis using assms(1,2) Scan by (auto simp: thread_step_def scan_step_def goto_pc_def)
  next
    case (some e p r tm)
    have "e \<noteq> (CbTask c, i)" using some(3) assms(3,4) by (auto simp: may_run_def)
    then have "(CbTask c, i) \<in> set (p @ r)" using assms(2) some(1) by auto
    then show ?thesis using assms(1) Scan some(2) by (auto simp: thread_step_def scan_step_def goto_pc_def)
  qed
next
  case (Post b f)
  then show ?thesis using assms(1,2) by (cases b) (auto simp: thread_step_def post_step_def update_defs split: if_splits sum.splits)
qed (use assms(1,2) in \<open>auto simp: thread_step_def enter_step_def ret_step_def idle_step_def ret_idle_step_def update_defs Let_def\<close>)

lemma stuck_turn:
  assumes "stuck c w" "thread_step exec t w = Inr w'"
  shows "stuck c w'"
proof (cases "t = 1")
  case True
  then have "w' = w" using assms by (simp add: stuck_def thread_step_def)
  then show ?thesis using assms(1) by simp
next
  case False
  have F: "u \<noteq> t \<Longrightarrow> threads w' u = threads w u" "m_threads w' = m_threads w" "m_rootThread w' = m_rootThread w" "stop_at w' = stop_at w" for u
    using thread_frame [OF assms(2)] by (simp_all add: step_frame_def)
  have q: "(CbTask c, 1) \<in> set (m_fibers w')" using queue_thread [OF assms(2)] assms(1) False by (simp add: stuck_def)
  have "m_fibers w \<noteq> []" using assms(1) by (auto simp: stuck_def)
  then have i: "idle_fiber (threads w' 2) \<noteq> TERM_state" using idle_thread(1) [OF assms(2), of 2] assms(1) by (auto simp: stuck_def stopping_def)
  have "pc_of w' 2 \<noteq> Exited"
  proof (cases "t = 2")
    case True
    have "pc_of w' t = Exited \<Longrightarrow> pc_of w t = Exited \<or> idle_fiber (threads w t) = TERM_state" using thread_step_pc [OF assms(2)] by blast
    then show ?thesis using True assms(1) by (auto simp: stuck_def)
  qed (use F(1) [of 2] assms(1) in \<open>simp add: stuck_def\<close>)
  then show ?thesis using assms(1) q i F False by (simp add: stuck_def)
qed

lemma stuck_move:
  assumes "stuck c w" "move exec m w = Inr w'"
  shows "stuck c w'"
proof -
  have same: "stuck c v" if "same_frame w v" "set (m_fibers w) \<subseteq> set (m_fibers v)" for v
    using assms(1) that by (auto simp: stuck_def same_frame_def)
  have "set (m_fibers v) \<subseteq> set (m_fibers (schedule_all cbs v))" for cbs and v :: "'a sched" unfolding schedule_all_def
  proof (induction cbs arbitrary: v)
    case (Cons cb cbs)
    have "set (m_fibers v) \<subseteq> set (m_fibers (schedule_cb cb (- 1) v))" by (auto simp: schedule_cb_def split: option.splits)
    then show ?case using Cons.IH [of "schedule_cb cb (- 1) v"] by auto
  qed simp
  note all = this
  show ?thesis
  proof (cases m)
    case (Turn t)
    then show ?thesis using stuck_turn [OF assms(1)] assms(2) by simp
  next
    case (StartCall ids)
    have "m_threads w \<noteq> []" using assms(1) by (auto simp: stuck_def)
    then show ?thesis using StartCall assms by (auto simp: Scheduler_start_def split: if_splits)
  next
    case (ExtSchedule cb i)
    have "set (m_fibers w) \<subseteq> set (m_fibers (schedule_cb cb i w))" by (auto simp: schedule_cb_def split: option.splits)
    then show ?thesis using ExtSchedule assms(2) same [of "schedule_cb cb i w"] by auto
  next
    case (ExtScheduleAll cbs)
    then show ?thesis using assms(2) same [OF same_frame_all all, of cbs] by auto
  next
    case (ExtNotify k)
    have "set (m_fibers w) \<subseteq> set (m_fibers (FiberSemaphore_notify k w))" by (auto simp: FiberSemaphore_notify_def Let_def set_sem_def split: list.splits)
    then show ?thesis using ExtNotify assms(2) same [of "FiberSemaphore_notify k w"] by auto
  next
    case StopStep
    then show ?thesis using assms by (auto simp: stuck_def stop_step_def list_all_iff split: if_splits)
  next
    case (StopCall own)
    then show ?thesis using assms by (auto simp: stuck_def)
  qed
qed

theorem pinned_callback_blocks_stop:
  "\<exists>w w'. new_Scheduler 2 False 7 (\<lambda>_. 0) = Inr w \<and> moves leaver leaver_moves w = Inr w' \<and>
    (\<forall>ms w''. moves leaver ms w' = Inr w'' \<longrightarrow> stop_at w'' \<noteq> StopDone \<and> (CbTask 5, 1) \<in> set (m_fibers w''))"
proof -
  have stays: "stuck c v \<Longrightarrow> moves exec ms v = Inr v' \<Longrightarrow> stuck c v'" for exec ms and v v' :: "nat sched" and c
  proof (induction ms arbitrary: v)
    case (Cons m ms)
    then obtain u where "move exec m v = Inr u" "moves exec ms u = Inr v'" by (auto split: sum.splits)
    then show ?case using Cons.IH [of u] stuck_move [OF Cons.prems(1)] by blast
  qed simp
  obtain w w' where w: "new_Scheduler 2 False 7 (\<lambda>_. 0) = Inr w" "moves leaver leaver_moves w = Inr w'" "stuck 5 w'" using leaver_stuck by blast
  have "stop_at w'' \<noteq> StopDone \<and> (CbTask 5, 1) \<in> set (m_fibers w'')" if "moves leaver ms w' = Inr w''" for ms w''
    using stays [OF w(3) that] by (auto simp: stuck_def)
  then show ?thesis using w(1,2) by blast
qed

text \<open>A fiber that is put into the queue twice is taken by two threads.\<close>

definition doubler :: "nat \<Rightarrow> nat \<Rightarrow> nat request" where
  "doubler f p = (if p < 2 then ScheduleFiber f (- 1) (p + 1) else if p = 2 then YieldToHold 3 else Return)"

theorem fiber_scheduled_twice_fails:
  "\<exists>w. new_Scheduler 2 False 7 (\<lambda>_. 0) = Inr w \<and>
    moves doubler [StartCall [1, 2], ExtSchedule (Some 0) (- 1), Turn 1, Turn 1, Turn 1, Turn 1, Turn 1, Turn 1, Turn 1, Turn 1,
      Turn 2, Turn 2, Turn 1, Turn 1, Turn 2] w = Inl AssertFail"
  by (simp add: new_Scheduler_def sched_defs doubler_def)

end
