(* ===== verification/IOManager.thy ===== *)
theory IOManager
  imports Scheduler Timer
begin

text \<open>
  \<^verbatim>\<open>sylar/iomanager.h\<close> and \<^verbatim>\<open>iomanager.cc\<close>: the table of descriptors with the fibers and callbacks that wait for them, its agreement with
  the interest list of the kernel, and the time the idle fiber waits. \<^verbatim>\<open>epoll_ctl\<close> is a parameter: from an operation, a descriptor, an
  event mask and the data pointer it makes a return value and a new state of the kernel. The \<^verbatim>\<open>FdContext\<close> objects are in
  a heap, since the kernel keeps pointers to them. Calls of \<^verbatim>\<open>schedule\<close> on the schedulers of waiting fibers are
  recorded in order. A specification without table and contexts says what it all amounts to, and each operation is shown to do the same.
\<close>

section \<open>State\<close>

definition READ :: u32 where "READ = 1"
definition WRITE :: u32 where "WRITE = 4"
definition EPOLLIN :: u32 where "EPOLLIN = 1"
definition EPOLLOUT :: u32 where "EPOLLOUT = 4"
definition EPOLLERR :: u32 where "EPOLLERR = 8"
definition EPOLLHUP :: u32 where "EPOLLHUP = 16"
definition EPOLLET :: u32 where "EPOLLET = 0x80000000"

datatype ctl_op = EPOLL_CTL_ADD | EPOLL_CTL_MOD | EPOLL_CTL_DEL

type_synonym 'k epoll_ctl = "ctl_op \<Rightarrow> int \<Rightarrow> u32 \<Rightarrow> nat \<Rightarrow> 'k \<Rightarrow> int \<times> 'k"

record 'c event_context =
  ec_scheduler :: "nat option"
  ec_fiber :: "nat option"
  ec_cb :: "'c option"

record 'c fd_context =
  fd_read :: "'c event_context"
  fd_write :: "'c event_context"
  fd_num :: nat
  fd_events :: u32

record ('c, 'k) iomanager =
  m_fdContexts :: "nat list"
  fd_heap :: "nat \<Rightarrow> 'c fd_context"
  fd_next :: nat
  m_pendingEventCount :: u64
  epoll :: 'k
  scheduled :: "(nat \<times> 'c task) list"

abbreviation put_ctx :: "nat \<Rightarrow> 'c fd_context \<Rightarrow> ('c, 'k) iomanager \<Rightarrow> ('c, 'k) iomanager" where
  "put_ctx a c io \<equiv> io\<lparr>fd_heap := (fd_heap io)(a := c)\<rparr>"

definition new_EventContext :: "'c event_context" where
  "new_EventContext = \<lparr>ec_scheduler = None, ec_fiber = None, ec_cb = None\<rparr>"

definition new_FdContext :: "nat \<Rightarrow> 'c fd_context" where
  "new_FdContext fd = \<lparr>fd_read = new_EventContext, fd_write = new_EventContext, fd_num = fd, fd_events = 0\<rparr>"

section \<open>Event contexts\<close>

definition getContext :: "u32 \<Rightarrow> 'c fd_context \<Rightarrow> failure + 'c event_context" where
  "getContext event c = (if event = READ then Inr (fd_read c) else if event = WRITE then Inr (fd_write c) else Inl AssertFail)"

text \<open>Assignment through the reference that \<^verbatim>\<open>getContext\<close> returned.\<close>

definition setContext :: "u32 \<Rightarrow> 'c event_context \<Rightarrow> 'c fd_context \<Rightarrow> 'c fd_context" where
  "setContext event x c = (if event = READ then c\<lparr>fd_read := x\<rparr> else c\<lparr>fd_write := x\<rparr>)"

definition resetContext :: "'c event_context \<Rightarrow> 'c event_context" where
  "resetContext x = new_EventContext"

text \<open>What \<^verbatim>\<open>schedule(&ctx.cb)\<close> or \<^verbatim>\<open>schedule(&ctx.fiber)\<close> puts into the queue, if anything.\<close>

definition waiter :: "'c event_context \<Rightarrow> 'c task list" where
  "waiter x = (case ec_cb x of Some c \<Rightarrow> [CbTask c] | None \<Rightarrow> (case ec_fiber x of Some f \<Rightarrow> [FiberTask f] | None \<Rightarrow> []))"

definition triggerEvent :: "u32 \<Rightarrow> nat \<Rightarrow> ('c, 'k) iomanager \<Rightarrow> failure + ('c, 'k) iomanager" where
  "triggerEvent event a io =
     (let c = fd_heap io a in
      if fd_events c AND event = 0 then Inl AssertFail
      else let c = c\<lparr>fd_events := fd_events c AND NOT event\<rparr> in
        case getContext event c of Inl e \<Rightarrow> Inl e
        | Inr x \<Rightarrow> (case ec_scheduler x of None \<Rightarrow> Inl NullDeref
           | Some s \<Rightarrow>
               let y = (if ec_cb x \<noteq> None then x\<lparr>ec_cb := None\<rparr> else x\<lparr>ec_fiber := None\<rparr>)\<lparr>ec_scheduler := None\<rparr> in
               Inr ((put_ctx a (setContext event y c) io)\<lparr>scheduled := scheduled io @ map (Pair s) (waiter x)\<rparr>)))"

section \<open>The table\<close>

definition contextResize :: "nat \<Rightarrow> ('c, 'k) iomanager \<Rightarrow> ('c, 'k) iomanager" where
  "contextResize n io =
     (let k = length (m_fdContexts io); new = n - k in
      io\<lparr>m_fdContexts := take n (m_fdContexts io) @ [fd_next io ..< fd_next io + new],
         fd_heap := (\<lambda>a. if fd_next io \<le> a \<and> a < fd_next io + new then new_FdContext (k + (a - fd_next io)) else fd_heap io a),
         fd_next := fd_next io + new\<rparr>)"

definition new_IOManager :: "'k \<Rightarrow> ('c, 'k) iomanager" where
  "new_IOManager k = contextResize 32 \<lparr>m_fdContexts = [], fd_heap = (\<lambda>_. new_FdContext 0), fd_next = 0, m_pendingEventCount = 0, epoll = k, scheduled = []\<rparr>"

text \<open>\<^verbatim>\<open>m_fdContexts[fd]\<close>\<close>

definition context_at :: "int \<Rightarrow> ('c, 'k) iomanager \<Rightarrow> failure + nat" where
  "context_at fd io = (if 0 \<le> fd \<and> fd < int (length (m_fdContexts io)) then Inr (m_fdContexts io ! nat fd) else Inl BadIndex)"

text \<open>The start of \<^verbatim>\<open>addEvent\<close>: under the read lock it is decided whether the table must grow, under the write lock it grows.\<close>

definition add_must_grow :: "int \<Rightarrow> ('c, 'k) iomanager \<Rightarrow> bool" where
  "add_must_grow fd io \<longleftrightarrow> \<not> fd < int (length (m_fdContexts io))"

definition add_grow :: "int \<Rightarrow> ('c, 'k) iomanager \<Rightarrow> ('c, 'k) iomanager" where
  "add_grow fd io = contextResize (nat (fd * 3 div 2)) io"

text \<open>The rest of \<^verbatim>\<open>addEvent\<close>, called with scheduler \<open>sch\<close> in fiber \<open>f\<close>, whose state is \<open>st\<close>.\<close>

definition add_register :: "'k epoll_ctl \<Rightarrow> nat option \<Rightarrow> nat \<Rightarrow> fiber_state \<Rightarrow> int \<Rightarrow> u32 \<Rightarrow> 'c option \<Rightarrow> nat \<Rightarrow> ('c, 'k) iomanager \<Rightarrow>
    failure + int \<times> ('c, 'k) iomanager" where
  "add_register ctl sch f st fd event cb a io =
     (let c = fd_heap io a in
      if fd_events c AND event \<noteq> 0 then Inl AssertFail
      else let op = (if fd_events c \<noteq> 0 then EPOLL_CTL_MOD else EPOLL_CTL_ADD);
               (rt, k) = ctl op fd (EPOLLET OR fd_events c OR event) a (epoll io);
               io = io\<lparr>epoll := k\<rparr> in
        if rt \<noteq> 0 then Inr (- 1, io)
        else let c = c\<lparr>fd_events := fd_events c OR event\<rparr> in
          case getContext event c of Inl e \<Rightarrow> Inl e
          | Inr x \<Rightarrow>
              if ec_scheduler x \<noteq> None \<or> ec_fiber x \<noteq> None \<or> ec_cb x \<noteq> None then Inl AssertFail
              else if cb = None \<and> st \<noteq> EXEC then Inl AssertFail
              else let y = (if cb \<noteq> None then x\<lparr>ec_cb := cb\<rparr> else x\<lparr>ec_fiber := Some f\<rparr>)\<lparr>ec_scheduler := sch\<rparr> in
                Inr (0, (put_ctx a (setContext event y c) io)\<lparr>m_pendingEventCount := m_pendingEventCount io + 1\<rparr>))"

definition addEvent :: "'k epoll_ctl \<Rightarrow> nat option \<Rightarrow> nat \<Rightarrow> fiber_state \<Rightarrow> int \<Rightarrow> u32 \<Rightarrow> 'c option \<Rightarrow> ('c, 'k) iomanager \<Rightarrow>
    failure + int \<times> ('c, 'k) iomanager" where
  "addEvent ctl sch f st fd event cb io =
     (let io = (if add_must_grow fd io then add_grow fd io else io) in
      case context_at fd io of Inl e \<Rightarrow> Inl e | Inr a \<Rightarrow> add_register ctl sch f st fd event cb a io)"

text \<open>What \<^verbatim>\<open>delEvent\<close> and \<^verbatim>\<open>cancelEvent\<close> have in common: the descriptor's context, if the event is registered and the kernel takes it off.\<close>

definition unregister :: "'k epoll_ctl \<Rightarrow> int \<Rightarrow> u32 \<Rightarrow> ('c, 'k) iomanager \<Rightarrow> failure + nat option \<times> ('c, 'k) iomanager" where
  "unregister ctl fd event io =
     (if int (length (m_fdContexts io)) \<le> fd then Inr (None, io)
      else case context_at fd io of Inl e \<Rightarrow> Inl e
        | Inr a \<Rightarrow> let c = fd_heap io a in
            if fd_events c AND event = 0 then Inr (None, io)
            else let new_events = fd_events c AND NOT event;
                     op = (if new_events \<noteq> 0 then EPOLL_CTL_MOD else EPOLL_CTL_DEL);
                     (rt, k) = ctl op fd (EPOLLET OR new_events) a (epoll io);
                     io = io\<lparr>epoll := k\<rparr> in
              if rt \<noteq> 0 then Inr (None, io) else Inr (Some a, io))"

definition delEvent :: "'k epoll_ctl \<Rightarrow> int \<Rightarrow> u32 \<Rightarrow> ('c, 'k) iomanager \<Rightarrow> failure + bool \<times> ('c, 'k) iomanager" where
  "delEvent ctl fd event io =
     (case unregister ctl fd event io of Inl e \<Rightarrow> Inl e
      | Inr (None, io) \<Rightarrow> Inr (False, io)
      | Inr (Some a, io) \<Rightarrow>
          let c = (fd_heap io a)\<lparr>fd_events := fd_events (fd_heap io a) AND NOT event\<rparr> in
          case getContext event c of Inl e \<Rightarrow> Inl e
          | Inr x \<Rightarrow> Inr (True, (put_ctx a (setContext event (resetContext x) c) io)\<lparr>m_pendingEventCount := m_pendingEventCount io - 1\<rparr>))"

text \<open>\<^verbatim>\<open>triggerEvent\<close> followed by the decrement of the pending count.\<close>

definition trigger_one :: "u32 \<Rightarrow> nat \<Rightarrow> ('c, 'k) iomanager \<Rightarrow> failure + ('c, 'k) iomanager" where
  "trigger_one event a io = (case triggerEvent event a io of Inl e \<Rightarrow> Inl e
     | Inr io \<Rightarrow> Inr (io\<lparr>m_pendingEventCount := m_pendingEventCount io - 1\<rparr>))"

definition cancelEvent :: "'k epoll_ctl \<Rightarrow> int \<Rightarrow> u32 \<Rightarrow> ('c, 'k) iomanager \<Rightarrow> failure + bool \<times> ('c, 'k) iomanager" where
  "cancelEvent ctl fd event io =
     (case unregister ctl fd event io of Inl e \<Rightarrow> Inl e
      | Inr (None, io) \<Rightarrow> Inr (False, io)
      | Inr (Some a, io) \<Rightarrow> (case trigger_one event a io of Inl e \<Rightarrow> Inl e | Inr io \<Rightarrow> Inr (True, io)))"

definition trigger_if :: "bool \<Rightarrow> u32 \<Rightarrow> nat \<Rightarrow> ('c, 'k) iomanager \<Rightarrow> failure + ('c, 'k) iomanager" where
  "trigger_if b event a io = (if b then trigger_one event a io else Inr io)"

definition cancelAll :: "'k epoll_ctl \<Rightarrow> int \<Rightarrow> ('c, 'k) iomanager \<Rightarrow> failure + bool \<times> ('c, 'k) iomanager" where
  "cancelAll ctl fd io =
     (if int (length (m_fdContexts io)) \<le> fd then Inr (False, io)
      else case context_at fd io of Inl e \<Rightarrow> Inl e
        | Inr a \<Rightarrow>
            if fd_events (fd_heap io a) = 0 then Inr (False, io)
            else let (rt, k) = ctl EPOLL_CTL_DEL fd 0 a (epoll io); io = io\<lparr>epoll := k\<rparr> in
              if rt \<noteq> 0 then Inr (False, io)
              else case trigger_if (fd_events (fd_heap io a) AND READ \<noteq> 0) READ a io of Inl e \<Rightarrow> Inl e
                | Inr io \<Rightarrow> (case trigger_if (fd_events (fd_heap io a) AND WRITE \<noteq> 0) WRITE a io of Inl e \<Rightarrow> Inl e
                   | Inr io \<Rightarrow> if fd_events (fd_heap io a) = 0 then Inr (True, io) else Inl AssertFail))"

section \<open>The idle fiber\<close>

text \<open>The body of the loop over what \<^verbatim>\<open>epoll_wait\<close> returned, for an event mask and the pointer registered with it.\<close>

definition real_events :: "u32 \<Rightarrow> u32 \<Rightarrow> u32" where
  "real_events evs registered =
     (let evs = (if evs AND (EPOLLERR OR EPOLLHUP) \<noteq> 0 then evs OR ((EPOLLIN OR EPOLLOUT) AND registered) else evs) in
      (if evs AND EPOLLIN \<noteq> 0 then READ else 0) OR (if evs AND EPOLLOUT \<noteq> 0 then WRITE else 0))"

definition handle_event :: "'k epoll_ctl \<Rightarrow> u32 \<Rightarrow> nat \<Rightarrow> ('c, 'k) iomanager \<Rightarrow> failure + ('c, 'k) iomanager" where
  "handle_event ctl evs a io =
     (let c = fd_heap io a; real = real_events evs (fd_events c) in
      if fd_events c AND real = 0 then Inr io
      else let left_events = fd_events c AND NOT real;
               op = (if left_events \<noteq> 0 then EPOLL_CTL_MOD else EPOLL_CTL_DEL);
               (rt, k) = ctl op (int (fd_num c)) (EPOLLET OR left_events) a (epoll io);
               io = io\<lparr>epoll := k\<rparr> in
        if rt \<noteq> 0 then Inr io
        else case trigger_if (real AND READ \<noteq> 0) READ a io of Inl e \<Rightarrow> Inl e
          | Inr io \<Rightarrow> trigger_if (real AND WRITE \<noteq> 0) WRITE a io)"

text \<open>The timeout passed to \<^verbatim>\<open>epoll_wait\<close>; a negative one means to wait without limit.\<close>

definition MAX_TIMEOUT :: int where "MAX_TIMEOUT = 3000"

definition wait_timeout :: "u64 \<Rightarrow> int" where
  "wait_timeout next_timeout =
     (let next_timeout = (if next_timeout \<noteq> NOT 0
        then (if sint (ucast next_timeout :: 32 word) > MAX_TIMEOUT then of_int MAX_TIMEOUT else next_timeout)
        else of_int MAX_TIMEOUT)
      in sint (ucast next_timeout :: 32 word))"

definition IOManager_stopping :: "u64 \<Rightarrow> ('c, 'k) iomanager \<Rightarrow> ('w, 'f) timer_manager \<Rightarrow> 'c sched \<Rightarrow> (bool \<times> u64) \<times> ('w, 'f) timer_manager" where
  "IOManager_stopping now io tm w =
     (let (timeout, tm) = TimerManager_getNextTimer now tm in ((timeout = NOT 0 \<and> m_pendingEventCount io = 0 \<and> stopping w, timeout), tm))"

section \<open>Runs\<close>

datatype 'c io_op = Add "nat option" nat int u32 "'c option" | Del int u32 | Cancel int u32 | CancelAll int | Event u32 nat

text \<open>An operation with whether it succeeded.\<close>

fun io_step :: "'k epoll_ctl \<Rightarrow> 'c io_op \<Rightarrow> ('c, 'k) iomanager \<Rightarrow> failure + bool \<times> ('c, 'k) iomanager" where
  "io_step ctl (Add sch f fd event cb) io = map_sum id (apfst (\<lambda>r. r = 0)) (addEvent ctl sch f EXEC fd event cb io)"
| "io_step ctl (Del fd event) io = delEvent ctl fd event io"
| "io_step ctl (Cancel fd event) io = cancelEvent ctl fd event io"
| "io_step ctl (CancelAll fd) io = cancelAll ctl fd io"
| "io_step ctl (Event evs a) io = map_sum id (Pair True) (handle_event ctl evs a io)"

fun io_run :: "'k epoll_ctl \<Rightarrow> 'c io_op list \<Rightarrow> ('c, 'k) iomanager \<Rightarrow> failure + bool list \<times> ('c, 'k) iomanager" where
  "io_run ctl [] io = Inr ([], io)"
| "io_run ctl (op # ops) io = (case io_step ctl op io of Inl e \<Rightarrow> Inl e
     | Inr (r, io) \<Rightarrow> map_sum id (apfst ((#) r)) (io_run ctl ops io))"

section \<open>Specification\<close>

text \<open>
  What an \<^verbatim>\<open>IOManager\<close> is for: it knows who waits for which event of which descriptor, keeps the kernel informed, and wakes the waiters. No table,
  no contexts and no counter. The kernel is the same; the data registered for a descriptor is the number of its context, which
  is that of the descriptor as long as the table grows.
\<close>

record ('c, 'k) io_spec =
  waiting :: "int \<times> u32 \<rightharpoonup> nat \<times> 'c task"
  kernel :: 'k
  woken :: "(nat \<times> 'c task) list"

definition events_of :: "(int \<times> u32 \<rightharpoonup> nat \<times> 'c task) \<Rightarrow> int \<Rightarrow> u32" where
  "events_of W fd = (if W (fd, READ) \<noteq> None then READ else 0) OR (if W (fd, WRITE) \<noteq> None then WRITE else 0)"

text \<open>The kernel is asked to watch \<open>evs\<close> instead of what it watches for the descriptor; it may refuse.\<close>

definition spec_watch :: "'k epoll_ctl \<Rightarrow> int \<Rightarrow> u32 \<Rightarrow> ('c, 'k) io_spec \<Rightarrow> bool \<times> ('c, 'k) io_spec" where
  "spec_watch ctl fd evs s =
     (let op = (if evs = 0 then EPOLL_CTL_DEL else if events_of (waiting s) fd = 0 then EPOLL_CTL_ADD else EPOLL_CTL_MOD);
          (rt, k) = ctl op fd (EPOLLET OR evs) (nat fd) (kernel s) in (rt = 0, s\<lparr>kernel := k\<rparr>))"

definition spec_forget :: "int \<Rightarrow> u32 \<Rightarrow> ('c, 'k) io_spec \<Rightarrow> ('c, 'k) io_spec" where
  "spec_forget fd event s = s\<lparr>waiting := (waiting s)((fd, event) := None)\<rparr>"

definition spec_wake :: "bool \<Rightarrow> int \<Rightarrow> u32 \<Rightarrow> ('c, 'k) io_spec \<Rightarrow> ('c, 'k) io_spec" where
  "spec_wake b fd event s =
     (if b then spec_forget fd event (s\<lparr>woken := woken s @ (case waiting s (fd, event) of None \<Rightarrow> [] | Some w \<Rightarrow> [w])\<rparr>) else s)"

fun spec_step :: "'k epoll_ctl \<Rightarrow> 'c io_op \<Rightarrow> ('c, 'k) io_spec \<Rightarrow> bool \<times> ('c, 'k) io_spec" where
  "spec_step ctl (Add sch f fd event cb) s =
     (let (ok, s) = spec_watch ctl fd (events_of (waiting s) fd OR event) s in
      (ok, if ok then s\<lparr>waiting := (waiting s)((fd, event) \<mapsto> (the sch, case cb of None \<Rightarrow> FiberTask f | Some c \<Rightarrow> CbTask c))\<rparr> else s))"
| "spec_step ctl (Del fd event) s =
     (if waiting s (fd, event) = None then (False, s)
      else let (ok, s) = spec_watch ctl fd (events_of (waiting s) fd AND NOT event) s in (ok, if ok then spec_forget fd event s else s))"
| "spec_step ctl (Cancel fd event) s =
     (if waiting s (fd, event) = None then (False, s)
      else let (ok, s) = spec_watch ctl fd (events_of (waiting s) fd AND NOT event) s in (ok, if ok then spec_wake True fd event s else s))"
| "spec_step ctl (CancelAll fd) s =
     (if events_of (waiting s) fd = 0 then (False, s)
      else let (rt, k) = ctl EPOLL_CTL_DEL fd 0 (nat fd) (kernel s); s = s\<lparr>kernel := k\<rparr> in
        (rt = 0, if rt = 0 then spec_wake True fd WRITE (spec_wake True fd READ s) else s))"
| "spec_step ctl (Event evs a) s =
     (let fd = int a; real = real_events evs (events_of (waiting s) fd) in
      (True, if events_of (waiting s) fd AND real = 0 then s
       else let (ok, s) = spec_watch ctl fd (events_of (waiting s) fd AND NOT real) s in
         if ok then spec_wake (real AND WRITE \<noteq> 0) fd WRITE (spec_wake (real AND READ \<noteq> 0) fd READ s) else s))"

fun spec_run :: "'k epoll_ctl \<Rightarrow> 'c io_op list \<Rightarrow> ('c, 'k) io_spec \<Rightarrow> bool list \<times> ('c, 'k) io_spec" where
  "spec_run ctl [] s = ([], s)"
| "spec_run ctl (op # ops) s = (let (r, s) = spec_step ctl op s in apfst ((#) r) (spec_run ctl ops s))"

section \<open>Invariant\<close>

lemmas event_defs = READ_def WRITE_def EPOLLIN_def EPOLLOUT_def EPOLLERR_def EPOLLHUP_def

lemma event_words:
  "(READ :: u32) \<noteq> 0" "WRITE \<noteq> 0" "READ \<noteq> WRITE" "READ AND READ = READ" "WRITE AND WRITE = WRITE" "READ AND WRITE = 0" "WRITE AND READ = 0"
  "(READ OR WRITE) AND READ = READ" "(READ OR WRITE) AND WRITE = WRITE" "READ AND NOT READ = 0" "WRITE AND NOT WRITE = 0"
  "(READ OR WRITE) AND NOT READ = WRITE" "(READ OR WRITE) AND NOT WRITE = READ" "READ OR WRITE \<noteq> 0" "WRITE OR READ = READ OR WRITE"
  "READ AND NOT WRITE = READ" "WRITE AND NOT READ = WRITE" "READ AND NOT (READ OR WRITE) = 0" "WRITE AND NOT (READ OR WRITE) = 0" "(READ OR WRITE) AND NOT (READ OR WRITE) = 0"
  "READ AND (READ OR WRITE) = READ" "WRITE AND (READ OR WRITE) = WRITE" "(READ OR WRITE) AND (READ OR WRITE) = READ OR WRITE"
  "READ \<noteq> READ OR WRITE" "WRITE \<noteq> READ OR WRITE" "WRITE \<noteq> READ" "(READ OR WRITE) AND NOT READ AND NOT WRITE = 0"
  by (simp_all add: event_defs)

definition slot_ok :: "bool \<Rightarrow> 'c event_context \<Rightarrow> bool" where
  "slot_ok b x \<longleftrightarrow> (if b then ec_scheduler x \<noteq> None \<and> (ec_cb x = None \<longleftrightarrow> ec_fiber x \<noteq> None) else x = new_EventContext)"

definition event_sets :: "u32 set" where
  "event_sets = {0, READ, WRITE, READ OR WRITE}"

definition has :: "u32 \<Rightarrow> 'c fd_context \<Rightarrow> bool" where
  "has event c \<longleftrightarrow> fd_events c AND event \<noteq> 0"

definition ctx_ok :: "'c fd_context \<Rightarrow> bool" where
  "ctx_ok c \<longleftrightarrow> fd_events c \<in> event_sets \<and> slot_ok (has READ c) (fd_read c) \<and> slot_ok (has WRITE c) (fd_write c)"

definition event_bits :: "'c fd_context \<Rightarrow> u64" where
  "event_bits c = of_bool (has READ c) + of_bool (has WRITE c)"

type_synonym 'k epoll_view = "'k \<Rightarrow> int \<Rightarrow> (u32 \<times> nat) option"

text \<open>
  What is relied on of the kernel: \<^verbatim>\<open>epoll_ctl\<close> changes the interest in the one descriptor as it is told if it returns 0, and nothing if
  it returns something else.
\<close>

definition epoll_registers :: "'k epoll_ctl \<Rightarrow> 'k epoll_view \<Rightarrow> bool" where
  "epoll_registers ctl view \<longleftrightarrow> (\<forall>op fd e a k rt k'. ctl op fd e a k = (rt, k') \<longrightarrow>
     view k' = (if rt \<noteq> 0 then view k else (view k)(fd := if op = EPOLL_CTL_DEL then None else Some (e, a))))"

definition interest :: "'c fd_context \<Rightarrow> nat \<Rightarrow> (u32 \<times> nat) option" where
  "interest c a = (if fd_events c = 0 then None else Some (EPOLLET OR fd_events c, a))"

text \<open>The table and the kernel agree, apart from the pipe \<open>tfd\<close> that wakes the idle fiber.\<close>

definition agrees :: "'k epoll_view \<Rightarrow> int \<Rightarrow> ('c, 'k) iomanager \<Rightarrow> bool" where
  "agrees view tfd io \<longleftrightarrow> (\<forall>fd. fd \<noteq> tfd \<longrightarrow> view (epoll io) fd =
     (case context_at fd io of Inl _ \<Rightarrow> None | Inr a \<Rightarrow> interest (fd_heap io a) a))"

definition table_wf :: "('c, 'k) iomanager \<Rightarrow> bool" where
  "table_wf io \<longleftrightarrow> m_fdContexts io = [0 ..< fd_next io] \<and> (\<forall>a < fd_next io. fd_num (fd_heap io a) = a) \<and> 32 \<le> fd_next io"

definition io_inv :: "'k epoll_view \<Rightarrow> int \<Rightarrow> ('c, 'k) iomanager \<Rightarrow> bool" where
  "io_inv view tfd io \<longleftrightarrow> table_wf io \<and> (\<forall>a \<in> set (m_fdContexts io). ctx_ok (fd_heap io a)) \<and>
     m_pendingEventCount io = (\<Sum>a\<leftarrow>m_fdContexts io. event_bits (fd_heap io a)) \<and>
     agrees view tfd io \<and> (\<forall>a. context_at tfd io = Inr a \<longrightarrow> fd_events (fd_heap io a) = 0)"

lemma context_at_Inr: "context_at fd io = Inr a \<longleftrightarrow> 0 \<le> fd \<and> fd < int (length (m_fdContexts io)) \<and> a = m_fdContexts io ! nat fd"
  by (auto simp: context_at_def)

lemma sum_bits_update:
  assumes "distinct as" "a \<in> set as"
  shows "(\<Sum>b\<leftarrow>as. event_bits ((h(a := c)) b)) = (\<Sum>b\<leftarrow>as. event_bits (h b)) - event_bits (h a) + event_bits c"
proof -
  have "(\<Sum>b\<leftarrow>as. event_bits ((h(a := c)) b)) = (\<Sum>b\<leftarrow>as. event_bits (h b)) - (if a \<in> set as then event_bits (h a) - event_bits c else 0)"
    using assms(1) by (induction as) auto
  then show ?thesis using assms(2) by simp
qed

text \<open>One descriptor's context changes.\<close>

lemma io_update:
  assumes "io_inv view tfd io" "context_at fd io = Inr a" "fd \<noteq> tfd" "ctx_ok c" "fd_num c = fd_num (fd_heap io a)"
    "view k = (view (epoll io))(fd := interest c a)"
    "io' = io\<lparr>fd_heap := (fd_heap io)(a := c), m_pendingEventCount := m_pendingEventCount io - event_bits (fd_heap io a) + event_bits c,
       epoll := k, scheduled := s\<rparr>"
  shows "io_inv view tfd io'"
proof -
  have a: "a \<in> set (m_fdContexts io)" "distinct (m_fdContexts io)" using assms(1,2) by (auto simp: context_at_Inr io_inv_def table_wf_def)
  have at: "context_at fd' io' = context_at fd' io" for fd' by (simp add: context_at_def assms(7))
  have ne: "context_at fd' io = Inr a \<longleftrightarrow> fd' = fd" for fd'
    using assms(2) a(2) nth_eq_iff_index_eq [of "m_fdContexts io" "nat fd" "nat fd'"] by (auto simp: context_at_Inr nat_less_iff)
  have "view (epoll io') fd' = (case context_at fd' io' of Inl _ \<Rightarrow> None | Inr b \<Rightarrow> interest (fd_heap io' b) b)" if "fd' \<noteq> tfd" for fd'
  proof (cases "fd' = fd")
    case True
    then show ?thesis using assms(2,6) at by (simp add: assms(7))
  next
    case False
    then have "context_at fd' io \<noteq> Inr a" using ne by simp
    then show ?thesis using False assms(1,6) that at by (cases "context_at fd' io") (auto simp: assms(7) io_inv_def agrees_def)
  qed
  then have "agrees view tfd io'" by (simp add: agrees_def)
  moreover have "table_wf io'" using assms(1,5) by (auto simp: io_inv_def table_wf_def assms(7))
  moreover have "fd_events (fd_heap io' b) = 0" if "context_at tfd io' = Inr b" for b
    using assms(1,3) that ne [of tfd] unfolding at by (auto simp: io_inv_def assms(7))
  moreover have "m_pendingEventCount io' = (\<Sum>b\<leftarrow>m_fdContexts io'. event_bits (fd_heap io' b))"
    using assms(1) sum_bits_update [OF a(2,1), of "fd_heap io" c] by (simp add: assms(7) io_inv_def del: fun_upd_apply)
  moreover have "ctx_ok (fd_heap io' b)" if "b \<in> set (m_fdContexts io')" for b using assms(1,4) that by (simp add: assms(7) io_inv_def)
  ultimately show ?thesis unfolding io_inv_def by blast
qed

section \<open>Operations keep it\<close>

definition ready :: "u32 \<Rightarrow> bool" where
  "ready event \<longleftrightarrow> event = READ \<or> event = WRITE"

text \<open>The context without an event.\<close>

definition dropped :: "u32 \<Rightarrow> 'c fd_context \<Rightarrow> 'c fd_context" where
  "dropped event c = setContext event new_EventContext (c\<lparr>fd_events := fd_events c AND NOT event\<rparr>)"

definition slot :: "u32 \<Rightarrow> 'c fd_context \<Rightarrow> 'c event_context" where
  "slot event c = (if event = READ then fd_read c else fd_write c)"

lemma getContext_slot: "ready event \<Longrightarrow> getContext event c = Inr (slot event c)"
  by (auto simp: ready_def getContext_def slot_def event_words)

lemma dropped_ok:
  assumes "ctx_ok c" "ready event"
  shows "ctx_ok (dropped event c)" "fd_num (dropped event c) = fd_num c" "fd_events (dropped event c) = fd_events c AND NOT event"
    "has event c \<Longrightarrow> event_bits (dropped event c) = event_bits c - 1"
    "ready other \<Longrightarrow> other \<noteq> event \<Longrightarrow> has other (dropped event c) = has other c"
proof -
  have e: "fd_events c = 0 \<or> fd_events c = READ \<or> fd_events c = WRITE \<or> fd_events c = READ OR WRITE" using assms(1) by (auto simp: ctx_ok_def event_sets_def)
  have r: "event = READ \<or> event = WRITE" using assms(2) by (simp add: ready_def)
  note defs = ctx_ok_def dropped_def setContext_def event_sets_def has_def slot_ok_def event_bits_def event_words
  show "fd_num (dropped event c) = fd_num c" "fd_events (dropped event c) = fd_events c AND NOT event" by (simp_all add: dropped_def setContext_def)
  show "ctx_ok (dropped event c)" using assms(1) e r by (elim disjE) (simp_all add: defs)
  show "has event c \<Longrightarrow> event_bits (dropped event c) = event_bits c - 1" using e r by (elim disjE) (simp_all add: defs)
  show "ready other \<Longrightarrow> other \<noteq> event \<Longrightarrow> has other (dropped event c) = has other c"
    unfolding ready_def using e r by (elim disjE) (simp_all add: defs)
qed

lemma slot_waiter:
  assumes "ctx_ok c" "ready event" "has event c"
  obtains s t where "ec_scheduler (slot event c) = Some s" "waiter (slot event c) = [t]"
    "((if ec_cb (slot event c) \<noteq> None then (slot event c)\<lparr>ec_cb := None\<rparr> else (slot event c)\<lparr>ec_fiber := None\<rparr>)\<lparr>ec_scheduler := None\<rparr>) = new_EventContext"
proof -
  have "slot_ok True (slot event c)" using assms by (auto simp: ready_def ctx_ok_def slot_def event_words)
  then obtain s where s: "ec_scheduler (slot event c) = Some s" "ec_cb (slot event c) = None \<longleftrightarrow> ec_fiber (slot event c) \<noteq> None"
    by (auto simp: slot_ok_def)
  obtain t where t: "waiter (slot event c) = [t]" using s(2) by (auto simp: waiter_def split: option.splits)
  have "((if ec_cb (slot event c) \<noteq> None then (slot event c)\<lparr>ec_cb := None\<rparr> else (slot event c)\<lparr>ec_fiber := None\<rparr>)\<lparr>ec_scheduler := None\<rparr>) = new_EventContext"
    using s(2) by (cases "slot event c") (auto simp: new_EventContext_def)
  then show thesis using that s(1) t by blast
qed

section \<open>The state as the specification sees it\<close>

definition entry :: "u32 \<Rightarrow> 'c fd_context \<Rightarrow> (nat \<times> 'c task) option" where
  "entry event c = (if ready event \<and> has event c then Some (the (ec_scheduler (slot event c)), hd (waiter (slot event c))) else None)"

definition pending :: "('c, 'k) iomanager \<Rightarrow> int \<times> u32 \<rightharpoonup> nat \<times> 'c task" where
  "pending io p = (case context_at (fst p) io of Inl _ \<Rightarrow> None | Inr a \<Rightarrow> entry (snd p) (fd_heap io a))"

definition io_abs :: "('c, 'k) iomanager \<Rightarrow> ('c, 'k) io_spec" where
  "io_abs io = \<lparr>waiting = pending io, kernel = epoll io, woken = scheduled io\<rparr>"

lemma io_abs_simps [simp]: "waiting (io_abs io) = pending io" "kernel (io_abs io) = epoll io" "woken (io_abs io) = scheduled io"
  by (simp_all add: io_abs_def)

lemma entry_None: "ready event \<Longrightarrow> entry event c = None \<longleftrightarrow> \<not> has event c"
  by (simp add: entry_def)

lemma ready_events [simp]: "ready READ" "ready WRITE"
  by (simp_all add: ready_def)

lemma io_invD:
  assumes "io_inv view tfd io" "context_at fd io = Inr a"
  shows "ctx_ok (fd_heap io a)" "fd_num (fd_heap io a) = nat fd" "0 \<le> fd" "fd \<noteq> tfd \<Longrightarrow> view (epoll io) fd = interest (fd_heap io a) a"
    "fd_events (fd_heap io a) \<noteq> 0 \<Longrightarrow> fd \<noteq> tfd" "a \<in> set (m_fdContexts io)" "a = nat fd" "a < fd_next io"
proof -
  show "fd \<noteq> tfd \<Longrightarrow> view (epoll io) fd = interest (fd_heap io a) a" using assms by (simp add: io_inv_def agrees_def)
  show "fd_events (fd_heap io a) \<noteq> 0 \<Longrightarrow> fd \<noteq> tfd" using assms by (auto simp: io_inv_def)
  have i: "0 \<le> fd" "nat fd < fd_next io" "a = nat fd" using assms by (auto simp: context_at_Inr nat_less_iff io_inv_def table_wf_def)
  show "0 \<le> fd" "a = nat fd" "a < fd_next io" "a \<in> set (m_fdContexts io)" using i assms(1) by (simp_all add: io_inv_def table_wf_def)
  show "ctx_ok (fd_heap io a)" "fd_num (fd_heap io a) = nat fd" using assms(1) i by (simp_all add: io_inv_def table_wf_def)
qed

lemma io_context:
  assumes "io_inv view tfd io"
  shows "context_at fd io = (if 0 \<le> fd \<and> fd < int (fd_next io) then Inr (nat fd) else Inl BadIndex)"
  using assms by (auto simp: context_at_def io_inv_def table_wf_def)

text \<open>A failed call of \<^verbatim>\<open>epoll_ctl\<close> changes nothing that matters.\<close>

lemma io_kernel_same: "io_inv view tfd io \<Longrightarrow> view k = view (epoll io) \<Longrightarrow> io_inv view tfd (io\<lparr>epoll := k\<rparr>)"
  by (simp add: io_inv_def agrees_def table_wf_def context_at_def)

lemma has_empty: "has event c \<Longrightarrow> fd_events c \<noteq> 0"
  by (auto simp: has_def)

text \<open>The events of a descriptor and the change of one context, as the specification sees them.\<close>

lemma events_of_ctx:
  assumes "io_inv view tfd io" "context_at fd io = Inr a"
  shows "events_of (pending io) fd = fd_events (fd_heap io a)" "pending io (fd, event) = entry event (fd_heap io a)"
proof -
  have "fd_events (fd_heap io a) \<in> event_sets" using io_invD(1) [OF assms] by (simp add: ctx_ok_def)
  then show "events_of (pending io) fd = fd_events (fd_heap io a)"
    using assms(2) by (auto simp: events_of_def pending_def entry_None event_sets_def has_def event_words)
  show "pending io (fd, event) = entry event (fd_heap io a)" using assms(2) by (simp add: pending_def)
qed

lemma pending_ctx:
  assumes "io_inv view tfd io" "context_at fd io = Inr a" "m_fdContexts io' = m_fdContexts io" "fd_heap io' = (fd_heap io)(a := c)"
  shows "pending io' = (\<lambda>p. if fst p = fd then entry (snd p) c else pending io p)"
proof
  fix p :: "int \<times> u32"
  have at: "context_at fd' io' = context_at fd' io" for fd' by (simp add: context_at_def assms(3))
  show "pending io' p = (if fst p = fd then entry (snd p) c else pending io p)"
  proof (cases "fst p = fd")
    case True
    then show ?thesis using assms(2,4) by (simp add: pending_def at)
  next
    case False
    then have "context_at (fst p) io \<noteq> Inr a" using io_invD(3,7) [OF assms(1), of "fst p" a] io_invD(3,7) [OF assms(1,2)] by auto
    then show ?thesis using False assms(4) by (auto simp: pending_def at split: sum.split)
  qed
qed

lemma pending_update:
  assumes "io_inv view tfd io" "context_at fd io = Inr a" "\<And>event'. entry event' c = (if event' = event then e else entry event' (fd_heap io a))"
    and "m_fdContexts io' = m_fdContexts io" "fd_heap io' = (fd_heap io)(a := c)"
  shows "pending io' = (pending io)((fd, event) := e)"
  unfolding pending_ctx [OF assms(1,2,4,5)]
  using assms(2) by (auto simp: fun_eq_iff assms(3) pending_def)

lemma entry_dropped:
  assumes "ctx_ok c" "ready event"
  shows "entry event' (dropped event c) = (if event' = event then None else entry event' c)"
proof (cases "ready event'")
  case True
  show ?thesis
  proof (cases "event' = event")
    case same: True
    have "fd_events c = 0 \<or> fd_events c = READ \<or> fd_events c = WRITE \<or> fd_events c = READ OR WRITE" "event = READ \<or> event = WRITE"
      using assms by (auto simp: ctx_ok_def event_sets_def ready_def)
    then have "\<not> has event (dropped event c)" unfolding has_def dropped_ok(3) [OF assms] by (elim disjE) (simp_all add: event_words)
    then show ?thesis using same by (simp add: entry_def)
  next
    case False
    then have "slot event' (dropped event c) = slot event' c" using True assms(2)
      by (auto simp: slot_def dropped_def setContext_def ready_def event_words)
    then show ?thesis using False True dropped_ok(5) [OF assms True False] by (simp add: entry_def)
  qed
qed (simp add: entry_def)

text \<open>What a call of \<^verbatim>\<open>epoll_ctl\<close> that asks for the events \<open>e\<close> does.\<close>

lemma watch_cases:
  assumes "io_inv view tfd io" "epoll_registers ctl view" "context_at fd io = Inr a"
  obtains rt k where "ctl (if e = 0 then EPOLL_CTL_DEL else if fd_events (fd_heap io a) = 0 then EPOLL_CTL_ADD else EPOLL_CTL_MOD) fd (EPOLLET OR e) a (epoll io) = (rt, k)"
    "spec_watch ctl fd e (io_abs io) = (rt = 0, io_abs (io\<lparr>epoll := k\<rparr>))"
    "view k = (if rt \<noteq> 0 then view (epoll io) else (view (epoll io))(fd := if e = 0 then None else Some (EPOLLET OR e, a)))"
    "io_abs (io\<lparr>epoll := k\<rparr>) = (io_abs io)\<lparr>kernel := k\<rparr>"
proof -
  let ?op = "if e = 0 then EPOLL_CTL_DEL else if fd_events (fd_heap io a) = 0 then EPOLL_CTL_ADD else EPOLL_CTL_MOD"
  obtain rt k where k: "ctl ?op fd (EPOLLET OR e) a (epoll io) = (rt, k)" by fastforce
  have p: "pending (io\<lparr>epoll := k\<rparr>) = pending io" by (auto simp: fun_eq_iff pending_def context_at_def)
  have "spec_watch ctl fd e (io_abs io) = (rt = 0, io_abs (io\<lparr>epoll := k\<rparr>))"
    unfolding spec_watch_def Let_def io_abs_simps events_of_ctx(1) [OF assms(1,3)] io_invD(7) [OF assms(1,3), symmetric] k
    by (simp add: io_abs_def p)
  moreover have "view k = (if rt \<noteq> 0 then view (epoll io) else (view (epoll io))(fd := if e = 0 then None else Some (EPOLLET OR e, a)))"
    using assms(2) k unfolding epoll_registers_def by (cases "e = 0"; cases "fd_events (fd_heap io a) = 0") force+
  moreover have "io_abs (io\<lparr>epoll := k\<rparr>) = (io_abs io)\<lparr>kernel := k\<rparr>" by (simp add: io_abs_def p)
  ultimately show thesis using that k by blast
qed

section \<open>Waking\<close>

lemma trigger_one_ok:
  assumes "ctx_ok (fd_heap io a)" "ready event" "has event (fd_heap io a)"
  shows "trigger_one event a io = Inr (io\<lparr>fd_heap := (fd_heap io)(a := dropped event (fd_heap io a)), m_pendingEventCount := m_pendingEventCount io - 1,
       scheduled := scheduled io @ [the (entry event (fd_heap io a))]\<rparr>)"
proof -
  let ?c = "fd_heap io a"
  obtain s t where st: "ec_scheduler (slot event ?c) = Some s" "waiter (slot event ?c) = [t]"
    "((if ec_cb (slot event ?c) \<noteq> None then (slot event ?c)\<lparr>ec_cb := None\<rparr> else (slot event ?c)\<lparr>ec_fiber := None\<rparr>)\<lparr>ec_scheduler := None\<rparr>) = new_EventContext"
    by (rule slot_waiter [OF assms])
  have sl: "slot event (?c\<lparr>fd_events := e\<rparr>) = slot event ?c" for e by (simp add: slot_def)
  have "triggerEvent event a io = Inr ((put_ctx a (dropped event ?c) io)\<lparr>scheduled := scheduled io @ [(s, t)]\<rparr>)"
    using assms(3) unfolding triggerEvent_def Let_def getContext_slot [OF assms(2)] sl
    by (simp add: has_def st(1,2) st(3) [simplified] dropped_def)
  then show ?thesis using st assms(2,3) by (auto simp: trigger_one_def entry_def)
qed

definition drop_if :: "bool \<Rightarrow> u32 \<Rightarrow> 'c fd_context \<Rightarrow> 'c fd_context" where
  "drop_if b event c = (if b then dropped event c else c)"

definition woken_by :: "bool \<Rightarrow> u32 \<Rightarrow> 'c fd_context \<Rightarrow> (nat \<times> 'c task) list" where
  "woken_by b event c = (if b then [the (entry event c)] else [])"

lemma trigger_if_ok:
  assumes "ctx_ok (fd_heap io a)" "ready event" "b \<longrightarrow> has event (fd_heap io a)"
  shows "trigger_if b event a io = Inr (io\<lparr>fd_heap := (fd_heap io)(a := drop_if b event (fd_heap io a)),
      m_pendingEventCount := m_pendingEventCount io - of_bool b, scheduled := scheduled io @ woken_by b event (fd_heap io a)\<rparr>)"
  using trigger_one_ok [OF assms(1,2)] assms(3)
  by (cases b) (simp_all add: trigger_if_def drop_if_def woken_by_def fun_upd_idem)

lemma drop_if_ok:
  assumes "ctx_ok c" "ready event" "b \<longrightarrow> has event c"
  shows "ctx_ok (drop_if b event c)" "fd_num (drop_if b event c) = fd_num c"
    "fd_events (drop_if b event c) = fd_events c AND NOT (if b then event else 0)"
    "event_bits (drop_if b event c) = event_bits c - of_bool b"
    "ready other \<Longrightarrow> other \<noteq> event \<Longrightarrow> has other (drop_if b event c) = has other c"
    "entry event' (drop_if b event c) = (if b \<and> event' = event then None else entry event' c)"
  using dropped_ok [OF assms(1,2)] assms(1,3) entry_dropped [OF assms(1,2)] by (auto simp: drop_if_def)

lemma trigger_both:
  fixes io :: "('c, 'k) iomanager"
  assumes "ctx_ok (fd_heap io a)" "rb \<longrightarrow> has READ (fd_heap io a)" "wb \<longrightarrow> has WRITE (fd_heap io a)"
  defines "d \<equiv> drop_if wb WRITE (drop_if rb READ (fd_heap io a))"
  shows "(case trigger_if rb READ a io of Inl e \<Rightarrow> Inl e | Inr io \<Rightarrow> trigger_if wb WRITE a io) =
      Inr (io\<lparr>fd_heap := (fd_heap io)(a := d), m_pendingEventCount := m_pendingEventCount io - of_bool rb - of_bool wb,
        scheduled := scheduled io @ woken_by rb READ (fd_heap io a) @ woken_by wb WRITE (fd_heap io a)\<rparr>)"
    "ctx_ok d" "fd_num d = fd_num (fd_heap io a)" "event_bits d = event_bits (fd_heap io a) - of_bool rb - of_bool wb"
    "fd_events d = fd_events (fd_heap io a) AND NOT ((if rb then READ else 0) OR (if wb then WRITE else 0))"
    "entry event d = (if rb \<and> event = READ \<or> wb \<and> event = WRITE then None else entry event (fd_heap io a))"
proof -
  let ?c = "fd_heap io a"
  note d1 = drop_if_ok [OF assms(1) ready_events(1) assms(2)]
  have h: "wb \<longrightarrow> has WRITE (drop_if rb READ ?c)" using assms(3) d1(5) [of WRITE] by (simp add: event_words)
  note d2 = drop_if_ok [OF d1(1) ready_events(2) h, folded d_def]
  show "ctx_ok d" "fd_num d = fd_num ?c" "event_bits d = event_bits ?c - of_bool rb - of_bool wb" using d1(1,2,4) d2(1,2,4) by simp_all
  show "fd_events d = fd_events ?c AND NOT ((if rb then READ else 0) OR (if wb then WRITE else 0))" using d1(3) d2(3) by (simp add: ac_simps)
  show "entry event d = (if rb \<and> event = READ \<or> wb \<and> event = WRITE then None else entry event ?c)" using d1(6) [of event] d2(6) [of event] by auto
  have w: "woken_by wb WRITE (drop_if rb READ ?c) = woken_by wb WRITE ?c" using d1(6) [of WRITE] by (simp add: woken_by_def event_words)
  let ?io = "io\<lparr>fd_heap := (fd_heap io)(a := drop_if rb READ ?c), m_pendingEventCount := m_pendingEventCount io - of_bool rb,
    scheduled := scheduled io @ woken_by rb READ ?c\<rparr>"
  have "trigger_if rb READ a io = Inr ?io" by (rule trigger_if_ok [OF assms(1) ready_events(1) assms(2)])
  moreover have "ctx_ok (fd_heap ?io a)" "wb \<longrightarrow> has WRITE (fd_heap ?io a)" using d1(1) h by simp_all
  note trigger_if_ok [OF this(1) ready_events(2) this(2)]
  ultimately show "(case trigger_if rb READ a io of Inl e \<Rightarrow> Inl e | Inr io \<Rightarrow> trigger_if wb WRITE a io) =
      Inr (io\<lparr>fd_heap := (fd_heap io)(a := d), m_pendingEventCount := m_pendingEventCount io - of_bool rb - of_bool wb,
        scheduled := scheduled io @ woken_by rb READ ?c @ woken_by wb WRITE ?c\<rparr>)"
    by (simp add: d_def w)
qed

text \<open>The state after that, and what the specification makes of it.\<close>

definition drop_both :: "nat \<Rightarrow> bool \<Rightarrow> bool \<Rightarrow> 'k \<Rightarrow> ('c, 'k) iomanager \<Rightarrow> ('c, 'k) iomanager" where
  "drop_both a rb wb k io = io\<lparr>fd_heap := (fd_heap io)(a := drop_if wb WRITE (drop_if rb READ (fd_heap io a))),
     m_pendingEventCount := m_pendingEventCount io - of_bool rb - of_bool wb, epoll := k,
     scheduled := scheduled io @ woken_by rb READ (fd_heap io a) @ woken_by wb WRITE (fd_heap io a)\<rparr>"

lemma drop_both_simps:
  "m_fdContexts (drop_both a rb wb k io) = m_fdContexts io"
  "fd_heap (drop_both a rb wb k io) = (fd_heap io)(a := drop_if wb WRITE (drop_if rb READ (fd_heap io a)))"
  by (simp_all add: drop_both_def)

lemma drop_both_ok:
  assumes "io_inv view tfd io" "context_at fd io = Inr a" "fd_events (fd_heap io a) \<noteq> 0"
    "rb \<longrightarrow> has READ (fd_heap io a)" "wb \<longrightarrow> has WRITE (fd_heap io a)"
    "e = fd_events (fd_heap io a) AND NOT ((if rb then READ else 0) OR (if wb then WRITE else 0))"
    "view k = (view (epoll io))(fd := if e = 0 then None else Some (EPOLLET OR e, a))"
  shows "io_inv view tfd (drop_both a rb wb k io)"
    "io_abs (drop_both a rb wb k io) = spec_wake wb fd WRITE (spec_wake rb fd READ ((io_abs io)\<lparr>kernel := k\<rparr>))"
    "(case trigger_if rb READ a (io\<lparr>epoll := k\<rparr>) of Inl e \<Rightarrow> Inl e | Inr io \<Rightarrow> trigger_if wb WRITE a io) = Inr (drop_both a rb wb k io)"
proof -
  let ?c = "fd_heap io a" and ?io = "drop_both a rb wb k io"
  let ?d = "drop_if wb WRITE (drop_if rb READ ?c)"
  note D = io_invD [OF assms(1,2)]
  note T = trigger_both [OF D(1) assms(4,5)]
  show "io_inv view tfd ?io"
    by (rule io_update [OF assms(1,2) D(5) [OF assms(3)] T(2,3), of k ?io "scheduled ?io"])
      (use assms(6,7) T(4,5) in \<open>simp_all add: interest_def drop_both_def\<close>)
  have p: "pending ?io = (if wb then (\<lambda>P. P((fd, WRITE) := None)) else id) ((if rb then (\<lambda>P. P((fd, READ) := None)) else id) (pending io))"
    unfolding pending_ctx [OF assms(1,2), where io' = ?io and c = ?d, OF drop_both_simps] T(6)
    by (rule ext, cases rb; cases wb) (use assms(2) in \<open>simp_all add: pending_def prod_eq_iff\<close>)
  have w: "woken_by b event ?c = (if b then (case pending io (fd, event) of None \<Rightarrow> [] | Some w \<Rightarrow> [w]) else [])"
    if "ready event" "b \<longrightarrow> has event ?c" for b event
    using that assms(2) by (auto simp: woken_by_def pending_def entry_def)
  show "io_abs ?io = spec_wake wb fd WRITE (spec_wake rb fd READ ((io_abs io)\<lparr>kernel := k\<rparr>))"
    unfolding io_abs_def p using w [OF ready_events(1) assms(4)] w [OF ready_events(2) assms(5)]
    by (cases rb; cases wb) (simp_all add: spec_wake_def spec_forget_def drop_both_def event_words)
  show "(case trigger_if rb READ a (io\<lparr>epoll := k\<rparr>) of Inl e \<Rightarrow> Inl e | Inr io \<Rightarrow> trigger_if wb WRITE a io) = Inr ?io"
    using trigger_both(1) [of "io\<lparr>epoll := k\<rparr>" a rb wb] D(1) assms(4,5) by (simp add: drop_both_def)
qed

section \<open>The operations refine the specification\<close>

text \<open>Taking an event off: the kernel is asked what the specification asks, and its answer decides.\<close>

lemma unregister_cases:
  assumes "io_inv view tfd io" "epoll_registers ctl view" "ready event" "0 \<le> fd"
  obtains (none) "pending io (fd, event) = None" "unregister ctl fd event io = Inr (None, io)"
  | (some) a and rt :: int and k where "pending io (fd, event) \<noteq> None" "context_at fd io = Inr a" "has event (fd_heap io a)" "fd_events (fd_heap io a) \<noteq> 0"
      "spec_watch ctl fd (events_of (pending io) fd AND NOT event) (io_abs io) = (rt = 0, (io_abs io)\<lparr>kernel := k\<rparr>)"
      "unregister ctl fd event io = Inr (if rt = 0 then Some a else None, io\<lparr>epoll := k\<rparr>)"
      "rt \<noteq> 0 \<Longrightarrow> view k = view (epoll io)"
      "rt = 0 \<Longrightarrow> view k = (view (epoll io))(fd := let e = fd_events (fd_heap io a) AND NOT event in if e = 0 then None else Some (EPOLLET OR e, a))"
proof (cases "context_at fd io")
  case (Inl e)
  then have "int (length (m_fdContexts io)) \<le> fd" using assms(4) by (auto simp: context_at_def split: if_splits)
  then show thesis using none Inl by (simp add: unregister_def pending_def)
next
  case (Inr a)
  let ?c = "fd_heap io a"
  have lt: "\<not> int (length (m_fdContexts io)) \<le> fd" using Inr by (auto simp: context_at_def split: if_splits)
  note E = events_of_ctx [OF assms(1) Inr]
  show thesis
  proof (cases "has event ?c")
    case False
    then have "entry event ?c = None" by (simp add: entry_def)
    then show thesis using none False E(2) lt Inr by (simp add: unregister_def has_def)
  next
    case True
    note ne = has_empty [OF True]
    let ?e = "fd_events ?c AND NOT event"
    obtain rt k where k: "ctl (if ?e = 0 then EPOLL_CTL_DEL else if fd_events ?c = 0 then EPOLL_CTL_ADD else EPOLL_CTL_MOD) fd (EPOLLET OR ?e) a (epoll io) = (rt, k)"
      "spec_watch ctl fd ?e (io_abs io) = (rt = 0, io_abs (io\<lparr>epoll := k\<rparr>))"
      "view k = (if rt \<noteq> 0 then view (epoll io) else (view (epoll io))(fd := if ?e = 0 then None else Some (EPOLLET OR ?e, a)))"
      "io_abs (io\<lparr>epoll := k\<rparr>) = (io_abs io)\<lparr>kernel := k\<rparr>"
      by (rule watch_cases [OF assms(1,2) Inr])
    have op: "(if ?e = 0 then EPOLL_CTL_DEL else if fd_events ?c = 0 then EPOLL_CTL_ADD else EPOLL_CTL_MOD) = (if ?e \<noteq> 0 then EPOLL_CTL_MOD else EPOLL_CTL_DEL)"
      using ne by simp
    have "unregister ctl fd event io = Inr (if rt = 0 then Some a else None, io\<lparr>epoll := k\<rparr>)"
      using lt Inr True k(1) unfolding unregister_def Let_def op by (simp add: has_def)
    then show thesis using some [of a rt k] Inr True ne k(2-4) E entry_None [OF assms(3), of ?c] by (simp add: Let_def)
  qed
qed

lemma delEvent_ok:
  assumes "io_inv view tfd io" "epoll_registers ctl view" "ready event" "0 \<le> fd"
  shows "\<exists>io'. delEvent ctl fd event io = Inr (fst (spec_step ctl (Del fd event) (io_abs io)), io') \<and> io_inv view tfd io' \<and>
    io_abs io' = snd (spec_step ctl (Del fd event) (io_abs io))"
proof (cases rule: unregister_cases [OF assms, case_names none some])
  case none
  then show ?thesis using assms(1) by (simp add: delEvent_def)
next
  case (some a rt k)
  let ?c = "fd_heap io a"
  note D = io_invD [OF assms(1) some(2)]
  show ?thesis
  proof (cases "rt = 0")
    case True
    let ?io = "io\<lparr>fd_heap := (fd_heap io)(a := dropped event ?c), m_pendingEventCount := m_pendingEventCount io - 1, epoll := k, scheduled := scheduled io\<rparr>"
    have "delEvent ctl fd event io = Inr (True, ?io)"
      using some(6) True by (simp add: delEvent_def Let_def getContext_slot [OF assms(3)] resetContext_def dropped_def)
    moreover have "io_inv view tfd ?io"
      by (rule io_update [OF assms(1) some(2) D(5) [OF some(4)] dropped_ok(1,2) [OF D(1) assms(3)], of k ?io "scheduled io"])
        (use some(8) True dropped_ok(3,4) [OF D(1) assms(3)] some(3) in \<open>simp_all add: interest_def Let_def\<close>)
    moreover have "pending ?io = (pending io)((fd, event) := None)"
      by (rule pending_update [OF assms(1) some(2) entry_dropped [OF D(1) assms(3)]]) simp_all
    ultimately show ?thesis using some(1,5) True by (auto simp: spec_forget_def io_abs_def)
  next
    case False
    then show ?thesis using some(1,5,6) io_kernel_same [OF assms(1) some(7)] by (auto simp: delEvent_def io_abs_def pending_def context_at_def fun_eq_iff)
  qed
qed

lemma wake_one:
  assumes "ready event"
  shows "spec_wake True fd event s = spec_wake (event = WRITE) fd WRITE (spec_wake (event = READ) fd READ s)"
    "(if event = READ then READ else 0) OR (if event = WRITE then WRITE else 0) = event"
  using assms by (auto simp: ready_def spec_wake_def event_words)

lemma cancelEvent_ok:
  assumes "io_inv view tfd io" "epoll_registers ctl view" "ready event" "0 \<le> fd"
  shows "\<exists>io'. cancelEvent ctl fd event io = Inr (fst (spec_step ctl (Cancel fd event) (io_abs io)), io') \<and> io_inv view tfd io' \<and>
    io_abs io' = snd (spec_step ctl (Cancel fd event) (io_abs io))"
proof (cases rule: unregister_cases [OF assms, case_names none some])
  case none
  then show ?thesis using assms(1) by (simp add: cancelEvent_def)
next
  case (some a rt k)
  let ?c = "fd_heap io a" and ?rb = "event = READ" and ?wb = "event = WRITE"
  show ?thesis
  proof (cases "rt = 0")
    case True
    have h: "?rb \<longrightarrow> has READ ?c" "?wb \<longrightarrow> has WRITE ?c" using some(3) by auto
    have e: "fd_events ?c AND NOT event = fd_events ?c AND NOT ((if ?rb then READ else 0) OR (if ?wb then WRITE else 0))"
      using wake_one(2) [OF assms(3)] by simp
    note B = drop_both_ok [OF assms(1) some(2,4) h e some(8) [OF True, unfolded Let_def]]
    have i: "io_inv view tfd (drop_both a ?rb ?wb k io)"
      and abs: "io_abs (drop_both a ?rb ?wb k io) = spec_wake True fd event ((io_abs io)\<lparr>kernel := k\<rparr>)"
      and tr: "(case trigger_if ?rb READ a (io\<lparr>epoll := k\<rparr>) of Inl e \<Rightarrow> Inl e | Inr io \<Rightarrow> trigger_if ?wb WRITE a io) = Inr (drop_both a ?rb ?wb k io)"
      by (rule B(1), unfold wake_one(1) [OF assms(3)], rule B(2), rule B(3))
    have "trigger_one event a (io\<lparr>epoll := k\<rparr>) = Inr (drop_both a ?rb ?wb k io)"
      using tr assms(3) by (auto simp: trigger_if_def ready_def event_words split: sum.splits)
    then show ?thesis using some(1,5,6) True i abs by (auto simp: cancelEvent_def)
  next
    case False
    then show ?thesis using some(1,5,6) io_kernel_same [OF assms(1) some(7)] by (auto simp: cancelEvent_def io_abs_def pending_def context_at_def fun_eq_iff)
  qed
qed

lemma pending_kernel [simp]: "pending (io\<lparr>epoll := k\<rparr>) = pending io"
  by (auto simp: fun_eq_iff pending_def context_at_def)

lemma wake_none: "waiting s (fd, event) = None \<Longrightarrow> spec_wake True fd event s = s"
  by (simp add: spec_wake_def spec_forget_def fun_upd_idem)

lemma cancelAll_ok:
  assumes "io_inv view tfd io" "epoll_registers ctl view" "0 \<le> fd"
  shows "\<exists>io'. cancelAll ctl fd io = Inr (fst (spec_step ctl (CancelAll fd) (io_abs io)), io') \<and> io_inv view tfd io' \<and>
    io_abs io' = snd (spec_step ctl (CancelAll fd) (io_abs io))"
proof (cases "context_at fd io")
  case (Inl e)
  then have "int (length (m_fdContexts io)) \<le> fd" using assms(3) by (auto simp: context_at_def split: if_splits)
  then show ?thesis using assms(1) Inl by (simp add: cancelAll_def events_of_def pending_def)
next
  case (Inr a)
  let ?c = "fd_heap io a"
  have lt: "\<not> int (length (m_fdContexts io)) \<le> fd" using Inr by (auto simp: context_at_def split: if_splits)
  note E = events_of_ctx [OF assms(1) Inr] and D = io_invD [OF assms(1) Inr]
  show ?thesis
  proof (cases "fd_events ?c = 0")
    case True
    then show ?thesis using assms(1) lt Inr E(1) by (simp add: cancelAll_def)
  next
    case ne: False
    obtain rt k where k: "ctl EPOLL_CTL_DEL fd 0 a (epoll io) = (rt, k)" by fastforce
    then have v: "view k = (if rt \<noteq> 0 then view (epoll io) else (view (epoll io))(fd := None))"
      using assms(2) unfolding epoll_registers_def by force
    show ?thesis
    proof (cases "rt = 0")
      case ok: True
      let ?rb = "has READ ?c" and ?wb = "has WRITE ?c"
      have e: "fd_events ?c \<in> event_sets" using D(1) by (simp add: ctx_ok_def)
      then have z: "0 = fd_events ?c AND NOT ((if ?rb then READ else 0) OR (if ?wb then WRITE else 0))"
        by (auto simp: event_sets_def has_def event_words)
      note B = drop_both_ok [OF assms(1) Inr ne _ _ z, of k, simplified, OF v [simplified ok, simplified]]
      let ?io = "drop_both a ?rb ?wb k io"
      have sp: "spec_wake ?wb fd WRITE (spec_wake ?rb fd READ ((io_abs io)\<lparr>kernel := k\<rparr>)) =
          spec_wake True fd WRITE (spec_wake True fd READ ((io_abs io)\<lparr>kernel := k\<rparr>))"
      proof -
        have "\<not> ?rb \<Longrightarrow> pending io (fd, READ) = None" "\<not> ?wb \<Longrightarrow> pending io (fd, WRITE) = None" using E(2) by (simp_all add: entry_def)
        then show ?thesis by (cases ?rb; cases ?wb) (auto simp: spec_wake_def spec_forget_def fun_upd_idem event_words)
      qed
      have "fd_events (fd_heap ?io a) = 0"
        using drop_if_ok(3) [OF drop_if_ok(1) [OF D(1) ready_events(1), of ?rb] ready_events(2), of ?wb] drop_if_ok(3,5) [OF D(1) ready_events(1), of ?rb] z
        by (simp add: drop_both_simps event_words ac_simps)
      moreover obtain m where m: "trigger_if ?rb READ a (io\<lparr>epoll := k\<rparr>) = Inr m" "fd_heap m a = drop_if ?rb READ ?c"
        using trigger_if_ok [of "io\<lparr>epoll := k\<rparr>" a READ ?rb] D(1) by simp
      moreover have "fd_events (fd_heap m a) AND WRITE \<noteq> 0 \<longleftrightarrow> ?wb"
        using drop_if_ok(5) [OF D(1) ready_events(1), of ?rb WRITE] m(2) by (simp add: has_def event_words)
      moreover have "trigger_if ?wb WRITE a m = Inr ?io" using B(3) m(1) by simp
      ultimately have "cancelAll ctl fd io = Inr (True, ?io)"
        using lt Inr ne k ok by (simp add: cancelAll_def has_def)
      then show ?thesis using B(1,2) sp E(1) ne k ok D(7) by simp
    next
      case fail: False
      then show ?thesis using io_kernel_same [OF assms(1), of k] v lt Inr ne k E(1) D(7) by (simp add: cancelAll_def io_abs_def)
    qed
  qed
qed

text \<open>An event that \<^verbatim>\<open>epoll_wait\<close> reported is fresh if no part of it has been deregistered since.\<close>

definition fresh_report :: "u32 \<Rightarrow> u32 \<Rightarrow> bool" where
  "fresh_report evs registered \<longleftrightarrow> (let real = real_events evs registered in registered AND real = 0 \<or> registered AND real = real)"

lemma real_events_sets: "real_events evs e \<in> event_sets"
  by (auto simp: real_events_def event_sets_def Let_def)

lemma handle_event_ok:
  assumes "io_inv view tfd io" "epoll_registers ctl view" "a \<in> set (m_fdContexts io)" "fresh_report evs (fd_events (fd_heap io a))"
  shows "\<exists>io'. handle_event ctl evs a io = Inr io' \<and> io_inv view tfd io' \<and> io_abs io' = snd (spec_step ctl (Event evs a) (io_abs io))"
proof -
  let ?c = "fd_heap io a" and ?r = "real_events evs (fd_events (fd_heap io a))"
  have a: "context_at (int a) io = Inr a" using assms(1,3) by (simp add: io_context [OF assms(1)] io_inv_def table_wf_def)
  note D = io_invD [OF assms(1) a] and E = events_of_ctx [OF assms(1) a]
  have n: "fd_num ?c = a" using D(2) by simp
  have e: "fd_events ?c \<in> event_sets" using D(1) by (simp add: ctx_ok_def)
  show ?thesis
  proof (cases "fd_events ?c AND ?r = 0")
    case True
    then show ?thesis using assms(1) E(1) by (simp add: handle_event_def Let_def)
  next
    case False
    then have f: "fd_events ?c AND ?r = ?r" using assms(4) by (simp add: fresh_report_def Let_def)
    have ne: "fd_events ?c \<noteq> 0" using False by auto
    let ?l = "fd_events ?c AND NOT ?r"
    obtain rt k where k: "ctl (if ?l = 0 then EPOLL_CTL_DEL else if fd_events ?c = 0 then EPOLL_CTL_ADD else EPOLL_CTL_MOD) (int a) (EPOLLET OR ?l) a (epoll io) = (rt, k)"
      "spec_watch ctl (int a) ?l (io_abs io) = (rt = 0, io_abs (io\<lparr>epoll := k\<rparr>))"
      "view k = (if rt \<noteq> 0 then view (epoll io) else (view (epoll io))(int a := if ?l = 0 then None else Some (EPOLLET OR ?l, a)))"
      "io_abs (io\<lparr>epoll := k\<rparr>) = (io_abs io)\<lparr>kernel := k\<rparr>"
      by (rule watch_cases [OF assms(1,2) a])
    have op: "(if ?l = 0 then EPOLL_CTL_DEL else if fd_events ?c = 0 then EPOLL_CTL_ADD else EPOLL_CTL_MOD) = (if ?l \<noteq> 0 then EPOLL_CTL_MOD else EPOLL_CTL_DEL)"
      using ne by simp
    show ?thesis
    proof (cases "rt = 0")
      case ok: True
      let ?rb = "?r AND READ \<noteq> 0" and ?wb = "?r AND WRITE \<noteq> 0"
      have h: "?rb \<longrightarrow> has READ ?c" "?wb \<longrightarrow> has WRITE ?c" using e f real_events_sets [of evs "fd_events ?c"] unfolding has_def
        by (auto simp: event_sets_def event_words)
      have r: "?l = fd_events ?c AND NOT ((if ?rb then READ else 0) OR (if ?wb then WRITE else 0))"
        using real_events_sets [of evs "fd_events ?c"] by (auto simp: event_sets_def event_words)
      have v: "view k = (view (epoll io))(int a := if ?l = 0 then None else Some (EPOLLET OR ?l, a))" using k(3) ok by simp
      note B = drop_both_ok [OF assms(1) a ne h r v]
      have "handle_event ctl evs a io = Inr (drop_both a ?rb ?wb k io)"
        unfolding handle_event_def Let_def n using False k(1) ok B(3) unfolding op by simp
      moreover have "snd (spec_step ctl (Event evs a) (io_abs io)) = spec_wake ?wb (int a) WRITE (spec_wake ?rb (int a) READ ((io_abs io)\<lparr>kernel := k\<rparr>))"
        using False E(1) k(2,4) ok by (simp add: Let_def)
      ultimately show ?thesis using B(1,2) by simp
    next
      case fail: False
      have "handle_event ctl evs a io = Inr (io\<lparr>epoll := k\<rparr>)" unfolding handle_event_def Let_def n using False k(1) fail unfolding op by simp
      moreover have "snd (spec_step ctl (Event evs a) (io_abs io)) = io_abs (io\<lparr>epoll := k\<rparr>)" using False E(1) k(2) fail by (simp add: Let_def)
      ultimately show ?thesis using io_kernel_same [OF assms(1), of k] k(3) fail by simp
    qed
  qed
qed

end
