(* ===== verification/IOManager_Run.thy ===== *)
theory IOManager_Run
  imports IOManager
begin

text \<open>
  Growing the table and adding events; then sequences of operations on the \<^verbatim>\<open>IOManager\<close> and passes of its idle fiber, which do what the
  specification in \<^theory_text>\<open>IOManager\<close> says: the same tasks are woken in the same order, and the table agrees with the kernel. The time the
  idle fiber waits is bounded. Three ways in which the code goes wrong are shown on examples.
\<close>

lemma contextResize_ok:
  fixes io :: "('c, 'k) iomanager"
  assumes "io_inv view tfd io" "fd_next io \<le> n"
  shows "io_inv view tfd (contextResize n io)" "fd_next (contextResize n io) = n" "io_abs (contextResize n io) = io_abs io"
proof -
  let ?io = "contextResize n io" and ?k = "fd_next io"
  have l: "m_fdContexts io = [0 ..< ?k]" using assms(1) by (simp add: io_inv_def table_wf_def)
  have c: "m_fdContexts ?io = [0 ..< n]" using assms(2) upt_add_eq_append [of 0 ?k "n - ?k"] by (simp add: contextResize_def Let_def l)
  have h: "fd_heap ?io a = (if ?k \<le> a \<and> a < n then new_FdContext a else fd_heap io a)" for a
    using assms(2) by (auto simp: contextResize_def Let_def l)
  have rest: "epoll ?io = epoll io" "scheduled ?io = scheduled io" "m_pendingEventCount ?io = m_pendingEventCount io"
    by (simp_all add: contextResize_def Let_def)
  show n: "fd_next ?io = n" using assms(2) by (simp add: contextResize_def Let_def l)
  have at: "context_at fd ?io = (if 0 \<le> fd \<and> fd < int n then Inr (nat fd) else Inl BadIndex)" for fd by (auto simp: context_at_def c nat_less_iff)
  note at_old = io_context [OF assms(1)]
  have new: "\<not> has event (new_FdContext a :: 'c fd_context)" "interest (new_FdContext a :: 'c fd_context) b = None"
    "ctx_ok (new_FdContext a :: 'c fd_context)" "event_bits (new_FdContext a :: 'c fd_context) = 0" for event a b
    by (simp_all add: has_def new_FdContext_def interest_def ctx_ok_def event_sets_def slot_ok_def event_bits_def)
  have "table_wf ?io" using assms by (auto simp: table_wf_def io_inv_def c n h new_FdContext_def)
  moreover have "ctx_ok (fd_heap ?io a)" if "a \<in> set (m_fdContexts ?io)" for a
    using assms(1) that new(3) by (auto simp: h c io_inv_def l)
  moreover have "m_pendingEventCount ?io = (\<Sum>a\<leftarrow>m_fdContexts ?io. event_bits (fd_heap ?io a))"
  proof -
    have u: "[0 ..< n] = [0 ..< ?k] @ [?k ..< n]" using assms(2) upt_add_eq_append [of 0 ?k "n - ?k"] by simp
    have "map (\<lambda>a. event_bits (fd_heap ?io a)) [0 ..< ?k] = map (\<lambda>a. event_bits (fd_heap io a)) [0 ..< ?k]"
      "map (\<lambda>a. event_bits (fd_heap ?io a)) [?k ..< n] = map (\<lambda>_. 0) [?k ..< n]" using new(4) by (auto simp: h)
    note p = this
    show ?thesis using assms(1) unfolding c u by (simp only: map_append sum_list_append p rest io_inv_def l) simp
  qed
  moreover have "agrees view tfd ?io"
    unfolding agrees_def
  proof (intro allI impI)
    fix fd assume "fd \<noteq> tfd"
    then have "view (epoll io) fd = (case context_at fd io of Inl _ \<Rightarrow> None | Inr a \<Rightarrow> interest (fd_heap io a) a)"
      using assms(1) by (simp add: io_inv_def agrees_def)
    then show "view (epoll ?io) fd = (case context_at fd ?io of Inl _ \<Rightarrow> None | Inr a \<Rightarrow> interest (fd_heap ?io a) a)"
      using assms(2) new(2) unfolding at at_old rest(1) by (auto simp: h nat_less_iff)
  qed
  moreover have "fd_events (fd_heap ?io a) = 0" if "context_at tfd ?io = Inr a" for a
  proof (cases "a < ?k")
    case True
    then have "context_at tfd io = Inr a" using that unfolding at at_old by (auto split: if_splits)
    then show ?thesis using assms(1) True by (simp add: h io_inv_def)
  next
    case False
    then show ?thesis using that unfolding at by (auto simp: h new_FdContext_def split: if_splits)
  qed
  ultimately show "io_inv view tfd ?io" unfolding io_inv_def by blast
  have "pending ?io p = pending io p" for p
    using assms(2) new(1) unfolding pending_def at at_old by (auto simp: h nat_less_iff entry_def)
  then show "io_abs ?io = io_abs io" by (simp add: io_abs_def rest fun_eq_iff)
qed

text \<open>The context with an event and its waiter.\<close>

definition added :: "nat option \<Rightarrow> nat \<Rightarrow> u32 \<Rightarrow> 'c option \<Rightarrow> 'c fd_context \<Rightarrow> 'c fd_context" where
  "added sch f event cb c = setContext event \<lparr>ec_scheduler = sch, ec_fiber = (if cb = None then Some f else None), ec_cb = cb\<rparr>
     (c\<lparr>fd_events := fd_events c OR event\<rparr>)"

lemma added_ok:
  assumes "ctx_ok c" "ready event" "\<not> has event c" "sch \<noteq> None"
  shows "ctx_ok (added sch f event cb c)" "fd_num (added sch f event cb c) = fd_num c" "fd_events (added sch f event cb c) = fd_events c OR event"
    "event_bits (added sch f event cb c) = event_bits c + 1" "slot event c = new_EventContext"
    "entry event' (added sch f event cb c) =
      (if event' = event then Some (the sch, case cb of None \<Rightarrow> FiberTask f | Some x \<Rightarrow> CbTask x) else entry event' c)"
proof -
  have e: "fd_events c = 0 \<or> fd_events c = READ \<or> fd_events c = WRITE \<or> fd_events c = READ OR WRITE" using assms(1) by (auto simp: ctx_ok_def event_sets_def)
  have r: "event = READ \<or> event = WRITE" using assms(2) by (simp add: ready_def)
  note defs = ctx_ok_def added_def setContext_def event_sets_def has_def slot_ok_def event_bits_def event_words
  show "fd_num (added sch f event cb c) = fd_num c" "fd_events (added sch f event cb c) = fd_events c OR event" by (simp_all add: added_def setContext_def)
  show "ctx_ok (added sch f event cb c)" using assms(1,3,4) e r by (elim disjE) (simp_all add: defs)
  show "event_bits (added sch f event cb c) = event_bits c + 1" using assms(3) e r by (elim disjE) (simp_all add: defs)
  show "slot event c = new_EventContext" using assms(1,3) r by (elim disjE) (simp_all add: defs slot_def)
  have "has event' (added sch f event cb c) \<longleftrightarrow> event' = event \<or> has event' c" "slot event' (added sch f event cb c) =
      (if event' = event then \<lparr>ec_scheduler = sch, ec_fiber = (if cb = None then Some f else None), ec_cb = cb\<rparr> else slot event' c)" if "ready event'"
    using that assms(3) e r unfolding ready_def by (elim disjE; simp add: defs slot_def)+
  then show "entry event' (added sch f event cb c) =
      (if event' = event then Some (the sch, case cb of None \<Rightarrow> FiberTask f | Some x \<Rightarrow> CbTask x) else entry event' c)"
    using assms(2) by (auto simp: entry_def waiter_def split: option.split)
qed

lemma addEvent_ok:
  assumes "io_inv view tfd io" "epoll_registers ctl view" "ready event" "0 \<le> fd" "fd \<noteq> tfd" "sch \<noteq> None" "pending io (fd, event) = None"
  shows "\<exists>r io'. addEvent ctl sch f EXEC fd event cb io = Inr (r, io') \<and> (r = 0 \<or> r = - 1) \<and> io_inv view tfd io' \<and>
    spec_step ctl (Add sch f fd event cb) (io_abs io) = (r = 0, io_abs io')"
proof -
  define io1 where "io1 = (if add_must_grow fd io then add_grow fd io else io)"
  have l: "32 \<le> fd_next io" "length (m_fdContexts io) = fd_next io" using assms(1) by (simp_all add: io_inv_def table_wf_def)
  have g: "fd_next io \<le> nat (fd * 3 div 2)" "fd < int (nat (fd * 3 div 2))" if "add_must_grow fd io"
    using that l unfolding add_must_grow_def by linarith+
  have i: "io_inv view tfd io1" "io_abs io1 = io_abs io" "fd < int (fd_next io1)"
    using assms(1) contextResize_ok [OF assms(1) g(1)] g(2) l(2) by (auto simp: io1_def add_grow_def add_must_grow_def)
  obtain a where a: "context_at fd io1 = Inr a" using i(3) assms(4) by (auto simp: io_context [OF i(1)])
  let ?c = "fd_heap io1 a"
  have p: "pending io1 = pending io" using arg_cong [OF i(2), of waiting] by simp
  note E = events_of_ctx [OF i(1) a] and D = io_invD [OF i(1) a]
  have h: "\<not> has event ?c" using assms(3,7) E(2) [of event] p entry_None by metis
  note A = added_ok(1-4,6) [OF D(1) assms(3) h assms(6), where f = f and cb = cb] and B = added_ok(5) [OF D(1) assms(3) h assms(6)]
  have ne: "fd_events ?c OR event \<noteq> 0" using assms(3) by (auto simp: ready_def event_words or_eq_0_iff)
  obtain rt k where k: "ctl (if fd_events ?c OR event = 0 then EPOLL_CTL_DEL else if fd_events ?c = 0 then EPOLL_CTL_ADD else EPOLL_CTL_MOD) fd
        (EPOLLET OR fd_events ?c OR event) a (epoll io1) = (rt, k)"
      "spec_watch ctl fd (fd_events ?c OR event) (io_abs io1) = (rt = 0, io_abs (io1\<lparr>epoll := k\<rparr>))"
      "view k = (if rt \<noteq> 0 then view (epoll io1) else (view (epoll io1))(fd := if fd_events ?c OR event = 0 then None else Some (EPOLLET OR fd_events ?c OR event, a)))"
      "io_abs (io1\<lparr>epoll := k\<rparr>) = (io_abs io1)\<lparr>kernel := k\<rparr>"
    by (rule watch_cases [OF i(1) assms(2) a])
  have op: "(if fd_events ?c OR event = 0 then EPOLL_CTL_DEL else if fd_events ?c = 0 then EPOLL_CTL_ADD else EPOLL_CTL_MOD) =
      (if fd_events ?c \<noteq> 0 then EPOLL_CTL_MOD else EPOLL_CTL_ADD)" using ne by simp
  note k1 = k(1) [unfolded op]
  have add: "addEvent ctl sch f EXEC fd event cb io = add_register ctl sch f EXEC fd event cb a io1"
    using a by (simp add: addEvent_def io1_def)
  have sp: "spec_step ctl (Add sch f fd event cb) (io_abs io) = (rt = 0, if rt = 0
      then (io_abs io1)\<lparr>kernel := k, waiting := (pending io)((fd, event) \<mapsto> (the sch, case cb of None \<Rightarrow> FiberTask f | Some c \<Rightarrow> CbTask c))\<rparr>
      else io_abs (io1\<lparr>epoll := k\<rparr>))"
    using k(2) [unfolded i(2)] k(4) i(2) E(1) p by (simp add: Let_def)
  show ?thesis
  proof (cases "rt = 0")
    case True
    let ?io = "io1\<lparr>fd_heap := (fd_heap io1)(a := added sch f event cb ?c), m_pendingEventCount := m_pendingEventCount io1 + 1, epoll := k\<rparr>"
    have s: "slot event (?c\<lparr>fd_events := e\<rparr>) = new_EventContext" for e using B by (auto simp: slot_def split: if_splits)
    have "add_register ctl sch f EXEC fd event cb a io1 = Inr (0, ?io)"
      using h k1 True unfolding add_register_def Let_def getContext_slot [OF assms(3)] s
      by (cases cb) (simp_all add: has_def new_EventContext_def added_def)
    moreover have "io_inv view tfd ?io"
      by (rule io_update [OF i(1) a assms(5) A(1,2), of k ?io "scheduled io1"]) (use k(3) True ne A(3,4) in \<open>simp_all add: interest_def\<close>)
    moreover have "pending ?io = (pending io1)((fd, event) \<mapsto> (the sch, case cb of None \<Rightarrow> FiberTask f | Some c \<Rightarrow> CbTask c))"
      by (rule pending_update [OF i(1) a A(5)]) simp_all
    then have "io_abs ?io = (io_abs io1)\<lparr>kernel := k, waiting := (pending io)((fd, event) \<mapsto> (the sch, case cb of None \<Rightarrow> FiberTask f | Some c \<Rightarrow> CbTask c))\<rparr>"
      using p by (simp add: io_abs_def)
    ultimately show ?thesis using add sp True by simp
  next
    case False
    then have "add_register ctl sch f EXEC fd event cb a io1 = Inr (- 1, io1\<lparr>epoll := k\<rparr>)" using h k1 by (simp add: add_register_def has_def)
    then show ?thesis using add sp False io_kernel_same [OF i(1), of k] k(3) by simp
  qed
qed

section \<open>Runs\<close>

text \<open>What the callers must keep to: events are \<^verbatim>\<open>READ\<close> and \<^verbatim>\<open>WRITE\<close>, descriptors are not negative and not the pipe, an event is added from a thread
  with a scheduler and only while nobody waits for it, and the idle fiber handles only reports that are still current.\<close>

fun op_allowed :: "int \<Rightarrow> 'c io_op \<Rightarrow> ('c, 'k) iomanager \<Rightarrow> bool" where
  "op_allowed tfd (Add sch f fd event cb) io \<longleftrightarrow> sch \<noteq> None \<and> 0 \<le> fd \<and> fd \<noteq> tfd \<and> ready event \<and> pending io (fd, event) = None"
| "op_allowed tfd (Del fd event) io \<longleftrightarrow> 0 \<le> fd \<and> ready event"
| "op_allowed tfd (Cancel fd event) io \<longleftrightarrow> 0 \<le> fd \<and> ready event"
| "op_allowed tfd (CancelAll fd) io \<longleftrightarrow> 0 \<le> fd"
| "op_allowed tfd (Event evs a) io \<longleftrightarrow> a \<in> set (m_fdContexts io) \<and> fresh_report evs (fd_events (fd_heap io a))"

fun run_allowed :: "'k epoll_ctl \<Rightarrow> int \<Rightarrow> 'c io_op list \<Rightarrow> ('c, 'k) iomanager \<Rightarrow> bool" where
  "run_allowed ctl tfd [] io \<longleftrightarrow> True"
| "run_allowed ctl tfd (op # ops) io \<longleftrightarrow> op_allowed tfd op io \<and>
     (case io_step ctl op io of Inl e \<Rightarrow> True | Inr (r, io) \<Rightarrow> run_allowed ctl tfd ops io)"

lemma io_step_ok:
  assumes "io_inv view tfd io" "epoll_registers ctl view" "op_allowed tfd op io"
  shows "\<exists>r io'. io_step ctl op io = Inr (r, io') \<and> io_inv view tfd io' \<and> spec_step ctl op (io_abs io) = (r, io_abs io')"
proof (cases op)
  case (Add sch f fd event cb)
  then show ?thesis using addEvent_ok [OF assms(1,2), of event fd sch f cb] assms(3) by auto
next
  case (Del fd event)
  then show ?thesis using delEvent_ok [OF assms(1,2), of event fd] assms(3) by (auto simp: prod_eq_iff simp del: spec_step.simps)
next
  case (Cancel fd event)
  then show ?thesis using cancelEvent_ok [OF assms(1,2), of event fd] assms(3) by (auto simp: prod_eq_iff simp del: spec_step.simps)
next
  case (CancelAll fd)
  then show ?thesis using cancelAll_ok [OF assms(1,2), of fd] assms(3) by (auto simp: prod_eq_iff simp del: spec_step.simps)
next
  case (Event evs a)
  have "fst (spec_step ctl (Event evs a) (io_abs io))" by (simp add: Let_def)
  then show ?thesis using Event handle_event_ok [OF assms(1,2), of a evs] assms(3) by (auto simp: prod_eq_iff simp del: spec_step.simps)
qed

lemma io_run_ok:
  assumes "io_inv view tfd io" "epoll_registers ctl view" "run_allowed ctl tfd ops io"
  shows "\<exists>rs io'. io_run ctl ops io = Inr (rs, io') \<and> io_inv view tfd io' \<and> spec_run ctl ops (io_abs io) = (rs, io_abs io')"
  using assms(1,3)
proof (induction ops arbitrary: io)
  case (Cons op ops)
  obtain r io1 where s: "io_step ctl op io = Inr (r, io1)" "io_inv view tfd io1" "spec_step ctl op (io_abs io) = (r, io_abs io1)"
    using io_step_ok [OF Cons.prems(1) assms(2), of op] Cons.prems(2) by auto
  obtain rs io' where "io_run ctl ops io1 = Inr (rs, io')" "io_inv view tfd io'" "spec_run ctl ops (io_abs io1) = (rs, io_abs io')"
    using Cons.IH [OF s(2)] Cons.prems(2) s(1) by auto
  then show ?case using s(1,3) by simp
qed simp

lemma new_IOManager_inv:
  fixes k :: 'k
  assumes "\<And>fd. fd \<noteq> tfd \<Longrightarrow> view k fd = None"
  shows "io_inv view tfd (new_IOManager k :: ('c, 'k) iomanager)" "io_abs (new_IOManager k :: ('c, 'k) iomanager) = \<lparr>waiting = Map.empty, kernel = k, woken = []\<rparr>"
proof -
  let ?io = "new_IOManager k :: ('c, 'k) iomanager"
  have d: "m_fdContexts ?io = [0..<32]" "fd_heap ?io = (\<lambda>a. if a < 32 then new_FdContext a else new_FdContext 0)" "fd_next ?io = 32"
    "m_pendingEventCount ?io = 0" "epoll ?io = k" "scheduled ?io = []"
    by (auto simp: new_IOManager_def contextResize_def Let_def fun_eq_iff)
  have at: "context_at fd ?io = (if 0 \<le> fd \<and> fd < 32 then Inr (nat fd) else Inl BadIndex)" for fd by (simp add: context_at_def d nat_less_iff)
  have e: "fd_events (fd_heap ?io a) = 0" for a by (simp add: d new_FdContext_def)
  have "table_wf ?io" by (simp add: table_wf_def d new_FdContext_def)
  moreover have "ctx_ok (fd_heap ?io a)" for a by (simp add: d ctx_ok_def new_FdContext_def event_sets_def has_def slot_ok_def)
  moreover have "m_pendingEventCount ?io = (\<Sum>a\<leftarrow>m_fdContexts ?io. event_bits (fd_heap ?io a))" by (simp add: event_bits_def has_def e d(4))
  moreover have "agrees view tfd ?io" using assms by (simp add: agrees_def at interest_def e d(5))
  ultimately show "io_inv view tfd ?io" using e unfolding io_inv_def by blast
  have "pending ?io p = None" for p by (simp add: pending_def at entry_def has_def e)
  then show "io_abs ?io = \<lparr>waiting = Map.empty, kernel = k, woken = []\<rparr>" by (simp add: io_abs_def d fun_eq_iff)
qed

text \<open>The count is the number of events that are waited for.\<close>

lemma pending_count:
  assumes "io_inv view tfd io"
  shows "m_pendingEventCount io = of_nat (card (dom (pending io)))"
proof -
  let ?S = "\<lambda>a. {event. ready event \<and> has event (fd_heap io a)}"
  have fin: "finite (?S a)" and bits: "event_bits (fd_heap io a) = of_nat (card (?S a))" for a
  proof -
    have S: "?S a = (if has READ (fd_heap io a) then {READ} else {}) \<union> (if has WRITE (fd_heap io a) then {WRITE} else {})"
      by (auto simp: ready_def)
    show "finite (?S a)" "event_bits (fd_heap io a) = of_nat (card (?S a))" unfolding S by (simp_all add: event_bits_def event_words)
  qed
  have "dom (pending io) = (\<lambda>p. (int (fst p), snd p)) ` (SIGMA a:{0 ..< fd_next io}. ?S a)"
  proof (intro set_eqI iffI)
    fix p assume "p \<in> dom (pending io)"
    then show "p \<in> (\<lambda>p. (int (fst p), snd p)) ` (SIGMA a:{0 ..< fd_next io}. ?S a)"
      by (intro image_eqI [of _ _ "(nat (fst p), snd p)"]) (auto simp: pending_def io_context [OF assms] entry_def nat_less_iff split: if_splits)
  next
    fix p assume "p \<in> (\<lambda>p. (int (fst p), snd p)) ` (SIGMA a:{0 ..< fd_next io}. ?S a)"
    then show "p \<in> dom (pending io)" by (auto simp: pending_def io_context [OF assms] entry_def)
  qed
  then have "card (dom (pending io)) = card (SIGMA a:{0 ..< fd_next io}. ?S a)" by (simp add: card_image inj_on_def prod_eq_iff)
  also have "\<dots> = (\<Sum>a = 0 ..< fd_next io. card (?S a))" using fin by simp
  finally have c: "card (dom (pending io)) = (\<Sum>a = 0 ..< fd_next io. card (?S a))" .
  have "m_pendingEventCount io = (\<Sum>a\<leftarrow>[0 ..< fd_next io]. event_bits (fd_heap io a))" using assms by (simp add: io_inv_def table_wf_def)
  then show ?thesis by (simp add: c bits interv_sum_list_conv_sum_set_nat)
qed


text \<open>A kernel whose state is its interest list, and which refuses what the manual page says it refuses.\<close>

definition sample_ctl :: "(int \<Rightarrow> (u32 \<times> nat) option) epoll_ctl" where
  "sample_ctl op fd e a k =
     (if (op = EPOLL_CTL_ADD) = (k fd = None) then (0, k(fd := if op = EPOLL_CTL_DEL then None else Some (e, a))) else (- 1, k))"

lemma sample_ctl_registers: "epoll_registers sample_ctl id"
  by (auto simp: epoll_registers_def sample_ctl_def split: if_splits)

definition sample_ops :: "string io_op list" where
  "sample_ops = [Add (Some 0) 7 40 READ None, Add (Some 0) 8 40 WRITE None, Add (Some 0) 9 3 READ (Some ''f''), Del 40 READ, Event 24 3, Event 4 40]"

lemmas io_eval = sample_ops_def new_IOManager_def contextResize_def Let_def addEvent_def add_must_grow_def add_grow_def context_at_def
  add_register_def getContext_def setContext_def new_FdContext_def new_EventContext_def event_defs EPOLLET_def sample_ctl_def delEvent_def unregister_def
  resetContext_def cancelEvent_def cancelAll_def trigger_if_def trigger_one_def triggerEvent_def waiter_def handle_event_def real_events_def
  fresh_report_def has_def ready_def pending_def entry_def slot_def

lemmas spec_eval = Let_def spec_watch_def spec_forget_def spec_wake_def events_of_def sample_ctl_def event_defs EPOLLET_def real_events_def


section \<open>The time to wait\<close>

lemma sint_ucast_small:
  assumes "uint (x :: u64) < 2 ^ 31"
  shows "sint (ucast x :: 32 word) = uint x"
proof -
  have u: "uint (ucast x :: 32 word) = uint x" using assms by (simp add: unsigned_ucast_eq take_bit_int_eq_self_iff)
  have "- (2 ^ 31) \<le> uint x" by (rule order_trans [OF _ uint_ge_0]) simp
  then show ?thesis using assms unfolding sint_uint u by (simp add: signed_take_bit_int_eq_self_iff)
qed

text \<open>
  (C40) The idle fiber gives \<^verbatim>\<open>epoll_wait\<close> a time between 0 and 3000 milliseconds that does not pass the next timer, if there is no timer or the next
  one is due within \<open>2 ^ 31\<close> milliseconds, which is 24 days.
\<close>

theorem wait_timeout_bounds:
  assumes "next = NOT 0 \<or> unat next < 2 ^ 31"
  shows "0 \<le> wait_timeout next \<and> wait_timeout next \<le> MAX_TIMEOUT \<and> (next \<noteq> NOT 0 \<longrightarrow> wait_timeout next \<le> uint next)"
proof (cases "next = NOT 0")
  case True
  then show ?thesis by (simp add: wait_timeout_def MAX_TIMEOUT_def)
next
  case False
  then have "int (unat next) < int (2 ^ 31)" using assms by (subst of_nat_less_iff) blast
  then have "sint (ucast next :: 32 word) = uint next" using sint_ucast_small [of "next"] by simp
  then show ?thesis using False uint_ge_0 [of "next"] by (simp add: wait_timeout_def MAX_TIMEOUT_def Let_def)
qed

theorem wait_timeout_bounds_witness:
  "wait_timeout 1500 = 1500 \<and> wait_timeout 86400000 = 3000 \<and> wait_timeout (NOT 0) = 3000 \<and> wait_timeout 1500 \<le> MAX_TIMEOUT"
  using wait_timeout_bounds [of 1500] by (simp add: wait_timeout_def MAX_TIMEOUT_def)

text \<open>A timer further away than that makes the wait unlimited, or too short to be useful.\<close>

lemma wait_timeout_negative: "wait_timeout (2 ^ 31) = - (2 ^ 31)" "wait_timeout (2 ^ 32) = 0"
  by (simp_all add: wait_timeout_def MAX_TIMEOUT_def)

section \<open>What goes wrong\<close>

text \<open>
  A report that names an event deregistered after \<^verbatim>\<open>epoll_wait\<close> returned: the descriptor is ready for both, \<^verbatim>\<open>delEvent\<close> takes READ away before
  the idle fiber has the lock, and then \<^verbatim>\<open>triggerEvent(READ)\<close> fails its assertion.
\<close>

lemma stale_report_fails:
  "(case io_run sample_ctl [Add (Some 0) 7 3 READ None, Add (Some 0) 8 3 WRITE None, Del 3 READ] (new_IOManager (\<lambda>_. None) :: (string, _) iomanager) of
      Inl e \<Rightarrow> False | Inr (_, io) \<Rightarrow> handle_event sample_ctl 5 3 io = Inl AssertFail)"
  by (simp add: io_eval upt_conv_Cons)

text \<open>
  Two threads add descriptors 100 and 40 to a fresh table. Both find it too small; the first one makes it 150 long and registers its descriptor,
  the second one then makes it 60 long. The event of descriptor 100 is still with the kernel, but cannot be deleted any more.
\<close>

lemma stale_growth_shrinks:
  "let io0 = new_IOManager (\<lambda>_. None) :: (string, _) iomanager in add_must_grow 100 io0 \<and> add_must_grow 40 io0 \<and>
     (case addEvent sample_ctl (Some 0) 7 EXEC 100 READ None io0 of Inl e \<Rightarrow> False
      | Inr (r, io) \<Rightarrow> r = 0 \<and> delEvent sample_ctl 100 READ (add_grow 40 io) = Inr (False, add_grow 40 io) \<and>
          epoll (add_grow 40 io) 100 \<noteq> None)"
  by (simp add: io_eval upt_conv_Cons)

section \<open>A pass of the idle fiber\<close>

text \<open>
  What \<^verbatim>\<open>epoll_wait\<close> returns is a report on the pipe, or an event mask with the pointer that was registered. A pass schedules the callbacks of
  the expired timers (an empty one is not queued) on scheduler \<open>me\<close>, and then handles the reports in order.
\<close>

datatype report = Tickled | Report u32 nat

fun handle_reports :: "'k epoll_ctl \<Rightarrow> report list \<Rightarrow> ('c, 'k) iomanager \<Rightarrow> failure + ('c, 'k) iomanager" where
  "handle_reports ctl [] io = Inr io"
| "handle_reports ctl (Tickled # rs) io = handle_reports ctl rs io"
| "handle_reports ctl (Report evs a # rs) io = (case handle_event ctl evs a io of Inl e \<Rightarrow> Inl e | Inr io \<Rightarrow> handle_reports ctl rs io)"

definition queued :: "nat \<Rightarrow> 'c option list \<Rightarrow> (nat \<times> 'c task) list" where
  "queued me cbs = map (\<lambda>c. (me, CbTask c)) (List.map_filter id cbs)"

definition idle_pass :: "'k epoll_ctl \<Rightarrow> nat \<Rightarrow> u64 \<Rightarrow> nat \<Rightarrow> report list \<Rightarrow> (('w, 'f) callback, 'k) iomanager \<Rightarrow> ('w, 'f) timer_manager \<Rightarrow>
    failure + (('w, 'f) callback, 'k) iomanager \<times> ('w, 'f) timer_manager" where
  "idle_pass ctl me now na reports io tm =
     (let (cbs, tm) = TimerManager_listExpiredCb now na [] tm;
          io = io\<lparr>scheduled := scheduled io @ queued me cbs\<rparr> in
      map_sum id (\<lambda>io. (io, tm)) (handle_reports ctl reports io))"

text \<open>The reports of one call of \<^verbatim>\<open>epoll_wait\<close>, at most one for a descriptor, that are still current.\<close>

definition reported :: "report list \<Rightarrow> nat list" where
  "reported rs = List.map_filter (\<lambda>r. case r of Tickled \<Rightarrow> None | Report evs a \<Rightarrow> Some a) rs"

definition reports_fresh :: "report list \<Rightarrow> ('c, 'k) iomanager \<Rightarrow> bool" where
  "reports_fresh rs io \<longleftrightarrow> distinct (reported rs) \<and>
     (\<forall>r \<in> set rs. case r of Tickled \<Rightarrow> True | Report evs a \<Rightarrow> a \<in> set (m_fdContexts io) \<and> fresh_report evs (fd_events (fd_heap io a)))"

definition report_ops :: "report list \<Rightarrow> 'c io_op list" where
  "report_ops rs = List.map_filter (\<lambda>r. case r of Tickled \<Rightarrow> None | Report evs a \<Rightarrow> Some (Event evs a)) rs"

text \<open>
  Whom reports wake, from the waiting tasks alone: for a report on descriptor \<open>a\<close> first whoever waits to read and then whoever waits to write, if the
  report says so; an error or hang-up wakes both.
\<close>

definition hit :: "u32 \<Rightarrow> nat \<Rightarrow> u32 \<Rightarrow> (int \<times> u32 \<rightharpoonup> nat \<times> 'c task) \<Rightarrow> bool" where
  "hit evs a event W \<longleftrightarrow> real_events evs (events_of W (int a)) AND event \<noteq> 0"

fun reports_wake :: "report list \<Rightarrow> (int \<times> u32 \<rightharpoonup> nat \<times> 'c task) \<Rightarrow> (nat \<times> 'c task) list \<times> (int \<times> u32 \<rightharpoonup> nat \<times> 'c task)" where
  "reports_wake [] W = ([], W)"
| "reports_wake (Tickled # rs) W = reports_wake rs W"
| "reports_wake (Report evs a # rs) W =
     (let (ts, W') = reports_wake rs (\<lambda>(fd, event). if fd = int a \<and> hit evs a event W then None else W (fd, event))
      in (List.map_filter (\<lambda>event. if hit evs a event W then W (int a, event) else None) [READ, WRITE] @ ts, W'))"

text \<open>A kernel that takes every request that makes sense: to add a descriptor it does not watch, to change or delete one it does.\<close>

definition epoll_accepts :: "'k epoll_ctl \<Rightarrow> 'k epoll_view \<Rightarrow> bool" where
  "epoll_accepts ctl view \<longleftrightarrow> (\<forall>op fd e a k. (op = EPOLL_CTL_ADD) = (view k fd = None) \<longrightarrow> fst (ctl op fd e a k) = 0)"

lemma spec_event_accepted:
  fixes io :: "('c, 'k) iomanager" and evs
  assumes "io_inv view tfd io" "epoll_accepts ctl view" "a \<in> set (m_fdContexts io)" "epoll_registers ctl view"
  defines "s \<equiv> snd (spec_step ctl (Event evs a) (io_abs io))"
  shows "woken s = scheduled io @ List.map_filter (\<lambda>event. if hit evs a event (pending io) then pending io (int a, event) else None) [READ, WRITE]"
    "waiting s = (\<lambda>(fd, event). if fd = int a \<and> hit evs a event (pending io) then None else pending io (fd, event))"
proof -
  let ?c = "fd_heap io a" and ?W = "pending io"
  have a: "context_at (int a) io = Inr a" using assms(1,3) by (simp add: io_context [OF assms(1)] io_inv_def table_wf_def)
  note D = io_invD [OF assms(1) a] and E = events_of_ctx [OF assms(1) a]
  let ?r = "real_events evs (fd_events ?c)"
  have e: "fd_events ?c \<in> event_sets" using D(1) by (simp add: ctx_ok_def)
  have r: "?r \<in> event_sets" by (rule real_events_sets)
  have other: "?W (int a, event) = None" if "event \<noteq> READ" "event \<noteq> WRITE" for event using that E(2) by (simp add: entry_def ready_def)
  have hits: "hit evs a READ ?W \<longleftrightarrow> ?r AND READ \<noteq> 0" "hit evs a WRITE ?W \<longleftrightarrow> ?r AND WRITE \<noteq> 0" by (simp_all add: hit_def E(1))
  define none where "none \<longleftrightarrow> fd_events ?c AND ?r = 0"
  have "\<exists>k. s = (if none then io_abs io else spec_wake (?r AND WRITE \<noteq> 0) (int a) WRITE (spec_wake (?r AND READ \<noteq> 0) (int a) READ ((io_abs io)\<lparr>kernel := k\<rparr>)))"
  proof (cases none)
    case True
    then show ?thesis by (simp add: s_def none_def E(1) Let_def)
  next
    case False
    then have ne: "fd_events ?c \<noteq> 0" by (auto simp: none_def)
    then have v: "view (epoll io) (int a) \<noteq> None" using D(4) D(5) [OF ne] by (simp add: interest_def)
    let ?l = "fd_events ?c AND NOT ?r"
    obtain rt k where k: "ctl (if ?l = 0 then EPOLL_CTL_DEL else if fd_events ?c = 0 then EPOLL_CTL_ADD else EPOLL_CTL_MOD) (int a) (EPOLLET OR ?l) a (epoll io) = (rt, k)"
      "spec_watch ctl (int a) ?l (io_abs io) = (rt = 0, io_abs (io\<lparr>epoll := k\<rparr>))"
      "io_abs (io\<lparr>epoll := k\<rparr>) = (io_abs io)\<lparr>kernel := k\<rparr>"
      by (rule watch_cases [OF assms(1,4) a])
    have "rt = 0"
      using assms(2) [unfolded epoll_accepts_def, rule_format, of "if ?l = 0 then EPOLL_CTL_DEL else if fd_events ?c = 0 then EPOLL_CTL_ADD else EPOLL_CTL_MOD"
          "epoll io" "int a" "EPOLLET OR ?l" a] v ne unfolding k(1) by simp
    then show ?thesis using False k(2,3) by (intro exI [of _ k]) (simp add: s_def none_def E(1) Let_def)
  qed
  then obtain k where s: "s = (if none then io_abs io
      else spec_wake (?r AND WRITE \<noteq> 0) (int a) WRITE (spec_wake (?r AND READ \<noteq> 0) (int a) READ ((io_abs io)\<lparr>kernel := k\<rparr>)))" by blast
  have quiet: "?W (int a, event) = None" if none "hit evs a event ?W" for event
  proof -
    have "\<not> has event ?c" if "ready event" using e r \<open>none\<close> \<open>hit evs a event ?W\<close> that
      by (auto simp: none_def has_def hit_def E(1) event_sets_def ready_def event_words)
    then show ?thesis using E(2) by (auto simp: entry_def)
  qed
  have one: "List.map_filter (\<lambda>event. if hit evs a event ?W then ?W (int a, event) else None) [READ, WRITE] =
      (if hit evs a READ ?W then (case ?W (int a, READ) of None \<Rightarrow> [] | Some w \<Rightarrow> [w]) else []) @
      (if hit evs a WRITE ?W then (case ?W (int a, WRITE) of None \<Rightarrow> [] | Some w \<Rightarrow> [w]) else [])"
    by (simp add: map_filter_simps split: option.split)
  show "woken s = scheduled io @ List.map_filter (\<lambda>event. if hit evs a event ?W then ?W (int a, event) else None) [READ, WRITE]"
  proof (cases none)
    case True
    then show ?thesis using quiet unfolding one by (simp add: s)
  next
    case False
    then show ?thesis unfolding one s hits
      by (cases "?r AND READ = 0"; cases "?r AND WRITE = 0") (simp_all add: spec_wake_def spec_forget_def event_words)
  qed
  show "waiting s = (\<lambda>(fd, event). if fd = int a \<and> hit evs a event ?W then None else ?W (fd, event))"
  proof (rule ext, clarify)
    fix fd event
    show "waiting s (fd, event) = (if fd = int a \<and> hit evs a event ?W then None else ?W (fd, event))"
    proof (cases none)
      case True
      then show ?thesis using quiet by (simp add: s)
    next
      case False
      consider "event = READ" | "event = WRITE" | "event \<noteq> READ" "event \<noteq> WRITE" by blast
      then show ?thesis
        using False hits other [of event] unfolding s
        by cases (simp_all add: spec_wake_def spec_forget_def event_words)
    qed
  qed
qed

text \<open>What an operation on the context at \<open>a\<close> leaves alone.\<close>

definition only_at :: "nat \<Rightarrow> ('c, 'k) iomanager \<Rightarrow> ('c, 'k) iomanager \<Rightarrow> bool" where
  "only_at a io io' \<longleftrightarrow> m_fdContexts io' = m_fdContexts io \<and> (\<forall>b. b \<noteq> a \<longrightarrow> fd_heap io' b = fd_heap io b)"

lemma trigger_if_only: "trigger_if c event a io = Inr io' \<Longrightarrow> only_at a io io'"
  by (auto simp: only_at_def trigger_if_def trigger_one_def triggerEvent_def Let_def split: if_splits sum.splits option.splits)

lemma handle_event_only:
  assumes "handle_event ctl evs a io = Inr io'"
  shows "only_at a io io'"
proof -
  have k: "only_at a (io\<lparr>epoll := k\<rparr>) io1 \<longleftrightarrow> only_at a io io1" "only_at a io (io\<lparr>epoll := k\<rparr>)" "only_at a io1 io1" for k io1 by (simp_all add: only_at_def)
  have "only_at a io io1 \<Longrightarrow> only_at a io1 io2 \<Longrightarrow> only_at a io io2" for io1 io2 by (simp add: only_at_def)
  then show ?thesis using assms
    by (auto simp: handle_event_def Let_def k dest!: trigger_if_only split: if_splits sum.splits prod.splits)
qed

lemma handle_reports_ok:
  assumes "io_inv view tfd io" "epoll_registers ctl view" "reports_fresh rs io"
  shows "\<exists>io'. handle_reports ctl rs io = Inr io' \<and> io_inv view tfd io' \<and> io_abs io' = snd (spec_run ctl (report_ops rs) (io_abs io)) \<and>
    (epoll_accepts ctl view \<longrightarrow> scheduled io' = scheduled io @ fst (reports_wake rs (pending io)) \<and> pending io' = snd (reports_wake rs (pending io)))"
  using assms(1,3)
proof (induction rs arbitrary: io)
  case Nil
  then show ?case by (simp add: report_ops_def List.map_filter_def)
next
  case (Cons r rs)
  show ?case
  proof (cases r)
    case Tickled
    then show ?thesis using Cons.IH [OF Cons.prems(1)] Cons.prems(2) by (simp add: reports_fresh_def reported_def report_ops_def List.map_filter_def)
  next
    case (Report evs a)
    then have f: "a \<in> set (m_fdContexts io)" "fresh_report evs (fd_events (fd_heap io a))" "a \<notin> set (reported rs)" "reports_fresh rs io"
      using Cons.prems(2) by (auto simp: reports_fresh_def reported_def List.map_filter_def)
    obtain io1 where h: "handle_event ctl evs a io = Inr io1" "io_inv view tfd io1" "io_abs io1 = snd (spec_step ctl (Event evs a) (io_abs io))"
      using handle_event_ok [OF Cons.prems(1) assms(2) f(1,2)] by blast
    have "reports_fresh rs io1"
      using f(3,4) handle_event_only [OF h(1)] unfolding reports_fresh_def only_at_def
      by (auto simp: reported_def List.map_filter_def image_iff split: report.splits) (metis option.sel report.simps(6))+
    then obtain io' where i: "handle_reports ctl rs io1 = Inr io'" "io_inv view tfd io'" "io_abs io' = snd (spec_run ctl (report_ops rs) (io_abs io1))"
        "epoll_accepts ctl view \<longrightarrow> scheduled io' = scheduled io1 @ fst (reports_wake rs (pending io1)) \<and> pending io' = snd (reports_wake rs (pending io1))"
      using Cons.IH [OF h(2)] by blast
    have ops: "report_ops (r # rs) = Event evs a # report_ops rs" using Report by (simp add: report_ops_def List.map_filter_def)
    have "io_abs io' = snd (spec_run ctl (report_ops (r # rs)) (io_abs io))" unfolding ops i(3) h(3) by (simp add: case_prod_beta)
    moreover have "scheduled io' = scheduled io @ fst (reports_wake (r # rs) (pending io)) \<and> pending io' = snd (reports_wake (r # rs) (pending io))"
      if acc: "epoll_accepts ctl view"
    proof -
      note A = spec_event_accepted [OF Cons.prems(1) acc f(1) assms(2), of evs, folded h(3), simplified]
      show ?thesis using i(4) acc A by (simp add: Report case_prod_beta)
    qed
    ultimately show ?thesis using h(1) Report i(1,2) by (intro exI [of _ io']) simp
  qed
qed

lemma handle_reports_extends: "handle_reports ctl rs io = Inr io' \<Longrightarrow> \<exists>ts. scheduled io' = scheduled io @ ts"
proof (induction rs arbitrary: io)
  case (Cons r rs)
  have t: "trigger_if c event a io = Inr io' \<Longrightarrow> \<exists>ts. scheduled io' = scheduled io @ ts" for c event a and io io' :: "('a, 'b) iomanager"
    by (auto simp: trigger_if_def trigger_one_def triggerEvent_def Let_def split: if_splits sum.splits option.splits)
  have h: "\<exists>ts. scheduled io1 = scheduled io @ ts" if "handle_event ctl evs a io = Inr io1" for evs a io1
    using that by (auto simp: handle_event_def Let_def dest!: t split: if_splits sum.splits prod.splits)
  show ?case using Cons.prems by (cases r) (auto dest!: h Cons.IH split: sum.splits)
qed simp



end
