(* ===== verification/Spec2Isabelle.thy ===== *)
theory Spec2Isabelle
  imports ByteArray_Codec Dict DsArray PrimeGenerator HashText HashCache Timer Bitmap_Iterator WebSocket Rock Scheduler_Run IOManager_Run
begin

text \<open>
  A verification library for the C++ server framework under \<^verbatim>\<open>src/sylar\<close>.

  \<^bold>\<open>The program.\<close> sylar is a framework for network servers: fibers and a scheduler over epoll, timers, sockets and
  streams, HTTP, WebSocket and an RPC protocol, configuration and logging, clients for databases, and under them a
  layer of data structures and codecs: the byte array that all protocols serialise through, hash containers that
  can be saved to and loaded from streams, caches, bitmaps, and text and hash utilities. This library models that
  layer; the run time under the servers, which is the scheduler with its fibers and semaphores, the timer manager and the event loop; and
  on top of them the transfers of socket streams and the WebSocket and RPC messages that are
  sent through them: the parts whose logic is in the sources and not in a library they call.

  \<^bold>\<open>Conventions.\<close> \<^theory_text>\<open>Prelude\<close> has the vocabulary. An operation that changes an object is a function from the state
  to a result and a new state (\<^typ>\<open>('s, 'a) action\<close>); the result is \<^term>\<open>Inl\<close> of a failure or \<^term>\<open>Inr\<close> of a value.
  A failure is a C++ exception, a failed \<^verbatim>\<open>SYLAR_ASSERT\<close>, or a step that is undefined in C++ (a dead iterator followed,
  an index out of range, a null pointer, a missing return), so that a theorem that an operation gives \<^term>\<open>Inr\<close> excludes all
  of them. Unsigned integers whose overflow matters are words, or natural numbers with the modulus written out.
  Whatever the code takes from outside (the clock, the byte order of the host, hash functions, addresses from the
  allocator, the content of fresh memory, files and sockets) is an argument. In most theories locks are not modelled: each public
  operation holds the lock of its object, and a run is a sequence of whole operations. The scheduler is different: there a step is what a thread
  does between two points at which others can see it, a critical section or a call of \<^verbatim>\<open>swapIn\<close>, and a run is any interleaving of the
  steps of all threads. Where the code gives a lock up and takes another (\<^verbatim>\<open>addEvent\<close>), the parts are definitions of their own.

  \<^bold>\<open>Theories and sources.\<close>
  \<^item> \<^theory_text>\<open>Endian\<close>: \<^verbatim>\<open>endian.h\<close>, the byte swaps, and words as bytes in memory.
  \<^item> \<^theory_text>\<open>ByteStream\<close>, \<^theory_text>\<open>ByteArray\<close>, \<^theory_text>\<open>ByteArray_Codec\<close>: \<^verbatim>\<open>bytearray.h\<close> and \<^verbatim>\<open>bytearray.cc\<close>. \<^theory_text>\<open>ByteArray\<close> models the chain of
    blocks with its cursor, growth, \<^verbatim>\<open>setPosition\<close>, files and scatter buffers, and shows that it refines a flat
    string of bytes; \<^theory_text>\<open>ByteStream\<close> is the locale of that contract, inside which the codecs' round trips are proved;
    \<^theory_text>\<open>ByteArray_Codec\<close> has the fixed-width, variable-length and string formats.
  \<^item> \<^theory_text>\<open>DsUtil\<close>, \<^theory_text>\<open>PrimeGenerator\<close>, \<^theory_text>\<open>DsArray\<close>: \<^verbatim>\<open>ds/util.h\<close>, \<^verbatim>\<open>ds/util.cc\<close>, \<^verbatim>\<open>ds/array.h\<close>: binary search, the prime table,
    the sorted array.
  \<^item> \<^theory_text>\<open>StreamIO\<close>: \<^verbatim>\<open>ReadFixFromStream\<close>, \<^verbatim>\<open>WriteFixToStream\<close> and the throttled variants of \<^verbatim>\<open>util.h\<close>.
  \<^item> \<^theory_text>\<open>MapSpec\<close>, \<^theory_text>\<open>Buckets\<close>, \<^theory_text>\<open>HashMap\<close>, \<^theory_text>\<open>HashMultimap\<close>, \<^theory_text>\<open>Dict\<close>: \<^verbatim>\<open>ds/hash_map.h\<close>, \<^verbatim>\<open>ds/hash_multimap.h\<close>, \<^verbatim>\<open>ds/dict.h\<close>. \<^theory_text>\<open>MapSpec\<close>
    states the finite map these containers promise as a locale, interpreted on each of them; \<^theory_text>\<open>Buckets\<close> has what the
    three share (sorted buckets, the table, rehashing).
  \<^item> \<^theory_text>\<open>HashUtil\<close>, \<^theory_text>\<open>HashText\<close>: \<^verbatim>\<open>util/hash_util.cc\<close>: Murmur3, base64, hexadecimal, HMAC over an arbitrary digest, and the
    replace and split functions.
  \<^item> \<^theory_text>\<open>CacheBase\<close>, \<^theory_text>\<open>LruCache\<close>, \<^theory_text>\<open>OrderedSet\<close>, \<^theory_text>\<open>TimedCache\<close>, \<^theory_text>\<open>TimedLruCache\<close>, \<^theory_text>\<open>HashCache\<close>: \<^verbatim>\<open>ds/cache_status.h\<close>, \<^verbatim>\<open>ds/lru_cache.h\<close>,
    \<^verbatim>\<open>ds/timed_cache.h\<close>, \<^verbatim>\<open>ds/timed_lru_cache.h\<close>. Iterators into \<^verbatim>\<open>std::list\<close> and \<^verbatim>\<open>std::set\<close> are node numbers. The
    specification is a list ordered by last use, with deadlines for the timed cache. \<^theory_text>\<open>HashCache\<close> has the hashed
    variants and the locales of what a client of a cache may rely on, interpreted on them.
  \<^item> \<^theory_text>\<open>Timer\<close>: \<^verbatim>\<open>timer.h\<close>, \<^verbatim>\<open>timer.cc\<close>: the set of timers ordered through the shared timer objects, with runs of calls as an
    inductive relation.
  \<^item> \<^theory_text>\<open>Scheduler\<close>, \<^theory_text>\<open>Scheduler_Inv\<close>, \<^theory_text>\<open>Scheduler_Safe\<close>, \<^theory_text>\<open>Scheduler_Run\<close>: \<^verbatim>\<open>fiber.h\<close>, \<^verbatim>\<open>fiber.cc\<close>, \<^verbatim>\<open>scheduler.h\<close>, \<^verbatim>\<open>scheduler.cc\<close> and
    \<^verbatim>\<open>FiberSemaphore\<close> of \<^verbatim>\<open>mutex.cc\<close>. The state has the queue, the fibers, the semaphores, and for each thread where it is in
    \<^verbatim>\<open>Scheduler::run\<close>. The code that runs in a fiber is a parameter: at each point it asks for something (to yield, to schedule a
    callback, to wait at a semaphore, to end). \<^theory_text>\<open>Scheduler_Inv\<close> has the invariant of all interleavings, \<^theory_text>\<open>Scheduler_Safe\<close> its
    consequences for assertions and semaphores, \<^theory_text>\<open>Scheduler_Run\<close> the account of callbacks and what \<^verbatim>\<open>stop\<close> guarantees.
  \<^item> \<^theory_text>\<open>IOManager\<close>, \<^theory_text>\<open>IOManager_Run\<close>: \<^verbatim>\<open>iomanager.h\<close>, \<^verbatim>\<open>iomanager.cc\<close>: the table of descriptors and the waiters of their events, what the idle
    fiber does with the reports of \<^verbatim>\<open>epoll_wait\<close> and with expired timers, and how long it waits. \<^verbatim>\<open>epoll_ctl\<close> is a parameter.
  \<^item> \<^theory_text>\<open>Bitmap\<close>, \<^theory_text>\<open>Bitmap_Compress\<close>, \<^theory_text>\<open>Bitmap_Iterator\<close>: \<^verbatim>\<open>ds/bitmap.h\<close>, \<^verbatim>\<open>ds/bitmap.cc\<close>: the bitmap with 14 bits to a word, its
    run-length compression with the operations on compressed bitmaps, and its iterators and serialised form.
  \<^item> \<^theory_text>\<open>NetStream\<close>: the transfers of \<^verbatim>\<open>socket.cc\<close>, \<^verbatim>\<open>streams/socket_stream.cc\<close> and the loops of \<^verbatim>\<open>stream.cc\<close>, over a record of
    system calls that is a parameter.
  \<^item> \<^theory_text>\<open>WebSocket\<close>: \<^verbatim>\<open>http/ws_session.cc\<close>: frame headers, sending a message, the loop that receives one.
  \<^item> \<^theory_text>\<open>ZlibStream\<close>: \<^verbatim>\<open>streams/zlib_stream.cc\<close>: the loops around \<^verbatim>\<open>deflate\<close> and \<^verbatim>\<open>inflate\<close>, which are a parameter.
  \<^item> \<^theory_text>\<open>Rock\<close>: \<^verbatim>\<open>protocol.cc\<close>, \<^verbatim>\<open>rock/rock_protocol.cc\<close>: requests, responses and notifications, and the decoder that frames,
    compresses and transfers them.

  \<^bold>\<open>What is shown.\<close> Refinement: the byte array against a flat string, the hash containers against finite maps, the LRU
  caches against recency lists, bitmaps against sets of positions. Round trips: every format of the byte array, the
  containers' save and load, bitmap compression and serialisation, base64, hexadecimal. Composition: a rock message that one
  end sends over a socket is the message that the other end parses, and a WebSocket message that arrives in fragments
  mixed with pings is put together, however the kernel cuts the transfers into pieces. Safety: no operation of a reachable timer manager or cache
  follows a dead iterator; a cancelled timer is never run; in no interleaving of its threads does the scheduler fail an assertion,
  run a fiber twice at once, or leave a fiber waiting at a semaphore that is free; the event table and the interest list of the kernel agree. Accounting: every
  submitted callback is queued, taken or started once; every event is deleted, pending, or has woken its waiter once. Liveness: a wake-up of
  the timer thread is not lost, a recently used key is still cached, and when \<^verbatim>\<open>stop\<close> returns every submitted callback has been started. Where the code does something else than it means to, the theorem states what it
  does (for instance that a \<^verbatim>\<open>TimedCache\<close> entry that is set again still expires at its old deadline).

  \<^bold>\<open>Hypotheses on code outside the sources.\<close> \<open>reliable\<close> (theory \<^theory_text>\<open>NetStream\<close>) says of the system calls that a connected peer
  transfers at least one byte and at most what was asked for, in order; \<open>codes\<close> (theory \<^theory_text>\<open>ZlibStream\<close>) says that repeated
  calls of the library consume the input and produce some coding of it; \<open>epoll_registers\<close> (theory \<^theory_text>\<open>IOManager\<close>) says that \<^verbatim>\<open>epoll_ctl\<close>
  changes the interest in one descriptor if it returns 0 and nothing otherwise. The witnesses instantiate them with a
  concrete pipe, zlib's stored format and an interest list. Of the users of the scheduler, \<open>tame\<close> (theory \<^theory_text>\<open>Scheduler_Inv\<close>)
  says that the code in fibers does not schedule fibers itself (it yields, switches threads and uses semaphores), \<open>well_used\<close> (theory \<^theory_text>\<open>Scheduler_Safe\<close>) that \<^verbatim>\<open>start\<close> is not
  called after \<^verbatim>\<open>stop\<close>, and \<open>unpinned\<close> (theory \<^theory_text>\<open>Scheduler_Run\<close>) that callbacks are not meant for particular threads; \<open>reports_fresh\<close> and \<open>run_allowed\<close> (theory \<^theory_text>\<open>IOManager_Run\<close>) that an event is not added twice and that no event has been deregistered
  between its report and its handling. Examples show what happens without them.

  \<^bold>\<open>Loops and bounds.\<close> Loops are recursive functions with termination proofs. Two may run forever, the search of
  \<^verbatim>\<open>Array::exists\<close> with a comparison function and \<^verbatim>\<open>replace\<close> of the empty text; they are \<^theory_text>\<open>partial_function\<close>s, and it is proved
  that they do not return. The local arrays of the variable-length encoders are the bound of their loops, and it is
  proved that they suffice. Sizes are restricted where the code computes with \<^verbatim>\<open>double\<close> (below \<open>2 ^ 53\<close>) or would wrap
  around (bitmaps of at most \<open>2 ^ 32 - 14\<close> bits), as hypotheses of the theorems.

  \<^bold>\<open>Not modelled.\<close> Vendored CRoaring and its wrapper, and the Ragel-generated parsers. Code that forwards to a library or the
  kernel and has no logic of its own to state: OpenSSL, jsoncpp, yaml-cpp, protobuf, ZooKeeper, the database
  clients, system-call hooks. Of fibers the machine context and the stack, of threads their creation; several schedulers at once;
  the pipe that wakes the event loop. Logging, formatting to streams, and floating-point statistics.
\<close>

end
